(* ===== verification/Prelude.thy ===== *)
theory Prelude
  imports Main "HOL-Library.Word" "HOL-Library.Monad_Syntax" "HOL-Library.Sublist"
begin

section \<open>Shared types, byte encodings and generic lemmas\<close>

text \<open>
  The types and the generic facts that every component of the development uses: machine
  integers, the little-endian byte encoding of machine integers (the layout the packed C structs
  have on the machines the program runs on), the fixed-width codec interface that every struct of
  the wire protocol implements, and lemmas on lists and on the option monad in which the
  effectful functions are written (\<open>None\<close>: the call never returns).
\<close>

unbundle bit_operations_syntax

type_synonym byte = "8 word"
type_synonym u32 = "32 word"
type_synonym i32 = "32 word"  \<comment> \<open>read with \<open>sint\<close> where the code reads it as signed\<close>
type_synonym u64 = "64 word"
type_synonym fd = int

named_theorems codec_simps \<open>lengths and round trips of the wire encodings\<close>
named_theorems os_simps \<open>rewrite rules of the kernel model\<close>
named_theorems ctx_simps \<open>rewrite rules of the client contexts\<close>

subsection \<open>Option monad\<close>

lemma bind_Some_iff: "Option.bind m f = Some y \<longleftrightarrow> (\<exists>x. m = Some x \<and> f x = Some y)"
  by (cases m) auto

lemma bind_SomeE:
  assumes "Option.bind m f = Some y"
  obtains x where "m = Some x" "f x = Some y"
  using assms by (cases m) auto

lemma bind_if_distrib: "Option.bind (if b then m else n) f = (if b then Option.bind m f else Option.bind n f)"
  by simp

subsection \<open>Little-endian integers\<close>

fun nat_le :: "nat \<Rightarrow> nat \<Rightarrow> byte list" where
  "nat_le 0 x = []"
| "nat_le (Suc n) x = of_nat (x mod 256) # nat_le n (x div 256)"

fun le_nat :: "byte list \<Rightarrow> nat" where
  "le_nat [] = 0"
| "le_nat (b # bs) = unat b + 256 * le_nat bs"

lemma length_nat_le [simp, codec_simps]: "length (nat_le n x) = n"
  by (induction n arbitrary: x) auto

lemma unat_of_nat_byte: "unat (of_nat (x mod 256) :: byte) = x mod 256"
  by (simp add: unat_of_nat)

lemma unat_word_less: "unat (w :: 'a::len word) < 2 ^ LENGTH('a)"
  by (rule unsigned_less)

lemma unat_byte_less: "unat (b :: byte) < 256"
  using unat_word_less [of b] by simp

lemma le_nat_nat_le: "le_nat (nat_le n x) = x mod 256 ^ n"
proof (induction n arbitrary: x)
  case 0
  then show ?case by simp
next
  case (Suc n)
  have "le_nat (nat_le (Suc n) x) = x mod 256 + 256 * (x div 256 mod 256 ^ n)"
    by (simp add: Suc.IH unat_of_nat_byte)
  also have "\<dots> = x mod (256 * 256 ^ n)"
    by (simp add: mod_mult2_eq)
  finally show ?case by simp
qed

lemma le_nat_less: "le_nat bs < 256 ^ length bs"
proof (induction bs)
  case Nil
  then show ?case by simp
next
  case (Cons b bs)
  have "unat b < 256" by (rule unat_byte_less)
  with Cons.IH show ?case by simp
qed

lemma nat_le_le_nat: "nat_le (length bs) (le_nat bs) = bs"
proof (induction bs)
  case Nil
  then show ?case by simp
next
  case (Cons b bs)
  have lt: "unat b < 256" by (rule unat_byte_less)
  then have "(unat b + 256 * le_nat bs) div 256 = le_nat bs" by simp
  moreover from lt have "(unat b + 256 * le_nat bs) mod 256 = unat b" by simp
  ultimately show ?case using Cons.IH by (simp del: of_nat_add of_nat_mult)
qed

definition le32 :: "u32 \<Rightarrow> byte list" where
  "le32 w = nat_le 4 (unat w)"

definition unle32 :: "byte list \<Rightarrow> u32" where
  "unle32 bs = of_nat (le_nat (take 4 bs))"

definition le64 :: "u64 \<Rightarrow> byte list" where
  "le64 w = nat_le 8 (unat w)"

definition unle64 :: "byte list \<Rightarrow> u64" where
  "unle64 bs = of_nat (le_nat (take 8 bs))"

lemma length_le32 [simp, codec_simps]: "length (le32 w) = 4"
  by (simp add: le32_def)

lemma length_le64 [simp, codec_simps]: "length (le64 w) = 8"
  by (simp add: le64_def)

lemma unle32_le32 [simp, codec_simps]: "unle32 (le32 w @ r) = w"
proof -
  have "unat w mod 256 ^ 4 = unat w"
    using unat_word_less [of w] by simp
  then show ?thesis
    by (simp add: unle32_def le32_def le_nat_nat_le)
qed

lemma unle32_le32_nil [simp, codec_simps]: "unle32 (le32 w) = w"
  using unle32_le32 [of w "[]"] by simp

lemma unle64_le64 [simp, codec_simps]: "unle64 (le64 w @ r) = w"
proof -
  have "unat w mod 256 ^ 8 = unat w"
    using unat_word_less [of w] by simp
  then show ?thesis
    by (simp add: unle64_def le64_def le_nat_nat_le)
qed

lemma drop_le32 [simp, codec_simps]: "drop 4 (le32 w @ r) = r"
  by simp

lemma drop_le64 [simp, codec_simps]: "drop 8 (le64 w @ r) = r"
  by simp

lemma le32_inject [simp]: "le32 v = le32 w \<longleftrightarrow> v = w"
  by (metis unle32_le32_nil)

lemma le32_unle32: "length bs = 4 \<Longrightarrow> le32 (unle32 bs) = bs"
proof -
  assume len: "length bs = 4"
  have "le_nat bs < 256 ^ 4" using le_nat_less [of bs] len by simp
  then have "unat (unle32 bs) = le_nat bs"
    using len by (simp add: unle32_def unat_of_nat)
  then show ?thesis using nat_le_le_nat [of bs] len by (simp add: le32_def)
qed

subsection \<open>Fixed-width codecs\<close>

text \<open>
  The contract of a packed struct: values that satisfy \<open>wf\<close> have an image of exactly \<open>width\<close>
  bytes, and reading the image back (the code's \<open>memcpy\<close> into the struct) gives the value,
  whatever follows it in the stream.  Arrays of such structs are laid out contiguously.
\<close>

locale fixed_codec =
  fixes enc :: "'a \<Rightarrow> byte list"
    and dec :: "byte list \<Rightarrow> 'a"
    and width :: nat
    and wf :: "'a \<Rightarrow> bool"
  assumes enc_length: "wf x \<Longrightarrow> length (enc x) = width"
    and dec_enc: "wf x \<Longrightarrow> dec (enc x @ rest) = x"
    and width_pos: "0 < width"
begin

fun dec_array :: "nat \<Rightarrow> byte list \<Rightarrow> 'a list" where
  "dec_array 0 bs = []"
| "dec_array (Suc n) bs = dec bs # dec_array n (drop width bs)"

lemma dec_enc_nil: "wf x \<Longrightarrow> dec (enc x) = x"
  using dec_enc [of x "[]"] by simp

lemma enc_inj: "wf x \<Longrightarrow> wf y \<Longrightarrow> enc x = enc y \<Longrightarrow> x = y"
  by (metis dec_enc_nil)

lemma enc_ne_Nil: "wf x \<Longrightarrow> enc x \<noteq> []"
  using enc_length [of x] width_pos by auto

lemma enc_array_length: "list_all wf xs \<Longrightarrow> length (concat (map enc xs)) = width * length xs"
  by (induction xs) (auto simp: enc_length)

lemma dec_array_enc: "list_all wf xs \<Longrightarrow> dec_array (length xs) (concat (map enc xs) @ rest) = xs"
  by (induction xs) (auto simp: enc_length dec_enc)

lemma enc_prefix_unique:
  "wf x \<Longrightarrow> wf y \<Longrightarrow> enc x @ r = enc y @ s \<Longrightarrow> x = y \<and> r = s"
  by (metis append_eq_append_conv dec_enc enc_length)

end

subsection \<open>Lists\<close>

lemma strict_prefix_Nil_iff [simp]: "strict_prefix [] xs \<longleftrightarrow> xs \<noteq> []"
  by (cases xs) auto

lemma list_update_None_nth:
  "i < length xs \<Longrightarrow> (xs[j := None]) ! i = (if i = j then None else xs ! i)"
  by simp

end
