(* ===== verification/Kernel.thy ===== *)
theory Kernel
  imports Prelude
begin

section \<open>The kernel as one process sees it\<close>

text \<open>
  The C code is a client of POSIX: descriptors, stream sockets that carry descriptors
  (\<open>SCM_RIGHTS\<close>), event descriptors, shared memory, \<open>poll\<close>.  This theory models what the code
  uses of them, for one process:
  \<^item> \<open>fdtab\<close> is the descriptor table, an array of slots; a new descriptor takes the lowest free
    slot, as POSIX requires.  A slot holds the open file description (an object, named by a
    number) the descriptor refers to; a descriptor passed to another process is a new slot there
    for the same object.
  \<^item> \<open>rxq\<close> is, per socket object, what the peer will deliver, in order, cut into the chunks in
    which the calls see it: \<open>Chunk bs obs\<close> is data with the descriptors riding on it,
    \<open>Rx_intr\<close> an interrupted call (\<open>EINTR\<close>), \<open>Rx_hup\<close> end of file, \<open>Rx_err\<close> any other error.
    A call on an empty queue never returns.
  \<^item> \<open>txq\<close> is, per socket object, what this process has sent; \<open>txplan\<close> is how the kernel answers
    the next sends (a partial count, \<open>EINTR\<close>, an error, or never); once it is used up, sends are
    accepted whole.
  \<^item> \<open>polls\<close> are the answers of the next \<open>poll\<close> calls; a \<open>poll\<close> with none left never returns.
  \<^item> \<open>faults\<close> says which of the next calls that can fail do (\<open>False\<close>: it fails); once it is used
    up they succeed.
  \<^item> \<open>mem\<close> is the 32-bit word of each shared-memory object, \<open>maps\<close> the live mappings, \<open>evlog\<close>
    the event descriptors written so far, \<open>conns\<close> the connections waiting to be accepted,
    \<open>dialed\<close> the paths this process has connected to and \<open>pairs\<close> the socket pairs created.
  \<^item> \<open>reports\<close> is what a sanitizer would report: an operation with undefined or unintended
    effect (closing a descriptor that is not open, writing past a buffer, reading memory that was
    never written or was freed).  The model goes on after a report; that a component is safe is
    the theorem that no report is added.
  Effects that may wait for the peer are functions into \<open>option\<close>: \<open>None\<close> is a call that never
  returns.
\<close>

type_synonym obj = nat

datatype rx = Chunk "byte list" "obj list" | Rx_intr | Rx_hup | Rx_err

datatype tx = Tx_accept nat | Tx_intr | Tx_err | Tx_block

datatype ioret = Ret nat | EINTR | EFAIL

record revents =
  POLLIN :: bool
  POLLHUP :: bool
  POLLERR :: bool
  POLLNVAL :: bool

datatype pollres = Poll_intr | Poll_err | Poll_timeout | Poll_ready "revents list"

datatype report =
  Bad_close fd
| Bad_unmap obj
| Buffer_overflow nat nat  \<comment> \<open>bytes written, size of the buffer\<close>
| Uninit_read
| Use_after_free
| Null_deref

record os =
  fdtab :: "obj option list"
  rxq :: "obj \<Rightarrow> rx list"
  txq :: "obj \<Rightarrow> (byte list \<times> obj list) list"
  txplan :: "tx list"
  polls :: "pollres list"
  faults :: "bool list"
  mem :: "obj \<Rightarrow> u32"
  maps :: "obj list"
  evlog :: "(obj \<times> u64) list"
  conns :: "obj list"
  dialed :: "(obj \<times> string) list"
  pairs :: "(obj \<times> obj) list"
  next_obj :: obj
  reports :: "report list"

definition os_init :: os where
  "os_init = \<lparr>fdtab = [], rxq = (\<lambda>_. []), txq = (\<lambda>_. []), txplan = [], polls = [], faults = [],
     mem = (\<lambda>_. 0), maps = [], evlog = [], conns = [], dialed = [], pairs = [], next_obj = 0, reports = []\<rparr>"

subsection \<open>Descriptors\<close>

definition fd_obj :: "os \<Rightarrow> fd \<Rightarrow> obj option" where
  "fd_obj w f = (if 0 \<le> f \<and> nat f < length (fdtab w) then fdtab w ! nat f else None)"

definition report :: "report \<Rightarrow> os \<Rightarrow> os" where
  "report r w = w\<lparr>reports := reports w @ [r]\<rparr>"

definition sys_close :: "fd \<Rightarrow> os \<Rightarrow> os" where
  "sys_close f w =
     (if fd_obj w f = None then report (Bad_close f) w
      else w\<lparr>fdtab := (fdtab w)[nat f := None]\<rparr>)"

fun first_free :: "obj option list \<Rightarrow> nat" where
  "first_free [] = 0"
| "first_free (None # t) = 0"
| "first_free (Some ob # t) = Suc (first_free t)"

definition sys_install :: "obj \<Rightarrow> os \<Rightarrow> fd \<times> os" where
  "sys_install ob w =
     (let i = first_free (fdtab w) in
      (int i, w\<lparr>fdtab := (if i < length (fdtab w) then (fdtab w)[i := Some ob]
                          else fdtab w @ [Some ob])\<rparr>))"

fun sys_installs :: "obj list \<Rightarrow> os \<Rightarrow> fd list \<times> os" where
  "sys_installs [] w = ([], w)"
| "sys_installs (ob # obs) w =
     (let (f, w) = sys_install ob w; (fs, w) = sys_installs obs w in (f # fs, w))"

definition sys_close_all :: "fd list \<Rightarrow> os \<Rightarrow> os" where
  "sys_close_all fs w = fold sys_close fs w"

lemma first_free_le: "first_free t \<le> length t"
  by (induction t rule: first_free.induct) auto

lemma first_free_None: "first_free t < length t \<Longrightarrow> t ! first_free t = None"
  by (induction t rule: first_free.induct) auto

lemma fd_obj_fdtab_cong: "fdtab w = fdtab w' \<Longrightarrow> fd_obj w = fd_obj w'"
  by (simp add: fd_obj_def fun_eq_iff)

lemma fd_obj_frame [simp, os_simps]:
  "fd_obj (w\<lparr>rxq := q\<rparr>) = fd_obj w"
  "fd_obj (w\<lparr>txq := tq\<rparr>) = fd_obj w"
  "fd_obj (w\<lparr>txplan := tp\<rparr>) = fd_obj w"
  "fd_obj (w\<lparr>polls := po\<rparr>) = fd_obj w"
  "fd_obj (w\<lparr>faults := fa\<rparr>) = fd_obj w"
  "fd_obj (w\<lparr>mem := me\<rparr>) = fd_obj w"
  "fd_obj (w\<lparr>maps := ma\<rparr>) = fd_obj w"
  "fd_obj (w\<lparr>evlog := ev\<rparr>) = fd_obj w"
  "fd_obj (w\<lparr>conns := co\<rparr>) = fd_obj w"
  "fd_obj (w\<lparr>dialed := di\<rparr>) = fd_obj w"
  "fd_obj (w\<lparr>pairs := pa\<rparr>) = fd_obj w"
  "fd_obj (w\<lparr>next_obj := no\<rparr>) = fd_obj w"
  "fd_obj (w\<lparr>reports := re\<rparr>) = fd_obj w"
  by (simp_all add: fd_obj_def fun_eq_iff)

lemma fd_obj_neg [simp]: "f < 0 \<Longrightarrow> fd_obj w f = None"
  by (simp add: fd_obj_def)

lemma fd_obj_SomeD: "fd_obj w f = Some ob \<Longrightarrow> 0 \<le> f"
  by (auto simp: fd_obj_def split: if_splits)

lemma fd_obj_report [simp, os_simps]: "fd_obj (report r w) = fd_obj w"
  by (simp add: report_def)

lemma fd_obj_close [os_simps]: "fd_obj (sys_close f w) = (fd_obj w)(f := None)"
  by (auto simp: sys_close_def report_def fd_obj_def fun_eq_iff nth_list_update)

lemma sys_close_frame [simp, os_simps]:
  "rxq (sys_close f w) = rxq w" "txq (sys_close f w) = txq w"
  "txplan (sys_close f w) = txplan w" "polls (sys_close f w) = polls w"
  "faults (sys_close f w) = faults w" "mem (sys_close f w) = mem w"
  "maps (sys_close f w) = maps w" "evlog (sys_close f w) = evlog w"
  "conns (sys_close f w) = conns w" "dialed (sys_close f w) = dialed w" "pairs (sys_close f w) = pairs w"
  "next_obj (sys_close f w) = next_obj w"
  by (simp_all add: sys_close_def report_def)

lemma reports_close [os_simps]: "fd_obj w f \<noteq> None \<Longrightarrow> reports (sys_close f w) = reports w"
  by (auto simp: sys_close_def)

lemma reports_close_bad: "fd_obj w f = None \<Longrightarrow> reports (sys_close f w) = reports w @ [Bad_close f]"
  by (simp add: sys_close_def report_def)

lemma sys_close_all_Nil [simp]: "sys_close_all [] w = w"
  by (simp add: sys_close_all_def)

lemma sys_close_all_Cons [simp]: "sys_close_all (f # fs) w = sys_close_all fs (sys_close f w)"
  by (simp add: sys_close_all_def)

lemma sys_close_all_append [simp]:
  "sys_close_all (fs @ gs) w = sys_close_all gs (sys_close_all fs w)"
  by (simp add: sys_close_all_def)

lemma sys_close_all_frame [simp, os_simps]:
  "rxq (sys_close_all fs w) = rxq w" "txq (sys_close_all fs w) = txq w"
  "txplan (sys_close_all fs w) = txplan w" "polls (sys_close_all fs w) = polls w"
  "faults (sys_close_all fs w) = faults w" "mem (sys_close_all fs w) = mem w"
  "maps (sys_close_all fs w) = maps w" "evlog (sys_close_all fs w) = evlog w"
  "conns (sys_close_all fs w) = conns w" "dialed (sys_close_all fs w) = dialed w" "pairs (sys_close_all fs w) = pairs w"
  "next_obj (sys_close_all fs w) = next_obj w"
  by (induction fs arbitrary: w) auto

lemma fd_obj_close_all [os_simps]:
  "fd_obj (sys_close_all fs w) f = (if f \<in> set fs then None else fd_obj w f)"
  by (induction fs arbitrary: w) (auto simp: fd_obj_close)

lemma reports_close_all [os_simps]:
  "distinct fs \<Longrightarrow> (\<And>f. f \<in> set fs \<Longrightarrow> fd_obj w f \<noteq> None) \<Longrightarrow> reports (sys_close_all fs w) = reports w"
proof (induction fs arbitrary: w)
  case Nil
  then show ?case by simp
next
  case (Cons f fs)
  have "\<And>g. g \<in> set fs \<Longrightarrow> fd_obj (sys_close f w) g \<noteq> None"
    using Cons.prems by (auto simp: fd_obj_close)
  with Cons show ?case by (simp add: reports_close)
qed

lemma sys_install_frame [simp, os_simps]:
  "rxq (snd (sys_install ob w)) = rxq w" "txq (snd (sys_install ob w)) = txq w"
  "txplan (snd (sys_install ob w)) = txplan w" "polls (snd (sys_install ob w)) = polls w"
  "faults (snd (sys_install ob w)) = faults w" "mem (snd (sys_install ob w)) = mem w"
  "maps (snd (sys_install ob w)) = maps w" "evlog (snd (sys_install ob w)) = evlog w"
  "conns (snd (sys_install ob w)) = conns w" "dialed (snd (sys_install ob w)) = dialed w" "pairs (snd (sys_install ob w)) = pairs w"
  "next_obj (snd (sys_install ob w)) = next_obj w" "reports (snd (sys_install ob w)) = reports w"
  by (simp_all add: sys_install_def Let_def)

lemma sys_install_fresh: "fd_obj w (fst (sys_install ob w)) = None"
  by (auto simp: sys_install_def Let_def fd_obj_def first_free_None)

lemma sys_install_nonneg: "0 \<le> fst (sys_install ob w)"
  by (simp add: sys_install_def Let_def)

lemma fd_obj_install:
  "fd_obj (snd (sys_install ob w)) = (fd_obj w)(fst (sys_install ob w) := Some ob)"
  using first_free_le [of "fdtab w"]
  by (auto simp: sys_install_def Let_def fd_obj_def fun_eq_iff nth_append nth_list_update)

lemma sys_installs_Cons_eq:
  "sys_installs (ob # obs) w =
     (let p = sys_install ob w; q = sys_installs obs (snd p) in (fst p # fst q, snd q))"
  by (simp add: Let_def split: prod.split)

declare sys_installs.simps(2) [simp del]

lemma sys_installs_frame [simp, os_simps]:
  "rxq (snd (sys_installs obs w)) = rxq w" "txq (snd (sys_installs obs w)) = txq w"
  "txplan (snd (sys_installs obs w)) = txplan w" "polls (snd (sys_installs obs w)) = polls w"
  "faults (snd (sys_installs obs w)) = faults w" "mem (snd (sys_installs obs w)) = mem w"
  "maps (snd (sys_installs obs w)) = maps w" "evlog (snd (sys_installs obs w)) = evlog w"
  "conns (snd (sys_installs obs w)) = conns w" "dialed (snd (sys_installs obs w)) = dialed w" "pairs (snd (sys_installs obs w)) = pairs w"
  "next_obj (snd (sys_installs obs w)) = next_obj w" "reports (snd (sys_installs obs w)) = reports w"
  by (induction obs arbitrary: w) (simp_all add: sys_installs_Cons_eq Let_def)

lemma length_sys_installs [simp, os_simps]: "length (fst (sys_installs obs w)) = length obs"
  by (induction obs arbitrary: w) (simp_all add: sys_installs_Cons_eq Let_def)

lemma sys_installs_fresh: "f \<in> set (fst (sys_installs obs w)) \<Longrightarrow> fd_obj w f = None \<and> 0 \<le> f"
proof (induction obs arbitrary: w)
  case Nil
  then show ?case by simp
next
  case (Cons ob obs)
  let ?p = "sys_install ob w"
  from Cons.prems consider "f = fst ?p" | "f \<in> set (fst (sys_installs obs (snd ?p)))"
    by (auto simp: sys_installs_Cons_eq Let_def)
  then show ?case
  proof cases
    case 1
    then show ?thesis by (simp add: sys_install_fresh sys_install_nonneg)
  next
    case 2
    then show ?thesis using Cons.IH [of "snd ?p"]
      by (auto simp: fd_obj_install split: if_splits)
  qed
qed

lemma fd_obj_installs_old:
  "f \<notin> set (fst (sys_installs obs w)) \<Longrightarrow> fd_obj (snd (sys_installs obs w)) f = fd_obj w f"
proof (induction obs arbitrary: w)
  case Nil
  then show ?case by simp
next
  case (Cons ob obs)
  then show ?case by (simp add: sys_installs_Cons_eq Let_def fd_obj_install)
qed

lemma distinct_sys_installs: "distinct (fst (sys_installs obs w))"
proof (induction obs arbitrary: w)
  case Nil
  then show ?case by simp
next
  case (Cons ob obs)
  let ?p = "sys_install ob w"
  have "fst ?p \<notin> set (fst (sys_installs obs (snd ?p)))"
    using sys_installs_fresh [of "fst ?p" obs "snd ?p"] by (auto simp: fd_obj_install)
  with Cons.IH [of "snd ?p"] show ?case
    by (simp add: sys_installs_Cons_eq Let_def)
qed

lemma map_fd_obj_installs:
  "map (fd_obj (snd (sys_installs obs w))) (fst (sys_installs obs w)) = map Some obs"
proof (induction obs arbitrary: w)
  case Nil
  then show ?case by simp
next
  case (Cons ob obs)
  let ?p = "sys_install ob w"
  let ?q = "sys_installs obs (snd ?p)"
  have "fst ?p \<notin> set (fst ?q)"
    using sys_installs_fresh [of "fst ?p" obs "snd ?p"] by (auto simp: fd_obj_install)
  then have "fd_obj (snd ?q) (fst ?p) = Some ob"
    by (simp add: fd_obj_installs_old fd_obj_install)
  with Cons.IH [of "snd ?p"] show ?case
    by (simp add: sys_installs_Cons_eq Let_def)
qed

lemma fd_obj_installs_new:
  "f \<in> set (fst (sys_installs obs w)) \<Longrightarrow> fd_obj (snd (sys_installs obs w)) f \<noteq> None"
  using map_fd_obj_installs [of obs w]
  by (metis in_set_conv_nth length_sys_installs length_map nth_map option.distinct(1))

lemma dom_fd_obj_installs:
  "dom (fd_obj (snd (sys_installs obs w))) = dom (fd_obj w) \<union> set (fst (sys_installs obs w))"
  using fd_obj_installs_old [of _ obs w] fd_obj_installs_new [of _ obs w]
  by (auto simp: domIff) metis+

lemma sys_close_all_installs:
  "fd_obj (sys_close_all (fst (sys_installs obs w)) (snd (sys_installs obs w))) = fd_obj w"
proof
  fix f
  show "fd_obj (sys_close_all (fst (sys_installs obs w)) (snd (sys_installs obs w))) f = fd_obj w f"
    using sys_installs_fresh [of f obs w] fd_obj_installs_old [of f obs w]
    by (simp add: fd_obj_close_all)
qed

subsection \<open>Stream sockets\<close>

definition push_tx :: "obj \<Rightarrow> byte list \<times> obj list \<Rightarrow> os \<Rightarrow> os" where
  "push_tx ob m w = w\<lparr>txq := (txq w)(ob := txq w ob @ [m])\<rparr>"

definition set_rx :: "obj \<Rightarrow> rx list \<Rightarrow> os \<Rightarrow> os" where
  "set_rx ob q w = w\<lparr>rxq := (rxq w)(ob := q)\<rparr>"

text \<open>\<open>sendmsg(2)\<close> with the descriptors \<open>fs\<close> attached; \<open>send(2)\<close> is the case without any.\<close>

definition sys_sendmsg :: "fd \<Rightarrow> byte list \<Rightarrow> fd list \<Rightarrow> os \<Rightarrow> (ioret \<times> os) option" where
  "sys_sendmsg f bs fs w =
     (case fd_obj w f of
        None \<Rightarrow> Some (EFAIL, w)
      | Some ob \<Rightarrow>
          if \<exists>g \<in> set fs. fd_obj w g = None then Some (EFAIL, w)
          else let obs = map (\<lambda>g. the (fd_obj w g)) fs in
            (case txplan w of
               [] \<Rightarrow> Some (Ret (length bs), push_tx ob (bs, obs) w)
             | Tx_accept n # p \<Rightarrow>
                 (let k = min n (length bs); w = w\<lparr>txplan := p\<rparr> in
                  if k = 0 then Some (Ret 0, w)
                  else Some (Ret k, push_tx ob (take k bs, obs) w))
             | Tx_intr # p \<Rightarrow> Some (EINTR, w\<lparr>txplan := p\<rparr>)
             | Tx_err # p \<Rightarrow> Some (EFAIL, w\<lparr>txplan := p\<rparr>)
             | Tx_block # p \<Rightarrow> None))"

definition sys_send :: "fd \<Rightarrow> byte list \<Rightarrow> os \<Rightarrow> (ioret \<times> os) option" where
  "sys_send f bs w = sys_sendmsg f bs [] w"

text \<open>
  \<open>recvmsg(2)\<close> with room for \<open>maxfds\<close> descriptors: the descriptors that ride on the chunk are
  installed in this process, those that do not fit are dropped by the kernel.  \<open>recv(2)\<close> has no
  room for any, and \<open>MSG_PEEK\<close> leaves the data in the queue.
\<close>

definition sys_recvmsg :: "fd \<Rightarrow> nat \<Rightarrow> nat \<Rightarrow> os \<Rightarrow> (ioret \<times> byte list \<times> fd list \<times> os) option" where
  "sys_recvmsg f len maxfds w =
     (case fd_obj w f of
        None \<Rightarrow> Some (EFAIL, [], [], w)
      | Some ob \<Rightarrow>
          (case rxq w ob of
             [] \<Rightarrow> None
           | Rx_intr # q \<Rightarrow> Some (EINTR, [], [], set_rx ob q w)
           | Rx_err # q \<Rightarrow> Some (EFAIL, [], [], set_rx ob q w)
           | Rx_hup # q \<Rightarrow> Some (Ret 0, [], [], w)
           | Chunk bs obs # q \<Rightarrow>
               if bs = [] \<or> len = 0 then Some (Ret 0, [], [], w)
               else
               (let rest = drop len bs;
                    w = set_rx ob (if rest = [] then q else Chunk rest [] # q) w;
                    (fs, w) = sys_installs (take maxfds obs) w
                in Some (Ret (length (take len bs)), take len bs, fs, w))))"

definition sys_recv :: "fd \<Rightarrow> nat \<Rightarrow> os \<Rightarrow> (ioret \<times> byte list \<times> os) option" where
  "sys_recv f len w =
     (case sys_recvmsg f len 0 w of
        None \<Rightarrow> None
      | Some (r, bs, fs, w) \<Rightarrow> Some (r, bs, w))"

definition sys_peek :: "fd \<Rightarrow> nat \<Rightarrow> os \<Rightarrow> (ioret \<times> byte list \<times> os) option" where
  "sys_peek f len w =
     (case fd_obj w f of
        None \<Rightarrow> Some (EFAIL, [], w)
      | Some ob \<Rightarrow>
          (case rxq w ob of
             [] \<Rightarrow> None
           | Rx_intr # q \<Rightarrow> Some (EINTR, [], set_rx ob q w)
           | Rx_err # q \<Rightarrow> Some (EFAIL, [], set_rx ob q w)
           | Rx_hup # q \<Rightarrow> Some (Ret 0, [], w)
           | Chunk bs obs # q \<Rightarrow> Some (Ret (length (take len bs)), take len bs, w)))"

subsection \<open>Calls that only succeed or fail\<close>

definition sys_try :: "os \<Rightarrow> bool \<times> os" where
  "sys_try w = (case faults w of [] \<Rightarrow> (True, w) | b # bs \<Rightarrow> (b, w\<lparr>faults := bs\<rparr>))"

text \<open>
  \<open>socket(2)\<close>, \<open>eventfd(2)\<close>, \<open>memfd_create(2)\<close>: a descriptor for a new object, or \<open>-1\<close>.
\<close>

definition sys_new :: "os \<Rightarrow> fd \<times> os" where
  "sys_new w =
     (let (ok, w) = sys_try w in
      if \<not> ok then (-1, w)
      else sys_install (next_obj w) (w\<lparr>next_obj := next_obj w + 1\<rparr>))"

definition sys_dup :: "fd \<Rightarrow> os \<Rightarrow> fd \<times> os" where
  "sys_dup f w =
     (let (ok, w) = sys_try w in
      case fd_obj w f of
        None \<Rightarrow> (-1, w)
      | Some ob \<Rightarrow> if \<not> ok then (-1, w) else sys_install ob w)"

text \<open>\<open>socketpair(2)\<close>: two connected sockets, or \<open>None\<close> on failure.\<close>

definition sys_socketpair :: "os \<Rightarrow> (fd \<times> fd) option \<times> os" where
  "sys_socketpair w =
     (let (ok, w) = sys_try w in
      if \<not> ok then (None, w)
      else let a = next_obj w; b = a + 1;
               w = w\<lparr>next_obj := b + 1, pairs := pairs w @ [(a, b)]\<rparr>;
               (f, w) = sys_install a w; (g, w) = sys_install b w
           in (Some (f, g), w))"

text \<open>
  \<open>mmap(2)\<close> of the one shared word of a descriptor, and \<open>munmap(2)\<close>.  A mapping is named by the
  object it shows: it stays valid after the descriptor is closed.
\<close>

definition sys_mmap :: "fd \<Rightarrow> os \<Rightarrow> obj option \<times> os" where
  "sys_mmap f w =
     (let (ok, w) = sys_try w in
      case fd_obj w f of
        None \<Rightarrow> (None, w)
      | Some ob \<Rightarrow> if \<not> ok then (None, w) else (Some ob, w\<lparr>maps := ob # maps w\<rparr>))"

definition sys_munmap :: "obj \<Rightarrow> os \<Rightarrow> os" where
  "sys_munmap ob w =
     (if ob \<in> set (maps w) then w\<lparr>maps := remove1 ob (maps w)\<rparr> else report (Bad_unmap ob) w)"

text \<open>A store to the shared word through its mapping.\<close>

definition sys_store :: "obj \<Rightarrow> u32 \<Rightarrow> os \<Rightarrow> os" where
  "sys_store ob v w = w\<lparr>mem := (mem w)(ob := v)\<rparr>"

definition sys_eventfd_write :: "fd \<Rightarrow> u64 \<Rightarrow> os \<Rightarrow> os" where
  "sys_eventfd_write f v w =
     (case fd_obj w f of
        None \<Rightarrow> w
      | Some ob \<Rightarrow> w\<lparr>evlog := evlog w @ [(ob, v)]\<rparr>)"

text \<open>\<open>eventfd_read(3)\<close>, called where \<open>poll\<close> has said that the counter is not zero.\<close>

definition sys_eventfd_read :: "fd \<Rightarrow> os \<Rightarrow> bool \<times> os" where
  "sys_eventfd_read f w =
     (let (ok, w) = sys_try w in (ok \<and> fd_obj w f \<noteq> None, w))"

definition sys_connect :: "fd \<Rightarrow> string \<Rightarrow> os \<Rightarrow> bool \<times> os" where
  "sys_connect f path w =
     (let (ok, w) = sys_try w in
      case fd_obj w f of
        None \<Rightarrow> (False, w)
      | Some ob \<Rightarrow> if \<not> ok then (False, w) else (True, w\<lparr>dialed := dialed w @ [(ob, path)]\<rparr>))"

text \<open>\<open>accept(2)\<close>: blocks while no connection waits.\<close>

definition sys_accept :: "fd \<Rightarrow> os \<Rightarrow> (fd \<times> os) option" where
  "sys_accept f w =
     (let (ok, w) = sys_try w in
      if \<not> ok \<or> fd_obj w f = None then Some (-1, w)
      else (case conns w of
              [] \<Rightarrow> None
            | ob # obs \<Rightarrow> Some (sys_install ob (w\<lparr>conns := obs\<rparr>))))"

subsection \<open>\<open>poll(2)\<close>\<close>

definition no_events :: revents where
  "no_events = \<lparr>POLLIN = False, POLLHUP = False, POLLERR = False, POLLNVAL = False\<rparr>"

definition pollin_event :: revents where
  "pollin_event = no_events\<lparr>POLLIN := True\<rparr>"

text \<open>\<open>poll\<close> ignores a negative descriptor and answers \<open>POLLNVAL\<close> for one that is not open.\<close>

definition poll_entry :: "os \<Rightarrow> fd \<Rightarrow> revents \<Rightarrow> revents" where
  "poll_entry w f r =
     (if f < 0 then no_events
      else if fd_obj w f = None then no_events\<lparr>POLLNVAL := True\<rparr>
      else r\<lparr>POLLNVAL := False\<rparr>)"

fun poll_entries :: "os \<Rightarrow> fd list \<Rightarrow> revents list \<Rightarrow> revents list" where
  "poll_entries w [] rs = []"
| "poll_entries w (f # fs) [] = poll_entry w f no_events # poll_entries w fs []"
| "poll_entries w (f # fs) (r # rs) = poll_entry w f r # poll_entries w fs rs"

definition sys_poll :: "fd list \<Rightarrow> os \<Rightarrow> (pollres \<times> os) option" where
  "sys_poll fs w =
     (case polls w of
        [] \<Rightarrow> None
      | Poll_ready rs # ps \<Rightarrow> Some (Poll_ready (poll_entries w fs rs), w\<lparr>polls := ps\<rparr>)
      | p # ps \<Rightarrow> Some (p, w\<lparr>polls := ps\<rparr>))"

lemma length_poll_entries [simp]: "length (poll_entries w fs rs) = length fs"
  by (induction w fs rs rule: poll_entries.induct) auto

subsection \<open>What the calls return\<close>

lemma sys_try_eq: "snd (sys_try w) = w\<lparr>faults := tl (faults w)\<rparr>"
  by (cases w) (simp add: sys_try_def split: list.split)

lemma sys_tryD: "sys_try w = (b, w') \<Longrightarrow> w' = w\<lparr>faults := tl (faults w)\<rparr> \<and> b = (case faults w of [] \<Rightarrow> True | c # cs \<Rightarrow> c)"
  using sys_try_eq [of w] by (auto simp: sys_try_def split: list.splits)

lemma sys_installD:
  assumes "sys_install ob w = (f, w')"
  shows "fd_obj w f = None" "0 \<le> f" "fd_obj w' = (fd_obj w)(f \<mapsto> ob)" "\<exists>t. w' = w\<lparr>fdtab := t\<rparr>"
  using assms sys_install_fresh [of w ob] sys_install_nonneg [of ob w] fd_obj_install [of ob w]
  by (auto simp: sys_install_def Let_def)

lemma sys_accept_result:
  assumes "sys_accept l w = Some (cf, w')"
  shows "cf < 0 \<and> w' = w\<lparr>faults := tl (faults w)\<rparr> \<or>
    (\<exists>ob obs t. cf \<ge> 0 \<and> fd_obj w cf = None \<and> conns w = ob # obs \<and> fd_obj w' = (fd_obj w)(cf \<mapsto> ob) \<and>
      w' = w\<lparr>faults := tl (faults w), conns := obs, fdtab := t\<rparr>)"
proof -
  obtain ok w1 where t: "sys_try w = (ok, w1)" by fastforce
  show ?thesis
  proof (cases "\<not> ok \<or> fd_obj w1 l = None")
    case True
    with assms t sys_tryD [OF t] show ?thesis by (auto simp: sys_accept_def)
  next
    case False
    with assms t obtain ob obs where c: "conns w1 = ob # obs" "sys_install ob (w1\<lparr>conns := obs\<rparr>) = (cf, w')"
      by (auto simp: sys_accept_def split: list.splits)
    from sys_installD [OF c(2)] c(1) sys_tryD [OF t] show ?thesis by auto
  qed
qed

lemma sys_newD:
  assumes "sys_new w = (f, w')"
  shows "f < 0 \<and> w' = w\<lparr>faults := tl (faults w)\<rparr> \<or>
    (\<exists>t. 0 \<le> f \<and> fd_obj w f = None \<and> fd_obj w' = (fd_obj w)(f \<mapsto> next_obj w) \<and>
      w' = w\<lparr>faults := tl (faults w), next_obj := next_obj w + 1, fdtab := t\<rparr>)"
proof -
  obtain ok w1 where t: "sys_try w = (ok, w1)" by fastforce
  note T = sys_tryD [OF t]
  show ?thesis
  proof (cases ok)
    case False
    with assms t T show ?thesis by (auto simp: sys_new_def)
  next
    case True
    with assms t have i: "sys_install (next_obj w1) (w1\<lparr>next_obj := next_obj w1 + 1\<rparr>) = (f, w')"
      by (simp add: sys_new_def)
    from sys_installD [OF i] T show ?thesis by auto
  qed
qed

lemma sys_mmapD:
  assumes "sys_mmap f w = (p, w')"
  shows "fd_obj w' = fd_obj w" "reports w' = reports w" "txq w' = txq w" "rxq w' = rxq w" "txplan w' = txplan w" "mem w' = mem w"
    "maps w' = (case p of None \<Rightarrow> maps w | Some ob \<Rightarrow> ob # maps w)" "p = Some ob \<Longrightarrow> fd_obj w f = Some ob"
  using assms sys_try_eq [of w]
  by (auto simp: sys_mmap_def split: prod.splits option.splits if_splits)

lemma sys_socketpairD:
  assumes "sys_socketpair w = (r, w')"
  shows "r = None \<and> w' = w\<lparr>faults := tl (faults w)\<rparr> \<or>
    (\<exists>f g t. r = Some (f, g) \<and> 0 \<le> f \<and> 0 \<le> g \<and> f \<noteq> g \<and> fd_obj w f = None \<and> fd_obj w g = None \<and>
      fd_obj w' = (fd_obj w)(f \<mapsto> next_obj w, g \<mapsto> next_obj w + 1) \<and>
      w' = w\<lparr>faults := tl (faults w), next_obj := next_obj w + 2, pairs := pairs w @ [(next_obj w, next_obj w + 1)], fdtab := t\<rparr>)"
proof -
  obtain ok w1 where t: "sys_try w = (ok, w1)" by fastforce
  note T = sys_tryD [OF t]
  show ?thesis
  proof (cases ok)
    case False
    with assms t T show ?thesis by (auto simp: sys_socketpair_def)
  next
    case True
    let ?w2 = "w1\<lparr>next_obj := next_obj w1 + 1 + 1, pairs := pairs w1 @ [(next_obj w1, next_obj w1 + 1)]\<rparr>"
    obtain f w3 where f: "sys_install (next_obj w1) ?w2 = (f, w3)" by fastforce
    obtain g w4 where g: "sys_install (next_obj w1 + 1) w3 = (g, w4)" by fastforce
    note F = sys_installD [OF f] and G = sys_installD [OF g]
    have r: "r = Some (f, g)" "w' = w4" using assms t True f g by (simp_all add: sys_socketpair_def Let_def)
    obtain t1 t2 where tt: "w3 = ?w2\<lparr>fdtab := t1\<rparr>" "w4 = w3\<lparr>fdtab := t2\<rparr>" using F(4) G(4) by blast
    have ne: "f \<noteq> g" using F(3) G(1) by auto
    have "fd_obj w' = (fd_obj w)(f \<mapsto> next_obj w, g \<mapsto> next_obj w + 1)" using F(3) G(3) T r by simp
    moreover have "fd_obj w f = None" "fd_obj w g = None" using F(1,3) G(1) T ne by auto
    ultimately show ?thesis using r F(2) G(2) ne T tt by auto
  qed
qed

lemma sys_new_ok:
  assumes "faults w = []"
  shows "\<exists>f t. sys_new w = (f, w\<lparr>next_obj := Suc (next_obj w), fdtab := t\<rparr>) \<and> 0 \<le> f \<and> fd_obj w f = None \<and>
     fd_obj (w\<lparr>next_obj := Suc (next_obj w), fdtab := t\<rparr>) = (fd_obj w)(f \<mapsto> next_obj w)"
proof -
  obtain f w1 where i: "sys_install (next_obj w) (w\<lparr>next_obj := next_obj w + 1\<rparr>) = (f, w1)" by fastforce
  note I = sys_installD [OF i]
  then obtain t where t: "w1 = w\<lparr>next_obj := next_obj w + 1, fdtab := t\<rparr>" by auto
  have "sys_new w = (f, w1)" using assms i by (simp add: sys_new_def sys_try_def)
  with I t show ?thesis by auto
qed

lemma sys_poll_shorter: "sys_poll fs w = Some (r, w') \<Longrightarrow> length (polls w') < length (polls w)"
  by (auto simp: sys_poll_def split: list.splits pollres.splits)

end
