(* ===== verification/Protocol.thy ===== *)
theory Protocol
  imports Kernel
begin

section \<open>The wire protocol (\<open>common/protocol.h\<close>)\<close>

text \<open>
  The message types, the packed structs of the display protocol and their byte images.  A struct
  travels as the bytes of its packed memory image: \<open>enc_X\<close> is what \<open>memcpy\<close> from the struct
  gives, \<open>dec_X\<close> what \<open>memcpy\<close> into it reads.  Every struct is an instance of the codec contract
  \<open>fixed_codec\<close>, whose \<open>width\<close> is the struct's \<open>sizeof\<close>.
\<close>

subsection \<open>Message types and limits\<close>

abbreviation (input) CTRL_MSG_CONSUMER_HELLO :: u32 where "CTRL_MSG_CONSUMER_HELLO \<equiv> 1"
abbreviation (input) CTRL_MSG_PRODUCER_HELLO :: u32 where "CTRL_MSG_PRODUCER_HELLO \<equiv> 2"
abbreviation (input) CTRL_MSG_SCREEN_INFO :: u32 where "CTRL_MSG_SCREEN_INFO \<equiv> 7"
abbreviation (input) CTRL_MSG_REJECT :: u32 where "CTRL_MSG_REJECT \<equiv> 8"
abbreviation (input) CTRL_MSG_PICKUP_FDS :: u32 where "CTRL_MSG_PICKUP_FDS \<equiv> 9"
abbreviation (input) CTRL_MSG_FDS_READY :: u32 where "CTRL_MSG_FDS_READY \<equiv> 10"

abbreviation (input) DATA_MSG_BUF_READY :: u32 where "DATA_MSG_BUF_READY \<equiv> 100"
abbreviation (input) DATA_MSG_REFRESH_DONE :: u32 where "DATA_MSG_REFRESH_DONE \<equiv> 101"
abbreviation (input) DATA_MSG_INPUT_EVENT :: u32 where "DATA_MSG_INPUT_EVENT \<equiv> 102"
abbreviation (input) DATA_MSG_BUFS_READY :: u32 where "DATA_MSG_BUFS_READY \<equiv> 200"
abbreviation (input) DATA_MSG_WINDOW_EVENT :: u32 where "DATA_MSG_WINDOW_EVENT \<equiv> 300"
abbreviation (input) DATA_MSG_WINDOW_COMMAND :: u32 where "DATA_MSG_WINDOW_COMMAND \<equiv> 301"

abbreviation (input) MAX_BUFS :: nat where "MAX_BUFS \<equiv> 8"

abbreviation (input) INPUT_TYPE_TOUCH :: u32 where "INPUT_TYPE_TOUCH \<equiv> 1"
abbreviation (input) INPUT_TYPE_KEY :: u32 where "INPUT_TYPE_KEY \<equiv> 2"
abbreviation (input) INPUT_TYPE_POINTER_MOTION :: u32 where "INPUT_TYPE_POINTER_MOTION \<equiv> 3"
abbreviation (input) INPUT_TYPE_POINTER_BUTTON :: u32 where "INPUT_TYPE_POINTER_BUTTON \<equiv> 4"
abbreviation (input) INPUT_TYPE_POINTER_AXIS :: u32 where "INPUT_TYPE_POINTER_AXIS \<equiv> 5"
abbreviation (input) INPUT_TYPE_TOUCH_FRAME :: u32 where "INPUT_TYPE_TOUCH_FRAME \<equiv> 6"

abbreviation (input) INPUT_ACTION_DOWN :: int where "INPUT_ACTION_DOWN \<equiv> 0"
abbreviation (input) INPUT_ACTION_UP :: int where "INPUT_ACTION_UP \<equiv> 1"
abbreviation (input) INPUT_ACTION_MOVE :: int where "INPUT_ACTION_MOVE \<equiv> 2"

abbreviation (input) WINDOW_EVENT_OPENED :: u32 where "WINDOW_EVENT_OPENED \<equiv> 1"
abbreviation (input) WINDOW_EVENT_CLOSED :: u32 where "WINDOW_EVENT_CLOSED \<equiv> 2"
abbreviation (input) WINDOW_EVENT_MINIMIZED :: u32 where "WINDOW_EVENT_MINIMIZED \<equiv> 3"
abbreviation (input) WINDOW_EVENT_RESTORED :: u32 where "WINDOW_EVENT_RESTORED \<equiv> 4"

abbreviation (input) WINDOW_COMMAND_RESTORE :: u32 where "WINDOW_COMMAND_RESTORE \<equiv> 1"

abbreviation (input) WINDOW_EVENT_APP_ID_MAX :: nat where "WINDOW_EVENT_APP_ID_MAX \<equiv> 128"
abbreviation (input) WINDOW_EVENT_TITLE_MAX :: nat where "WINDOW_EVENT_TITLE_MAX \<equiv> 128"

subsection \<open>Message headers\<close>

text \<open>
  \<open>struct ctrl_msg\<close> and \<open>struct data_msg\<close> have the same layout: a type, the size of the
  payload, and the payload itself as a flexible array member, which is sent separately.
\<close>

record ctrl_msg =
  msg_type :: u32
  msg_size :: u32

type_synonym data_msg = ctrl_msg

abbreviation (input) sizeof_ctrl_msg :: nat where "sizeof_ctrl_msg \<equiv> 8"
abbreviation (input) sizeof_data_msg :: nat where "sizeof_data_msg \<equiv> 8"

definition mk_hdr :: "u32 \<Rightarrow> u32 \<Rightarrow> ctrl_msg" where
  "mk_hdr t s = \<lparr>msg_type = t, msg_size = s\<rparr>"

definition enc_hdr :: "ctrl_msg \<Rightarrow> byte list" where
  "enc_hdr m = le32 (msg_type m) @ le32 (msg_size m)"

definition dec_hdr :: "byte list \<Rightarrow> ctrl_msg" where
  "dec_hdr bs = \<lparr>msg_type = unle32 bs, msg_size = unle32 (drop 4 bs)\<rparr>"

interpretation hdr_codec: fixed_codec enc_hdr dec_hdr sizeof_ctrl_msg "\<lambda>_. True"
  by unfold_locales (simp_all add: enc_hdr_def dec_hdr_def)

lemma mk_hdr_sel [simp]: "msg_type (mk_hdr t s) = t" "msg_size (mk_hdr t s) = s"
  by (simp_all add: mk_hdr_def)

lemma length_enc_hdr [simp, codec_simps]: "length (enc_hdr m) = 8"
  by (simp add: enc_hdr_def)

lemma enc_hdr_ne [simp]: "enc_hdr m \<noteq> []"
  by (rule hdr_codec.enc_ne_Nil) simp

lemma dec_enc_hdr [simp, codec_simps]: "dec_hdr (enc_hdr m) = m" "dec_hdr (enc_hdr m @ r) = m"
  using hdr_codec.dec_enc_nil hdr_codec.dec_enc by simp_all

subsection \<open>Screen and buffer descriptions\<close>

record screen_info =
  si_width :: u32
  si_height :: u32
  si_format :: u32
  si_refresh :: u32

abbreviation (input) sizeof_screen_info :: nat where "sizeof_screen_info \<equiv> 16"

definition enc_screen :: "screen_info \<Rightarrow> byte list" where
  "enc_screen s = le32 (si_width s) @ le32 (si_height s) @ le32 (si_format s) @ le32 (si_refresh s)"

definition dec_screen :: "byte list \<Rightarrow> screen_info" where
  "dec_screen bs = \<lparr>si_width = unle32 bs, si_height = unle32 (drop 4 bs),
     si_format = unle32 (drop 8 bs), si_refresh = unle32 (drop 12 bs)\<rparr>"

interpretation screen_codec: fixed_codec enc_screen dec_screen sizeof_screen_info "\<lambda>_. True"
  by unfold_locales (simp_all add: enc_screen_def dec_screen_def)

lemma length_enc_screen [simp, codec_simps]: "length (enc_screen s) = 16"
  by (simp add: enc_screen_def)

lemma dec_enc_screen [simp, codec_simps]:
  "dec_screen (enc_screen s) = s" "dec_screen (enc_screen s @ r) = s"
  using screen_codec.dec_enc_nil screen_codec.dec_enc by simp_all

record buf_info =
  bi_stride :: u32
  bi_format :: u32
  bi_modifier :: u64
  bi_offset :: u32

abbreviation (input) sizeof_buf_info :: nat where "sizeof_buf_info \<equiv> 20"

definition enc_buf :: "buf_info \<Rightarrow> byte list" where
  "enc_buf b = le32 (bi_stride b) @ le32 (bi_format b) @ le64 (bi_modifier b) @ le32 (bi_offset b)"

definition dec_buf :: "byte list \<Rightarrow> buf_info" where
  "dec_buf bs = \<lparr>bi_stride = unle32 bs, bi_format = unle32 (drop 4 bs),
     bi_modifier = unle64 (drop 8 bs), bi_offset = unle32 (drop 16 bs)\<rparr>"

interpretation buf_codec: fixed_codec enc_buf dec_buf sizeof_buf_info "\<lambda>_. True"
  by unfold_locales (simp_all add: enc_buf_def dec_buf_def)

lemma length_enc_buf [simp, codec_simps]: "length (enc_buf b) = 20"
  by (simp add: enc_buf_def)

text \<open>An array of \<open>struct buf_info\<close>, as \<open>DATA_MSG_BUFS_READY\<close> carries it.\<close>

definition enc_bufs :: "buf_info list \<Rightarrow> byte list" where
  "enc_bufs bis = concat (map enc_buf bis)"

fun dec_bufs :: "nat \<Rightarrow> byte list \<Rightarrow> buf_info list" where
  "dec_bufs 0 bs = []"
| "dec_bufs (Suc n) bs = dec_buf bs # dec_bufs n (drop sizeof_buf_info bs)"

lemma dec_bufs_eq: "dec_bufs n bs = buf_codec.dec_array n bs"
  by (induction n arbitrary: bs) auto

lemma length_enc_bufs [simp, codec_simps]: "length (enc_bufs bis) = 20 * length bis"
  using buf_codec.enc_array_length [of bis] by (simp add: enc_bufs_def list_all_iff)

lemma dec_enc_bufs [simp, codec_simps]: "dec_bufs (length bis) (enc_bufs bis) = bis"
  using buf_codec.dec_array_enc [of bis "[]"] by (simp add: enc_bufs_def dec_bufs_eq list_all_iff)

lemma length_dec_bufs [simp, codec_simps]: "length (dec_bufs n bs) = n"
  by (induction n arbitrary: bs) auto

subsection \<open>Input events\<close>

text \<open>
  \<open>struct InputEvent\<close> is a type and a union; the union is its four 32-bit words, which the
  members of the union read in their own way.  A \<open>float\<close> is its bit pattern.
\<close>

record InputEvent =
  ie_type :: u32
  ie_0 :: u32
  ie_1 :: u32
  ie_2 :: u32
  ie_3 :: u32

abbreviation (input) sizeof_InputEvent :: nat where "sizeof_InputEvent \<equiv> 20"

definition enc_input :: "InputEvent \<Rightarrow> byte list" where
  "enc_input e = le32 (ie_type e) @ le32 (ie_0 e) @ le32 (ie_1 e) @ le32 (ie_2 e) @ le32 (ie_3 e)"

definition dec_input :: "byte list \<Rightarrow> InputEvent" where
  "dec_input bs = \<lparr>ie_type = unle32 bs, ie_0 = unle32 (drop 4 bs), ie_1 = unle32 (drop 8 bs),
     ie_2 = unle32 (drop 12 bs), ie_3 = unle32 (drop 16 bs)\<rparr>"

interpretation input_codec: fixed_codec enc_input dec_input sizeof_InputEvent "\<lambda>_. True"
  by unfold_locales (simp_all add: enc_input_def dec_input_def)

lemma length_enc_input [simp, codec_simps]: "length (enc_input e) = 20"
  by (simp add: enc_input_def)

lemma dec_enc_input [simp, codec_simps]: "dec_input (enc_input e) = e" "dec_input (enc_input e @ r) = e"
  using input_codec.dec_enc_nil input_codec.dec_enc by simp_all

text \<open>The members of the union.\<close>

definition touch_action :: "InputEvent \<Rightarrow> int" where "touch_action e = sint (ie_0 e)"
definition touch_x :: "InputEvent \<Rightarrow> u32" where "touch_x e = ie_1 e"
definition touch_y :: "InputEvent \<Rightarrow> u32" where "touch_y e = ie_2 e"
definition touch_pointer_id :: "InputEvent \<Rightarrow> int" where "touch_pointer_id e = sint (ie_3 e)"
definition key_action :: "InputEvent \<Rightarrow> int" where "key_action e = sint (ie_0 e)"
definition key_keycode :: "InputEvent \<Rightarrow> int" where "key_keycode e = sint (ie_1 e)"
definition motion_x :: "InputEvent \<Rightarrow> u32" where "motion_x e = ie_0 e"
definition motion_y :: "InputEvent \<Rightarrow> u32" where "motion_y e = ie_1 e"
definition motion_dx :: "InputEvent \<Rightarrow> u32" where "motion_dx e = ie_2 e"
definition motion_dy :: "InputEvent \<Rightarrow> u32" where "motion_dy e = ie_3 e"
definition button_button :: "InputEvent \<Rightarrow> u32" where "button_button e = ie_0 e"
definition button_pressed :: "InputEvent \<Rightarrow> int" where "button_pressed e = sint (ie_1 e)"
definition axis_axis :: "InputEvent \<Rightarrow> u32" where "axis_axis e = ie_0 e"
definition axis_value :: "InputEvent \<Rightarrow> u32" where "axis_value e = ie_1 e"
definition axis_discrete :: "InputEvent \<Rightarrow> int" where "axis_discrete e = sint (ie_2 e)"

lemmas input_views =
  touch_action_def touch_x_def touch_y_def touch_pointer_id_def key_action_def key_keycode_def
  motion_x_def motion_y_def motion_dx_def motion_dy_def button_button_def button_pressed_def
  axis_axis_def axis_value_def axis_discrete_def

subsection \<open>Window events and commands\<close>

record WindowEvent =
  we_type :: u32
  we_window_id :: u32
  we_pid :: u32
  we_app_id :: "byte list"
  we_title :: "byte list"

abbreviation (input) sizeof_WindowEvent :: nat where "sizeof_WindowEvent \<equiv> 268"

definition wf_window_event :: "WindowEvent \<Rightarrow> bool" where
  "wf_window_event e \<longleftrightarrow> length (we_app_id e) = WINDOW_EVENT_APP_ID_MAX \<and>
     length (we_title e) = WINDOW_EVENT_TITLE_MAX"

definition enc_window_event :: "WindowEvent \<Rightarrow> byte list" where
  "enc_window_event e = le32 (we_type e) @ le32 (we_window_id e) @ le32 (we_pid e) @
     we_app_id e @ we_title e"

definition dec_window_event :: "byte list \<Rightarrow> WindowEvent" where
  "dec_window_event bs = \<lparr>we_type = unle32 bs, we_window_id = unle32 (drop 4 bs),
     we_pid = unle32 (drop 8 bs), we_app_id = take 128 (drop 12 bs),
     we_title = take 128 (drop 140 bs)\<rparr>"

interpretation window_event_codec:
  fixed_codec enc_window_event dec_window_event sizeof_WindowEvent wf_window_event
  by unfold_locales (simp_all add: enc_window_event_def dec_window_event_def wf_window_event_def)

record WindowCommand =
  wc_type :: u32
  wc_window_id :: u32

abbreviation (input) sizeof_WindowCommand :: nat where "sizeof_WindowCommand \<equiv> 8"

definition enc_window_command :: "WindowCommand \<Rightarrow> byte list" where
  "enc_window_command c = le32 (wc_type c) @ le32 (wc_window_id c)"

definition dec_window_command :: "byte list \<Rightarrow> WindowCommand" where
  "dec_window_command bs = \<lparr>wc_type = unle32 bs, wc_window_id = unle32 (drop 4 bs)\<rparr>"

interpretation window_command_codec:
  fixed_codec enc_window_command dec_window_command sizeof_WindowCommand "\<lambda>_. True"
  by unfold_locales (simp_all add: enc_window_command_def dec_window_command_def)

lemma length_enc_window_command [simp, codec_simps]: "length (enc_window_command c) = 8"
  by (simp add: enc_window_command_def)

lemma dec_enc_window_command [simp, codec_simps]:
  "dec_window_command (enc_window_command c) = c" "dec_window_command (enc_window_command c @ r) = c"
  using window_command_codec.dec_enc_nil window_command_codec.dec_enc by simp_all

lemma length_enc_window_event [simp, codec_simps]:
  "wf_window_event e \<Longrightarrow> length (enc_window_event e) = 268"
  by (rule window_event_codec.enc_length)

lemma dec_enc_window_event [simp, codec_simps]:
  "wf_window_event e \<Longrightarrow> dec_window_event (enc_window_event e) = e"
  "wf_window_event e \<Longrightarrow> dec_window_event (enc_window_event e @ r) = e"
  using window_event_codec.dec_enc_nil window_event_codec.dec_enc by simp_all

end
