(* ===== verification/Socket_Utils.thy ===== *)
theory Socket_Utils
  imports Protocol
begin

section \<open>Socket helpers (\<open>common/socket_utils.c\<close>)\<close>

text \<open>
  The five helpers every component uses to talk over a socket.  A buffer the C code fills is a
  result here: \<open>recv_all\<close> and \<open>recv_fds\<close> return the bytes they wrote with the code's return
  value.  The theorems: \<open>send_all\<close> puts exactly the given bytes on the stream or fails with a
  proper prefix of them sent; \<open>recv_all\<close> takes exactly the requested number of bytes off the
  stream, however the kernel cuts it, and leaves the rest; both together carry a struct across.
\<close>

definition send_fds :: "fd \<Rightarrow> byte list \<Rightarrow> fd list \<Rightarrow> os \<Rightarrow> (int \<times> os) option" where
  "send_fds sock data fds w = do {
     (n, w) \<leftarrow> sys_sendmsg sock data fds w;
     Some (if n = Ret (length data) then 0 else -1, w)
   }"

text \<open>
  The result is the return value, the bytes written to \<open>data\<close> and the descriptors written to
  \<open>fds\<close> (whose number is \<open>*fds_received\<close>; on a failed call the code leaves that number as the
  caller set it, which is 0 in every call).
\<close>

definition recv_fds :: "fd \<Rightarrow> nat \<Rightarrow> nat \<Rightarrow> os \<Rightarrow> (int \<times> byte list \<times> fd list \<times> os) option" where
  "recv_fds sock data_len fd_count w = do {
     (n, bs, fds, w) \<leftarrow> sys_recvmsg sock data_len fd_count w;
     Some (case n of
        Ret k \<Rightarrow> if k = 0 then (-1, [], [], w) else (int k, bs, take fd_count fds, w)
      | _ \<Rightarrow> (-1, [], [], w))
   }"

definition sun_path_size :: nat where
  "sun_path_size = 108"

definition connect_unix :: "string \<Rightarrow> os \<Rightarrow> fd \<times> os" where
  "connect_unix path w =
     (let (fd, w) = sys_new w in
      if fd < 0 then (-1, w)
      else let (ok, w) = sys_connect fd (take (sun_path_size - 1) path) w in
           if \<not> ok then (-1, sys_close fd w) else (fd, w))"

function send_all :: "fd \<Rightarrow> byte list \<Rightarrow> os \<Rightarrow> (int \<times> os) option" where
  "send_all fd p w =
     (if p = [] then Some (0, w)
      else (case sys_send fd p w of
              None \<Rightarrow> None
            | Some (EINTR, w') \<Rightarrow> send_all fd p w'
            | Some (EFAIL, w') \<Rightarrow> Some (-1, w')
            | Some (Ret n, w') \<Rightarrow> if n = 0 then Some (-1, w') else send_all fd (drop n p) w'))"
  by pat_completeness auto
termination
  by (relation "measure (\<lambda>(fd, p, w). length p + length (txplan w))")
     (auto simp: sys_send_def sys_sendmsg_def push_tx_def Let_def
       split: option.splits list.splits tx.splits if_splits)

declare send_all.simps [simp del]

definition rx_pending :: "fd \<Rightarrow> os \<Rightarrow> nat" where
  "rx_pending f w = (case fd_obj w f of None \<Rightarrow> 0 | Some ob \<Rightarrow> length (rxq w ob))"

lemma sys_recv_pending:
  assumes "sys_recv f len w = Some (r, bs, w')"
  shows "rx_pending f w' \<le> rx_pending f w"
    and "r = EINTR \<Longrightarrow> rx_pending f w' < rx_pending f w"
  using assms
  by (auto simp: sys_recv_def sys_recvmsg_def set_rx_def rx_pending_def Let_def
      split: option.splits list.splits rx.splits if_splits)

function recv_all :: "fd \<Rightarrow> nat \<Rightarrow> os \<Rightarrow> (int \<times> byte list \<times> os) option" where
  "recv_all fd len w =
     (if len = 0 then Some (0, [], w)
      else (case sys_recv fd len w of
              None \<Rightarrow> None
            | Some (EINTR, bs, w') \<Rightarrow> recv_all fd len w'
            | Some (EFAIL, bs, w') \<Rightarrow> Some (-1, [], w')
            | Some (Ret n, bs, w') \<Rightarrow>
                if n = 0 then Some (-1, [], w')
                else map_option (\<lambda>(r, bs', w''). (r, bs @ bs', w'')) (recv_all fd (len - n) w')))"
  by pat_completeness auto
termination
  by (relation "measure (\<lambda>(fd, len, w). len + rx_pending fd w)")
     (auto dest: sys_recv_pending intro: add_less_le_mono)

declare recv_all.simps [simp del]

lemma send_all_Nil [simp]: "send_all f [] w = Some (0, w)"
  by (simp add: send_all.simps)

lemma recv_all_0 [simp]: "recv_all f 0 w = Some (0, [], w)"
  by (simp add: recv_all.simps)

subsection \<open>What a receive queue delivers\<close>

text \<open>
  \<open>rx_data q\<close>: the bytes that can be read before the stream ends or fails; \<open>rx_ended q\<close>: after
  them the stream ends or fails (rather than staying silent); \<open>rx_ok q\<close>: the kernel queues no
  empty chunk; \<open>rx_drop n q\<close>: the queue after \<open>n\<close> bytes were read.
\<close>

fun rx_data :: "rx list \<Rightarrow> byte list" where
  "rx_data [] = []"
| "rx_data (Chunk bs obs # q) = bs @ rx_data q"
| "rx_data (Rx_intr # q) = rx_data q"
| "rx_data (Rx_hup # q) = []"
| "rx_data (Rx_err # q) = []"

fun rx_ended :: "rx list \<Rightarrow> bool" where
  "rx_ended [] = False"
| "rx_ended (Chunk bs obs # q) = rx_ended q"
| "rx_ended (Rx_intr # q) = rx_ended q"
| "rx_ended (Rx_hup # q) = True"
| "rx_ended (Rx_err # q) = True"

definition rx_ok :: "rx list \<Rightarrow> bool" where
  "rx_ok q = list_all (\<lambda>r. case r of Chunk bs obs \<Rightarrow> bs \<noteq> [] | _ \<Rightarrow> True) q"

fun rx_drop :: "nat \<Rightarrow> rx list \<Rightarrow> rx list" where
  "rx_drop 0 q = q"
| "rx_drop (Suc n) [] = []"
| "rx_drop (Suc n) (Chunk bs obs # q) =
     (if length bs \<le> Suc n then rx_drop (Suc n - length bs) q
      else Chunk (drop (Suc n) bs) [] # q)"
| "rx_drop (Suc n) (Rx_intr # q) = rx_drop (Suc n) q"
| "rx_drop (Suc n) (Rx_hup # q) = Rx_hup # q"
| "rx_drop (Suc n) (Rx_err # q) = Rx_err # q"

lemma rx_ok_simps [simp]:
  "rx_ok []" "rx_ok (Chunk bs obs # q) \<longleftrightarrow> bs \<noteq> [] \<and> rx_ok q"
  "rx_ok (Rx_intr # q) = rx_ok q" "rx_ok (Rx_hup # q) = rx_ok q" "rx_ok (Rx_err # q) = rx_ok q"
  by (simp_all add: rx_ok_def)

lemma rx_data_drop: "n \<le> length (rx_data q) \<Longrightarrow> rx_data (rx_drop n q) = drop n (rx_data q)"
  by (induction n q rule: rx_drop.induct) auto

lemma rx_ok_drop: "rx_ok q \<Longrightarrow> rx_ok (rx_drop n q)"
  by (induction n q rule: rx_drop.induct) auto

lemma rx_drop_Chunk_all: "bs \<noteq> [] \<Longrightarrow> rx_drop (length bs) (Chunk bs obs # q) = q"
  by (cases "length bs") auto

lemma rx_drop_Chunk_more:
  "0 < n \<Longrightarrow> length bs \<le> n \<Longrightarrow> rx_drop n (Chunk bs obs # q) = rx_drop (n - length bs) q"
  by (cases n) auto

lemma rx_drop_Chunk_less:
  "0 < n \<Longrightarrow> n < length bs \<Longrightarrow> rx_drop n (Chunk bs obs # q) = Chunk (drop n bs) [] # q"
  by (cases n) auto

lemma rx_drop_intr: "0 < n \<Longrightarrow> rx_drop n (Rx_intr # q) = rx_drop n q"
  by (cases n) auto

lemma set_rx_set_rx [simp]: "set_rx ob q (set_rx ob q' w) = set_rx ob q w"
  by (simp add: set_rx_def)

lemma set_rx_frame [simp, os_simps]:
  "fd_obj (set_rx ob q w) = fd_obj w" "fdtab (set_rx ob q w) = fdtab w"
  "rxq (set_rx ob q w) = (rxq w)(ob := q)" "txq (set_rx ob q w) = txq w"
  "txplan (set_rx ob q w) = txplan w" "polls (set_rx ob q w) = polls w"
  "faults (set_rx ob q w) = faults w" "mem (set_rx ob q w) = mem w"
  "maps (set_rx ob q w) = maps w" "evlog (set_rx ob q w) = evlog w"
  "conns (set_rx ob q w) = conns w" "dialed (set_rx ob q w) = dialed w"
  "pairs (set_rx ob q w) = pairs w" "next_obj (set_rx ob q w) = next_obj w"
  "reports (set_rx ob q w) = reports w"
  by (simp_all add: set_rx_def)

lemma set_rx_same: "rxq w ob = q \<Longrightarrow> set_rx ob q w = w"
  by (auto simp: set_rx_def)

lemma sys_recv_cases:
  assumes "fd_obj w f = Some ob"
  shows "rxq w ob = [] \<Longrightarrow> sys_recv f len w = None"
    and "rxq w ob = Rx_intr # q \<Longrightarrow> sys_recv f len w = Some (EINTR, [], set_rx ob q w)"
    and "rxq w ob = Rx_err # q \<Longrightarrow> sys_recv f len w = Some (EFAIL, [], set_rx ob q w)"
    and "rxq w ob = Rx_hup # q \<Longrightarrow> sys_recv f len w = Some (Ret 0, [], w)"
    and "rxq w ob = Chunk bs obs # q \<Longrightarrow> bs \<noteq> [] \<Longrightarrow> len \<noteq> 0 \<Longrightarrow> sys_recv f len w =
      Some (Ret (min len (length bs)), take len bs,
        set_rx ob (if length bs \<le> len then q else Chunk (drop len bs) [] # q) w)"
  using assms by (simp_all add: sys_recv_def sys_recvmsg_def Let_def min.commute)

subsection \<open>\<open>recv_all\<close>\<close>

lemma recv_all_bad_fd: "fd_obj w f = None \<Longrightarrow> 0 < len \<Longrightarrow> recv_all f len w = Some (-1, [], w)"
  by (subst recv_all.simps) (simp add: sys_recv_def sys_recvmsg_def)

lemma recv_all_enough:
  assumes "fd_obj w f = Some ob" and "rx_ok (rxq w ob)" and "len \<le> length (rx_data (rxq w ob))"
  shows "recv_all f len w =
    Some (0, take len (rx_data (rxq w ob)), set_rx ob (rx_drop len (rxq w ob)) w)"
  using assms
proof (induction f len w rule: recv_all.induct)
  case (1 f len w)
  show ?case
  proof (cases "len = 0")
    case True
    then show ?thesis by (simp add: recv_all.simps set_rx_same)
  next
    case False
    show ?thesis
    proof (cases "rxq w ob")
      case Nil
      with "1.prems" False show ?thesis by simp
    next
      case (Cons r q)
      show ?thesis
      proof (cases r)
        case (Chunk bs obs)
        have bs: "bs \<noteq> []" using "1.prems"(2) Cons Chunk by simp
        note rc = sys_recv_cases(5) [OF "1.prems"(1) Cons [unfolded Chunk] bs False]
        show ?thesis
        proof (cases "length bs \<le> len")
          case True
          let ?w = "set_rx ob q w"
          have "recv_all f (len - length bs) ?w = Some (0, take (len - length bs) (rx_data (rxq ?w ob)),
              set_rx ob (rx_drop (len - length bs) (rxq ?w ob)) ?w)"
            using "1.IH"(1) [OF False rc refl refl refl] "1.prems" Cons Chunk True bs False
            by (simp add: min_absorb2)
          then show ?thesis using False True rc bs Cons Chunk
            by (simp add: recv_all.simps [of f len w] min_absorb2 rx_drop_Chunk_more)
        next
          case short: False
          then show ?thesis using False rc Cons Chunk
            by (simp add: recv_all.simps [of f len w] recv_all.simps [of f 0] rx_drop_Chunk_less)
        qed
      next
        case Rx_intr
        note rc = sys_recv_cases(2) [OF "1.prems"(1) Cons [unfolded Rx_intr], of len]
        have "recv_all f len (set_rx ob q w) =
            Some (0, take len (rx_data q), set_rx ob (rx_drop len q) (set_rx ob q w))"
          using "1.IH"(2) [OF False rc refl refl refl] "1.prems" Cons Rx_intr by simp
        then show ?thesis using False rc Cons Rx_intr
          by (simp add: recv_all.simps [of f len w] rx_drop_intr)
      next
        case Rx_hup
        with "1.prems" Cons False show ?thesis by simp
      next
        case Rx_err
        with "1.prems" Cons False show ?thesis by simp
      qed
    qed
  qed
qed

lemma recv_all_short:
  assumes "fd_obj w f = Some ob" and "rx_ok (rxq w ob)" and "length (rx_data (rxq w ob)) < len"
  shows "if rx_ended (rxq w ob)
         then \<exists>q. recv_all f len w = Some (-1, rx_data (rxq w ob), set_rx ob q w)
         else recv_all f len w = None"
  using assms
proof (induction f len w rule: recv_all.induct)
  case (1 f len w)
  then have len: "len \<noteq> 0" by auto
  show ?case
  proof (cases "rxq w ob")
    case Nil
    then show ?thesis using len "1.prems"
      by (simp add: recv_all.simps [of f len w] sys_recv_cases)
  next
    case (Cons r q)
    show ?thesis
    proof (cases r)
      case (Chunk bs obs)
      have bs: "bs \<noteq> []" and le: "length bs \<le> len"
        using "1.prems"(2,3) Cons Chunk by simp_all
      note rc = sys_recv_cases(5) [OF "1.prems"(1) Cons [unfolded Chunk] bs len]
      have rc': "sys_recv f len w = Some (Ret (length bs), bs, set_rx ob q w)"
        using rc le by (simp add: min_absorb2)
      have "if rx_ended q
         then \<exists>q'. recv_all f (len - length bs) (set_rx ob q w) = Some (-1, rx_data q, set_rx ob q' (set_rx ob q w))
         else recv_all f (len - length bs) (set_rx ob q w) = None"
        using "1.IH"(1) [OF len rc' refl refl refl] "1.prems" Cons Chunk le bs
        by (auto simp: less_diff_conv add.commute split: if_splits)
      then show ?thesis using len rc' bs le Cons Chunk
        by (auto simp add: recv_all.simps [of f len w] min_absorb2 split: if_splits)
    next
      case Rx_intr
      note rc = sys_recv_cases(2) [OF "1.prems"(1) Cons [unfolded Rx_intr], of len]
      show ?thesis
        using "1.IH"(2) [OF len rc refl refl refl] "1.prems" Cons Rx_intr len rc
        by (auto simp: recv_all.simps [of f len w] split: if_splits)
    next
      case Rx_hup
      then show ?thesis using len "1.prems" Cons
        by (auto simp: recv_all.simps [of f len w] sys_recv_cases intro!: exI [of _ "rxq w ob"] set_rx_same [symmetric])
    next
      case Rx_err
      then show ?thesis using len "1.prems" Cons
        by (auto simp: recv_all.simps [of f len w] sys_recv_cases)
    qed
  qed
qed

subsection \<open>\<open>send_all\<close> and \<open>send_fds\<close>\<close>

definition sent_bytes :: "os \<Rightarrow> obj \<Rightarrow> byte list" where
  "sent_bytes w ob = concat (map fst (txq w ob))"

text \<open>
  \<open>sends ob ms w w'\<close>: \<open>w'\<close> is \<open>w\<close> after the messages \<open>ms\<close> were put on the stream of \<open>ob\<close>; beyond
  that only the plan for later sends has moved on.
\<close>

definition sends :: "obj \<Rightarrow> (byte list \<times> obj list) list \<Rightarrow> os \<Rightarrow> os \<Rightarrow> bool" where
  "sends ob ms w w' \<longleftrightarrow>
     (\<exists>p. w' = w\<lparr>txq := (txq w)(ob := txq w ob @ ms), txplan := p\<rparr>)"

lemma sends_refl: "sends ob [] w w"
  unfolding sends_def by (intro exI [of _ "txplan w"]) simp

lemma sends_trans: "sends ob ms w w' \<Longrightarrow> sends ob ms' w' w'' \<Longrightarrow> sends ob (ms @ ms') w w''"
  unfolding sends_def by auto

lemma sends_frame:
  assumes "sends ob ms w w'"
  shows "fd_obj w' = fd_obj w" "fdtab w' = fdtab w" "rxq w' = rxq w" "polls w' = polls w"
    "faults w' = faults w" "mem w' = mem w" "maps w' = maps w" "evlog w' = evlog w"
    "conns w' = conns w" "dialed w' = dialed w" "pairs w' = pairs w" "next_obj w' = next_obj w"
    "reports w' = reports w" "txq w' = (txq w)(ob := txq w ob @ ms)"
  using assms by (auto simp: sends_def)

lemma sends_sent_bytes:
  "sends ob ms w w' \<Longrightarrow> sent_bytes w' ob = sent_bytes w ob @ concat (map fst ms)"
  by (simp add: sent_bytes_def sends_frame)

lemma sends_pushI:
  "sends ob [m] w (push_tx ob m w)"
  "sends ob [m] w (push_tx ob m (w\<lparr>txplan := p\<rparr>))"
  "sends ob [] w (w\<lparr>txplan := p\<rparr>)"
  by (cases w, auto simp: sends_def push_tx_def)+

lemma sys_sendmsg_sends:
  assumes "sys_sendmsg f bs fs w = Some (r, w')" and "fd_obj w f = Some ob" and "bs \<noteq> []"
  shows "case r of
      Ret k \<Rightarrow> k \<le> length bs \<and>
        sends ob (if k = 0 then [] else [(take k bs, map (\<lambda>g. the (fd_obj w g)) fs)]) w w'
    | _ \<Rightarrow> sends ob [] w w'"
  using assms
  by (auto simp: sys_sendmsg_def Let_def min_def intro!: sends_pushI sends_refl
      split: list.splits tx.splits if_splits)

lemma sys_send_sends:
  assumes "sys_send f bs w = Some (r, w')" and "fd_obj w f = Some ob" and "bs \<noteq> []"
  shows "case r of
      Ret k \<Rightarrow> k \<le> length bs \<and> sends ob (if k = 0 then [] else [(take k bs, [])]) w w'
    | _ \<Rightarrow> sends ob [] w w'"
  using sys_sendmsg_sends [of f bs "[]" w r w' ob] assms by (cases r) (auto simp: sys_send_def)

lemma send_all_bad_fd: "fd_obj w f = None \<Longrightarrow> bs \<noteq> [] \<Longrightarrow> send_all f bs w = Some (-1, w)"
  by (subst send_all.simps) (simp add: sys_send_def sys_sendmsg_def)

lemma send_all_result:
  assumes "send_all f bs w = Some (r, w')" and "fd_obj w f = Some ob"
  shows "\<exists>ms. sends ob ms w w' \<and> list_all (\<lambda>m. snd m = []) ms \<and>
      (r = 0 \<and> concat (map fst ms) = bs \<or>
       r = -1 \<and> strict_prefix (concat (map fst ms)) bs)"
  using assms
proof (induction f bs w rule: send_all.induct)
  case (1 f bs w)
  show ?case
  proof (cases "bs = []")
    case True
    with "1.prems" show ?thesis
      by (auto simp: send_all.simps [of f "[]"] intro: exI [of _ "[]"] sends_refl)
  next
    case False
    with "1.prems" obtain x w1 where s: "sys_send f bs w = Some (x, w1)"
      by (auto simp: send_all.simps [of f bs] split: option.splits)
    note ss = sys_send_sends [OF s "1.prems"(2) False]
    show ?thesis
    proof (cases x)
      case (Ret k)
      show ?thesis
      proof (cases "k = 0")
        case True
        with ss s False Ret "1.prems" show ?thesis
          by (auto simp: send_all.simps [of f bs] intro!: exI [of _ "[]"])
      next
        case k: False
        from ss Ret k have s1: "sends ob [(take k bs, [])] w w1" and le: "k \<le> length bs" by auto
        have "send_all f (drop k bs) w1 = Some (r, w')"
          using "1.prems"(1) s False Ret k by (simp add: send_all.simps [of f bs])
        from "1.IH"(1) [OF False s refl Ret k this] s1 "1.prems"(2)
        obtain ms where ms: "sends ob ms w1 w'" "list_all (\<lambda>m. snd m = []) ms"
          "r = 0 \<and> concat (map fst ms) = drop k bs \<or>
           r = -1 \<and> strict_prefix (concat (map fst ms)) (drop k bs)"
          by (auto simp: sends_frame)
        have "sends ob ((take k bs, []) # ms) w w'"
          using sends_trans [OF s1 ms(1)] by simp
        moreover have "r = -1 \<Longrightarrow> r \<noteq> 0 \<Longrightarrow> strict_prefix (take k bs @ concat (map fst ms)) bs"
          using ms(3) by (metis append_take_drop_id same_prefix_prefix strict_prefix_def append_same_eq same_append_eq)
        ultimately show ?thesis using ms(2,3)
          by (intro exI [of _ "(take k bs, []) # ms"]) auto
      qed
    next
      case EINTR
      have "send_all f bs w1 = Some (r, w')"
        using "1.prems"(1) s False EINTR by (simp add: send_all.simps [of f bs])
      from "1.IH"(2) [OF False s refl EINTR this] ss EINTR "1.prems"(2)
      obtain ms where "sends ob ms w1 w'" "list_all (\<lambda>m. snd m = []) ms"
          "r = 0 \<and> concat (map fst ms) = bs \<or>
           r = -1 \<and> strict_prefix (concat (map fst ms)) bs"
        by (auto simp: sends_frame)
      then show ?thesis using ss EINTR sends_trans [of ob "[]" w w1 ms w'] by auto
    next
      case EFAIL
      with ss s False "1.prems" show ?thesis
        by (auto simp: send_all.simps [of f bs] intro!: exI [of _ "[]"])
    qed
  qed
qed

subsection \<open>\<open>recv_fds\<close>\<close>

text \<open>
  Either nothing was received and no descriptor is installed, or the call took the head of the
  chunk at the front of the queue and installed the descriptors that ride on it.
\<close>

lemma recv_fds_cases:
  assumes "recv_fds f len k w = Some (n, bs, fds, w')"
  obtains (fail) "n = -1" "bs = []" "fds = []" "fd_obj w' = fd_obj w" "reports w' = reports w"
      "txq w' = txq w" "maps w' = maps w" "mem w' = mem w"
  | (recv) ob data obs q where "fd_obj w f = Some ob" "rxq w ob = Chunk data obs # q" "data \<noteq> []"
      "0 < len" "bs = take len data" "n = int (length bs)" "0 < n"
      "fds = fst (sys_installs (take k obs) (set_rx ob (if length data \<le> len then q else Chunk (drop len data) [] # q) w))"
      "w' = snd (sys_installs (take k obs) (set_rx ob (if length data \<le> len then q else Chunk (drop len data) [] # q) w))"
proof (cases "\<exists>ob data obs q. fd_obj w f = Some ob \<and> rxq w ob = Chunk data obs # q \<and> data \<noteq> [] \<and> 0 < len")
  case True
  then obtain ob data obs q where *: "fd_obj w f = Some ob" "rxq w ob = Chunk data obs # q" "data \<noteq> []" "0 < len"
    by blast
  show ?thesis
    by (rule recv [OF *]) (use assms * in \<open>auto simp: recv_fds_def sys_recvmsg_def Let_def split_beta min_def split: if_splits\<close>)
next
  case False
  then show ?thesis
    using assms
    by (intro fail) (auto simp: recv_fds_def sys_recvmsg_def Let_def bind_Some_iff
        split: option.splits list.splits rx.splits if_splits)
qed

lemma recv_fds_result:
  assumes "recv_fds f len k w = Some (n, bs, fds, w')"
  shows "distinct fds" "length fds \<le> k" "reports w' = reports w" "length bs \<le> len"
    and "g \<in> set fds \<Longrightarrow> fd_obj w g = None \<and> fd_obj w' g \<noteq> None \<and> 0 \<le> g"
    and "g \<notin> set fds \<Longrightarrow> fd_obj w' g = fd_obj w g"
    and "n \<le> 0 \<Longrightarrow> fds = [] \<and> bs = []" and "n > 0 \<Longrightarrow> int (length bs) = n"
  using assms
  by (cases rule: recv_fds_cases;
      auto simp: distinct_sys_installs fd_obj_installs_old fd_obj_installs_new
        dest: sys_installs_fresh split: if_splits)+

subsection \<open>Frames\<close>

text \<open>
  \<open>keeps w w'\<close>: the call changed neither the descriptor table nor the reports nor the
  mappings: what a call on a socket that installs nothing does.
\<close>

definition keeps :: "os \<Rightarrow> os \<Rightarrow> bool" where
  "keeps w w' \<longleftrightarrow> fd_obj w' = fd_obj w \<and> reports w' = reports w \<and> maps w' = maps w \<and> mem w' = mem w"

lemma keepsD [dest]:
  "keeps w w' \<Longrightarrow> fd_obj w' = fd_obj w" "keeps w w' \<Longrightarrow> reports w' = reports w"
  "keeps w w' \<Longrightarrow> maps w' = maps w" "keeps w w' \<Longrightarrow> mem w' = mem w"
  by (simp_all add: keeps_def)

lemma keeps_refl [simp]: "keeps w w"
  by (simp add: keeps_def)

lemma keeps_trans: "keeps w w' \<Longrightarrow> keeps w' w'' \<Longrightarrow> keeps w w''"
  by (simp add: keeps_def)

lemma sends_keeps: "sends ob ms w w' \<Longrightarrow> keeps w w'"
  by (simp add: keeps_def sends_frame)

lemma send_all_keeps:
  assumes "send_all f bs w = Some (r, w')"
  shows "keeps w w'" and "r = 0 \<or> r = -1"
proof -
  have "keeps w w' \<and> (r = 0 \<or> r = -1)"
  proof (cases "fd_obj w f")
    case None
    then show ?thesis using assms send_all_bad_fd [of w f bs]
      by (cases "bs = []") (auto simp: send_all.simps [of f "[]"])
  next
    case (Some ob)
    with send_all_result [OF assms] show ?thesis by (auto intro: sends_keeps)
  qed
  then show "keeps w w'" "r = 0 \<or> r = -1" by simp_all
qed

lemma send_fds_result:
  assumes "send_fds f bs fs w = Some (r, w')" and "bs \<noteq> []"
  shows "keeps w w'" and "r = 0 \<or> r = -1"
    and "r = 0 \<Longrightarrow> \<exists>ob obs. fd_obj w f = Some ob \<and> map (fd_obj w) fs = map Some obs \<and>
           sends ob [(bs, obs)] w w'"
proof -
  from assms(1) obtain x where x: "sys_sendmsg f bs fs w = Some (x, w')"
    and r: "r = (if x = Ret (length bs) then 0 else -1)"
    by (auto simp: send_fds_def bind_Some_iff)
  show "r = 0 \<or> r = -1" using r by simp
  have "keeps w w' \<and> (r = 0 \<longrightarrow> (\<exists>ob obs. fd_obj w f = Some ob \<and> map (fd_obj w) fs = map Some obs \<and>
           sends ob [(bs, obs)] w w'))"
  proof (cases "fd_obj w f")
    case None
    then show ?thesis using x r by (auto simp: sys_sendmsg_def)
  next
    case (Some ob)
    note ss = sys_sendmsg_sends [OF x Some assms(2)]
    have k: "keeps w w'" using ss by (cases x) (auto intro: sends_keeps)
    have "sends ob [(bs, map (\<lambda>g. the (fd_obj w g)) fs)] w w'" and "\<forall>g \<in> set fs. fd_obj w g \<noteq> None"
      if "r = 0"
      using that x r ss Some assms(2) by (auto simp: sys_sendmsg_def split: if_splits)
    then show ?thesis using k Some
      by (auto intro!: exI [of _ "map (\<lambda>g. the (fd_obj w g)) fs"])
  qed
  then show "keeps w w'" "r = 0 \<Longrightarrow> \<exists>ob obs. fd_obj w f = Some ob \<and> map (fd_obj w) fs = map Some obs \<and>
           sends ob [(bs, obs)] w w'" by simp_all
qed

lemma sys_recv_keeps: "sys_recv f len w = Some (r, bs, w') \<Longrightarrow> keeps w w'"
  by (auto simp: sys_recv_def sys_recvmsg_def keeps_def Let_def
      split: option.splits list.splits rx.splits if_splits)

lemma recv_all_keeps: "recv_all f len w = Some (r, bs, w') \<Longrightarrow> keeps w w' \<and> (r = 0 \<or> r = -1)"
proof (induction f len w arbitrary: r bs w' rule: recv_all.induct)
  case (1 f len w)
  show ?case
  proof (cases "len = 0")
    case True
    with "1.prems" show ?thesis by (simp add: recv_all.simps [of f len w])
  next
    case False
    with "1.prems" obtain x b w1 where s: "sys_recv f len w = Some (x, b, w1)"
      by (auto simp: recv_all.simps [of f len w] split: option.splits)
    have k: "keeps w w1" using s by (rule sys_recv_keeps)
    show ?thesis
    proof (cases x)
      case (Ret n)
      with "1.prems" s False k "1.IH"(1) [OF False s refl Ret refl] show ?thesis
        by (auto simp: recv_all.simps [of f len w] intro: keeps_trans split: if_splits)
    next
      case EINTR
      with "1.prems" s False k "1.IH"(2) [OF False s refl EINTR refl] show ?thesis
        by (auto simp: recv_all.simps [of f len w] intro: keeps_trans)
    next
      case EFAIL
      with "1.prems" s False k show ?thesis
        by (auto simp: recv_all.simps [of f len w])
    qed
  qed
qed

subsection \<open>Sending to a kernel that accepts everything\<close>

lemma push_tx_frame [simp, os_simps]:
  "fd_obj (push_tx ob m w) = fd_obj w" "fdtab (push_tx ob m w) = fdtab w" "rxq (push_tx ob m w) = rxq w"
  "txq (push_tx ob m w) = (txq w)(ob := txq w ob @ [m])" "txplan (push_tx ob m w) = txplan w"
  "polls (push_tx ob m w) = polls w" "faults (push_tx ob m w) = faults w" "mem (push_tx ob m w) = mem w"
  "maps (push_tx ob m w) = maps w" "evlog (push_tx ob m w) = evlog w" "conns (push_tx ob m w) = conns w"
  "dialed (push_tx ob m w) = dialed w" "pairs (push_tx ob m w) = pairs w"
  "next_obj (push_tx ob m w) = next_obj w" "reports (push_tx ob m w) = reports w"
  by (simp_all add: push_tx_def)

lemma keeps_push_tx [simp]: "keeps w (push_tx ob m w)"
  by (simp add: keeps_def)

lemma send_all_now:
  "fd_obj w f = Some ob \<Longrightarrow> txplan w = [] \<Longrightarrow> bs \<noteq> [] \<Longrightarrow> send_all f bs w = Some (0, push_tx ob (bs, []) w)"
  by (simp add: send_all.simps [of f bs] sys_send_def sys_sendmsg_def)

lemma send_fds_now:
  "fd_obj w f = Some ob \<Longrightarrow> txplan w = [] \<Longrightarrow> \<forall>g \<in> set fs. fd_obj w g \<noteq> None \<Longrightarrow>
     send_fds f bs fs w = Some (0, push_tx ob (bs, map (\<lambda>g. the (fd_obj w g)) fs) w)"
  by (simp add: send_fds_def sys_sendmsg_def)

subsection \<open>A header at the front of the queue\<close>

definition after_hdr :: "byte list \<Rightarrow> rx list \<Rightarrow> rx list" where
  "after_hdr data q = (if length data \<le> 8 then q else Chunk (drop 8 data) [] # q)"

lemma recv_fds_chunk:
  "fd_obj w f = Some ob \<Longrightarrow> rxq w ob = Chunk data obs # q \<Longrightarrow> 8 \<le> length data \<Longrightarrow>
     recv_fds f 8 k w =
       (let p = sys_installs (take k obs) (set_rx ob (after_hdr data q) w) in Some (8, take 8 data, take k (fst p), snd p))"
  by (auto simp: recv_fds_def sys_recvmsg_def Let_def split_beta after_hdr_def min_def)

lemma dec_hdr_take [simp]: "dec_hdr (take 8 bs) = dec_hdr bs"
  by (simp add: dec_hdr_def unle32_def drop_take min_def)

lemma rx_ok_after_hdr [simp]: "rx_ok q \<Longrightarrow> rx_ok (after_hdr data q)"
  by (simp add: after_hdr_def)

subsection \<open>Lengths and further frames\<close>

lemma recv_fds_maps: "recv_fds f len k w = Some (n, bs, fds, w') \<Longrightarrow> maps w' = maps w"
  by (erule recv_fds_cases) simp_all

lemma sys_recv_length:
  "sys_recv f len w = Some (Ret k, bs, w') \<Longrightarrow> k = length bs \<and> k \<le> len"
  by (auto simp: sys_recv_def sys_recvmsg_def Let_def split: option.splits list.splits rx.splits if_splits)

lemma recv_all_length: "recv_all f len w = Some (r, bs, w') \<Longrightarrow> length bs \<le> len \<and> (r = 0 \<longrightarrow> length bs = len)"
proof (induction f len w arbitrary: r bs w' rule: recv_all.induct)
  case (1 f len w)
  show ?case
  proof (cases "len = 0")
    case True
    with "1.prems" show ?thesis by simp
  next
    case False
    with "1.prems" obtain x b w1 where s: "sys_recv f len w = Some (x, b, w1)"
      by (auto simp: recv_all.simps [of f len w] split: option.splits)
    show ?thesis
    proof (cases x)
      case (Ret n)
      note L = sys_recv_length [OF s [unfolded Ret]]
      show ?thesis
      proof (cases "n = 0")
        case True
        with "1.prems" s False Ret show ?thesis by (auto simp: recv_all.simps [of f len w])
      next
        case n: False
        with "1.prems" s False Ret obtain bs' where "recv_all f (len - n) w1 = Some (r, bs', w')" "bs = b @ bs'"
          by (auto simp: recv_all.simps [of f len w])
        with "1.IH"(1) [OF False s refl Ret refl n] L show ?thesis by fastforce
      qed
    next
      case EINTR
      with "1.prems" s False "1.IH"(2) [OF False s refl EINTR refl] show ?thesis
        by (simp add: recv_all.simps [of f len w])
    next
      case EFAIL
      with "1.prems" s False show ?thesis by (auto simp: recv_all.simps [of f len w])
    qed
  qed
qed

lemma sys_poll_keeps: "sys_poll fs w = Some (r, w') \<Longrightarrow> keeps w w'"
  by (auto simp: sys_poll_def keeps_def split: list.splits pollres.splits)

lemma sys_peek_keeps: "sys_peek f len w = Some (r, bs, w') \<Longrightarrow> keeps w w'"
  by (auto simp: sys_peek_def keeps_def split: option.splits list.splits rx.splits)

lemma sys_eventfd_keeps:
  "sys_eventfd_read f w = (ok, w') \<Longrightarrow> keeps w w'" "keeps w (sys_eventfd_write f v w)"
  using sys_try_eq [of w]
  by (auto simp: sys_eventfd_read_def sys_eventfd_write_def keeps_def split: prod.splits option.splits)

lemma dec_hdr_append: "8 \<le> length bs \<Longrightarrow> dec_hdr (bs @ r) = dec_hdr bs"
  by (simp add: dec_hdr_def unle32_def)

lemma dec_hdr_take_more: "8 \<le> n \<Longrightarrow> dec_hdr (take n bs) = dec_hdr bs"
  by (simp add: dec_hdr_def unle32_def drop_take min_def)

lemma recv_all_chunk:
  "fd_obj w f = Some ob \<Longrightarrow> rxq w ob = Chunk bs obs # q \<Longrightarrow> bs \<noteq> [] \<Longrightarrow> length bs = n \<Longrightarrow>
     recv_all f n w = Some (0, bs, set_rx ob q w)"
  by (auto simp: recv_all.simps [of f n] sys_recv_cases)

lemma connect_unix_ok:
  assumes "faults w = []"
  shows "\<exists>f t. connect_unix path w = (f, w\<lparr>next_obj := next_obj w + 1, fdtab := t, dialed := dialed w @ [(next_obj w, take 107 path)]\<rparr>) \<and>
     0 \<le> f \<and> fd_obj w f = None \<and> fd_obj (w\<lparr>fdtab := t\<rparr>) = (fd_obj w)(f \<mapsto> next_obj w)"
proof -
  obtain f w1 where i: "sys_install (next_obj w) (w\<lparr>next_obj := next_obj w + 1\<rparr>) = (f, w1)" by fastforce
  note I = sys_installD [OF i]
  then obtain t where t: "w1 = w\<lparr>next_obj := next_obj w + 1, fdtab := t\<rparr>" by auto
  have "connect_unix path w = (f, w1\<lparr>dialed := dialed w @ [(next_obj w, take 107 path)]\<rparr>)"
    using assms i I t by (simp add: connect_unix_def sys_new_def sys_try_def sys_connect_def sun_path_size_def)
  moreover have "fd_obj (w\<lparr>fdtab := t\<rparr>) = fd_obj w1" by (rule fd_obj_fdtab_cong) (simp add: t)
  ultimately show ?thesis using I(1-3) t by (intro exI [of _ f] exI [of _ t]) simp
qed

subsection \<open>Framed messages\<close>

text \<open>
  The contract of a message type of the data and control streams: a header that announces the
  struct, then the struct.  Whoever receives \<open>8 + width\<close> bytes of a stream that starts with such a
  message gets the struct that was sent, and the stream goes on behind it, however the kernel cut
  the bytes into pieces.
\<close>

locale framed = fixed_codec +
  fixes ty :: u32
  assumes width_fits: "width < 2 ^ 32"
begin

definition frame :: "'a \<Rightarrow> byte list" where
  "frame x = enc_hdr (mk_hdr ty (of_nat width)) @ enc x"

lemma frame_length: "wf x \<Longrightarrow> length (frame x) = 8 + width"
  by (simp add: frame_def enc_length)

lemma frame_hdr: "dec_hdr (frame x @ r) = mk_hdr ty (of_nat width)"
  by (simp add: frame_def)

lemma frame_size: "unat (msg_size (dec_hdr (frame x @ r))) = width"
  using width_fits by (simp add: frame_hdr unat_of_nat)

lemma frame_payload: "wf x \<Longrightarrow> dec (drop 8 (frame x @ r)) = x"
  by (simp add: frame_def dec_enc)

lemma frame_unique: "wf x \<Longrightarrow> wf y \<Longrightarrow> frame x @ r = frame y @ s \<Longrightarrow> x = y \<and> r = s"
  using enc_prefix_unique [of x y r s] by (simp add: frame_def)

lemma recv_frame:
  assumes "wf x" and "fd_obj w f = Some ob" and "rx_ok (rxq w ob)" and "rx_data (rxq w ob) = frame x @ rest"
  shows "\<exists>q. recv_all f (8 + width) w = Some (0, frame x, set_rx ob q w) \<and> rx_data q = rest \<and> rx_ok q"
  using recv_all_enough [OF assms(2,3), of "8 + width"] assms(1,4) frame_length [OF assms(1)]
    rx_data_drop [of "8 + width" "rxq w ob"] rx_ok_drop [OF assms(3)]
  by (intro exI [of _ "rx_drop (8 + width) (rxq w ob)"]) simp

end

interpretation input_frame: framed enc_input dec_input sizeof_InputEvent "\<lambda>_. True" DATA_MSG_INPUT_EVENT
  by unfold_locales simp

interpretation command_frame: framed enc_window_command dec_window_command sizeof_WindowCommand "\<lambda>_. True" DATA_MSG_WINDOW_COMMAND
  by unfold_locales simp

interpretation window_frame: framed enc_window_event dec_window_event sizeof_WindowEvent wf_window_event DATA_MSG_WINDOW_EVENT
  by unfold_locales simp

interpretation screen_frame: framed enc_screen dec_screen sizeof_screen_info "\<lambda>_. True" CTRL_MSG_SCREEN_INFO
  by unfold_locales simp

lemma sys_recv_polls: "sys_recv f n w = Some (x, bs, w') \<Longrightarrow> polls w' = polls w"
  by (auto simp: sys_recv_def sys_recvmsg_def Let_def split_beta bind_Some_iff split: if_splits option.splits rx.splits list.splits)

lemma sys_peek_polls: "sys_peek f n w = Some (x, bs, w') \<Longrightarrow> polls w' = polls w"
  by (auto simp: sys_peek_def Let_def split_beta bind_Some_iff split: if_splits option.splits rx.splits list.splits)

lemma recv_all_keeps_field:
  assumes "\<And>f len w x bs w'. sys_recv f len w = Some (x, bs, w') \<Longrightarrow> g w' = g w"
  shows "recv_all f len w = Some (r, bs, w') \<Longrightarrow> g w' = g w"
proof (induction f len w arbitrary: r bs w' rule: recv_all.induct)
  case (1 f len w)
  show ?case
  proof (cases "len = 0")
    case True
    with "1.prems" show ?thesis by simp
  next
    case False
    with "1.prems" obtain x b w1 where s: "sys_recv f len w = Some (x, b, w1)"
      by (auto simp: recv_all.simps [of f len w] split: option.splits)
    then have g: "g w1 = g w" by (rule assms)
    show ?thesis
    proof (cases x)
      case (Ret n)
      show ?thesis
      proof (cases "n = 0")
        case True
        with "1.prems" s False Ret g show ?thesis by (auto simp: recv_all.simps [of f len w])
      next
        case n: False
        with "1.prems" s False Ret obtain bs' where "recv_all f (len - n) w1 = Some (r, bs', w')"
          by (auto simp: recv_all.simps [of f len w])
        with "1.IH"(1) [OF False s refl Ret refl n] g show ?thesis by simp
      qed
    next
      case EINTR
      with "1.prems" s False have "recv_all f len w1 = Some (r, bs, w')" by (auto simp: recv_all.simps [of f len w])
      with "1.IH"(2) [OF False s refl EINTR refl] g show ?thesis by simp
    next
      case EFAIL
      with "1.prems" s False g show ?thesis by (auto simp: recv_all.simps [of f len w])
    qed
  qed
qed

lemma recv_all_polls: "recv_all f n w = Some (r, bs, w') \<Longrightarrow> polls w' = polls w"
  by (rule recv_all_keeps_field [where g = polls]) (auto dest: sys_recv_polls)

end
