(* ===== verification/Daemon.thy ===== *)
theory Daemon
  imports Socket_Utils
begin

section \<open>The display daemon (\<open>daemon/daemon.c\<close>)\<close>

text \<open>
  The daemon introduces one consumer (the Android display) and one producer (the compositor) to
  each other: it keeps the consumer's last screen description and the descriptors it deposited,
  and hands them to the producer on request.  Its static variables are the record \<open>daemon\<close>; the
  \<open>struct client\<close> objects live in \<open>heap\<close>, by address, so that the pointers the code keeps (the
  two static ones and the \<open>data.ptr\<close> of the epoll interest list) can be followed after the object
  was freed: that is reported as \<open>Use_after_free\<close>.
  The second half is the invariant of the event loop (live pointers, open and distinct
  descriptors, flags that agree with the pointers), its preservation by every handler, and what
  each handler does with the descriptors it receives.
\<close>

subsection \<open>State\<close>

type_synonym addr = nat

record client =
  ctrl_fd :: fd
  is_consumer :: bool

record daemon =
  heap :: "addr \<Rightarrow> client option"
  next_addr :: addr
  consumer :: "addr option"
  producer :: "addr option"
  epoll :: "(fd \<times> addr) list"
  running :: bool
  stored_screen :: screen_info
  has_screen_info :: bool
  deposited_fds :: "fd list"  \<comment> \<open>the first \<open>deposited_fd_count\<close> entries of the array\<close>
  producer_waiting_screen :: bool
  producer_waiting_fds :: bool

abbreviation (input) MAX_FDS :: nat where "MAX_FDS \<equiv> 4"

definition zero_screen :: screen_info where
  "zero_screen = \<lparr>si_width = 0, si_height = 0, si_format = 0, si_refresh = 0\<rparr>"

definition daemon_init :: daemon where
  "daemon_init = \<lparr>heap = Map.empty, next_addr = 0, consumer = None, producer = None, epoll = [],
     running = True, stored_screen = zero_screen, has_screen_info = False, deposited_fds = [],
     producer_waiting_screen = False, producer_waiting_fds = False\<rparr>"

subsection \<open>Operations\<close>

definition handle_signal :: "daemon \<Rightarrow> daemon" where
  "handle_signal d = d\<lparr>running := False\<rparr>"

text \<open>Reading \<open>c->ctrl_fd\<close> through a pointer.\<close>

definition client_fd :: "addr \<Rightarrow> daemon \<Rightarrow> os \<Rightarrow> fd \<times> os" where
  "client_fd c d w =
     (case heap d c of
        Some cl \<Rightarrow> (ctrl_fd cl, w)
      | None \<Rightarrow> (-1, report Use_after_free w))"

definition client_free :: "addr option \<Rightarrow> daemon \<Rightarrow> os \<Rightarrow> daemon \<times> os" where
  "client_free p d w =
     (case p of
        None \<Rightarrow> (d, w)
      | Some c \<Rightarrow>
          (let (f, w) = client_fd c d w;
               (d, w) = (if f \<ge> 0
                         then (d\<lparr>epoll := filter (\<lambda>e. fst e \<noteq> f) (epoll d)\<rparr>, sys_close f w)
                         else (d, w))
           in (d\<lparr>heap := (heap d)(c := None)\<rparr>, w)))"

definition clear_deposited_fds :: "daemon \<Rightarrow> os \<Rightarrow> daemon \<times> os" where
  "clear_deposited_fds d w = (d\<lparr>deposited_fds := []\<rparr>, sys_close_all (deposited_fds d) w)"

definition close_received_fds :: "fd list \<Rightarrow> os \<Rightarrow> os" where
  "close_received_fds fds w = sys_close_all fds w"

definition reset_producer_for_screen_change :: "daemon \<Rightarrow> os \<Rightarrow> daemon \<times> os" where
  "reset_producer_for_screen_change d w =
     (if producer d = None then (d, w)
      else let (d, w) = client_free (producer d) d w
           in (d\<lparr>producer := None, producer_waiting_screen := False,
                 producer_waiting_fds := False\<rparr>, w))"

definition send_ctrl :: "fd \<Rightarrow> u32 \<Rightarrow> os \<Rightarrow> (int \<times> os) option" where
  "send_ctrl f type w = send_all f (enc_hdr (mk_hdr type 0)) w"

definition send_screen_info_msg :: "fd \<Rightarrow> daemon \<Rightarrow> os \<Rightarrow> (int \<times> os) option" where
  "send_screen_info_msg f d w =
     send_all f (enc_hdr (mk_hdr CTRL_MSG_SCREEN_INFO 16) @ enc_screen (stored_screen d)) w"

definition try_deliver_fds :: "daemon \<Rightarrow> os \<Rightarrow> (daemon \<times> os) option" where
  "try_deliver_fds d w =
     (case producer d of
        None \<Rightarrow> Some (d\<lparr>producer_waiting_fds := True\<rparr>, w)
      | Some p \<Rightarrow>
          if length (deposited_fds d) < 4 then Some (d\<lparr>producer_waiting_fds := True\<rparr>, w)
          else do {
            let (pf, w) = client_fd p d w;
            (r, w) \<leftarrow> send_fds pf (enc_hdr (mk_hdr CTRL_MSG_FDS_READY 0)) (deposited_fds d) w;
            if r < 0 then Some (d\<lparr>producer_waiting_fds := True\<rparr>, w)
            else do {
              w \<leftarrow> (case consumer d of
                      None \<Rightarrow> Some w
                    | Some c \<Rightarrow> (let (cf, w) = client_fd c d w
                                 in map_option snd (send_ctrl cf CTRL_MSG_FDS_READY w)));
              let w = sys_close_all (deposited_fds d) w;
              Some (d\<lparr>deposited_fds := [], producer_waiting_fds := False\<rparr>, w)
            }
          })"

definition handle_disconnect :: "addr \<Rightarrow> daemon \<Rightarrow> os \<Rightarrow> daemon \<times> os" where
  "handle_disconnect c d w =
     (if consumer d = Some c then
        (let (d, w) = client_free (consumer d) d w in (d\<lparr>consumer := None\<rparr>, w))
      else if producer d = Some c then
        (let (d, w) = client_free (producer d) d w
         in (d\<lparr>producer := None, producer_waiting_screen := False, producer_waiting_fds := False\<rparr>, w))
      else (d, w))"

text \<open>
  The header struct after \<open>recv_fds\<close> wrote \<open>bs\<close> to it.  When fewer than 8 bytes came, the rest of
  the struct was never written; the model reads it as zero and reports it.
\<close>

definition read_hdr :: "byte list \<Rightarrow> os \<Rightarrow> ctrl_msg \<times> os" where
  "read_hdr bs w =
     (if length bs < sizeof_ctrl_msg
      then (dec_hdr (bs @ replicate (sizeof_ctrl_msg - length bs) 0), report Uninit_read w)
      else (dec_hdr bs, w))"

text \<open>The three cases of the \<open>switch\<close> in \<open>handle_client_data\<close>.\<close>

definition on_consumer_hello :: "addr \<Rightarrow> fd list \<Rightarrow> daemon \<Rightarrow> os \<Rightarrow> (daemon \<times> os) option" where
  "on_consumer_hello c fds d w =
     (if consumer d = Some c \<and> length fds \<ge> 3 then do {
        let (d, w) = clear_deposited_fds d w;
        let d = d\<lparr>deposited_fds := fds\<rparr>;
        if producer_waiting_fds d then try_deliver_fds d w else Some (d, w)
      }
      else Some (d, close_received_fds fds w))"

definition on_screen_info :: "addr \<Rightarrow> ctrl_msg \<Rightarrow> byte list \<Rightarrow> fd list \<Rightarrow> daemon \<Rightarrow> os \<Rightarrow> (daemon \<times> os) option" where
  "on_screen_info c hdr payload fds d w = (
     let w = close_received_fds fds w in
     if consumer d = Some c \<and> unat (msg_size hdr) = sizeof_screen_info then do {
       let si = dec_screen payload;
       let (d, w) =
         (if has_screen_info d then
            (if si \<noteq> stored_screen d
             then reset_producer_for_screen_change (d\<lparr>stored_screen := si\<rparr>) w
             else (d, w))
          else (d\<lparr>stored_screen := si, has_screen_info := True\<rparr>, w));
       if producer_waiting_screen d then
         (case producer d of
            None \<Rightarrow> Some (d, w)
          | Some p \<Rightarrow> do {
              let (pf, w) = client_fd p d w;
              (r, w) \<leftarrow> send_screen_info_msg pf d w;
              Some (d\<lparr>producer_waiting_screen := False\<rparr>, w)
            })
       else Some (d, w)
     }
     else Some (d, w))"

definition on_pickup_fds :: "addr \<Rightarrow> fd list \<Rightarrow> daemon \<Rightarrow> os \<Rightarrow> (daemon \<times> os) option" where
  "on_pickup_fds c fds d w = (
     let w = close_received_fds fds w in
     if producer d = Some c then try_deliver_fds d w else Some (d, w))"

definition dispatch_ctrl ::
  "addr \<Rightarrow> ctrl_msg \<Rightarrow> byte list \<Rightarrow> fd list \<Rightarrow> daemon \<Rightarrow> os \<Rightarrow> (daemon \<times> os) option" where
  "dispatch_ctrl c hdr payload fds d w =
     (if msg_type hdr = CTRL_MSG_CONSUMER_HELLO then on_consumer_hello c fds d w
      else if msg_type hdr = CTRL_MSG_SCREEN_INFO then on_screen_info c hdr payload fds d w
      else if msg_type hdr = CTRL_MSG_PICKUP_FDS then on_pickup_fds c fds d w
      else Some (d, close_received_fds fds w))"

text \<open>\<open>handle_client_data\<close> after the header was read: the payload, then the \<open>switch\<close>.\<close>

definition handle_ctrl_msg ::
  "addr \<Rightarrow> fd \<Rightarrow> ctrl_msg \<Rightarrow> fd list \<Rightarrow> daemon \<Rightarrow> os \<Rightarrow> (daemon \<times> os) option" where
  "handle_ctrl_msg c f hdr fds d w =
     (if msg_size hdr > 0 then
        (if unat (msg_size hdr) > sizeof_screen_info then Some (handle_disconnect c d w)
         else do {
           (r, payload, w) \<leftarrow> recv_all f (unat (msg_size hdr)) w;
           if r < 0 then Some (handle_disconnect c d w)
           else dispatch_ctrl c hdr payload fds d w
         })
      else dispatch_ctrl c hdr [] fds d w)"

definition handle_client_data :: "addr \<Rightarrow> daemon \<Rightarrow> os \<Rightarrow> (daemon \<times> os) option" where
  "handle_client_data c d w = do {
     let (f, w) = client_fd c d w;
     (n, bs, fds, w) \<leftarrow> recv_fds f sizeof_ctrl_msg MAX_FDS w;
     if n \<le> 0 then Some (handle_disconnect c d w)
     else do {
       let (hdr, w) = read_hdr bs w;
       handle_ctrl_msg c f hdr fds d w
     }
   }"

text \<open>The two kinds of client a new connection can become, and \<open>handle_new_connection\<close> itself.\<close>

definition on_new_consumer :: "fd \<Rightarrow> addr \<Rightarrow> fd list \<Rightarrow> daemon \<Rightarrow> os \<Rightarrow> (daemon \<times> os) option" where
  "on_new_consumer cf c fds d w = do {
     let (d, w) = client_free (consumer d) d w;
     let d = d\<lparr>heap := (heap d)(c := Some \<lparr>ctrl_fd = cf, is_consumer = True\<rparr>), consumer := Some c\<rparr>;
     let (d, w) = clear_deposited_fds d w;
     let d = d\<lparr>deposited_fds := fds\<rparr>;
     (d, w) \<leftarrow> (if producer_waiting_fds d then try_deliver_fds d w else Some (d, w));
     Some (d\<lparr>epoll := (cf, c) # epoll d\<rparr>, w)
   }"

definition on_new_producer :: "fd \<Rightarrow> addr \<Rightarrow> daemon \<Rightarrow> os \<Rightarrow> (daemon \<times> os) option" where
  "on_new_producer cf c d w = do {
     let (d, w) = client_free (producer d) d w;
     let d = d\<lparr>heap := (heap d)(c := Some \<lparr>ctrl_fd = cf, is_consumer = False\<rparr>), producer := Some c,
               producer_waiting_screen := False, producer_waiting_fds := False\<rparr>;
     (d, w) \<leftarrow> (if has_screen_info d
                then map_option (\<lambda>(r, w). (d, w)) (send_screen_info_msg cf d w)
                else Some (d\<lparr>producer_waiting_screen := True\<rparr>, w));
     Some (d\<lparr>epoll := (cf, c) # epoll d\<rparr>, w)
   }"

definition admit_client :: "fd \<Rightarrow> ctrl_msg \<Rightarrow> fd list \<Rightarrow> daemon \<Rightarrow> os \<Rightarrow> (daemon \<times> os) option" where
  "admit_client cf hdr fds d w = do {
     let (ok, w) = sys_try w;  \<comment> \<open>\<open>calloc\<close>\<close>
     if \<not> ok then Some (d, report Null_deref w)
     else do {
       let c = next_addr d;
       let d = d\<lparr>next_addr := c + 1, heap := (heap d)(c := Some \<lparr>ctrl_fd = cf, is_consumer = False\<rparr>)\<rparr>;
       if msg_type hdr = CTRL_MSG_CONSUMER_HELLO then on_new_consumer cf c fds d w
       else if msg_type hdr = CTRL_MSG_PRODUCER_HELLO then on_new_producer cf c d w
       else Some (d\<lparr>heap := (heap d)(c := None)\<rparr>, sys_close cf (close_received_fds fds w))
     }
   }"

definition handle_new_connection :: "fd \<Rightarrow> daemon \<Rightarrow> os \<Rightarrow> (daemon \<times> os) option" where
  "handle_new_connection listen_fd d w = do {
     (cf, w) \<leftarrow> sys_accept listen_fd w;
     if cf < 0 then Some (d, w)
     else do {
       (n, bs, fds, w) \<leftarrow> recv_fds cf sizeof_ctrl_msg MAX_FDS w;
       if n < int sizeof_ctrl_msg then Some (d, sys_close cf w)
       else admit_client cf (dec_hdr bs) fds d w
     }
   }"

subsection \<open>The event loop\<close>

text \<open>
  One entry of the array \<open>epoll_wait\<close> filled: the listening socket (\<open>data.ptr\<close> is null), or a
  client with the pointer registered for it and whether the event is a hang-up or error.
\<close>

datatype event = Ev_listen | Ev_client addr bool

definition handle_event :: "fd \<Rightarrow> event \<Rightarrow> daemon \<Rightarrow> os \<Rightarrow> (daemon \<times> os) option" where
  "handle_event listen_fd e d w =
     (case e of
        Ev_listen \<Rightarrow> handle_new_connection listen_fd d w
      | Ev_client c hup \<Rightarrow>
          if hup then Some (handle_disconnect c d w) else handle_client_data c d w)"

fun handle_events :: "fd \<Rightarrow> event list \<Rightarrow> daemon \<Rightarrow> os \<Rightarrow> (daemon \<times> os) option" where
  "handle_events listen_fd [] d w = Some (d, w)"
| "handle_events listen_fd (e # es) d w = do {
     (d, w) \<leftarrow> handle_event listen_fd e d w;
     handle_events listen_fd es d w
   }"

text \<open>
  The main loop over what each \<open>epoll_wait\<close> returns (at most 16 events), with a flag for a signal
  that arrived during the wait; the loop ends when \<open>running\<close> is false.
\<close>

fun daemon_loop :: "fd \<Rightarrow> (bool \<times> event list) list \<Rightarrow> daemon \<Rightarrow> os \<Rightarrow> (daemon \<times> os) option" where
  "daemon_loop listen_fd [] d w = Some (d, w)"
| "daemon_loop listen_fd ((sig, es) # bs) d w =
     (if \<not> running d then Some (d, w)
      else do {
        let d = (if sig then handle_signal d else d);
        (d, w) \<leftarrow> handle_events listen_fd es d w;
        daemon_loop listen_fd bs d w
      })"

text \<open>
  \<open>main\<close> up to the loop: the socket, \<open>bind\<close>, \<open>chmod\<close>, \<open>listen\<close> and \<open>epoll_create1\<close>; \<open>None\<close> in
  the result is the error exit.  After the loop everything is released.
\<close>

definition daemon_start :: "os \<Rightarrow> (fd \<times> fd \<times> daemon) option \<times> os" where
  "daemon_start w =
     (let (listen_fd, w) = sys_new w in
      if listen_fd < 0 then (None, w)
      else let (ok, w) = sys_try w in  \<comment> \<open>\<open>bind\<close>\<close>
      if \<not> ok then (None, w)
      else let (ok, w) = sys_try w in  \<comment> \<open>\<open>chmod\<close>\<close>
      if \<not> ok then (None, w)
      else let (ok, w) = sys_try w in  \<comment> \<open>\<open>listen\<close>\<close>
      if \<not> ok then (None, w)
      else let (epoll_fd, w) = sys_new w
           in (Some (listen_fd, epoll_fd, daemon_init), w))"

definition daemon_shutdown :: "fd \<Rightarrow> fd \<Rightarrow> daemon \<Rightarrow> os \<Rightarrow> daemon \<times> os" where
  "daemon_shutdown listen_fd epoll_fd d w =
     (let (d, w) = clear_deposited_fds d w;
          (d, w) = client_free (consumer d) d w;
          (d, w) = client_free (producer d) d w
      in (d, sys_close epoll_fd (sys_close listen_fd w)))"

subsection \<open>The invariant of the event loop\<close>

definition cfds :: "(addr \<Rightarrow> client option) \<Rightarrow> addr option \<Rightarrow> fd list" where
  "cfds h p = (case p of None \<Rightarrow> [] | Some c \<Rightarrow> (case h c of None \<Rightarrow> [] | Some cl \<Rightarrow> [ctrl_fd cl]))"

definition owned :: "daemon \<Rightarrow> fd list" where
  "owned d = cfds (heap d) (consumer d) @ cfds (heap d) (producer d) @ deposited_fds d"

definition ptrs_ok :: "daemon \<Rightarrow> bool" where
  "ptrs_ok d \<longleftrightarrow>
     (\<forall>c. heap d c \<noteq> None \<longleftrightarrow> consumer d = Some c \<or> producer d = Some c) \<and>
     (consumer d = producer d \<longrightarrow> consumer d = None) \<and>
     (\<forall>c cl. heap d c = Some cl \<longrightarrow> c < next_addr d \<and> is_consumer cl = (consumer d = Some c)) \<and>
     (\<forall>f c. (f, c) \<in> set (epoll d) \<longleftrightarrow> map_option ctrl_fd (heap d c) = Some f)"

definition flags_ok :: "daemon \<Rightarrow> bool" where
  "flags_ok d \<longleftrightarrow> length (deposited_fds d) \<le> MAX_FDS \<and>
     (producer_waiting_fds d \<longrightarrow> producer d \<noteq> None) \<and>
     (producer_waiting_screen d \<longrightarrow> producer d \<noteq> None \<and> \<not> has_screen_info d)"

definition fds_ok :: "fd list \<Rightarrow> daemon \<Rightarrow> os \<Rightarrow> bool" where
  "fds_ok X d w \<longleftrightarrow> distinct (X @ owned d) \<and> (\<forall>f \<in> set (X @ owned d). fd_obj w f \<noteq> None)"

definition dinv :: "fd list \<Rightarrow> daemon \<Rightarrow> os \<Rightarrow> bool" where
  "dinv X d w \<longleftrightarrow> ptrs_ok d \<and> flags_ok d \<and> fds_ok X d w"

definition stray :: "fd list \<Rightarrow> daemon \<Rightarrow> os \<Rightarrow> fd set" where
  "stray X d w = dom (fd_obj w) - set (X @ owned d)"

definition dstep :: "fd list \<Rightarrow> daemon \<Rightarrow> os \<Rightarrow> fd list \<Rightarrow> daemon \<Rightarrow> os \<Rightarrow> bool" where
  "dstep X d w X' d' w' \<longleftrightarrow>
     dinv X' d' w' \<and> stray X' d' w' = stray X d w \<and> reports w' = reports w"

lemma dstep_refl: "dinv X d w \<Longrightarrow> dstep X d w X d w"
  by (simp add: dstep_def)

lemma dstep_trans: "dstep X d w X' d' w' \<Longrightarrow> dstep X' d' w' X'' d'' w'' \<Longrightarrow> dstep X d w X'' d'' w''"
  by (simp add: dstep_def)

lemma dstep_dinv: "dstep X d w X' d' w' \<Longrightarrow> dinv X' d' w'"
  by (simp add: dstep_def)

lemma dstep_keeps: "dinv X d w \<Longrightarrow> keeps w w' \<Longrightarrow> dstep X d w X d w'"
  by (auto simp: dstep_def dinv_def fds_ok_def stray_def keeps_def)

lemma owned_simps [simp]:
  "owned (d\<lparr>epoll := e\<rparr>) = owned d" "owned (d\<lparr>stored_screen := s\<rparr>) = owned d"
  "owned (d\<lparr>has_screen_info := b\<rparr>) = owned d" "owned (d\<lparr>producer_waiting_fds := b\<rparr>) = owned d"
  "owned (d\<lparr>producer_waiting_screen := b\<rparr>) = owned d"
  "owned (d\<lparr>next_addr := n\<rparr>) = owned d" "owned (d\<lparr>running := b\<rparr>) = owned d"
  "owned (d\<lparr>deposited_fds := fs\<rparr>) = cfds (heap d) (consumer d) @ cfds (heap d) (producer d) @ fs"
  by (simp_all add: owned_def)

lemma cfds_simps [simp]:
  "cfds h None = []"
  "h c = Some cl \<Longrightarrow> cfds h (Some c) = [ctrl_fd cl]"
  by (simp_all add: cfds_def)

lemma cfds_other [simp]: "p \<noteq> Some c \<Longrightarrow> cfds (h(c := x)) p = cfds h p"
  by (auto simp: cfds_def split: option.splits)

lemma dinv_clientE:
  assumes "dinv X d w" and "consumer d = Some c \<or> producer d = Some c"
  obtains cl ob where "heap d c = Some cl" "fd_obj w (ctrl_fd cl) = Some ob" "0 \<le> ctrl_fd cl"
    "client_fd c d w = (ctrl_fd cl, w)" "ctrl_fd cl \<in> set (owned d)" "ctrl_fd cl \<notin> set X"
proof -
  from assms obtain cl where cl: "heap d c = Some cl"
    unfolding dinv_def ptrs_ok_def by (metis not_None_eq)
  have own: "ctrl_fd cl \<in> set (owned d)" using assms(2) cl by (auto simp: owned_def cfds_def)
  with assms(1) obtain ob where "fd_obj w (ctrl_fd cl) = Some ob"
    by (auto simp: dinv_def fds_ok_def)
  moreover have "ctrl_fd cl \<notin> set X" using own assms(1) by (auto simp: dinv_def fds_ok_def)
  ultimately show ?thesis using cl own by (intro that) (auto simp: client_fd_def dest: fd_obj_SomeD)
qed

text \<open>Releasing descriptors in hand, and taking received descriptors in hand.\<close>

lemma dstep_close:
  assumes "dinv (Y @ X) d w"
  shows "dstep (Y @ X) d w X d (sys_close_all Y w)"
proof -
  have "reports (sys_close_all Y w) = reports w"
    using assms by (intro reports_close_all) (auto simp: dinv_def fds_ok_def)
  moreover have "fds_ok X d (sys_close_all Y w)"
    using assms by (auto simp: dinv_def fds_ok_def fd_obj_close_all)
  moreover have "stray X d (sys_close_all Y w) = stray (Y @ X) d w"
    by (auto simp: stray_def fd_obj_close_all dom_def)
  ultimately show ?thesis using assms by (simp add: dstep_def dinv_def)
qed

lemma dstep_recv_fds:
  assumes "dinv X d w" and "recv_fds f len k w = Some (n, bs, fds, w')"
  shows "dstep X d w (fds @ X) d w'"
proof -
  note r = recv_fds_result [OF assms(2)]
  have fresh: "set fds \<inter> set (X @ owned d) = {}"
    using assms(1) r(5) unfolding dinv_def fds_ok_def by (metis disjoint_iff)
  have "fd_obj w' f \<noteq> None" if "f \<in> set (fds @ X @ owned d)" for f
    using that r(5) [of f] r(6) [of f] assms(1)
    by (cases "f \<in> set fds") (auto simp: dinv_def fds_ok_def)
  then have "fds_ok (fds @ X) d w'"
    using assms(1) r(1) fresh by (auto simp: dinv_def fds_ok_def)
  moreover have "stray (fds @ X) d w' = stray X d w"
    using r(5) r(6) unfolding stray_def dom_def by auto (metis option.distinct(1))+
  ultimately show ?thesis using assms(1) r(3) by (simp add: dstep_def dinv_def)
qed

text \<open>Freeing a client.\<close>

definition forget :: "addr \<Rightarrow> fd \<Rightarrow> daemon \<Rightarrow> daemon" where
  "forget c f d = d\<lparr>epoll := filter (\<lambda>e. fst e \<noteq> f) (epoll d), heap := (heap d)(c := None),
     consumer := (if consumer d = Some c then None else consumer d),
     producer := (if producer d = Some c then None else producer d)\<rparr>"

lemma ptrs_okD:
  assumes "ptrs_ok d"
  shows "heap d c \<noteq> None \<longleftrightarrow> consumer d = Some c \<or> producer d = Some c"
    and "consumer d = Some c \<Longrightarrow> producer d \<noteq> Some c"
    and "heap d c = Some cl \<Longrightarrow> c < next_addr d"
    and "heap d c = Some cl \<Longrightarrow> is_consumer cl = (consumer d = Some c)"
    and "(f, c) \<in> set (epoll d) \<longleftrightarrow> map_option ctrl_fd (heap d c) = Some f"
  using assms unfolding ptrs_ok_def by (blast, metis option.distinct(1), blast+)

lemma ptrs_okI:
  assumes "\<And>c. heap d c \<noteq> None \<longleftrightarrow> consumer d = Some c \<or> producer d = Some c"
    and "\<And>c. consumer d = Some c \<Longrightarrow> producer d \<noteq> Some c"
    and "\<And>c cl. heap d c = Some cl \<Longrightarrow> c < next_addr d"
    and "\<And>c cl. heap d c = Some cl \<Longrightarrow> is_consumer cl = (consumer d = Some c)"
    and "\<And>f c. (f, c) \<in> set (epoll d) \<longleftrightarrow> map_option ctrl_fd (heap d c) = Some f"
  shows "ptrs_ok d"
  using assms unfolding ptrs_ok_def by (metis not_None_eq)

lemma dinv_ctrl_fd_inj:
  assumes "dinv X d w" and "heap d a = Some ca" and "heap d c = Some cl" and "ctrl_fd ca = ctrl_fd cl"
  shows "a = c"
proof (rule ccontr)
  assume "a \<noteq> c"
  have "consumer d = Some a \<and> producer d = Some c \<or> consumer d = Some c \<and> producer d = Some a"
    using ptrs_okD(1) [of d a] ptrs_okD(1) [of d c] assms \<open>a \<noteq> c\<close> by (auto simp: dinv_def)
  with assms show False by (auto simp: dinv_def fds_ok_def owned_def)
qed

lemma ptrs_ok_forget:
  assumes ok: "ptrs_ok d" and cl: "heap d c = Some cl"
    and inj: "\<And>a ca. heap d a = Some ca \<Longrightarrow> ctrl_fd ca = ctrl_fd cl \<Longrightarrow> a = c"
  shows "ptrs_ok (forget c (ctrl_fd cl) d)"
proof (rule ptrs_okI)
  fix a
  show "heap (forget c (ctrl_fd cl) d) a \<noteq> None \<longleftrightarrow>
      consumer (forget c (ctrl_fd cl) d) = Some a \<or> producer (forget c (ctrl_fd cl) d) = Some a"
    using ptrs_okD(1) [OF ok, of a] by (simp add: forget_def del: not_None_eq) auto
next
  fix a
  show "consumer (forget c (ctrl_fd cl) d) = Some a \<Longrightarrow> producer (forget c (ctrl_fd cl) d) \<noteq> Some a"
    using ptrs_okD(2) [OF ok, of a] by (simp add: forget_def split: if_splits)
next
  fix a ca
  assume "heap (forget c (ctrl_fd cl) d) a = Some ca"
  then have "heap d a = Some ca" "a \<noteq> c" by (auto simp: forget_def split: if_splits)
  then show "a < next_addr (forget c (ctrl_fd cl) d)"
    and "is_consumer ca = (consumer (forget c (ctrl_fd cl) d) = Some a)"
    using ptrs_okD(3,4) [OF ok, of a ca] by (auto simp: forget_def)
next
  fix f a
  have "map_option ctrl_fd (heap d a) = Some (ctrl_fd cl) \<longleftrightarrow> a = c"
    using inj [of a] cl by (cases "heap d a") auto
  then show "(f, a) \<in> set (epoll (forget c (ctrl_fd cl) d)) \<longleftrightarrow>
      map_option ctrl_fd (heap (forget c (ctrl_fd cl) d) a) = Some f"
    using ptrs_okD(5) [OF ok, of f a] cl by (cases "a = c") (auto simp: forget_def)
qed

lemma owned_forget:
  assumes "ptrs_ok d" and "heap d c = Some cl"
  shows "set (owned d) = insert (ctrl_fd cl) (set (owned (forget c (ctrl_fd cl) d)))"
    and "distinct (owned d) \<Longrightarrow> distinct (owned (forget c (ctrl_fd cl) d)) \<and>
      ctrl_fd cl \<notin> set (owned (forget c (ctrl_fd cl) d))"
proof -
  have "consumer d = Some c \<and> producer d \<noteq> Some c \<or> producer d = Some c \<and> consumer d \<noteq> Some c"
    using ptrs_okD(1,2) [OF assms(1), of c] assms(2) by auto
  then show "set (owned d) = insert (ctrl_fd cl) (set (owned (forget c (ctrl_fd cl) d)))"
    and "distinct (owned d) \<Longrightarrow> distinct (owned (forget c (ctrl_fd cl) d)) \<and>
      ctrl_fd cl \<notin> set (owned (forget c (ctrl_fd cl) d))"
    using assms(2) by (auto simp: owned_def forget_def)
qed

lemma dstep_free:
  assumes inv: "dinv X d w" and cl: "heap d c = Some cl"
    and d': "d' = (forget c (ctrl_fd cl) d)\<lparr>producer_waiting_screen := ws, producer_waiting_fds := wq\<rparr>"
    and fl: "producer d \<noteq> Some c \<longrightarrow> ws = producer_waiting_screen d \<and> wq = producer_waiting_fds d"
      "producer d = Some c \<longrightarrow> \<not> ws \<and> \<not> wq"
  shows "dstep X d w X d' (sys_close (ctrl_fd cl) w)"
proof -
  have p: "ptrs_ok d" using inv by (simp add: dinv_def)
  have "ptrs_ok (forget c (ctrl_fd cl) d)"
    by (rule ptrs_ok_forget [OF p cl]) (rule dinv_ctrl_fd_inj [OF inv _ cl])
  then have "ptrs_ok d'" by (simp add: d' ptrs_ok_def)
  moreover have "flags_ok d'" using inv fl by (auto simp: dinv_def flags_ok_def d' forget_def)
  moreover have own: "owned d' = owned (forget c (ctrl_fd cl) d)" by (simp add: d')
  moreover have "fds_ok X d' (sys_close (ctrl_fd cl) w)"
    using inv owned_forget [OF p cl] by (auto simp: dinv_def fds_ok_def fd_obj_close own)
  moreover have "stray X d' (sys_close (ctrl_fd cl) w) = stray X d w"
    using inv owned_forget [OF p cl] by (auto simp: dinv_def fds_ok_def stray_def fd_obj_close own dom_def split: if_splits)
  moreover have "reports (sys_close (ctrl_fd cl) w) = reports w"
    using inv owned_forget(1) [OF p cl] by (intro reports_close) (auto simp: dinv_def fds_ok_def)
  ultimately show ?thesis by (simp add: dstep_def dinv_def)
qed

lemma handle_disconnect_dstep:
  assumes "dinv X d w" and "handle_disconnect c d w = (d', w')"
  shows "dstep X d w X d' w'"
proof (cases "consumer d = Some c \<or> producer d = Some c")
  case True
  with assms(1) obtain cl ob where cl: "heap d c = Some cl" "0 \<le> ctrl_fd cl"
      "client_fd c d w = (ctrl_fd cl, w)"
    by (auto elim: dinv_clientE)
  have ex: "consumer d = Some c \<Longrightarrow> producer d \<noteq> Some c"
    using assms(1) ptrs_okD(2) by (auto simp: dinv_def)
  let ?p = "producer d = Some c"
  have "d' = (forget c (ctrl_fd cl) d)\<lparr>producer_waiting_screen := (producer_waiting_screen d \<and> \<not> ?p),
       producer_waiting_fds := (producer_waiting_fds d \<and> \<not> ?p)\<rparr>"
    and "w' = sys_close (ctrl_fd cl) w"
    using assms(2) cl True ex
    by (auto simp: handle_disconnect_def client_free_def forget_def split: if_splits)
  with assms(1) cl(1) show ?thesis by (auto intro!: dstep_free)
next
  case False
  with assms show ?thesis by (auto simp: handle_disconnect_def dstep_refl)
qed

lemma reset_producer_dstep:
  assumes "dinv X d w" and "reset_producer_for_screen_change d w = (d', w')"
  shows "dstep X d w X d' w'" and "producer d' = None" and "\<not> producer_waiting_screen d'"
proof -
  have "dstep X d w X d' w' \<and> producer d' = None \<and> \<not> producer_waiting_screen d'"
  proof (cases "producer d")
    case None
    with assms show ?thesis
      by (auto simp: reset_producer_for_screen_change_def dstep_refl dinv_def flags_ok_def)
  next
    case (Some c)
    with assms(1) obtain cl ob where cl: "heap d c = Some cl" "0 \<le> ctrl_fd cl"
        "client_fd c d w = (ctrl_fd cl, w)"
      by (auto elim: dinv_clientE)
    have "consumer d \<noteq> Some c" using assms(1) Some ptrs_okD(2) by (auto simp: dinv_def)
    with Some cl assms(2) have
      "d' = (forget c (ctrl_fd cl) d)\<lparr>producer_waiting_screen := False, producer_waiting_fds := False\<rparr>"
      "w' = sys_close (ctrl_fd cl) w"
      by (auto simp: reset_producer_for_screen_change_def client_free_def forget_def)
    with assms(1) cl(1) Some show ?thesis by (auto intro!: dstep_free simp: forget_def)
  qed
  then show "dstep X d w X d' w'" "producer d' = None" "\<not> producer_waiting_screen d'" by simp_all
qed

text \<open>Handing the deposited descriptors over, and depositing.\<close>

lemma ptrs_ok_frame [simp]:
  "ptrs_ok (d\<lparr>deposited_fds := fs\<rparr>) = ptrs_ok d" "ptrs_ok (d\<lparr>stored_screen := s\<rparr>) = ptrs_ok d"
  "ptrs_ok (d\<lparr>has_screen_info := b\<rparr>) = ptrs_ok d" "ptrs_ok (d\<lparr>producer_waiting_fds := b\<rparr>) = ptrs_ok d"
  "ptrs_ok (d\<lparr>producer_waiting_screen := b\<rparr>) = ptrs_ok d" "ptrs_ok (d\<lparr>running := b\<rparr>) = ptrs_ok d"
  by (simp_all add: ptrs_ok_def)

lemma dstep_deposit:
  assumes "dinv (fds @ X) d w" and "length fds \<le> MAX_FDS"
  shows "dstep (fds @ X) d w X (d\<lparr>deposited_fds := fds\<rparr>) (sys_close_all (deposited_fds d) w)"
proof -
  have "reports (sys_close_all (deposited_fds d) w) = reports w"
    using assms by (intro reports_close_all) (auto simp: dinv_def fds_ok_def owned_def)
  moreover have "fds_ok X (d\<lparr>deposited_fds := fds\<rparr>) (sys_close_all (deposited_fds d) w)"
    using assms by (auto simp: dinv_def fds_ok_def fd_obj_close_all owned_def)
  moreover have "stray X (d\<lparr>deposited_fds := fds\<rparr>) (sys_close_all (deposited_fds d) w) = stray (fds @ X) d w"
    using assms by (auto simp: stray_def fd_obj_close_all dom_def owned_def dinv_def fds_ok_def split: if_splits)
  ultimately show ?thesis using assms by (auto simp: dstep_def dinv_def flags_ok_def)
qed

lemma dstep_flag_fds:
  "dinv X d w \<Longrightarrow> producer d \<noteq> None \<Longrightarrow> dstep X d w X (d\<lparr>producer_waiting_fds := b\<rparr>) w"
  by (auto simp: dstep_def dinv_def flags_ok_def fds_ok_def stray_def)

lemma try_deliver_fds_dstep:
  assumes inv: "dinv X d w" and p: "producer d \<noteq> None" and r: "try_deliver_fds d w = Some (d', w')"
  shows "dstep X d w X d' w'"
proof -
  from p obtain pp where pp: "producer d = Some pp" by blast
  with inv obtain pcl :: client where pcl: "client_fd pp d w = (ctrl_fd pcl, w)" by (metis dinv_clientE)
  show ?thesis
  proof (cases "length (deposited_fds d) < 4")
    case True
    with r pp inv show ?thesis by (auto simp: try_deliver_fds_def dstep_flag_fds)
  next
    case False
    from r pp pcl False obtain x w1 where s: "send_fds (ctrl_fd pcl) (enc_hdr (mk_hdr CTRL_MSG_FDS_READY 0)) (deposited_fds d) w = Some (x, w1)"
      by (auto simp: try_deliver_fds_def bind_Some_iff)
    have k1: "keeps w w1" using send_fds_result [OF s] by simp
    then have i1: "dstep X d w X d w1" by (rule dstep_keeps [OF inv])
    show ?thesis
    proof (cases "x < 0")
      case True
      with r s pp pcl False have "d' = d\<lparr>producer_waiting_fds := True\<rparr>" "w' = w1"
        by (auto simp: try_deliver_fds_def)
      with dstep_flag_fds [OF dstep_dinv [OF i1] p] i1 show ?thesis by (auto intro: dstep_trans)
    next
      case x: False
      have "\<exists>w2. keeps w1 w2 \<and> d' = d\<lparr>deposited_fds := [], producer_waiting_fds := False\<rparr> \<and>
          w' = sys_close_all (deposited_fds d) w2"
      proof (cases "consumer d")
        case None
        with r s pp pcl False x show ?thesis
          by (auto simp: try_deliver_fds_def intro!: exI [of _ w1])
      next
        case (Some c)
        with dstep_dinv [OF i1] obtain ccl :: client where "client_fd c d w1 = (ctrl_fd ccl, w1)"
          by (metis dinv_clientE)
        with r s pp pcl False x Some show ?thesis
          by (auto simp: try_deliver_fds_def send_ctrl_def bind_Some_iff dest: send_all_keeps(1))
      qed
      then obtain w2 where w2: "keeps w1 w2" "d' = d\<lparr>deposited_fds := [], producer_waiting_fds := False\<rparr>"
          "w' = sys_close_all (deposited_fds d) w2" by blast
      have i2: "dstep X d w X d w2" using dstep_keeps [OF inv keeps_trans [OF k1 w2(1)]] .
      have i3: "dstep X d w2 X (d\<lparr>deposited_fds := []\<rparr>) w'"
        using dstep_deposit [of "[]" X d w2] dstep_dinv [OF i2] w2(3) by simp
      have "dstep X (d\<lparr>deposited_fds := []\<rparr>) w' X d' w'"
        using dstep_flag_fds [OF dstep_dinv [OF i3], of False] p w2(2) by simp
      with i2 i3 show ?thesis by (blast intro: dstep_trans)
    qed
  qed
qed

text \<open>The handlers.\<close>

lemma dstep_close_received:
  "dinv (fds @ X) d w \<Longrightarrow> dstep (fds @ X) d w X d (close_received_fds fds w)"
  unfolding close_received_fds_def by (rule dstep_close)

lemma flags_okD: "dinv X d w \<Longrightarrow> producer_waiting_fds d \<Longrightarrow> producer d \<noteq> None"
  by (simp add: dinv_def flags_ok_def)

lemma on_consumer_hello_dstep:
  assumes inv: "dinv (fds @ X) d w" and len: "length fds \<le> MAX_FDS"
    and r: "on_consumer_hello c fds d w = Some (d', w')"
  shows "dstep (fds @ X) d w X d' w'"
proof (cases "consumer d = Some c \<and> length fds \<ge> 3")
  case True
  let ?d = "d\<lparr>deposited_fds := fds\<rparr>" and ?w = "sys_close_all (deposited_fds d) w"
  have dep: "dstep (fds @ X) d w X ?d ?w" by (rule dstep_deposit [OF inv len])
  show ?thesis
  proof (cases "producer_waiting_fds d")
    case wait: True
    have "dstep X ?d ?w X d' w'"
      by (rule try_deliver_fds_dstep [OF dstep_dinv [OF dep]])
         (use flags_okD [OF inv wait] r True wait in \<open>auto simp: on_consumer_hello_def clear_deposited_fds_def\<close>)
    with dep show ?thesis by (rule dstep_trans)
  next
    case False
    with r True dep show ?thesis by (auto simp: on_consumer_hello_def clear_deposited_fds_def)
  qed
next
  case False
  then have "d' = d" "w' = close_received_fds fds w" using r by (auto simp: on_consumer_hello_def)
  with dstep_close_received [OF inv] show ?thesis by simp
qed

lemma on_pickup_fds_dstep:
  assumes inv: "dinv (fds @ X) d w" and r: "on_pickup_fds c fds d w = Some (d', w')"
  shows "dstep (fds @ X) d w X d' w'"
proof -
  note cl = dstep_close_received [OF inv]
  show ?thesis
  proof (cases "producer d = Some c")
    case True
    have "dstep X d (close_received_fds fds w) X d' w'"
      by (rule try_deliver_fds_dstep [OF dstep_dinv [OF cl]])
         (use r True in \<open>auto simp: on_pickup_fds_def Let_def\<close>)
    with cl show ?thesis by (rule dstep_trans)
  next
    case False
    with r cl show ?thesis by (auto simp: on_pickup_fds_def Let_def)
  qed
qed

lemma dstep_stored_screen:
  "dinv X d w \<Longrightarrow> dstep X d w X (d\<lparr>stored_screen := s\<rparr>) w"
  by (auto simp: dstep_def dinv_def flags_ok_def fds_ok_def stray_def)

lemma dstep_first_screen:
  assumes "dinv X d w" and "\<not> producer_waiting_screen d"
  shows "dstep X d w X (d\<lparr>stored_screen := s, has_screen_info := True\<rparr>) w"
  using assms by (auto simp: dstep_def dinv_def flags_ok_def fds_ok_def stray_def)

lemma dinv_clear_waiting:
  "dinv X (d\<lparr>producer_waiting_screen := False\<rparr>) w \<longleftrightarrow>
     ptrs_ok d \<and> fds_ok X d w \<and> length (deposited_fds d) \<le> MAX_FDS \<and>
     (producer_waiting_fds d \<longrightarrow> producer d \<noteq> None)"
  by (auto simp: dinv_def flags_ok_def fds_ok_def)

lemma on_screen_info_dstep:
  assumes inv: "dinv (fds @ X) d w" and r: "on_screen_info c hdr payload fds d w = Some (d', w')"
  shows "dstep (fds @ X) d w X d' w'"
proof -
  let ?w = "close_received_fds fds w"
  note cl = dstep_close_received [OF inv]
  note ci = dstep_dinv [OF cl]
  consider (no) "\<not> (consumer d = Some c \<and> unat (msg_size hdr) = sizeof_screen_info)"
    | (same) "has_screen_info d" "dec_screen payload = stored_screen d"
    | (change) "consumer d = Some c \<and> unat (msg_size hdr) = sizeof_screen_info"
        "has_screen_info d" "dec_screen payload \<noteq> stored_screen d"
    | (first) "consumer d = Some c \<and> unat (msg_size hdr) = sizeof_screen_info" "\<not> has_screen_info d"
    by blast
  then show ?thesis
  proof cases
    case no
    with r have "d' = d \<and> w' = ?w" by (auto simp: on_screen_info_def Let_def)
    with cl show ?thesis by simp
  next
    case same
    have "\<not> producer_waiting_screen d" using inv same by (auto simp: dinv_def flags_ok_def)
    with r same have "d' = d \<and> w' = ?w" by (auto simp: on_screen_info_def Let_def split: if_splits)
    with cl show ?thesis by simp
  next
    case change
    let ?d = "d\<lparr>stored_screen := dec_screen payload\<rparr>"
    obtain d1 w1 where rp: "reset_producer_for_screen_change ?d ?w = (d1, w1)" by fastforce
    note s = dstep_stored_screen [OF ci, of "dec_screen payload"]
    note rr = reset_producer_dstep [OF dstep_dinv [OF s] rp]
    have "d' = d1" "w' = w1" using r change rp rr(3) by (auto simp: on_screen_info_def Let_def)
    then show ?thesis using cl s rr(1) by (blast intro: dstep_trans)
  next
    case first
    let ?d = "d\<lparr>stored_screen := dec_screen payload, has_screen_info := True\<rparr>"
    show ?thesis
    proof (cases "producer_waiting_screen d")
      case False
      with r first have "d' = ?d" "w' = ?w" by (auto simp: on_screen_info_def Let_def)
      then show ?thesis using dstep_trans [OF cl dstep_first_screen [OF ci False]] by simp
    next
      case True
      then obtain p where p: "producer d = Some p" using inv by (auto simp: dinv_def flags_ok_def)
      with ci obtain pcl :: client where pcl: "client_fd p d ?w = (ctrl_fd pcl, ?w)"
        by (metis dinv_clientE)
      then have "client_fd p ?d ?w = (ctrl_fd pcl, ?w)" by (simp add: client_fd_def)
      with r first True p obtain x where
        s: "send_screen_info_msg (ctrl_fd pcl) ?d ?w = Some (x, w')"
        and d': "d' = ?d\<lparr>producer_waiting_screen := False\<rparr>"
        by (auto simp: on_screen_info_def Let_def bind_Some_iff)
      have k: "keeps ?w w'" using s unfolding send_screen_info_msg_def by (rule send_all_keeps)
      have "dinv X d w'" using dstep_dinv [OF dstep_keeps [OF ci k]] .
      then have "dinv X d' w'" by (auto simp: d' dinv_def flags_ok_def fds_ok_def)
      moreover have "stray X d' w' = stray X d ?w" using k by (simp add: stray_def d' keeps_def)
      ultimately show ?thesis using cl k by (simp add: dstep_def keeps_def)
    qed
  qed
qed

lemma dispatch_ctrl_dstep:
  assumes "dinv (fds @ X) d w" and "length fds \<le> MAX_FDS"
    and "dispatch_ctrl c hdr payload fds d w = Some (d', w')"
  shows "dstep (fds @ X) d w X d' w'"
  using assms on_consumer_hello_dstep on_screen_info_dstep on_pickup_fds_dstep dstep_close_received
  by (auto simp: dispatch_ctrl_def split: if_splits)

text \<open>
  After the header: either every descriptor in hand is accounted for, or the payload was refused
  or cut short and the descriptors that came with the header are left open, owned by nobody.
\<close>

definition payload_bad :: "fd \<Rightarrow> ctrl_msg \<Rightarrow> os \<Rightarrow> bool" where
  "payload_bad f hdr w \<longleftrightarrow>
     unat (msg_size hdr) > sizeof_screen_info \<or>
     (case recv_all f (unat (msg_size hdr)) w of None \<Rightarrow> False | Some (r, p, v) \<Rightarrow> r < 0)"

lemma dinv_drop:
  assumes "dinv (Y @ X) d w"
  shows "dinv X d w" and "stray X d w = stray (Y @ X) d w \<union> set Y"
  using assms by (auto simp: dinv_def fds_ok_def stray_def)

lemma handle_ctrl_msg_ok:
  assumes inv: "dinv (fds @ X) d w" and len: "length fds \<le> MAX_FDS"
    and good: "\<not> payload_bad f hdr w" and r: "handle_ctrl_msg c f hdr fds d w = Some (d', w')"
  shows "dstep (fds @ X) d w X d' w'"
proof (cases "msg_size hdr > 0")
  case False
  with r have "dispatch_ctrl c hdr [] fds d w = Some (d', w')" by (simp add: handle_ctrl_msg_def)
  then show ?thesis by (rule dispatch_ctrl_dstep [OF inv len])
next
  case True
  with good r obtain x p w2 where ra: "recv_all f (unat (msg_size hdr)) w = Some (x, p, w2)"
    and rest: "dispatch_ctrl c hdr p fds d w2 = Some (d', w')"
    by (auto simp: handle_ctrl_msg_def payload_bad_def bind_Some_iff split: if_splits)
  have s: "dstep (fds @ X) d w (fds @ X) d w2"
    using recv_all_keeps [OF ra] by (intro dstep_keeps [OF inv]) simp
  with dispatch_ctrl_dstep [OF dstep_dinv [OF s] len rest] show ?thesis by (blast intro: dstep_trans)
qed

lemma handle_ctrl_msg_bad:
  assumes inv: "dinv (fds @ X) d w" and bad: "payload_bad f hdr w"
    and r: "handle_ctrl_msg c f hdr fds d w = Some (d', w')"
  shows "dinv X d' w'" "stray X d' w' = stray (fds @ X) d w \<union> set fds" "reports w' = reports w"
proof -
  have big: "msg_size hdr > 0"
    using bad by (auto simp: payload_bad_def word_gt_0 intro: ccontr)
  obtain w2 where h: "handle_disconnect c d w2 = (d', w')" and k: "keeps w w2"
  proof (cases "unat (msg_size hdr) > sizeof_screen_info")
    case True
    with r big show ?thesis by (intro that [of w]) (auto simp: handle_ctrl_msg_def)
  next
    case False
    with r big bad obtain x p w2 where "recv_all f (unat (msg_size hdr)) w = Some (x, p, w2)"
      "handle_disconnect c d w2 = (d', w')"
      by (auto simp: handle_ctrl_msg_def payload_bad_def bind_Some_iff)
    then show ?thesis using recv_all_keeps by (intro that) auto
  qed
  have s: "dstep (fds @ X) d w (fds @ X) d w2" by (rule dstep_keeps [OF inv k])
  note drop = dinv_drop [OF dstep_dinv [OF s]]
  from handle_disconnect_dstep [OF drop(1) h] s drop(2)
  show "dinv X d' w'" "stray X d' w' = stray (fds @ X) d w \<union> set fds" "reports w' = reports w"
    by (simp_all add: dstep_def)
qed

lemma dinv_report [simp]: "dinv X d (report r w) = dinv X d w"
  and stray_report [simp]: "stray X d (report r w) = stray X d w"
  by (simp_all add: dinv_def fds_ok_def stray_def)

definition short_hdr :: "byte list \<Rightarrow> report list" where
  "short_hdr bs = (if length bs < sizeof_ctrl_msg then [Uninit_read] else [])"

lemma read_hdr_step:
  "read_hdr bs w = (hdr, w') \<Longrightarrow> fd_obj w' = fd_obj w \<and> reports w' = reports w @ short_hdr bs"
  by (auto simp: read_hdr_def short_hdr_def report_def)

text \<open>
  \<open>handle_client_data\<close> on any input whatsoever: the invariant holds afterwards; the only report
  that can be added is the use of a header that arrived in part; every descriptor that was
  received is kept, closed, or (after a bad payload) leaked.
\<close>

lemma handle_client_data_step:
  assumes inv: "dinv X d w" and c: "consumer d = Some c \<or> producer d = Some c"
    and r: "handle_client_data c d w = Some (d', w')"
  obtains n bs fds w1 where "recv_fds (fst (client_fd c d w)) sizeof_ctrl_msg MAX_FDS w = Some (n, bs, fds, w1)"
    "dinv X d' w'"
    "reports w' = reports w @ (if n \<le> 0 then [] else short_hdr bs)"
    "stray X d' w' = stray X d w \<union>
       (if n > 0 \<and> payload_bad (fst (client_fd c d w)) (fst (read_hdr bs w1)) (snd (read_hdr bs w1))
        then set fds else {})"
proof -
  from inv c obtain cl :: client where cl: "client_fd c d w = (ctrl_fd cl, w)" by (metis dinv_clientE)
  from r cl obtain n bs fds w1 where
    rf: "recv_fds (ctrl_fd cl) sizeof_ctrl_msg MAX_FDS w = Some (n, bs, fds, w1)"
    by (auto simp: handle_client_data_def bind_Some_iff)
  note res = recv_fds_result [OF rf]
  have s1: "dstep X d w (fds @ X) d w1" by (rule dstep_recv_fds [OF inv rf])
  show ?thesis
  proof (cases "n \<le> 0")
    case True
    with r cl rf have "handle_disconnect c d w1 = (d', w')" by (auto simp: handle_client_data_def)
    moreover have "fds = []" using res True by simp
    ultimately have "dstep X d w X d' w'"
      using dstep_trans [OF s1] handle_disconnect_dstep s1 dstep_dinv by fastforce
    then show ?thesis
      using True by (intro that [of n bs fds w1]) (simp_all add: dstep_def cl rf)
  next
    case False
    obtain hdr w2 where rh: "read_hdr bs w1 = (hdr, w2)" by fastforce
    with r cl rf False have rest: "handle_ctrl_msg c (ctrl_fd cl) hdr fds d w2 = Some (d', w')"
      by (auto simp: handle_client_data_def)
    have fd2: "fd_obj w2 = fd_obj w1" "reports w2 = reports w1 @ short_hdr bs"
      using read_hdr_step [OF rh] by simp_all
    then have inv2: "dinv (fds @ X) d w2" and st2: "stray (fds @ X) d w2 = stray X d w"
      using s1 by (auto simp: dstep_def dinv_def fds_ok_def stray_def)
    show ?thesis
    proof (cases "payload_bad (ctrl_fd cl) hdr w2")
      case True
      from handle_ctrl_msg_bad [OF inv2 True rest] show ?thesis
        using False True st2 fd2 res(3) by (intro that [of n bs fds w1]) (simp_all add: cl rf rh)
    next
      case ok: False
      from handle_ctrl_msg_ok [OF inv2 res(2) ok rest] show ?thesis
        using False ok st2 fd2 res(3) by (intro that [of n bs fds w1]) (simp_all add: dstep_def cl rf rh)
    qed
  qed
qed

text \<open>Accepting a connection and registering the client.\<close>

lemma dstep_same_fds:
  "dinv X d w \<Longrightarrow> fd_obj w' = fd_obj w \<Longrightarrow> reports w' = reports w \<Longrightarrow> dstep X d w X d w'"
  by (simp add: dstep_def dinv_def fds_ok_def stray_def)

lemma dstep_accept:
  assumes inv: "dinv X d w" and a: "sys_accept l w = Some (cf, w')" and pos: "cf \<ge> 0"
  shows "dstep X d w (cf # X) d w'"
proof -
  from sys_accept_result [OF a] pos obtain ob obs t where
    n: "fd_obj w cf = None" and o: "fd_obj w' = (fd_obj w)(cf \<mapsto> ob)" and
    w': "w' = w\<lparr>faults := tl (faults w), conns := obs, fdtab := t\<rparr>" by auto
  have "cf \<notin> set (X @ owned d)" using inv n unfolding dinv_def fds_ok_def by metis
  then have "fds_ok (cf # X) d w'" using inv by (auto simp: dinv_def fds_ok_def o)
  moreover have "stray (cf # X) d w' = stray X d w" using n by (auto simp: stray_def o dom_def)
  moreover have "reports w' = reports w" by (simp add: w')
  ultimately show ?thesis using inv by (simp add: dstep_def dinv_def)
qed

definition register_consumer :: "fd \<Rightarrow> daemon \<Rightarrow> daemon" where
  "register_consumer cf d = d\<lparr>next_addr := next_addr d + 1,
     heap := (heap d)(next_addr d := Some \<lparr>ctrl_fd = cf, is_consumer = True\<rparr>),
     consumer := Some (next_addr d), epoll := (cf, next_addr d) # epoll d\<rparr>"

definition register_producer :: "fd \<Rightarrow> daemon \<Rightarrow> daemon" where
  "register_producer cf d = d\<lparr>next_addr := next_addr d + 1,
     heap := (heap d)(next_addr d := Some \<lparr>ctrl_fd = cf, is_consumer = False\<rparr>),
     producer := Some (next_addr d), producer_waiting_screen := \<not> has_screen_info d,
     producer_waiting_fds := False, epoll := (cf, next_addr d) # epoll d\<rparr>"

lemma ptrs_ok_fresh:
  assumes "ptrs_ok d"
  shows "heap d (next_addr d) = None" "consumer d \<noteq> Some (next_addr d)" "producer d \<noteq> Some (next_addr d)"
  using ptrs_okD(1,3) [OF assms, of "next_addr d"] by (cases "heap d (next_addr d)"; auto)+

lemma ptrs_ok_register:
  assumes ok: "ptrs_ok d"
  shows "consumer d = None \<Longrightarrow> ptrs_ok (register_consumer cf d)"
    and "producer d = None \<Longrightarrow> ptrs_ok (register_producer cf d)"
proof -
  note fr = ptrs_ok_fresh [OF ok] and D = ptrs_okD [OF ok]
  have ep: "(f, next_addr d) \<notin> set (epoll d)" for f using D(5) fr(1) by simp
  show "ptrs_ok (register_consumer cf d)" if "consumer d = None"
  proof (rule ptrs_okI)
    fix f c
    show "heap (register_consumer cf d) c \<noteq> None \<longleftrightarrow>
        consumer (register_consumer cf d) = Some c \<or> producer (register_consumer cf d) = Some c"
      using that D(1) [of c] fr by (auto simp: register_consumer_def)
    show "(f, c) \<in> set (epoll (register_consumer cf d)) \<longleftrightarrow>
        map_option ctrl_fd (heap (register_consumer cf d) c) = Some f"
      using D(5) [of f c] ep by (auto simp: register_consumer_def)
  next
    fix c cl assume "heap (register_consumer cf d) c = Some cl"
    then show "c < next_addr (register_consumer cf d)"
      "is_consumer cl = (consumer (register_consumer cf d) = Some c)"
      using that D(3,4) [of c cl] by (auto simp: register_consumer_def split: if_splits)
  qed (use that fr in \<open>auto simp: register_consumer_def\<close>)
  show "ptrs_ok (register_producer cf d)" if "producer d = None"
  proof (rule ptrs_okI)
    fix f c
    show "heap (register_producer cf d) c \<noteq> None \<longleftrightarrow>
        consumer (register_producer cf d) = Some c \<or> producer (register_producer cf d) = Some c"
      using that D(1) [of c] fr by (auto simp: register_producer_def)
    show "(f, c) \<in> set (epoll (register_producer cf d)) \<longleftrightarrow>
        map_option ctrl_fd (heap (register_producer cf d) c) = Some f"
      using D(5) [of f c] ep by (auto simp: register_producer_def)
  next
    fix c cl assume "heap (register_producer cf d) c = Some cl"
    then show "c < next_addr (register_producer cf d)"
      "is_consumer cl = (consumer (register_producer cf d) = Some c)"
      using that fr D(3,4) [of c cl] by (auto simp: register_producer_def split: if_splits)
  qed (use that fr in \<open>auto simp: register_producer_def\<close>)
qed

lemma owned_register:
  assumes ok: "ptrs_ok d"
  shows "consumer d = None \<Longrightarrow> owned (register_consumer cf d) = cf # owned d"
    and "producer d = None \<Longrightarrow> owned (register_producer cf d) =
      cfds (heap d) (consumer d) @ cf # deposited_fds d"
  using ptrs_ok_fresh [OF ok]
  by (auto simp: owned_def register_consumer_def register_producer_def)

lemma dstep_register_consumer:
  assumes inv: "dinv (cf # X) d w" and "consumer d = None"
  shows "dstep (cf # X) d w X (register_consumer cf d) w"
proof -
  have ok: "ptrs_ok d" using inv by (simp add: dinv_def)
  note o = owned_register(1) [OF ok assms(2), of cf]
  have "fds_ok X (register_consumer cf d) w" using inv by (auto simp: dinv_def fds_ok_def o)
  moreover have "stray X (register_consumer cf d) w = stray (cf # X) d w" by (auto simp: stray_def o)
  moreover have "flags_ok (register_consumer cf d)"
    using inv by (simp add: dinv_def flags_ok_def register_consumer_def)
  ultimately show ?thesis using ptrs_ok_register(1) [OF ok assms(2)] by (simp add: dstep_def dinv_def)
qed

lemma dstep_register_producer:
  assumes inv: "dinv (cf # X) d w" and "producer d = None"
  shows "dstep (cf # X) d w X (register_producer cf d) w"
proof -
  have ok: "ptrs_ok d" using inv by (simp add: dinv_def)
  note o = owned_register(2) [OF ok assms(2), of cf]
  have od: "owned d = cfds (heap d) (consumer d) @ deposited_fds d" by (simp add: owned_def assms(2))
  have "fds_ok X (register_producer cf d) w" using inv by (auto simp: dinv_def fds_ok_def o od)
  moreover have "stray X (register_producer cf d) w = stray (cf # X) d w" by (auto simp: stray_def o od)
  moreover have "flags_ok (register_producer cf d)"
    using inv by (simp add: dinv_def flags_ok_def register_producer_def)
  ultimately show ?thesis using ptrs_ok_register(2) [OF ok assms(2)] by (simp add: dstep_def dinv_def)
qed

lemma client_free_heap_other:
  "p \<noteq> Some c \<Longrightarrow> client_free p (d\<lparr>next_addr := n, heap := (heap d)(c := x)\<rparr>) w =
    (let (d', w') = client_free p d w in (d'\<lparr>next_addr := n, heap := (heap d')(c := x)\<rparr>, w'))"
  by (cases p) (auto simp: client_free_def client_fd_def Let_def fun_upd_twist split: option.splits prod.splits)

lemma client_free_frame:
  assumes "client_free p d w = (d', w')"
  shows "next_addr d' = next_addr d" "consumer d' = consumer d" "producer d' = producer d"
    "running d' = running d" "stored_screen d' = stored_screen d" "has_screen_info d' = has_screen_info d"
    "deposited_fds d' = deposited_fds d" "producer_waiting_screen d' = producer_waiting_screen d"
    "producer_waiting_fds d' = producer_waiting_fds d"
  using assms by (auto simp: client_free_def Let_def split: option.splits prod.splits if_splits)

lemma try_deliver_fds_epoll:
  "try_deliver_fds (d\<lparr>epoll := e\<rparr>) w =
     map_option (\<lambda>(d', w'). (d'\<lparr>epoll := e\<rparr>, w')) (try_deliver_fds d w)"
  by (auto simp: try_deliver_fds_def client_fd_def Let_def split: option.splits bind_splits prod.splits)

lemma try_deliver_fds_frame:
  "try_deliver_fds d w = Some (d', w') \<Longrightarrow> epoll d' = epoll d"
  by (auto simp: try_deliver_fds_def bind_Some_iff split_beta split: option.splits if_splits)

lemma dstep_evict_consumer:
  assumes "dinv X d w" and "client_free (consumer d) d w = (d', w')"
  shows "dstep X d w X (d'\<lparr>consumer := None\<rparr>) w'"
proof (cases "consumer d")
  case None
  then have "d'\<lparr>consumer := None\<rparr> = d" using assms(2) by (cases d) (auto simp: client_free_def)
  moreover have "w' = w" using None assms(2) by (simp add: client_free_def)
  ultimately show ?thesis using assms(1) by (simp only: dstep_refl)
next
  case (Some c)
  then have "handle_disconnect c d w = (d'\<lparr>consumer := None\<rparr>, w')"
    using assms(2) by (simp add: handle_disconnect_def)
  with assms(1) show ?thesis by (rule handle_disconnect_dstep)
qed

lemma dstep_evict_producer:
  assumes inv: "dinv X d w" and "client_free (producer d) d w = (d', w')"
  shows "dstep X d w X (d'\<lparr>producer := None, producer_waiting_screen := False, producer_waiting_fds := False\<rparr>) w'"
proof (cases "producer d")
  case None
  then have "\<not> producer_waiting_screen d" "\<not> producer_waiting_fds d"
    using inv by (auto simp: dinv_def flags_ok_def)
  with None have "d'\<lparr>producer := None, producer_waiting_screen := False, producer_waiting_fds := False\<rparr> = d"
    using assms(2) by (cases d) (auto simp: client_free_def)
  moreover have "w' = w" using None assms(2) by (simp add: client_free_def)
  ultimately show ?thesis using assms(1) by (simp only: dstep_refl)
next
  case (Some c)
  have "consumer d \<noteq> Some c" using inv Some ptrs_okD(2) by (auto simp: dinv_def)
  with Some have "handle_disconnect c d w =
      (d'\<lparr>producer := None, producer_waiting_screen := False, producer_waiting_fds := False\<rparr>, w')"
    using assms(2) by (simp add: handle_disconnect_def)
  with inv show ?thesis by (rule handle_disconnect_dstep)
qed

text \<open>A new consumer and a new producer, after the hello was read.\<close>

lemma dstep_new_consumer:
  assumes inv: "dinv (fds @ cf # X) d w" and len: "length fds \<le> MAX_FDS"
    and fr: "client_free (consumer d) d w = (d1, w1)"
    and dl: "(if producer_waiting_fds d then try_deliver_fds d2 w2 else Some (d2, w2)) = Some (d', w')"
    and d2: "d2 = (register_consumer cf (d1\<lparr>consumer := None\<rparr>))\<lparr>deposited_fds := fds\<rparr>"
    and w2: "w2 = sys_close_all (deposited_fds d) w1"
  shows "dstep (fds @ cf # X) d w X d' w'"
proof -
  note f = client_free_frame [OF fr]
  note ev = dstep_evict_consumer [OF inv fr]
  have "dinv (cf # fds @ X) (d1\<lparr>consumer := None\<rparr>) w1"
    using dstep_dinv [OF ev] by (auto simp: dinv_def fds_ok_def)
  note reg = dstep_register_consumer [OF this]
  have s1: "dstep (fds @ cf # X) d w (fds @ X) (register_consumer cf (d1\<lparr>consumer := None\<rparr>)) w1"
    using reg ev by (auto simp: dstep_def stray_def)
  have "deposited_fds (register_consumer cf (d1\<lparr>consumer := None\<rparr>)) = deposited_fds d"
    by (simp add: register_consumer_def f)
  then have s2: "dstep (fds @ cf # X) d w X d2 w2"
    using dstep_trans [OF s1 dstep_deposit [OF dstep_dinv [OF s1] len]] by (simp add: d2 w2)
  show ?thesis
  proof (cases "producer_waiting_fds d")
    case True
    then have "producer d2 \<noteq> None" using flags_okD [OF inv] by (simp add: d2 register_consumer_def f)
    with True dl s2 show ?thesis by (auto intro: dstep_trans try_deliver_fds_dstep dstep_dinv)
  next
    case False
    with dl s2 show ?thesis by simp
  qed
qed

lemma dstep_new_producer:
  assumes inv: "dinv (cf # X) d w" and fr: "client_free (producer d) d w = (d1, w1)"
    and k: "keeps w1 w'"
  shows "dstep (cf # X) d w X (register_producer cf (d1\<lparr>producer := None, producer_waiting_screen := False,
     producer_waiting_fds := False\<rparr>)) w'"
proof -
  note ev = dstep_evict_producer [OF inv fr]
  note reg = dstep_trans [OF ev dstep_register_producer [OF dstep_dinv [OF ev]]]
  show ?thesis using dstep_trans [OF reg dstep_keeps [OF dstep_dinv [OF reg] k]] by simp
qed

lemma on_new_consumer_eq:
  assumes ne: "consumer d \<noteq> Some (next_addr d)" and fr: "client_free (consumer d) d w = (d1, w1)"
    and d2: "d2 = (register_consumer cf (d1\<lparr>consumer := None\<rparr>))\<lparr>deposited_fds := fds\<rparr>"
    and w2: "w2 = sys_close_all (deposited_fds d) w1"
  shows "on_new_consumer cf (next_addr d) fds (d\<lparr>next_addr := Suc (next_addr d),
        heap := (heap d)(next_addr d := Some \<lparr>ctrl_fd = cf, is_consumer = False\<rparr>)\<rparr>) w =
     (if producer_waiting_fds d then try_deliver_fds d2 w2 else Some (d2, w2))"
proof -
  note f = client_free_frame [OF fr]
  have e: "d2\<lparr>epoll := epoll d1\<rparr> = d1\<lparr>next_addr := next_addr d + 1,
      heap := (heap d1)(next_addr d := Some \<lparr>ctrl_fd = cf, is_consumer = True\<rparr>),
      consumer := Some (next_addr d), deposited_fds := fds\<rparr>"
    by (simp add: d2 register_consumer_def f)
  have ep: "epoll d2 = (cf, next_addr d) # epoll d1" by (simp add: d2 register_consumer_def f)
  have same: "x\<lparr>epoll := epoll x\<rparr> = x" for x :: daemon by simp
  have "on_new_consumer cf (next_addr d) fds (d\<lparr>next_addr := Suc (next_addr d),
        heap := (heap d)(next_addr d := Some \<lparr>ctrl_fd = cf, is_consumer = False\<rparr>)\<rparr>) w =
      do { (d, w) \<leftarrow> (if producer_waiting_fds d then try_deliver_fds (d2\<lparr>epoll := epoll d1\<rparr>) w2
                      else Some (d2\<lparr>epoll := epoll d1\<rparr>, w2));
           Some (d\<lparr>epoll := (cf, next_addr d1) # epoll d\<rparr>, w) }"
    by (simp add: on_new_consumer_def client_free_heap_other [OF ne] ne fr f clear_deposited_fds_def e w2)
  also have "\<dots> = (if producer_waiting_fds d then try_deliver_fds d2 w2 else Some (d2, w2))"
    using try_deliver_fds_frame [of d2 w2] ep f(1) same [of d2]
    by (auto simp: try_deliver_fds_epoll split: option.split bind_split)
  finally show ?thesis .
qed

lemma on_new_producer_eq:
  assumes ne: "producer d \<noteq> Some (next_addr d)" and fr: "client_free (producer d) d w = (d1, w1)"
    and d2: "d2 = register_producer cf (d1\<lparr>producer := None, producer_waiting_screen := False,
       producer_waiting_fds := False\<rparr>)"
  shows "on_new_producer cf (next_addr d) (d\<lparr>next_addr := Suc (next_addr d),
        heap := (heap d)(next_addr d := Some \<lparr>ctrl_fd = cf, is_consumer = False\<rparr>)\<rparr>) w =
     map_option (\<lambda>w. (d2, w)) (if has_screen_info d then map_option snd (send_screen_info_msg cf d w1) else Some w1)"
proof -
  note f = client_free_frame [OF fr]
  have s: "send_screen_info_msg cf x w1 = send_all cf (enc_hdr (mk_hdr CTRL_MSG_SCREEN_INFO 16) @ enc_screen (stored_screen x)) w1" for x
    by (simp add: send_screen_info_msg_def)
  show ?thesis
    by (cases "has_screen_info d")
       (simp_all add: on_new_producer_def client_free_heap_other [OF ne] ne fr f d2 register_producer_def s
        option.map_comp o_def split_beta map_conv_bind_option)
qed

text \<open>The rest of the handler: what becomes of a connection whose first message was read.\<close>

lemma admit_client_step:
  assumes inv: "dinv (fds @ cf # X) d w" and len: "length fds \<le> MAX_FDS"
    and r: "admit_client cf hdr fds d w = Some (d', w')" and t: "sys_try w = (ok, w1)"
  shows "dinv X d' w'"
    "stray X d' w' = stray (fds @ cf # X) d w \<union>
       (if \<not> ok then insert cf (set fds) else if msg_type hdr = CTRL_MSG_PRODUCER_HELLO then set fds else {})"
    "reports w' = reports w @ (if ok then [] else [Null_deref])"
proof -
  have w1: "fd_obj w1 = fd_obj w" "reports w1 = reports w" using sys_tryD [OF t] by simp_all
  have s1: "dstep (fds @ cf # X) d w (fds @ cf # X) d w1"
    using inv w1 by (rule dstep_same_fds)
  note i1 = dstep_dinv [OF s1]
  note fresh = ptrs_ok_fresh [of d]
  have ok: "ptrs_ok d" using inv by (simp add: dinv_def)
  have "dinv X d' w' \<and> stray X d' w' = stray (fds @ cf # X) d w \<union>
       (if \<not> ok then insert cf (set fds) else if msg_type hdr = CTRL_MSG_PRODUCER_HELLO then set fds else {}) \<and>
    reports w' = reports w @ (if ok then [] else [Null_deref])"
  proof (cases ok)
    case False
    with r t have d': "d' = d" "w' = report Null_deref w1" by (auto simp: admit_client_def)
    have i: "dinv ((fds @ [cf]) @ X) d w1" using i1 by simp
    have "reports w' = reports w @ [Null_deref]" using s1 by (simp add: d' report_def dstep_def)
    then show ?thesis using dinv_drop [OF i] s1 False by (simp add: d' dstep_def)
  next
    case True
    consider (cons) "msg_type hdr = CTRL_MSG_CONSUMER_HELLO"
      | (prod) "msg_type hdr = CTRL_MSG_PRODUCER_HELLO"
      | (other) "msg_type hdr \<noteq> CTRL_MSG_CONSUMER_HELLO" "msg_type hdr \<noteq> CTRL_MSG_PRODUCER_HELLO" by blast
    then show ?thesis
    proof cases
      case cons
      obtain d2 w2 where fr: "client_free (consumer d) d w1 = (d2, w2)" by fastforce
      from r t True cons have "dstep (fds @ cf # X) d w1 X d' w'"
        unfolding admit_client_def Let_def
        by (simp add: on_new_consumer_eq [OF fresh(2) [OF ok] fr refl refl])
           (rule dstep_new_consumer [OF i1 len fr _ refl refl], simp)
      with dstep_trans [OF s1] True cons show ?thesis by (simp add: dstep_def)
    next
      case prod
      note dr = dinv_drop [OF i1]
      obtain d2 w2 where fr: "client_free (producer d) d w1 = (d2, w2)" by fastforce
      from r t True prod obtain w3 where k: "keeps w2 w'" and d': "d' = register_producer cf (d2\<lparr>producer := None,
          producer_waiting_screen := False, producer_waiting_fds := False\<rparr>)"
        unfolding admit_client_def Let_def
        by (auto simp: on_new_producer_eq [OF fresh(3) [OF ok] fr refl] send_screen_info_msg_def
            dest: send_all_keeps(1) split: if_splits)
      have "dstep (cf # X) d w1 X d' w'" unfolding d' by (rule dstep_new_producer [OF dr(1) fr k])
      with s1 dr(2) True prod show ?thesis by (simp add: dstep_def)
    next
      case other
      have i: "dinv ((fds @ [cf]) @ X) d w1" using i1 by simp
      have "d' = d\<lparr>next_addr := next_addr d + 1\<rparr>" "w' = sys_close_all (fds @ [cf]) w1"
        using r t True other fresh(1) [OF ok]
        by (auto simp: admit_client_def Let_def close_received_fds_def fun_upd_idem)
      moreover have "ptrs_ok (d\<lparr>next_addr := next_addr d + 1\<rparr>)"
        using ptrs_okD [OF ok] by (intro ptrs_okI) (auto intro: less_SucI)
      ultimately show ?thesis using dstep_close [OF i] s1 True other
        by (auto simp: dstep_def dinv_def flags_ok_def fds_ok_def stray_def)
    qed
  qed
  then show "dinv X d' w'"
    "stray X d' w' = stray (fds @ cf # X) d w \<union>
       (if \<not> ok then insert cf (set fds) else if msg_type hdr = CTRL_MSG_PRODUCER_HELLO then set fds else {})"
    "reports w' = reports w @ (if ok then [] else [Null_deref])" by simp_all
qed

lemma handle_new_connection_step:
  assumes inv: "dinv X d w" and r: "handle_new_connection l d w = Some (d', w')"
  shows "dinv X d' w'" "stray X d w \<subseteq> stray X d' w'"
    "reports w' = reports w \<or> reports w' = reports w @ [Null_deref]"
proof -
  from r obtain cf w1 where a: "sys_accept l w = Some (cf, w1)"
    by (auto simp: handle_new_connection_def bind_Some_iff)
  have "dinv X d' w' \<and> stray X d w \<subseteq> stray X d' w' \<and>
    (reports w' = reports w \<or> reports w' = reports w @ [Null_deref])"
  proof (cases "cf < 0")
    case True
    with r a have "d' = d" "w' = w1" by (auto simp: handle_new_connection_def)
    moreover have "fd_obj w1 = fd_obj w" "reports w1 = reports w"
      using sys_accept_result [OF a] True by auto
    ultimately have "dstep X d w X d' w'" using dstep_same_fds [OF inv, of w1] by simp
    then show ?thesis by (simp add: dstep_def)
  next
    case False
    with r a obtain n bs fds w2 where rf: "recv_fds cf sizeof_ctrl_msg MAX_FDS w1 = Some (n, bs, fds, w2)"
      by (auto simp: handle_new_connection_def bind_Some_iff)
    have s1: "dstep X d w (cf # X) d w1" using dstep_accept [OF inv a] False by simp
    note s2 = dstep_trans [OF s1 dstep_recv_fds [OF dstep_dinv [OF s1] rf]]
    show ?thesis
    proof (cases "n < int sizeof_ctrl_msg")
      case True
      with r a False rf have d': "d' = d" "w' = sys_close cf w2" by (auto simp: handle_new_connection_def)
      note dr = dinv_drop [of fds "cf # X", OF dstep_dinv [OF s2]]
      have "dstep (cf # X) d w2 X d w'" using dstep_close [of "[cf]" X d w2] dr(1) d' by simp
      then have "dinv X d w'" "stray X d w' = stray X d w \<union> set fds" "reports w' = reports w"
        using s2 dr by (simp_all add: dstep_def)
      then show ?thesis by (simp add: d'(1))
    next
      case n: False
      with r a False rf have ad: "admit_client cf (dec_hdr bs) fds d w2 = Some (d', w')"
        by (auto simp: handle_new_connection_def)
      obtain ok w3 where t: "sys_try w2 = (ok, w3)" by fastforce
      from admit_client_step [OF dstep_dinv [OF s2] recv_fds_result(2) [OF rf] ad t] s2
      show ?thesis by (auto simp: dstep_def)
    qed
  qed
  then show "dinv X d' w'" "stray X d w \<subseteq> stray X d' w'"
    "reports w' = reports w \<or> reports w' = reports w @ [Null_deref]" by simp_all
qed

text \<open>
  A whole hello: a consumer's connection leaves no descriptor without an owner; a producer's
  leaves open those that a misbehaving producer attached to its hello.
\<close>

lemma handle_new_connection_clean:
  assumes inv: "dinv X d w" and r: "handle_new_connection l d w = Some (d', w')"
    and a: "sys_accept l w = Some (cf, w1)" "cf \<ge> 0"
    and rf: "recv_fds cf sizeof_ctrl_msg MAX_FDS w1 = Some (n, bs, fds, w2)" "n \<ge> int sizeof_ctrl_msg"
    and ok: "fst (sys_try w2)" and h: "msg_type (dec_hdr bs) \<noteq> CTRL_MSG_PRODUCER_HELLO \<or> fds = []"
  shows "dstep X d w X d' w'"
proof -
  note s1 = dstep_accept [OF inv a]
  note s2 = dstep_trans [OF s1 dstep_recv_fds [OF dstep_dinv [OF s1] rf(1)]]
  have ad: "admit_client cf (dec_hdr bs) fds d w2 = Some (d', w')"
    using r a rf by (auto simp: handle_new_connection_def)
  obtain w3 where t: "sys_try w2 = (True, w3)" using ok by (cases "sys_try w2") auto
  from admit_client_step [OF dstep_dinv [OF s2] recv_fds_result(2) [OF rf(1)] ad t] s2 h
  show ?thesis by (auto simp: dstep_def)
qed

subsection \<open>Any sequence of events\<close>

text \<open>
  One turn of the loop in which \<open>epoll_wait\<close> returned one event: a connection, or a client that
  is in the interest list at that moment.
\<close>

definition live_event :: "daemon \<Rightarrow> event \<Rightarrow> bool" where
  "live_event d e = (case e of Ev_listen \<Rightarrow> True | Ev_client c hup \<Rightarrow> c \<in> snd ` set (epoll d))"

inductive daemon_reach :: "fd \<Rightarrow> daemon \<Rightarrow> os \<Rightarrow> daemon \<Rightarrow> os \<Rightarrow> bool" for l where
  start: "daemon_reach l d w d w"
| event: "daemon_reach l d w d1 w1 \<Longrightarrow> live_event d1 e \<Longrightarrow> handle_event l e d1 w1 = Some (d2, w2) \<Longrightarrow>
    daemon_reach l d w d2 w2"
| outside: "daemon_reach l d w d1 w1 \<Longrightarrow> fd_obj w2 = fd_obj w1 \<Longrightarrow> reports w2 = reports w1 \<Longrightarrow>
    daemon_reach l d w d1 w2"
| sigterm: "daemon_reach l d w d1 w1 \<Longrightarrow> daemon_reach l d w (handle_signal d1) w1"

lemma live_client: "dinv X d w \<Longrightarrow> c \<in> snd ` set (epoll d) \<Longrightarrow> consumer d = Some c \<or> producer d = Some c"
  using ptrs_okD(1,5) [of d] by (force simp: dinv_def)

definition benign :: "report \<Rightarrow> bool" where
  "benign r = (r = Uninit_read \<or> r = Null_deref)"

lemma handle_event_step:
  assumes inv: "dinv X d w" and live: "live_event d e" and r: "handle_event l e d w = Some (d', w')"
  shows "dinv X d' w'" "stray X d w \<subseteq> stray X d' w'" "\<exists>rs. reports w' = reports w @ rs \<and> list_all benign rs"
proof -
  have "dinv X d' w' \<and> stray X d w \<subseteq> stray X d' w' \<and> (\<exists>rs. reports w' = reports w @ rs \<and> list_all benign rs)"
  proof (cases e)
    case Ev_listen
    with r have "handle_new_connection l d w = Some (d', w')" by (simp add: handle_event_def)
    note h = handle_new_connection_step [OF inv this]
    have "\<exists>rs. reports w' = reports w @ rs \<and> list_all benign rs"
      using h(3) by (elim disjE) (auto simp: benign_def)
    with h show ?thesis by simp
  next
    case (Ev_client c hup)
    show ?thesis
    proof (cases hup)
      case True
      with r Ev_client have "handle_disconnect c d w = (d', w')" by (simp add: handle_event_def)
      from handle_disconnect_dstep [OF inv this] show ?thesis by (simp add: dstep_def)
    next
      case False
      with r Ev_client have h: "handle_client_data c d w = Some (d', w')" by (simp add: handle_event_def)
      have "consumer d = Some c \<or> producer d = Some c"
        using live_client [OF inv] live Ev_client by (simp add: live_event_def)
      from handle_client_data_step [OF inv this h] obtain n bs S where
        "dinv X d' w'" "reports w' = reports w @ (if n \<le> (0::int) then [] else short_hdr bs)"
        "stray X d' w' = stray X d w \<union> S" by metis
      then show ?thesis by (auto simp: short_hdr_def benign_def)
    qed
  qed
  then show "dinv X d' w'" "stray X d w \<subseteq> stray X d' w'" "\<exists>rs. reports w' = reports w @ rs \<and> list_all benign rs"
    by simp_all
qed

lemma daemon_reach_inv:
  assumes "daemon_reach l d w d' w'" and "dinv X d w"
  shows "dinv X d' w'" and "\<exists>rs. reports w' = reports w @ rs \<and> list_all benign rs"
  using assms
proof (induction rule: daemon_reach.induct)
  case (event d w d1 w1 e d2 w2)
  { case 1
    then show ?case using event handle_event_step(1) by blast
  next
    case 2
    with event handle_event_step(3) [OF event.IH(1) event.hyps(2,3)] show ?case by force }
next
  case (outside d w d1 w1 w2)
  { case 1
    then show ?case using outside dstep_same_fds dstep_dinv by metis
  next
    case 2
    with outside show ?case by simp }
next
  case (sigterm d w d1 w1)
  { case 1
    then show ?case using sigterm by (auto simp: handle_signal_def dinv_def flags_ok_def fds_ok_def)
  next
    case 2
    with sigterm show ?case by simp }
qed auto

end
