(* ===== verification/Daemon_Spec.thy ===== *)
theory Daemon_Spec
  imports Daemon
begin

section \<open>The daemon as a rendezvous\<close>

text \<open>
  What the daemon promises to its two clients, as a machine over sockets and objects without
  descriptors, heap or interest list, and the proof that the handlers of \<open>Daemon\<close> implement it:
  whenever the kernel accepts what is sent, each handler returns, keeps the invariant, moves to
  the state the specification says and sends exactly the messages it says.  The theory ends with
  the properties of whole runs: shutdown, the events of one \<open>epoll_wait\<close>, and the cases in which
  the code does not do what it should.
\<close>

subsection \<open>Shutdown\<close>

lemma client_free_consumer_frame:
  "client_free p (d\<lparr>consumer := x\<rparr>) w = (let (d', w') = client_free p d w in (d'\<lparr>consumer := x\<rparr>, w'))"
  by (cases p) (auto simp: client_free_def client_fd_def Let_def split: option.splits prod.splits)

lemma daemon_shutdown_step:
  assumes inv: "dinv [l, e] d w" and r: "daemon_shutdown l e d w = (d', w')"
  shows "dom (fd_obj w') = stray [l, e] d w" "reports w' = reports w"
proof -
  let ?d1 = "d\<lparr>deposited_fds := []\<rparr>" and ?w1 = "sys_close_all (deposited_fds d) w"
  have s1: "dstep [l, e] d w [l, e] ?d1 ?w1" using dstep_deposit [of "[]" "[l, e]" d w] inv by simp
  obtain d2 w2 where f2: "client_free (consumer ?d1) ?d1 ?w1 = (d2, w2)" by fastforce
  note s2 = dstep_trans [OF s1 dstep_evict_consumer [OF dstep_dinv [OF s1] f2]]
  obtain d3 w3 where f3: "client_free (producer d2) d2 w2 = (d3, w3)" by fastforce
  have f3': "client_free (producer (d2\<lparr>consumer := None\<rparr>)) (d2\<lparr>consumer := None\<rparr>) w2 = (d3\<lparr>consumer := None\<rparr>, w3)"
    by (simp add: client_free_consumer_frame f3)
  note s3 = dstep_trans [OF s2 dstep_evict_producer [OF dstep_dinv [OF s2] f3']]
  let ?d4 = "d3\<lparr>consumer := None, producer := None, producer_waiting_screen := False, producer_waiting_fds := False\<rparr>"
  have i: "dinv ([l, e] @ []) ?d4 w3" using dstep_dinv [OF s3] by simp
  note s4 = dstep_close [OF i]
  have w': "w' = sys_close_all [l, e] w3"
    using r f2 f3 by (simp add: daemon_shutdown_def clear_deposited_fds_def)
  have "owned ?d4 = []"
    using client_free_frame(7) [OF f2] client_free_frame(7) [OF f3] by (simp add: owned_def)
  then have "dom (fd_obj w') = stray [] ?d4 w'" by (simp add: stray_def)
  with s3 s4 show "dom (fd_obj w') = stray [l, e] d w" "reports w' = reports w"
    by (simp_all add: dstep_def w')
qed

subsection \<open>What the daemon promises\<close>

text \<open>
  The daemon as a rendezvous between two sockets: who is connected, the last screen description,
  the objects deposited and what the producer waits for; no descriptors, no heap, no interest
  list.  The operations return the new state and the messages sent, each with the socket it goes
  to and the objects that ride on it.
\<close>

record rendezvous =
  r_consumer :: "obj option"
  r_producer :: "obj option"
  r_screen :: "screen_info option"
  r_deposit :: "obj list"
  r_wait_screen :: bool
  r_wait_fds :: bool

type_synonym outmsg = "obj \<times> byte list \<times> obj list"

definition ready_msg :: "byte list" where
  "ready_msg = enc_hdr (mk_hdr CTRL_MSG_FDS_READY 0)"

definition screen_msg :: "screen_info \<Rightarrow> byte list" where
  "screen_msg si = enc_hdr (mk_hdr CTRL_MSG_SCREEN_INFO 16) @ enc_screen si"

definition r_deliver :: "rendezvous \<Rightarrow> rendezvous \<times> outmsg list" where
  "r_deliver s =
     (case r_producer s of
        Some p \<Rightarrow>
          if length (r_deposit s) < 4 then (s\<lparr>r_wait_fds := True\<rparr>, [])
          else (s\<lparr>r_deposit := [], r_wait_fds := False\<rparr>,
                (p, ready_msg, r_deposit s) #
                (case r_consumer s of None \<Rightarrow> [] | Some c \<Rightarrow> [(c, ready_msg, [])]))
      | None \<Rightarrow> (s\<lparr>r_wait_fds := True\<rparr>, []))"

definition r_redeposit :: "obj list \<Rightarrow> rendezvous \<Rightarrow> rendezvous \<times> outmsg list" where
  "r_redeposit obs s =
     (let s = s\<lparr>r_deposit := obs\<rparr> in if r_wait_fds s then r_deliver s else (s, []))"

definition r_set_screen :: "screen_info \<Rightarrow> rendezvous \<Rightarrow> rendezvous \<times> outmsg list" where
  "r_set_screen si s =
     (case r_screen s of
        Some old \<Rightarrow>
          if si = old then (s, [])
          else (s\<lparr>r_screen := Some si, r_producer := None, r_wait_screen := False, r_wait_fds := False\<rparr>, [])
      | None \<Rightarrow>
          (s\<lparr>r_screen := Some si, r_wait_screen := False\<rparr>,
           case r_producer s of Some p \<Rightarrow> if r_wait_screen s then [(p, screen_msg si, [])] else [] | None \<Rightarrow> []))"

definition r_join_consumer :: "obj \<Rightarrow> obj list \<Rightarrow> rendezvous \<Rightarrow> rendezvous \<times> outmsg list" where
  "r_join_consumer c obs s = r_redeposit obs (s\<lparr>r_consumer := Some c\<rparr>)"

definition r_join_producer :: "obj \<Rightarrow> rendezvous \<Rightarrow> rendezvous \<times> outmsg list" where
  "r_join_producer p s =
     (s\<lparr>r_producer := Some p, r_wait_screen := (r_screen s = None), r_wait_fds := False\<rparr>,
      case r_screen s of Some si \<Rightarrow> [(p, screen_msg si, [])] | None \<Rightarrow> [])"

text \<open>The state of the rendezvous that a state of the daemon stands for, and sending.\<close>

definition client_obj :: "daemon \<Rightarrow> os \<Rightarrow> addr option \<Rightarrow> obj option" where
  "client_obj d w p = do { c \<leftarrow> p; cl \<leftarrow> heap d c; fd_obj w (ctrl_fd cl) }"

definition rdv :: "daemon \<Rightarrow> os \<Rightarrow> rendezvous" where
  "rdv d w = \<lparr>r_consumer = client_obj d w (consumer d), r_producer = client_obj d w (producer d),
     r_screen = (if has_screen_info d then Some (stored_screen d) else None),
     r_deposit = map (\<lambda>f. the (fd_obj w f)) (deposited_fds d),
     r_wait_screen = producer_waiting_screen d, r_wait_fds = producer_waiting_fds d\<rparr>"

definition emit :: "outmsg list \<Rightarrow> (obj \<Rightarrow> (byte list \<times> obj list) list) \<Rightarrow> obj \<Rightarrow> (byte list \<times> obj list) list" where
  "emit out q = fold (\<lambda>(ob, m) q. q(ob := q ob @ [m])) out q"

text \<open>
  \<open>implements X r s w\<close>: the call returned (it did not block), the invariant holds, the state stands
  for the state of \<open>s\<close> and exactly the messages of \<open>s\<close> were sent.
\<close>

definition implements :: "fd list \<Rightarrow> (daemon \<times> os) option \<Rightarrow> rendezvous \<times> outmsg list \<Rightarrow> os \<Rightarrow> bool" where
  "implements X r s w \<longleftrightarrow>
     (\<exists>d' w'. r = Some (d', w') \<and> dinv X d' w' \<and> rdv d' w' = fst s \<and> txq w' = emit (snd s) (txq w) \<and> txplan w' = [])"

lemma emit_simps [simp]: "emit [] q = q" "emit ((ob, m) # out) q = emit out (q(ob := q ob @ [m]))"
  by (simp_all add: emit_def)

lemma rdv_cong:
  assumes "\<And>f. f \<in> set (owned d) \<Longrightarrow> fd_obj w' f = fd_obj w f"
  shows "rdv d w' = rdv d w"
  using assms
  by (auto simp: rdv_def client_obj_def owned_def cfds_def split: option.splits bind_split)

lemma rdv_close: "dinv (Y @ X) d w \<Longrightarrow> rdv d (sys_close_all Y w) = rdv d w"
  by (rule rdv_cong) (auto simp: dinv_def fds_ok_def fd_obj_close_all)

lemma rdv_sel:
  "r_consumer (rdv d w) = client_obj d w (consumer d)" "r_producer (rdv d w) = client_obj d w (producer d)"
  "r_screen (rdv d w) = (if has_screen_info d then Some (stored_screen d) else None)"
  "r_deposit (rdv d w) = map (\<lambda>f. the (fd_obj w f)) (deposited_fds d)"
  "r_wait_screen (rdv d w) = producer_waiting_screen d" "r_wait_fds (rdv d w) = producer_waiting_fds d"
  by (simp_all add: rdv_def)

lemma client_obj_frame [simp]:
  "client_obj (d\<lparr>deposited_fds := fs\<rparr>) = client_obj d" "client_obj (d\<lparr>stored_screen := s\<rparr>) = client_obj d"
  "client_obj (d\<lparr>has_screen_info := b\<rparr>) = client_obj d" "client_obj (d\<lparr>producer_waiting_fds := b\<rparr>) = client_obj d"
  "client_obj (d\<lparr>producer_waiting_screen := b\<rparr>) = client_obj d" "client_obj (d\<lparr>consumer := p\<rparr>) = client_obj d"
  "client_obj (d\<lparr>producer := p\<rparr>) = client_obj d" "client_obj (d\<lparr>epoll := e\<rparr>) = client_obj d"
  "client_obj (d\<lparr>next_addr := n\<rparr>) = client_obj d" "client_obj d w None = None"
  by (simp_all add: client_obj_def fun_eq_iff)

lemma rdv_update [simp]:
  "rdv (d\<lparr>producer_waiting_fds := b\<rparr>) w = (rdv d w)\<lparr>r_wait_fds := b\<rparr>"
  "rdv (d\<lparr>producer_waiting_screen := b\<rparr>) w = (rdv d w)\<lparr>r_wait_screen := b\<rparr>"
  "rdv (d\<lparr>deposited_fds := fs\<rparr>) w = (rdv d w)\<lparr>r_deposit := map (\<lambda>f. the (fd_obj w f)) fs\<rparr>"
  "rdv (d\<lparr>epoll := e\<rparr>) w = rdv d w" "rdv (d\<lparr>next_addr := n\<rparr>) w = rdv d w"
  by (simp_all add: rdv_def)

lemma client_obj_live:
  assumes "dinv X d w" and "consumer d = Some c \<or> producer d = Some c"
  obtains f ob where "\<And>v. client_fd c d v = (f, v)" "fd_obj w f = Some ob" "client_obj d w (Some c) = Some ob"
    "f \<notin> set (deposited_fds d)"
proof -
  from assms obtain cl ob where cl: "heap d c = Some cl" "fd_obj w (ctrl_fd cl) = Some ob"
    by (blast elim: dinv_clientE)
  moreover have "ctrl_fd cl \<notin> set (deposited_fds d)"
    using assms cl by (auto simp: dinv_def fds_ok_def owned_def)
  ultimately show ?thesis by (intro that [of "ctrl_fd cl" ob]) (auto simp: client_fd_def client_obj_def)
qed

lemma deliver_implements:
  assumes inv: "dinv X d w" and p: "producer d \<noteq> None" and t: "txplan w = []"
  shows "implements X (try_deliver_fds d w) (r_deliver (rdv d w)) w"
proof -
  from p obtain pp where pp: "producer d = Some pp" by blast
  obtain pf po where pf: "\<And>v. client_fd pp d v = (pf, v)" "fd_obj w pf = Some po" "client_obj d w (Some pp) = Some po"
    using client_obj_live [OF inv] pp by metis
  show ?thesis
  proof (cases "length (deposited_fds d) < 4")
    case True
    then have "try_deliver_fds d w = Some (d\<lparr>producer_waiting_fds := True\<rparr>, w)"
      by (simp add: try_deliver_fds_def pp)
    moreover have "dinv X (d\<lparr>producer_waiting_fds := True\<rparr>) w"
      using dstep_flag_fds [OF inv p] by (rule dstep_dinv)
    ultimately show ?thesis using True t
      by (simp add: implements_def r_deliver_def rdv_sel pp pf)
  next
    case False
    have dep: "\<forall>g \<in> set (deposited_fds d). fd_obj w g \<noteq> None"
      using inv by (auto simp: dinv_def fds_ok_def owned_def)
    let ?m = "(ready_msg, map (\<lambda>g. the (fd_obj w g)) (deposited_fds d))"
    let ?w1 = "push_tx po ?m w"
    let ?d = "d\<lparr>deposited_fds := [], producer_waiting_fds := False\<rparr>"
    have "\<exists>out w2. try_deliver_fds d w = Some (?d, sys_close_all (deposited_fds d) w2) \<and> keeps w w2 \<and>
        txq w2 = emit out (txq w) \<and> snd (r_deliver (rdv d w)) = out \<and> txplan w2 = []"
    proof (cases "consumer d")
      case None
      then show ?thesis using False t dep pf pp
        by (intro exI [of _ "[(po, ?m)]"] exI [of _ ?w1])
           (simp add: try_deliver_fds_def send_fds_now ready_msg_def r_deliver_def rdv_sel)
    next
      case (Some c)
      obtain cf co where "\<And>v. client_fd c d v = (cf, v)" "fd_obj w cf = Some co" "client_obj d w (Some c) = Some co"
        using client_obj_live [OF inv] Some by metis
      then show ?thesis using False t dep pf pp Some
        by (intro exI [of _ "[(po, ?m), (co, ready_msg, [])]"] exI [of _ "push_tx co (ready_msg, []) ?w1"])
           (simp add: try_deliver_fds_def send_fds_now send_ctrl_def send_all_now ready_msg_def r_deliver_def
             rdv_sel keeps_def)
    qed
    then obtain out w2 where w2: "try_deliver_fds d w = Some (?d, sys_close_all (deposited_fds d) w2)" "keeps w w2"
        "txq w2 = emit out (txq w)" "snd (r_deliver (rdv d w)) = out" "txplan w2 = []" by blast
    have "dinv X ?d (sys_close_all (deposited_fds d) w2)"
      using try_deliver_fds_dstep [OF inv p w2(1)] by (rule dstep_dinv)
    moreover have "rdv ?d (sys_close_all (deposited_fds d) w2) = fst (r_deliver (rdv d w))"
    proof -
      have "rdv ?d (sys_close_all (deposited_fds d) w2) = rdv ?d w"
        using w2(2) inv by (intro rdv_cong) (auto simp: fd_obj_close_all keeps_def dinv_def fds_ok_def owned_def)
      also have "\<dots> = fst (r_deliver (rdv d w))"
        using False pp pf by (simp add: r_deliver_def rdv_sel)
      finally show ?thesis .
    qed
    ultimately show ?thesis using w2 by (simp add: implements_def)
  qed
qed

lemma implements_frame:
  assumes "implements X r s w'" and "txq w' = txq w"
  shows "implements X r s w"
  using assms by (simp add: implements_def)

lemma redeposit_implements:
  assumes inv: "dinv (fds @ X) d w" and len: "length fds \<le> MAX_FDS" and t: "txplan w = []"
    and d1: "d1 = d\<lparr>deposited_fds := fds\<rparr>" and w1: "w1 = sys_close_all (deposited_fds d) w"
  shows "implements X (if producer_waiting_fds d then try_deliver_fds d1 w1 else Some (d1, w1))
     (r_redeposit (map (\<lambda>f. the (fd_obj w f)) fds) (rdv d w)) w"
proof -
  note dep = dstep_dinv [OF dstep_deposit [OF inv len, folded d1 w1]]
  have a: "rdv d1 w1 = (rdv d w)\<lparr>r_deposit := map (\<lambda>f. the (fd_obj w f)) fds\<rparr>"
  proof -
    have "rdv d1 w1 = rdv d1 w"
      using inv by (intro rdv_cong) (auto simp: d1 w1 fd_obj_close_all dinv_def fds_ok_def owned_def)
    then show ?thesis by (simp add: d1)
  qed
  have tx: "txq w1 = txq w" "txplan w1 = []" by (simp_all add: w1 t)
  show ?thesis
  proof (cases "producer_waiting_fds d")
    case True
    have "producer d1 \<noteq> None" using flags_okD [OF inv True] by (simp add: d1)
    from deliver_implements [OF dep this tx(2)] show ?thesis
      using True a tx(1) by (simp add: r_redeposit_def rdv_sel implements_frame)
  next
    case False
    with dep a tx show ?thesis by (simp add: implements_def r_redeposit_def rdv_sel)
  qed
qed

text \<open>The abstract counterpart of the \<open>switch\<close>: who sent the message, and what it carried.\<close>

definition r_dispatch :: "bool \<Rightarrow> bool \<Rightarrow> ctrl_msg \<Rightarrow> byte list \<Rightarrow> obj list \<Rightarrow> rendezvous \<Rightarrow> rendezvous \<times> outmsg list" where
  "r_dispatch from_consumer from_producer hdr payload obs s =
     (if msg_type hdr = CTRL_MSG_CONSUMER_HELLO \<and> from_consumer \<and> length obs \<ge> 3 then r_redeposit obs s
      else if msg_type hdr = CTRL_MSG_SCREEN_INFO \<and> from_consumer \<and> msg_size hdr = 16 then r_set_screen (dec_screen payload) s
      else if msg_type hdr = CTRL_MSG_PICKUP_FDS \<and> from_producer then r_deliver s
      else (s, []))"

lemma rdv_forget:
  assumes inv: "dinv X d w" and cl: "heap d c = Some cl"
  shows "rdv (forget c (ctrl_fd cl) d) (sys_close (ctrl_fd cl) w) =
     (rdv d w)\<lparr>r_consumer := (if consumer d = Some c then None else r_consumer (rdv d w)),
               r_producer := (if producer d = Some c then None else r_producer (rdv d w))\<rparr>"
proof -
  let ?d = "forget c (ctrl_fd cl) d" and ?w = "sys_close (ctrl_fd cl) w"
  have p: "ptrs_ok d" using inv by (simp add: dinv_def)
  have "ctrl_fd cl \<in> set (cfds (heap d) (consumer d) @ cfds (heap d) (producer d))"
    using ptrs_okD(1) [OF p, of c] cl by (auto simp: cfds_def)
  then have dep: "ctrl_fd cl \<notin> set (deposited_fds d)" using inv by (auto simp: dinv_def fds_ok_def owned_def)
  have oth: "client_obj ?d ?w (Some a) = client_obj d w (Some a)" if "a \<noteq> c" for a
    using that dinv_ctrl_fd_inj [OF inv _ cl, of a]
    by (auto simp: client_obj_def forget_def fd_obj_close split: bind_split)
  have "client_obj ?d ?w (consumer ?d) = (if consumer d = Some c then None else client_obj d w (consumer d))"
    "client_obj ?d ?w (producer ?d) = (if producer d = Some c then None else client_obj d w (producer d))"
    using oth by (cases "consumer d"; cases "producer d"; simp add: forget_def [of c _ d] client_obj_def)+
  with dep show ?thesis by (auto simp: rdv_def forget_def fd_obj_close)
qed

lemma reset_producer_implements:
  assumes inv: "dinv X d w" and t: "txplan w = []"
  shows "implements X (Some (reset_producer_for_screen_change d w))
     ((rdv d w)\<lparr>r_producer := None, r_wait_screen := False, r_wait_fds := False\<rparr>, []) w"
proof -
  obtain d' w' where r: "reset_producer_for_screen_change d w = (d', w')" by fastforce
  note st = reset_producer_dstep [OF inv r]
  show ?thesis
  proof (cases "producer d")
    case None
    then have "\<not> producer_waiting_screen d" "\<not> producer_waiting_fds d" using inv by (auto simp: dinv_def flags_ok_def)
    with None inv t show ?thesis
      by (simp add: reset_producer_for_screen_change_def implements_def rdv_def)
  next
    case (Some c)
    with inv obtain cl ob where cl: "heap d c = Some cl" "0 \<le> ctrl_fd cl" "client_fd c d w = (ctrl_fd cl, w)"
      by (auto elim: dinv_clientE)
    have "consumer d \<noteq> Some c" using inv Some ptrs_okD(2) by (auto simp: dinv_def)
    then have e: "d' = (forget c (ctrl_fd cl) d)\<lparr>producer_waiting_screen := False, producer_waiting_fds := False\<rparr>"
      "w' = sys_close (ctrl_fd cl) w"
      using r Some cl by (auto simp: reset_producer_for_screen_change_def client_free_def forget_def)
    have "rdv d' w' = (rdv d w)\<lparr>r_producer := None, r_wait_screen := False, r_wait_fds := False\<rparr>"
      using rdv_forget [OF inv cl(1)] Some \<open>consumer d \<noteq> Some c\<close> by (simp add: e rdv_sel)
    with st(1) r t e(2) show ?thesis by (simp add: implements_def dstep_def)
  qed
qed

lemma screen_size_iff: "unat (s :: u32) = sizeof_screen_info \<longleftrightarrow> s = 16"
  using word_unat_eq_iff [of s 16] by simp

lemma set_screen_implements:
  assumes inv: "dinv (fds @ X) d w" and t: "txplan w = []" and c: "consumer d = Some c" "msg_size hdr = 16"
  shows "implements X (on_screen_info c hdr payload fds d w) (r_set_screen (dec_screen payload) (rdv d w)) w"
proof -
  let ?w = "close_received_fds fds w" and ?si = "dec_screen payload"
  note ci = dstep_dinv [OF dstep_close_received [OF inv]]
  have a: "rdv d ?w = rdv d w" unfolding close_received_fds_def by (rule rdv_close [OF inv])
  have tx: "txq ?w = txq w" "txplan ?w = []" by (simp_all add: close_received_fds_def t)
  consider (same) "has_screen_info d" "?si = stored_screen d"
    | (change) "has_screen_info d" "?si \<noteq> stored_screen d" | (first) "\<not> has_screen_info d" by blast
  then show ?thesis
  proof cases
    case same
    then have "\<not> producer_waiting_screen d" using inv by (auto simp: dinv_def flags_ok_def)
    with same c ci a tx show ?thesis
      by (simp add: on_screen_info_def Let_def implements_def r_set_screen_def rdv_sel)
  next
    case change
    let ?d = "d\<lparr>stored_screen := ?si\<rparr>"
    obtain d1 w1 where rp: "reset_producer_for_screen_change ?d ?w = (d1, w1)" by fastforce
    note di = dstep_dinv [OF dstep_stored_screen [OF ci, of ?si]]
    note rr = reset_producer_dstep [OF di rp]
    have "rdv ?d ?w = (rdv d w)\<lparr>r_screen := Some ?si\<rparr>" using a change by (simp add: rdv_def)
    then have "implements X (Some (d1, w1)) (r_set_screen ?si (rdv d w)) ?w"
      using reset_producer_implements [OF di tx(2)] change rp by (simp add: r_set_screen_def rdv_sel)
    then show ?thesis using tx(1) change c rp rr(3)
      by (auto simp: on_screen_info_def Let_def intro: implements_frame)
  next
    case first
    let ?d = "d\<lparr>stored_screen := ?si, has_screen_info := True\<rparr>"
    have r0: "rdv ?d ?w = (rdv d w)\<lparr>r_screen := Some ?si\<rparr>" using a first by (simp add: rdv_def)
    show ?thesis
    proof (cases "producer_waiting_screen d")
      case False
      have "dinv X ?d ?w" by (rule dstep_dinv [OF dstep_first_screen [OF ci False]])
      with False first c r0 tx show ?thesis
        by (auto simp: on_screen_info_def Let_def implements_def r_set_screen_def rdv_sel split: option.split)
    next
      case True
      then obtain p where p: "producer d = Some p" using inv by (auto simp: dinv_def flags_ok_def)
      obtain pf po where pf: "\<And>v. client_fd p d v = (pf, v)" "fd_obj ?w pf = Some po" "client_obj d ?w (Some p) = Some po"
        using client_obj_live [OF ci] p by metis
      have pf': "client_fd p ?d v = (pf, v)" for v using pf(1) [of v] by (simp add: client_fd_def)
      let ?d' = "?d\<lparr>producer_waiting_screen := False\<rparr>" and ?w' = "push_tx po (screen_msg ?si, []) ?w"
      have e: "on_screen_info c hdr payload fds d w = Some (?d', ?w')"
        using True first c p pf' pf tx
        by (simp add: on_screen_info_def Let_def send_screen_info_msg_def send_all_now screen_msg_def)
      have "dinv X ?d' ?w'" using on_screen_info_dstep [OF inv e] by (rule dstep_dinv)
      moreover have "client_obj d w (Some p) = Some po" using pf(3) arg_cong [OF a, of r_producer] p by (simp add: rdv_sel)
      moreover have "rdv ?d' ?w' = rdv ?d' ?w" by (rule rdv_cong) simp
      ultimately show ?thesis using e r0 True first tx p
        by (simp add: implements_def r_set_screen_def rdv_sel)
    qed
  qed
qed

lemma dispatch_implements:
  assumes inv: "dinv (fds @ X) d w" and len: "length fds \<le> MAX_FDS" and t: "txplan w = []"
    and c: "consumer d = Some c \<or> producer d = Some c"
  shows "implements X (dispatch_ctrl c hdr payload fds d w)
     (r_dispatch (consumer d = Some c) (producer d = Some c) hdr payload (map (\<lambda>f. the (fd_obj w f)) fds) (rdv d w)) w"
proof -
  have nop: "implements X (Some (d, close_received_fds fds w)) (rdv d w, []) w"
    using dstep_dinv [OF dstep_close_received [OF inv]] rdv_close [OF inv] t
    by (simp add: implements_def close_received_fds_def)
  have pick: "implements X (try_deliver_fds d (close_received_fds fds w)) (r_deliver (rdv d w)) w" if "producer d \<noteq> None"
    using deliver_implements [OF dstep_dinv [OF dstep_close_received [OF inv]] that] rdv_close [OF inv] t
    by (auto simp: close_received_fds_def intro: implements_frame)
  have redep: "implements X (on_consumer_hello c fds d w) (r_redeposit (map (\<lambda>f. the (fd_obj w f)) fds) (rdv d w)) w"
    if "consumer d = Some c" "3 \<le> length fds"
    using that redeposit_implements [OF inv len t refl refl]
    by (auto simp: on_consumer_hello_def clear_deposited_fds_def Let_def split: if_splits)
  consider (hello) "msg_type hdr = CTRL_MSG_CONSUMER_HELLO" | (screen) "msg_type hdr = CTRL_MSG_SCREEN_INFO"
    | (pickup) "msg_type hdr = CTRL_MSG_PICKUP_FDS"
    | (other) "msg_type hdr \<noteq> CTRL_MSG_CONSUMER_HELLO" "msg_type hdr \<noteq> CTRL_MSG_SCREEN_INFO"
        "msg_type hdr \<noteq> CTRL_MSG_PICKUP_FDS" by blast
  then show ?thesis
  proof cases
    case hello
    then show ?thesis using redep nop
      by (cases "consumer d = Some c \<and> 3 \<le> length fds")
         (auto simp: dispatch_ctrl_def r_dispatch_def on_consumer_hello_def)
  next
    case screen
    then show ?thesis using set_screen_implements [OF inv t, of c hdr payload] nop
      by (cases "consumer d = Some c \<and> msg_size hdr = 16")
         (auto simp: dispatch_ctrl_def r_dispatch_def on_screen_info_def screen_size_iff Let_def)
  next
    case pickup
    then show ?thesis using pick nop
      by (cases "producer d = Some c") (simp_all add: dispatch_ctrl_def r_dispatch_def on_pickup_fds_def Let_def)
  next
    case other
    then show ?thesis using nop by (simp add: dispatch_ctrl_def r_dispatch_def)
  qed
qed

text \<open>A disconnect, and a connection that says hello.\<close>

definition r_leave :: "bool \<Rightarrow> rendezvous \<Rightarrow> rendezvous" where
  "r_leave is_cons s =
     (if is_cons then s\<lparr>r_consumer := None\<rparr>
      else s\<lparr>r_producer := None, r_wait_screen := False, r_wait_fds := False\<rparr>)"

lemma disconnect_rdv:
  assumes inv: "dinv X d w" and c: "consumer d = Some c \<or> producer d = Some c"
    and r: "handle_disconnect c d w = (d', w')"
  shows "rdv d' w' = r_leave (consumer d = Some c) (rdv d w)" "txq w' = txq w" "txplan w' = txplan w"
proof -
  from inv c obtain cl where cl: "heap d c = Some cl" "0 \<le> ctrl_fd cl" "client_fd c d w = (ctrl_fd cl, w)"
    by (auto elim: dinv_clientE)
  have ex: "consumer d = Some c \<Longrightarrow> producer d \<noteq> Some c"
    using inv ptrs_okD(2) by (auto simp: dinv_def)
  have w': "w' = sys_close (ctrl_fd cl) w"
    using r cl c by (auto simp: handle_disconnect_def client_free_def split: if_splits)
  have "d' = (if consumer d = Some c then forget c (ctrl_fd cl) d
      else (forget c (ctrl_fd cl) d)\<lparr>producer_waiting_screen := False, producer_waiting_fds := False\<rparr>)"
    using r cl c ex by (auto simp: handle_disconnect_def client_free_def forget_def split: if_splits)
  then show "rdv d' w' = r_leave (consumer d = Some c) (rdv d w)"
    using rdv_forget [OF inv cl(1)] c ex by (auto simp: w' r_leave_def rdv_sel)
  show "txq w' = txq w" "txplan w' = txplan w" by (simp_all add: w')
qed

lemma evict_rdv:
  assumes inv: "dinv X d w"
  shows "client_free (consumer d) d w = (d1, w1) \<Longrightarrow>
      rdv (d1\<lparr>consumer := None\<rparr>) w1 = (rdv d w)\<lparr>r_consumer := None\<rparr> \<and> txq w1 = txq w \<and> txplan w1 = txplan w"
    and "client_free (producer d) d w = (d1, w1) \<Longrightarrow>
      rdv (d1\<lparr>producer := None, producer_waiting_screen := False, producer_waiting_fds := False\<rparr>) w1 =
        (rdv d w)\<lparr>r_producer := None, r_wait_screen := False, r_wait_fds := False\<rparr> \<and> txq w1 = txq w \<and> txplan w1 = txplan w"
proof -
  assume f: "client_free (consumer d) d w = (d1, w1)"
  show "rdv (d1\<lparr>consumer := None\<rparr>) w1 = (rdv d w)\<lparr>r_consumer := None\<rparr> \<and> txq w1 = txq w \<and> txplan w1 = txplan w"
  proof (cases "consumer d")
    case None
    with f show ?thesis by (auto simp: client_free_def rdv_def)
  next
    case (Some c)
    with f have "handle_disconnect c d w = (d1\<lparr>consumer := None\<rparr>, w1)" by (simp add: handle_disconnect_def)
    from disconnect_rdv [OF inv _ this] Some show ?thesis by (simp add: r_leave_def)
  qed
next
  assume f: "client_free (producer d) d w = (d1, w1)"
  show "rdv (d1\<lparr>producer := None, producer_waiting_screen := False, producer_waiting_fds := False\<rparr>) w1 =
        (rdv d w)\<lparr>r_producer := None, r_wait_screen := False, r_wait_fds := False\<rparr> \<and> txq w1 = txq w \<and> txplan w1 = txplan w"
  proof (cases "producer d")
    case None
    with f show ?thesis by (auto simp: client_free_def rdv_def)
  next
    case (Some c)
    moreover have "consumer d \<noteq> Some c" using inv Some ptrs_okD(2) by (auto simp: dinv_def)
    ultimately have "handle_disconnect c d w =
        (d1\<lparr>producer := None, producer_waiting_screen := False, producer_waiting_fds := False\<rparr>, w1)"
      using f by (simp add: handle_disconnect_def)
    from disconnect_rdv [OF inv _ this] Some \<open>consumer d \<noteq> Some c\<close> show ?thesis by (simp add: r_leave_def)
  qed
qed

lemma client_free_fd_obj:
  "client_free p d w = (d1, w1) \<Longrightarrow> fd_obj w1 g \<noteq> None \<Longrightarrow> fd_obj w1 g = fd_obj w g"
  by (auto simp: client_free_def client_fd_def fd_obj_close Let_def split: option.splits if_splits)

lemma rdv_register:
  assumes ok: "ptrs_ok d"
  shows "rdv (register_consumer cf d) w = (rdv d w)\<lparr>r_consumer := fd_obj w cf\<rparr>"
    and "rdv (register_producer cf d) w =
      (rdv d w)\<lparr>r_producer := fd_obj w cf, r_wait_screen := \<not> has_screen_info d, r_wait_fds := False\<rparr>"
  using ptrs_ok_fresh [OF ok]
  by (auto simp: rdv_def register_consumer_def register_producer_def client_obj_def split: bind_split)

definition r_join :: "ctrl_msg \<Rightarrow> obj \<Rightarrow> obj list \<Rightarrow> rendezvous \<Rightarrow> rendezvous \<times> outmsg list" where
  "r_join hdr ob obs s =
     (if msg_type hdr = CTRL_MSG_CONSUMER_HELLO then r_join_consumer ob obs s
      else if msg_type hdr = CTRL_MSG_PRODUCER_HELLO then r_join_producer ob s
      else (s, []))"

lemma join_consumer_implements:
  assumes inv: "dinv (fds @ cf # X) d w" and len: "length fds \<le> MAX_FDS" and t: "txplan w = []"
    and ob: "fd_obj w cf = Some ob"
  shows "implements X (on_new_consumer cf (next_addr d) fds (d\<lparr>next_addr := Suc (next_addr d),
        heap := (heap d)(next_addr d := Some \<lparr>ctrl_fd = cf, is_consumer = False\<rparr>)\<rparr>) w)
     (r_join_consumer ob (map (\<lambda>f. the (fd_obj w f)) fds) (rdv d w)) w"
proof -
  have ok: "ptrs_ok d" using inv by (simp add: dinv_def)
  obtain d1 w1 where fr: "client_free (consumer d) d w = (d1, w1)" by fastforce
  note ev = evict_rdv(1) [OF inv fr] and f = client_free_frame [OF fr]
  note evi = dstep_dinv [OF dstep_evict_consumer [OF inv fr]]
  have i: "dinv (cf # fds @ X) (d1\<lparr>consumer := None\<rparr>) w1" using evi by (auto simp: dinv_def fds_ok_def)
  let ?r = "register_consumer cf (d1\<lparr>consumer := None\<rparr>)"
  have ri: "dinv (fds @ X) ?r w1" using dstep_dinv [OF dstep_register_consumer [OF i]] by simp
  have fd1: "fd_obj w1 g = fd_obj w g" if "g \<in> set (cf # fds)" for g
    using that evi client_free_fd_obj [OF fr, of g] by (auto simp: dinv_def fds_ok_def)
  have t1: "txplan w1 = []" using ev t by simp
  have reg: "deposited_fds ?r = deposited_fds d" "producer_waiting_fds ?r = producer_waiting_fds d"
    by (simp_all add: register_consumer_def f)
  have "rdv ?r w1 = (rdv d w)\<lparr>r_consumer := Some ob\<rparr>"
    using rdv_register(1) [of "d1\<lparr>consumer := None\<rparr>" cf w1] evi ev fd1 [of cf] ob by (simp add: dinv_def)
  moreover have "map (\<lambda>f. the (fd_obj w1 f)) fds = map (\<lambda>f. the (fd_obj w f)) fds" using fd1 by simp
  ultimately have "implements X (if producer_waiting_fds d
        then try_deliver_fds (?r\<lparr>deposited_fds := fds\<rparr>) (sys_close_all (deposited_fds d) w1)
        else Some (?r\<lparr>deposited_fds := fds\<rparr>, sys_close_all (deposited_fds d) w1))
     (r_join_consumer ob (map (\<lambda>f. the (fd_obj w f)) fds) (rdv d w)) w1"
    using redeposit_implements [OF ri len t1 refl refl] by (simp only: reg r_join_consumer_def)
  then show ?thesis
    unfolding on_new_consumer_eq [OF ptrs_ok_fresh(2) [OF ok] fr refl refl]
    by (rule implements_frame) (simp add: ev)
qed

lemma join_producer_implements:
  assumes inv: "dinv (cf # X) d w" and t: "txplan w = []" and ob: "fd_obj w cf = Some ob"
  shows "implements X (on_new_producer cf (next_addr d) (d\<lparr>next_addr := Suc (next_addr d),
        heap := (heap d)(next_addr d := Some \<lparr>ctrl_fd = cf, is_consumer = False\<rparr>)\<rparr>) w)
     (r_join_producer ob (rdv d w)) w"
proof -
  have ok: "ptrs_ok d" using inv by (simp add: dinv_def)
  obtain d1 w1 where fr: "client_free (producer d) d w = (d1, w1)" by fastforce
  note ev = evict_rdv(2) [OF inv fr] and f = client_free_frame [OF fr]
  note evs = dstep_evict_producer [OF inv fr]
  let ?e = "d1\<lparr>producer := None, producer_waiting_screen := False, producer_waiting_fds := False\<rparr>"
  let ?r = "register_producer cf ?e"
  have cf: "fd_obj w1 cf = Some ob"
    using dstep_dinv [OF evs] client_free_fd_obj [OF fr, of cf] ob by (auto simp: dinv_def fds_ok_def)
  have t1: "txplan w1 = []" using ev t by simp
  have rr: "rdv ?r w1 = fst (r_join_producer ob (rdv d w))"
  proof -
    have "ptrs_ok ?e" using dstep_dinv [OF evs] by (simp add: dinv_def)
    then show ?thesis unfolding rdv_register(2) [OF \<open>ptrs_ok ?e\<close>] conjunct1 [OF ev]
      using cf f by (simp add: r_join_producer_def rdv_sel)
  qed
  have out: "on_new_producer cf (next_addr d) (d\<lparr>next_addr := Suc (next_addr d),
        heap := (heap d)(next_addr d := Some \<lparr>ctrl_fd = cf, is_consumer = False\<rparr>)\<rparr>) w =
      Some (?r, if has_screen_info d then push_tx ob (screen_msg (stored_screen d), []) w1 else w1)"
    using cf t1 unfolding on_new_producer_eq [OF ptrs_ok_fresh(3) [OF ok] fr refl]
    by (simp add: send_screen_info_msg_def send_all_now screen_msg_def)
  have "dinv X ?r (if has_screen_info d then push_tx ob (screen_msg (stored_screen d), []) w1 else w1)"
    by (intro dstep_dinv [OF dstep_new_producer [OF inv fr]]) simp
  moreover have "rdv ?r (push_tx ob m w1) = rdv ?r w1" for m by (rule rdv_cong) simp
  ultimately show ?thesis using rr t1 ev out
    by (auto simp: implements_def r_join_producer_def rdv_sel)
qed

lemma admit_implements:
  assumes inv: "dinv (fds @ cf # X) d w" and len: "length fds \<le> MAX_FDS" and t: "txplan w = []"
    and ok: "sys_try w = (True, w1)" and ob: "fd_obj w cf = Some ob"
  shows "implements X (admit_client cf hdr fds d w) (r_join hdr ob (map (\<lambda>f. the (fd_obj w f)) fds) (rdv d w)) w"
proof -
  have w1: "fd_obj w1 = fd_obj w" "txplan w1 = []" "txq w1 = txq w" "reports w1 = reports w"
    using sys_tryD [OF ok] t by simp_all
  have i1: "dinv (fds @ cf # X) d w1" using dstep_dinv [OF dstep_same_fds [OF inv w1(1,4)]] .
  have r1: "rdv d w1 = rdv d w" by (rule rdv_cong) (simp add: w1)
  have p: "ptrs_ok d" using inv by (simp add: dinv_def)
  consider (cons) "msg_type hdr = CTRL_MSG_CONSUMER_HELLO" | (prod) "msg_type hdr = CTRL_MSG_PRODUCER_HELLO"
    | (other) "msg_type hdr \<noteq> CTRL_MSG_CONSUMER_HELLO" "msg_type hdr \<noteq> CTRL_MSG_PRODUCER_HELLO" by blast
  then show ?thesis
  proof cases
    case cons
    from join_consumer_implements [OF i1 len w1(2)] ob have
      "implements X (admit_client cf hdr fds d w) (r_join hdr ob (map (\<lambda>f. the (fd_obj w f)) fds) (rdv d w)) w1"
      by (simp add: admit_client_def ok cons r_join_def w1 r1 Let_def)
    then show ?thesis by (rule implements_frame) (rule w1)
  next
    case prod
    from join_producer_implements [OF dinv_drop(1) [OF i1] w1(2)] ob have
      "implements X (admit_client cf hdr fds d w) (r_join hdr ob (map (\<lambda>f. the (fd_obj w f)) fds) (rdv d w)) w1"
      by (simp add: admit_client_def ok prod r_join_def w1 r1 Let_def)
    then show ?thesis by (rule implements_frame) (rule w1)
  next
    case other
    let ?w = "sys_close_all (fds @ [cf]) w1" and ?d = "d\<lparr>next_addr := Suc (next_addr d)\<rparr>"
    have i: "dinv ((fds @ [cf]) @ X) d w1" using i1 by simp
    have e: "admit_client cf hdr fds d w = Some (?d, ?w)"
      using ok other ptrs_ok_fresh(1) [OF p]
      by (simp add: admit_client_def Let_def close_received_fds_def fun_upd_idem)
    have "dinv X ?d ?w" using admit_client_step(1) [OF inv len e ok] .
    moreover have "rdv ?d ?w = rdv d w" using rdv_close [OF i] r1 by simp
    ultimately show ?thesis using e other w1 by (simp add: implements_def r_join_def)
  qed
qed

subsection \<open>Whole messages\<close>

lemma handle_ctrl_msg_implements:
  assumes inv: "dinv (fds @ X) d w" and len: "length fds \<le> MAX_FDS" and t: "txplan w = []"
    and c: "consumer d = Some c \<or> producer d = Some c"
    and f: "fd_obj w f = Some ob" and q: "rx_ok (rxq w ob)"
    and size: "unat (msg_size hdr) \<le> sizeof_screen_info" "unat (msg_size hdr) \<le> length (rx_data (rxq w ob))"
  shows "implements X (handle_ctrl_msg c f hdr fds d w)
     (r_dispatch (consumer d = Some c) (producer d = Some c) hdr (take (unat (msg_size hdr)) (rx_data (rxq w ob)))
        (map (\<lambda>f. the (fd_obj w f)) fds) (rdv d w)) w"
proof (cases "msg_size hdr > 0")
  case False
  then have "unat (msg_size hdr) = 0" by (simp add: word_gt_0)
  with False dispatch_implements [OF inv len t c, of hdr "[]"] show ?thesis by (simp add: handle_ctrl_msg_def)
next
  case True
  let ?w = "set_rx ob (rx_drop (unat (msg_size hdr)) (rxq w ob)) w"
  have "keeps w ?w" by (simp add: keeps_def)
  then have i: "dinv (fds @ X) d ?w" by (rule dstep_dinv [OF dstep_keeps [OF inv]])
  have "rdv d ?w = rdv d w" by (rule rdv_cong) simp
  with dispatch_implements [OF i len _ c, of hdr] t True size recv_all_enough [OF f q size(2)]
  have "implements X (handle_ctrl_msg c f hdr fds d w)
     (r_dispatch (consumer d = Some c) (producer d = Some c) hdr (take (unat (msg_size hdr)) (rx_data (rxq w ob)))
        (map (\<lambda>f. the (fd_obj w f)) fds) (rdv d w)) ?w"
    by (simp add: handle_ctrl_msg_def)
  then show ?thesis by (rule implements_frame) simp
qed

lemma sys_installs_rdv: "dinv X d w \<Longrightarrow> rdv d (snd (sys_installs obs (set_rx ob q w))) = rdv d w"
  by (rule rdv_cong) (metis dinv_def fd_obj_installs_old fds_ok_def in_set_conv_decomp set_append Un_iff
      set_rx_frame(1) sys_installs_fresh)

lemma client_data_implements:
  assumes inv: "dinv X d w" and c: "consumer d = Some c \<or> producer d = Some c" and t: "txplan w = []"
    and ob: "client_obj d w (Some c) = Some ob" and q: "rxq w ob = Chunk data obs # q" "8 \<le> length data" "rx_ok q"
    and obs: "length obs \<le> MAX_FDS" and hdr: "hdr = dec_hdr data"
    and size: "unat (msg_size hdr) \<le> sizeof_screen_info" "unat (msg_size hdr) \<le> length (rx_data (after_hdr data q))"
  shows "implements X (handle_client_data c d w)
     (r_dispatch (consumer d = Some c) (producer d = Some c) hdr
        (take (unat (msg_size hdr)) (rx_data (after_hdr data q))) obs (rdv d w)) w"
proof -
  obtain f where f: "\<And>v. client_fd c d v = (f, v)" "fd_obj w f = Some ob"
    using client_obj_live [OF inv c] ob by (metis option.inject)
  define p where "p = sys_installs obs (set_rx ob (after_hdr data q) w)"
  have rf: "recv_fds f 8 MAX_FDS w = Some (8, take 8 data, fst p, snd p)"
    using recv_fds_chunk [OF f(2) q(1,2), of MAX_FDS] obs by (simp add: p_def)
  note i = dstep_dinv [OF dstep_recv_fds [OF inv rf]]
  have fo: "fd_obj (snd p) f = Some ob"
    using recv_fds_result(5,6) [OF rf, of f] f(2) by (cases "f \<in> set (fst p)") auto
  have "map (\<lambda>f. the (fd_obj (snd p) f)) (fst p) = obs"
    using map_fd_obj_installs [of obs "set_rx ob (after_hdr data q) w"] unfolding p_def [symmetric]
    by (metis (no_types, lifting) list.map_comp list.map_cong0 list.map_id0 id_apply o_apply option.sel)
  moreover have "rdv d (snd p) = rdv d w" unfolding p_def by (rule sys_installs_rdv [OF inv])
  moreover have "rxq (snd p) ob = after_hdr data q" "txq (snd p) = txq w" "txplan (snd p) = []"
    by (simp_all add: p_def t)
  ultimately have "implements X (handle_client_data c d w)
     (r_dispatch (consumer d = Some c) (producer d = Some c) hdr
        (take (unat (msg_size hdr)) (rx_data (after_hdr data q))) obs (rdv d w)) (snd p)"
    using handle_ctrl_msg_implements [OF i _ _ c fo, of hdr] f(1) q size recv_fds_result(2) [OF rf] rf
    by (simp add: handle_client_data_def read_hdr_def hdr split_beta)
  then show ?thesis by (rule implements_frame) (simp add: p_def)
qed

lemma new_connection_implements:
  assumes inv: "dinv X d w" and t: "txplan w = []" and fa: "faults w = []" and l: "fd_obj w l \<noteq> None"
    and con: "conns w = ob # rest" and q: "rxq w ob = Chunk data obs # q" "8 \<le> length data"
    and obs: "length obs \<le> MAX_FDS"
  shows "implements X (handle_new_connection l d w) (r_join (dec_hdr data) ob obs (rdv d w)) w"
proof -
  obtain cf w1 where ins: "sys_install ob (w\<lparr>conns := rest\<rparr>) = (cf, w1)" by fastforce
  note I = sys_installD [OF ins]
  have acc: "sys_accept l w = Some (cf, w1)" using fa l con ins by (auto simp: sys_accept_def sys_try_def)
  note s1 = dstep_accept [OF inv acc I(2)]
  have w1: "fd_obj w1 cf = Some ob" "txq w1 = txq w" "txplan w1 = []" "rxq w1 = rxq w" "faults w1 = []"
    using I(3,4) t fa by auto
  define p where "p = sys_installs obs (set_rx ob (after_hdr data q) w1)"
  have rf: "recv_fds cf 8 MAX_FDS w1 = Some (8, take 8 data, fst p, snd p)"
    using recv_fds_chunk [OF w1(1), of data obs q MAX_FDS] q obs by (simp add: p_def w1)
  note s2 = dstep_recv_fds [OF dstep_dinv [OF s1] rf]
  have fo: "fd_obj (snd p) cf = Some ob"
    using recv_fds_result(5,6) [OF rf, of cf] w1(1) by (cases "cf \<in> set (fst p)") auto
  have "map (\<lambda>f. the (fd_obj (snd p) f)) (fst p) = obs"
    using map_fd_obj_installs [of obs "set_rx ob (after_hdr data q) w1"] unfolding p_def [symmetric]
    by (metis (no_types, lifting) list.map_comp list.map_cong0 list.map_id0 id_apply o_apply option.sel)
  moreover have "rdv d (snd p) = rdv d w"
  proof -
    have "rdv d (snd p) = rdv d w1" unfolding p_def by (rule sys_installs_rdv [OF dstep_dinv [OF s1]])
    also have "\<dots> = rdv d w"
      using dstep_dinv [OF s1] I(1,3) by (intro rdv_cong) (auto simp: dinv_def fds_ok_def)
    finally show ?thesis .
  qed
  moreover have "txq (snd p) = txq w" "txplan (snd p) = []" "faults (snd p) = []" by (simp_all add: p_def w1)
  ultimately have "implements X (handle_new_connection l d w) (r_join (dec_hdr data) ob obs (rdv d w)) (snd p)"
    using admit_implements [OF dstep_dinv [OF s2] recv_fds_result(2) [OF rf] _ _ fo, of "snd p" "dec_hdr data"] acc rf I(2)
    by (simp add: handle_new_connection_def sys_try_def split_beta)
  then show ?thesis by (rule implements_frame) (simp add: p_def w1)
qed

lemma daemon_start_inv:
  assumes st: "daemon_start w = (Some (l, e, d), w')" and e: "0 \<le> e"
  shows "dinv [l, e] d w'" "stray [l, e] d w' = dom (fd_obj w)" "reports w' = reports w" "d = daemon_init"
proof -
  obtain l1 w1 where n1: "sys_new w = (l1, w1)" by fastforce
  obtain o1 w2 where t1: "sys_try w1 = (o1, w2)" by fastforce
  obtain o2 w3 where t2: "sys_try w2 = (o2, w3)" by fastforce
  obtain o3 w4 where t3: "sys_try w3 = (o3, w4)" by fastforce
  obtain e1 w5 where n2: "sys_new w4 = (e1, w5)" by fastforce
  from st n1 t1 t2 t3 n2 have eq: "0 \<le> l1" "l = l1" "e = e1" "d = daemon_init" "w' = w5"
    by (auto simp: daemon_start_def split: if_splits)
  show "d = daemon_init" by (fact eq)
  have fd4: "fd_obj w4 = fd_obj w1" "reports w4 = reports w1"
    using sys_tryD [OF t1] sys_tryD [OF t2] sys_tryD [OF t3] by simp_all
  have L: "fd_obj w l = None" "fd_obj w1 = (fd_obj w)(l \<mapsto> next_obj w)" "reports w1 = reports w"
    using sys_newD [OF n1] eq by auto
  have E: "fd_obj w1 e = None" "fd_obj w' = (fd_obj w1)(e \<mapsto> next_obj w4)" "reports w' = reports w"
    using sys_newD [OF n2] eq e fd4 L by auto
  have own: "owned d = []" by (simp add: eq daemon_init_def owned_def)
  have ne: "l \<noteq> e" using E(1) L(2) by auto
  then have "fds_ok [l, e] d w'" using E L by (simp add: fds_ok_def own)
  moreover have "ptrs_ok d" "flags_ok d" by (simp_all add: eq daemon_init_def ptrs_ok_def flags_ok_def)
  ultimately show "dinv [l, e] d w'" by (simp add: dinv_def)
  show "stray [l, e] d w' = dom (fd_obj w)" using E L ne by (auto simp: stray_def own)
  show "reports w' = reports w" by (fact E)
qed

subsection \<open>Properties\<close>

text \<open>
  A small world for the examples: two connections wait (10, a consumer that deposits the objects
  20 to 23 and then describes its screen; 11, a producer that asks for them); \<open>demo_stale_os\<close> has
  two consumers instead.
\<close>

definition demo_screen :: screen_info where
  "demo_screen = \<lparr>si_width = 1080, si_height = 2400, si_format = 1, si_refresh = 60\<rparr>"

definition demo_os :: os where
  "demo_os = os_init\<lparr>conns := [10, 11], rxq := (\<lambda>_. [])(
     10 := [Chunk (enc_hdr (mk_hdr CTRL_MSG_CONSUMER_HELLO 0)) [20, 21, 22, 23], Chunk (screen_msg demo_screen) []],
     11 := [Chunk (enc_hdr (mk_hdr CTRL_MSG_PRODUCER_HELLO 0)) [], Chunk (enc_hdr (mk_hdr CTRL_MSG_PICKUP_FDS 0)) []])\<rparr>"

definition demo_stale_os :: os where
  "demo_stale_os = os_init\<lparr>conns := [10, 11], rxq := (\<lambda>_. [])(
     10 := [Chunk (enc_hdr (mk_hdr CTRL_MSG_CONSUMER_HELLO 0)) []],
     11 := [Chunk (enc_hdr (mk_hdr CTRL_MSG_CONSUMER_HELLO 0)) []])\<rparr>"

definition run_batches :: "event list list \<Rightarrow> os \<Rightarrow> (daemon \<times> os) option" where
  "run_batches bs w = (case daemon_start w of
     (None, w) \<Rightarrow> None | (Some (l, e, d), w) \<Rightarrow> daemon_loop l (map (Pair False) bs) d w)"

lemma demo_start: "daemon_start demo_os = (Some (0, 1, daemon_init), snd (daemon_start demo_os))"
proof -
  have "fst (daemon_start demo_os) = Some (0, 1, daemon_init)"
    by (simp add: demo_os_def daemon_start_def sys_new_def sys_try_def os_init_def sys_install_def Let_def)
  then show ?thesis by (metis prod.collapse)
qed

lemma demo_two_clients:
  obtains d w where "daemon_reach 0 daemon_init (snd (daemon_start demo_os)) d w"
    "run_batches [[Ev_listen], [Ev_listen]] demo_os = Some (d, w)" "dinv [0, 1] d w"
proof -
  let ?w0 = "snd (daemon_start demo_os)"
  have "run_batches [[Ev_listen], [Ev_listen]] demo_os \<noteq> None" by code_simp
  then obtain d w where r: "run_batches [[Ev_listen], [Ev_listen]] demo_os = Some (d, w)" by auto
  have eq: "run_batches [[Ev_listen], [Ev_listen]] demo_os = daemon_loop 0 [(False, [Ev_listen]), (False, [Ev_listen])] daemon_init ?w0"
    by (subst run_batches_def, subst demo_start) simp
  have "map_option (\<lambda>(d, w). running d) (handle_event 0 Ev_listen daemon_init ?w0) = Some True" by code_simp
  then obtain d1 w1 where e1: "handle_event 0 Ev_listen daemon_init ?w0 = Some (d1, w1)" "running d1" by auto
  have "running daemon_init" by (simp add: daemon_init_def)
  with r eq e1 have "handle_event 0 Ev_listen d1 w1 = Some (d, w)" by (simp add: bind_Some_iff)
  note e = e1(1) this
  have le: "live_event x Ev_listen" for x by (simp add: live_event_def)
  have "daemon_reach 0 daemon_init ?w0 d w"
    by (rule daemon_reach.event [OF daemon_reach.event [OF daemon_reach.start le e(1)] le e(2)])
  moreover from this have "dinv [0, 1] d w"
    using daemon_reach_inv(1) daemon_start_inv(1) [OF demo_start] by simp
  ultimately show ?thesis using r that by blast
qed



text \<open>
  Shutting down after any such run closes every descriptor the daemon owns, each exactly once:
  the descriptors still open are those that were open before the daemon started and those that
  clients made it lose (\<open>stray\<close>).
\<close>

theorem daemon_shutdown_releases:
  assumes "daemon_start w = (Some (l, e, d), w0)" and "0 \<le> e" and "daemon_reach l d w0 d' w'"
    and "daemon_shutdown l e d' w' = (d'', w'')"
  shows "dom (fd_obj w'') = stray [l, e] d' w' \<and> reports w'' = reports w'"
  using daemon_shutdown_step [OF _ assms(4)] daemon_reach_inv(1) [OF assms(3) daemon_start_inv(1) [OF assms(1,2)]]
  by simp

theorem daemon_shutdown_releases_witness:
  "\<exists>d w. daemon_reach 0 daemon_init (snd (daemon_start demo_os)) d w \<and> dom (fd_obj w) \<noteq> {} \<and>
     dom (fd_obj (snd (daemon_shutdown 0 1 d w))) = {}"
proof -
  obtain d w where dw: "daemon_reach 0 daemon_init (snd (daemon_start demo_os)) d w"
    "run_batches [[Ev_listen], [Ev_listen]] demo_os = Some (d, w)"
    by (rule demo_two_clients)
  have ev: "map_option (\<lambda>(d, w). (length (fdtab w), owned d)) (run_batches [[Ev_listen], [Ev_listen]] demo_os) =
      Some (8, [2, 7, 3, 4, 5, 6])" by code_simp
  have open0: "fd_obj w f = None" if "f \<notin> {0..7}" for f
    using that dw(2) ev by (auto simp: fd_obj_def)
  have inv: "dinv [0, 1] d w" using daemon_reach_inv(1) [OF dw(1) daemon_start_inv(1) [OF demo_start]] by simp
  have "{0..7::int} = set [0, 1, 2, 7, 3, 4, 5, 6]" by (auto simp: atLeastAtMost_def atLeast_def atMost_def)
  then have "stray [0, 1] d w = {}"
    using dw(2) ev open0 by (auto simp: stray_def dom_def)
  moreover have "fd_obj w 0 \<noteq> None" using inv by (simp add: dinv_def fds_ok_def)
  ultimately show ?thesis using dw daemon_shutdown_releases [OF demo_start _ dw(1)] by (metis domIff empty_iff le_numeral_extra(4) prod.collapse zero_le_one)
qed

text \<open>
  C2. A message that has arrived whole from a connected client is handled as the specification
  says, for every type, sender and payload: \<open>handle_client_data\<close> returns, the state it leaves
  stands for the state of \<open>r_dispatch\<close>, and exactly its messages are sent.
\<close>

theorem client_message_refines:
  assumes "dinv X d w" and "consumer d = Some c \<or> producer d = Some c" and "txplan w = []"
    and "client_obj d w (Some c) = Some ob" and "rxq w ob = Chunk data obs # q" and "8 \<le> length data" and "rx_ok q"
    and "length obs \<le> MAX_FDS" and "unat (msg_size (dec_hdr data)) \<le> sizeof_screen_info"
    and "unat (msg_size (dec_hdr data)) \<le> length (rx_data (after_hdr data q))"
  shows "implements X (handle_client_data c d w)
     (r_dispatch (consumer d = Some c) (producer d = Some c) (dec_hdr data)
        (take (unat (msg_size (dec_hdr data))) (rx_data (after_hdr data q))) obs (rdv d w)) w"
  using client_data_implements [OF assms(1,2,3,4,5,6,7,8) refl assms(9,10)] .

theorem client_message_refines_witness:
  "\<exists>d w s. handle_client_data 0 d w \<noteq> None \<and> r_screen s = Some demo_screen \<and> r_wait_screen (rdv d w) \<and>
     implements [0, 1] (handle_client_data 0 d w) (s, [(11, screen_msg demo_screen, [])]) w"
proof -
  obtain d w where dw: "run_batches [[Ev_listen], [Ev_listen]] demo_os = Some (d, w)" "dinv [0, 1] d w"
    by (rule demo_two_clients)
  have a: "map_option (\<lambda>(d, w). (consumer d, producer d, client_obj d w (Some 0), rxq w 10, txplan w))
      (run_batches [[Ev_listen], [Ev_listen]] demo_os) =
      Some (Some 0, Some 1, Some 10, [Chunk (screen_msg demo_screen) []], [])" by code_simp
  have b: "map_option (\<lambda>(d, w). (r_screen (rdv d w), r_wait_screen (rdv d w), r_producer (rdv d w)))
      (run_batches [[Ev_listen], [Ev_listen]] demo_os) = Some (None, True, Some 11)" by code_simp
  have h: "dec_hdr (screen_msg demo_screen) = mk_hdr 7 16" "length (screen_msg demo_screen) = 24"
    "after_hdr (screen_msg demo_screen) [] = [Chunk (enc_screen demo_screen) []]"
    by (simp_all add: screen_msg_def after_hdr_def)
  have i: "implements [0, 1] (handle_client_data 0 d w)
      (r_dispatch True False (mk_hdr 7 16) (enc_screen demo_screen) [] (rdv d w)) w"
    using client_message_refines [OF dw(2), of 0 10 "screen_msg demo_screen" "[]" "[]"] a dw(1) h by simp
  have "r_dispatch True False (mk_hdr 7 16) (enc_screen demo_screen) [] (rdv d w) =
      ((rdv d w)\<lparr>r_screen := Some demo_screen, r_wait_screen := False\<rparr>, [(11, screen_msg demo_screen, [])])"
    using b dw(1) by (simp add: r_dispatch_def r_set_screen_def)
  with i b dw(1) show ?thesis
    by (intro exI [of _ d] exI [of _ w] exI [of _ "(rdv d w)\<lparr>r_screen := Some demo_screen, r_wait_screen := False\<rparr>"])
       (auto simp: implements_def)
qed

text \<open>
  C3. A connection whose first message is a hello becomes the consumer or the producer as the
  specification says: the previous one is dropped, a consumer's objects replace those deposited
  before and go straight to a producer that waits for them, a producer is told the screen at once
  if it is known; any other first message changes nothing.
\<close>

theorem new_connection_refines:
  assumes "dinv X d w" and "txplan w = []" and "faults w = []" and "fd_obj w l \<noteq> None"
    and "conns w = ob # rest" and "rxq w ob = Chunk data obs # q" and "8 \<le> length data" and "length obs \<le> MAX_FDS"
  shows "implements X (handle_new_connection l d w) (r_join (dec_hdr data) ob obs (rdv d w)) w"
  using new_connection_implements [OF assms] .

theorem new_connection_refines_witness:
  "implements [0, 1] (handle_new_connection 0 daemon_init (snd (daemon_start demo_os)))
     (\<lparr>r_consumer = Some 10, r_producer = None, r_screen = None, r_deposit = [20, 21, 22, 23],
       r_wait_screen = False, r_wait_fds = False\<rparr>, []) (snd (daemon_start demo_os))"
proof -
  let ?w = "snd (daemon_start demo_os)"
  have inv: "dinv [0, 1] daemon_init ?w" using daemon_start_inv(1) [OF demo_start] by simp
  have a: "txplan ?w = []" "faults ?w = []" "conns ?w = [10, 11]"
    "rxq ?w 10 = [Chunk (enc_hdr (mk_hdr 1 0)) [20, 21, 22, 23], Chunk (screen_msg demo_screen) []]"
    by (simp_all add: demo_os_def daemon_start_def sys_new_def sys_try_def os_init_def sys_install_def Let_def)
  have "fd_obj ?w 0 \<noteq> None" using inv by (simp add: dinv_def fds_ok_def)
  from new_connection_refines [OF inv a(1,2) this a(3,4)] show ?thesis
    by (simp add: r_join_def r_join_consumer_def r_redeposit_def rdv_def daemon_init_def)
qed

text \<open>
  C15. Delivery: when the producer asks and four descriptors are deposited, the producer's stream
  gets the ready message with exactly the deposited objects in the order of the deposit, the
  consumer's stream gets the ready message, and the daemon's own descriptors for them are closed
  and forgotten, so that nothing is delivered twice.
\<close>

theorem delivery_exactly_once:
  assumes "dinv X d w" and "producer d = Some p" and "client_obj d w (Some p) = Some po"
    and "client_obj d w (consumer d) = Some co" and "po \<noteq> co"
    and "map (fd_obj w) (deposited_fds d) = map Some obs" and "length obs = 4" and "txplan w = []"
  shows "\<exists>d' w'. try_deliver_fds d w = Some (d', w') \<and>
     txq w' po = txq w po @ [(ready_msg, obs)] \<and> txq w' co = txq w co @ [(ready_msg, [])] \<and>
     deposited_fds d' = [] \<and> \<not> producer_waiting_fds d' \<and>
     (\<forall>f \<in> set (deposited_fds d). fd_obj w' f = None) \<and> reports w' = reports w"
proof -
  have pn: "producer d \<noteq> None" using assms(2) by simp
  have os: "map (\<lambda>f. the (fd_obj w f)) (deposited_fds d) = obs" "length (deposited_fds d) = 4"
    using arg_cong [OF assms(6), of "map the"] arg_cong [OF assms(6), of length] assms(7) by (simp_all add: o_def)
  from deliver_implements [OF assms(1) pn assms(8)] obtain d' w' where
    r: "try_deliver_fds d w = Some (d', w')" and i: "dinv X d' w'" "rdv d' w' = fst (r_deliver (rdv d w))"
      "txq w' = emit (snd (r_deliver (rdv d w))) (txq w)" by (auto simp: implements_def)
  have rd: "r_deliver (rdv d w) = ((rdv d w)\<lparr>r_deposit := [], r_wait_fds := False\<rparr>,
      [(po, ready_msg, obs), (co, ready_msg, [])])"
    using assms os by (simp add: r_deliver_def rdv_sel)
  have "deposited_fds d' = []" "\<not> producer_waiting_fds d'"
    using arg_cong [OF i(2), of r_deposit] arg_cong [OF i(2), of r_wait_fds] rd by (simp_all add: rdv_sel)
  moreover have st: "stray X d' w' = stray X d w" "reports w' = reports w"
    using try_deliver_fds_dstep [OF assms(1) pn r] by (simp_all add: dstep_def)
  moreover have "fd_obj w' f = None" if f: "f \<in> set (deposited_fds d)" for f
  proof -
    have "f \<notin> set (X @ cfds (heap d) (consumer d) @ cfds (heap d) (producer d))"
      using assms(1) f by (auto simp: dinv_def fds_ok_def owned_def)
    moreover have "consumer d' = consumer d" "producer d' = producer d" "heap d' = heap d"
      using r by (auto simp: try_deliver_fds_def bind_Some_iff split_beta split: option.splits if_splits)
    ultimately have "f \<notin> set (X @ owned d')" using \<open>deposited_fds d' = []\<close> by (simp add: owned_def)
    moreover have "f \<notin> stray X d w" using f by (simp add: stray_def owned_def)
    ultimately show ?thesis using st(1) by (auto simp: stray_def)
  qed
  ultimately show ?thesis using r i(3) rd assms(5) by auto
qed

theorem delivery_exactly_once_witness:
  "\<exists>d w d' w'. run_batches [[Ev_listen], [Ev_listen]] demo_os = Some (d, w) \<and>
     try_deliver_fds d w = Some (d', w') \<and> txq w' 11 = txq w 11 @ [(ready_msg, [20, 21, 22, 23])]"
proof -
  obtain d w where dw: "run_batches [[Ev_listen], [Ev_listen]] demo_os = Some (d, w)" "dinv [0, 1] d w"
    by (rule demo_two_clients)
  have a: "map_option (\<lambda>(d, w). (consumer d, producer d, client_obj d w (Some 0), client_obj d w (Some 1), txplan w,
        map (fd_obj w) (deposited_fds d))) (run_batches [[Ev_listen], [Ev_listen]] demo_os) =
      Some (Some 0, Some 1, Some 10, Some 11, [], map Some [20, 21, 22, 23])" by code_simp
  with dw delivery_exactly_once [OF dw(2), of 1 11 10 "[20, 21, 22, 23]"] show ?thesis by auto
qed


text \<open>
  A client that attaches descriptors to a header announcing a payload that is too long makes
  the daemon lose every one of them: it is disconnected, and the descriptors stay open without an
  owner, one for each object the client attached (up to four per message).
\<close>

theorem oversized_payload_leaks:
  assumes "dinv X d w" and "consumer d = Some c \<or> producer d = Some c" and "client_obj d w (Some c) = Some ob"
    and "rxq w ob = Chunk data obs # q" and "8 \<le> length data" and "length obs \<le> MAX_FDS"
    and "unat (msg_size (dec_hdr data)) > sizeof_screen_info"
  shows "\<exists>d' w'. handle_client_data c d w = Some (d', w') \<and> dinv X d' w' \<and>
     card (stray X d' w' - stray X d w) = length obs \<and> stray X d w \<subseteq> stray X d' w'"
proof -
  obtain f where f: "\<And>v. client_fd c d v = (f, v)" "fd_obj w f = Some ob"
    using client_obj_live [OF assms(1,2)] assms(3) by (metis option.inject)
  define p where "p = sys_installs obs (set_rx ob (after_hdr data q) w)"
  have rf: "recv_fds f 8 MAX_FDS w = Some (8, take 8 data, fst p, snd p)"
    using recv_fds_chunk [OF f(2) assms(4,5), of MAX_FDS] assms(6) by (simp add: p_def)
  note s1 = dstep_recv_fds [OF assms(1) rf]
  have pos: "msg_size (dec_hdr data) > 0" using assms(7) by (auto simp: word_gt_0 intro: ccontr)
  have h: "handle_client_data c d w = Some (handle_disconnect c d (snd p))"
    using rf f(1) assms(5,7) pos by (simp add: handle_client_data_def read_hdr_def handle_ctrl_msg_def split_beta)
  obtain d' w' where hd: "handle_disconnect c d (snd p) = (d', w')" by fastforce
  note dr = dinv_drop [OF dstep_dinv [OF s1]]
  note s2 = handle_disconnect_dstep [OF dr(1) hd]
  have st: "stray X d' w' = stray X d w \<union> set (fst p)" using s1 s2 dr(2) by (simp add: dstep_def)
  have "fd_obj w g = None" if "g \<in> set (fst p)" for g using recv_fds_result(5) [OF rf] that by simp
  then have "stray X d w \<inter> set (fst p) = {}" by (auto simp: stray_def)
  then have "stray X d' w' - stray X d w = set (fst p)" using st by blast
  moreover have "card (set (fst p)) = length obs"
    by (simp add: p_def distinct_card distinct_sys_installs)
  ultimately show ?thesis using h hd st dstep_dinv [OF s2] by auto
qed

theorem oversized_payload_leaks_witness:
  "\<exists>d w d' w'. handle_client_data 0 d w = Some (d', w') \<and> card (stray [0, 1] d' w' - stray [0, 1] d w) = length [30, 31 :: obj]"
proof -
  obtain d w where dw: "run_batches [[Ev_listen], [Ev_listen]] demo_os = Some (d, w)" "dinv [0, 1] d w"
    by (rule demo_two_clients)
  let ?w = "w\<lparr>rxq := (rxq w)(10 := [Chunk (enc_hdr (mk_hdr 7 17)) [30, 31]])\<rparr>"
  have a: "map_option (\<lambda>(d, w). (consumer d, client_obj d w (Some 0))) (run_batches [[Ev_listen], [Ev_listen]] demo_os) =
      Some (Some 0, Some 10)" by code_simp
  then have b: "consumer d = Some 0" "client_obj d ?w (Some 0) = Some 10"
    using dw(1) by (simp_all add: client_obj_def)
  have inv: "dinv [0, 1] d ?w" by (rule dstep_dinv [OF dstep_same_fds [OF dw(2)]]) simp_all
  have "\<exists>d' w'. handle_client_data 0 d ?w = Some (d', w') \<and>
      card (stray [0, 1] d' w' - stray [0, 1] d ?w) = length [30, 31 :: obj]"
    using oversized_payload_leaks [OF inv _ b(2), of "enc_hdr (mk_hdr 7 17)" "[30, 31]" "[]"] b(1) by auto
  then show ?thesis by blast
qed

text \<open>
  The daemon reads the first message of a connection before it serves anyone else, without a
  time limit: a client that connects and stays silent stops the daemon for everybody.
\<close>

theorem silent_client_blocks_daemon:
  assumes "faults w = []" and "fd_obj w l \<noteq> None" and "conns w = ob # rest" and "rxq w ob = []"
  shows "handle_events l (Ev_listen # es) d w = None"
proof -
  obtain cf w1 where ins: "sys_install ob (w\<lparr>conns := rest\<rparr>) = (cf, w1)" by fastforce
  note I = sys_installD [OF ins]
  have "sys_accept l w = Some (cf, w1)" using assms ins by (auto simp: sys_accept_def sys_try_def)
  moreover have "fd_obj w1 cf = Some ob" "rxq w1 ob = []" using I assms(4) by auto
  ultimately show ?thesis using I(2)
    by (simp add: handle_event_def handle_new_connection_def recv_fds_def sys_recvmsg_def)
qed

theorem silent_client_blocks_daemon_witness:
  "handle_events 0 [Ev_listen, Ev_client 0 True] daemon_init
     (os_init\<lparr>fdtab := [Some 0], conns := [10]\<rparr>) = None"
  by (rule silent_client_blocks_daemon) (simp_all add: os_init_def fd_obj_def)

end
