(* ===== verification/Ownership.thy ===== *)
theory Ownership
  imports Socket_Utils "HOL-Library.Multiset"
begin

section \<open>Ownership of descriptors\<close>

text \<open>
  A component owns descriptors: \<open>holds Z w\<close> says that the descriptors of the list \<open>Z\<close> are open and
  pairwise different, \<open>lost Z w\<close> are the open descriptors that nobody on the list accounts for.
  \<open>ostep\<close> relates two states between which ownership moved without a loss, a double close or any
  other report.  The lemmas are the ways in which the libraries gain and release descriptors.
\<close>

definition holds :: "fd list \<Rightarrow> os \<Rightarrow> bool" where
  "holds Z w \<longleftrightarrow> distinct Z \<and> (\<forall>f \<in> set Z. fd_obj w f \<noteq> None)"

definition lost :: "fd list \<Rightarrow> os \<Rightarrow> fd set" where
  "lost Z w = dom (fd_obj w) - set Z"

definition ostep :: "fd list \<Rightarrow> os \<Rightarrow> fd list \<Rightarrow> os \<Rightarrow> bool" where
  "ostep Z w Z' w' \<longleftrightarrow> holds Z' w' \<and> lost Z' w' = lost Z w \<and> reports w' = reports w"

lemma ostep_refl: "holds Z w \<Longrightarrow> ostep Z w Z w"
  by (simp add: ostep_def)

lemma ostep_trans: "ostep Z w Z' w' \<Longrightarrow> ostep Z' w' Z'' w'' \<Longrightarrow> ostep Z w Z'' w''"
  by (simp add: ostep_def)

lemma ostep_holds: "ostep Z w Z' w' \<Longrightarrow> holds Z' w'"
  by (simp add: ostep_def)

lemma ostep_perm: "ostep Z w Z' w' \<Longrightarrow> set Z'' = set Z' \<Longrightarrow> distinct Z'' \<Longrightarrow> ostep Z w Z'' w'"
  by (auto simp: ostep_def holds_def lost_def)

lemma holds_perm: "holds Z w \<Longrightarrow> set Z' = set Z \<Longrightarrow> distinct Z' \<Longrightarrow> holds Z' w"
  by (simp add: holds_def)

lemma lost_perm: "set Z' = set Z \<Longrightarrow> lost Z' w = lost Z w"
  by (simp add: lost_def)

lemma ostep_keeps: "holds Z w \<Longrightarrow> keeps w w' \<Longrightarrow> ostep Z w Z w'"
  by (auto simp: ostep_def holds_def lost_def keeps_def)

lemma ostep_same_fds: "holds Z w \<Longrightarrow> fd_obj w' = fd_obj w \<Longrightarrow> reports w' = reports w \<Longrightarrow> ostep Z w Z w'"
  by (simp add: ostep_def holds_def lost_def)

lemma ostep_close_all:
  assumes "holds (Y @ Z) w"
  shows "ostep (Y @ Z) w Z (sys_close_all Y w)"
proof -
  have "reports (sys_close_all Y w) = reports w"
    using assms by (intro reports_close_all) (auto simp: holds_def)
  moreover have "holds Z (sys_close_all Y w)" using assms by (auto simp: holds_def fd_obj_close_all)
  moreover have "lost Z (sys_close_all Y w) = lost (Y @ Z) w"
    by (auto simp: lost_def fd_obj_close_all dom_def)
  ultimately show ?thesis by (simp add: ostep_def)
qed

lemma ostep_close: "holds (f # Z) w \<Longrightarrow> ostep (f # Z) w Z (sys_close f w)"
  using ostep_close_all [of "[f]" Z w] by simp

lemma ostep_recv_fds:
  assumes "holds Z w" and "recv_fds f len k w = Some (n, bs, fds, w')"
  shows "ostep Z w (fds @ Z) w'"
proof -
  note r = recv_fds_result [OF assms(2)]
  have fresh: "set fds \<inter> set Z = {}"
    using assms(1) r(5) unfolding holds_def by (metis disjoint_iff)
  have "fd_obj w' f \<noteq> None" if "f \<in> set (fds @ Z)" for f
    using that r(5) [of f] r(6) [of f] assms(1) by (cases "f \<in> set fds") (auto simp: holds_def)
  then have "holds (fds @ Z) w'" using assms(1) r(1) fresh by (auto simp: holds_def)
  moreover have "lost (fds @ Z) w' = lost Z w"
    using r(5) r(6) unfolding lost_def dom_def by auto (metis option.distinct(1))+
  ultimately show ?thesis using r(3) by (simp add: ostep_def)
qed

lemma ostep_install:
  assumes "holds Z w" and "fd_obj w f = None" and "fd_obj w' = (fd_obj w)(f \<mapsto> ob)" and "reports w' = reports w"
  shows "ostep Z w (f # Z) w'"
proof -
  have nin: "f \<notin> set Z" using assms(1,2) unfolding holds_def by metis
  then have "holds (f # Z) w'" using assms(1,3) by (auto simp: holds_def)
  moreover have "lost (f # Z) w' = lost Z w" using assms(2,3) by (auto simp: lost_def)
  ultimately show ?thesis using assms(4) by (simp add: ostep_def)
qed

lemma holds_drop:
  assumes "holds (Y @ Z) w"
  shows "holds Z w" and "lost Z w = lost (Y @ Z) w \<union> set Y"
  using assms by (auto simp: holds_def lost_def)

lemma holds_nonneg: "holds Z w \<Longrightarrow> f \<in> set Z \<Longrightarrow> 0 \<le> f"
  by (meson fd_obj_neg holds_def linorder_not_le)

lemma holds_report [simp]: "holds Z (report r w) = holds Z w" "lost Z (report r w) = lost Z w"
  by (simp_all add: holds_def lost_def)

subsection \<open>Closing what is open\<close>

text \<open>\<open>if (fd >= 0) close(fd)\<close>, and \<open>if (ptr) munmap(ptr)\<close>.\<close>

definition close_if_open :: "fd \<Rightarrow> os \<Rightarrow> os" where
  "close_if_open f w = (if f \<ge> 0 then sys_close f w else w)"

definition closed_fd :: "fd \<Rightarrow> fd" where
  "closed_fd f = (if f \<ge> 0 then -1 else f)"

definition unmap_if_mapped :: "obj option \<Rightarrow> os \<Rightarrow> os" where
  "unmap_if_mapped p w = (case p of None \<Rightarrow> w | Some ob \<Rightarrow> sys_munmap ob w)"

definition open_fds :: "fd list \<Rightarrow> fd list" where
  "open_fds fs = filter (\<lambda>f. f \<ge> 0) fs"

lemma open_fds_simps [simp]:
  "open_fds [] = []" "open_fds (f # fs) = (if f \<ge> 0 then f # open_fds fs else open_fds fs)"
  "open_fds (fs @ gs) = open_fds fs @ open_fds gs"
  by (simp_all add: open_fds_def)

lemma set_open_fds [simp]: "set (open_fds fs) = {f \<in> set fs. f \<ge> 0}"
  by (auto simp: open_fds_def)

lemma closed_fd_neg [simp]: "closed_fd f < 0" "\<not> 0 \<le> closed_fd f"
  by (simp_all add: closed_fd_def)

lemma close_if_open_eq: "close_if_open f w = sys_close_all (open_fds [f]) w"
  by (simp add: close_if_open_def)

lemma fold_close_if_open: "fold close_if_open fs w = sys_close_all (open_fds fs) w"
  by (induction fs arbitrary: w) (auto simp: close_if_open_def)

lemma close_open_Cons: "sys_close_all (open_fds (f # fs)) w = sys_close_all (open_fds fs) (close_if_open f w)"
  by (simp add: close_if_open_def)

lemma unmap_frame [simp]:
  "fd_obj (unmap_if_mapped p w) = fd_obj w" "txq (unmap_if_mapped p w) = txq w"
  "rxq (unmap_if_mapped p w) = rxq w" "txplan (unmap_if_mapped p w) = txplan w"
  "faults (unmap_if_mapped p w) = faults w" "mem (unmap_if_mapped p w) = mem w"
  by (auto simp: unmap_if_mapped_def sys_munmap_def report_def split: option.split)

lemma reports_unmap: "(\<And>ob. p = Some ob \<Longrightarrow> ob \<in> set (maps w)) \<Longrightarrow> reports (unmap_if_mapped p w) = reports w"
  by (auto simp: unmap_if_mapped_def sys_munmap_def split: option.split)

lemma maps_unmap: "(\<And>ob. p = Some ob \<Longrightarrow> ob \<in> set (maps w)) \<Longrightarrow>
    maps (unmap_if_mapped p w) = (case p of None \<Rightarrow> maps w | Some ob \<Rightarrow> remove1 ob (maps w))"
  by (auto simp: unmap_if_mapped_def sys_munmap_def split: option.split)

text \<open>
  The release sequences of the two libraries close a list of descriptors with one \<open>munmap\<close> in
  between.
\<close>

lemma ostep_release:
  assumes "holds (open_fds (Y1 @ Y2) @ Z) w" and "\<And>ob. p = Some ob \<Longrightarrow> ob \<in> set (maps w)"
    and "w' = sys_close_all (open_fds Y2) (unmap_if_mapped p (sys_close_all (open_fds Y1) w))"
  shows "ostep (open_fds (Y1 @ Y2) @ Z) w Z w'"
    and "maps w' = (case p of None \<Rightarrow> maps w | Some ob \<Rightarrow> remove1 ob (maps w))"
proof -
  let ?w1 = "sys_close_all (open_fds Y1) w" and ?w2 = "unmap_if_mapped p (sys_close_all (open_fds Y1) w)"
  have s1: "ostep (open_fds (Y1 @ Y2) @ Z) w (open_fds Y2 @ Z) ?w1"
    using ostep_close_all [of "open_fds Y1" "open_fds Y2 @ Z" w] assms(1) by simp
  have "ostep (open_fds Y2 @ Z) ?w1 (open_fds Y2 @ Z) ?w2"
    using assms(2) by (intro ostep_same_fds [OF ostep_holds [OF s1]]) (auto intro!: reports_unmap)
  note s2 = ostep_trans [OF s1 this]
  show "ostep (open_fds (Y1 @ Y2) @ Z) w Z w'"
    unfolding assms(3) by (rule ostep_trans [OF s2 ostep_close_all [OF ostep_holds [OF s2]]])
  show "maps w' = (case p of None \<Rightarrow> maps w | Some ob \<Rightarrow> remove1 ob (maps w))"
    unfolding assms(3) using assms(2) by (simp add: maps_unmap split: option.split)
qed

subsection \<open>Permutations, and connecting\<close>

lemma holds_subset: "holds Z w \<Longrightarrow> set Z' \<subseteq> set Z \<Longrightarrow> distinct Z' \<Longrightarrow> holds Z' w"
  by (auto simp: holds_def)

lemma lost_subset: "set Z' \<subseteq> set Z \<Longrightarrow> lost Z w \<subseteq> lost Z' w"
  by (auto simp: lost_def)

lemma holds_mset:
  assumes m: "mset Z' = mset Z"
  shows "holds Z' w = holds Z w" "lost Z' w = lost Z w"
  using mset_eq_setD [OF m] mset_eq_imp_distinct_iff [OF m] by (simp_all add: holds_def lost_def)

lemma ostep_mset: "mset Z1 = mset Z \<Longrightarrow> ostep Z1 w Z' w' \<Longrightarrow> ostep Z w Z' w'"
  using holds_mset(2) [of Z1 Z w] by (simp add: ostep_def)

lemma mset_open_fds: "mset (open_fds fs) = filter_mset (\<lambda>f. f \<ge> 0) (mset fs)"
  by (simp add: open_fds_def)

lemma connect_unix_step:
  assumes h: "holds Z w" and c: "connect_unix path w = (f, w')"
  shows "ostep Z w (open_fds [f] @ Z) w'" "maps w' = maps w" "f = -1 \<or> 0 \<le> f"
proof -
  obtain g w1 where n: "sys_new w = (g, w1)" by fastforce
  show "ostep Z w (open_fds [f] @ Z) w'" "maps w' = maps w" "f = -1 \<or> 0 \<le> f"
  proof (atomize (full), cases "g < 0")
    case True
    with c n sys_newD [OF n] h
    show "ostep Z w (open_fds [f] @ Z) w' \<and> maps w' = maps w \<and> (f = -1 \<or> 0 \<le> f)"
      by (auto simp: connect_unix_def intro!: ostep_same_fds)
  next
    case False
    with sys_newD [OF n] have N: "0 \<le> g" "fd_obj w g = None" "fd_obj w1 = (fd_obj w)(g \<mapsto> next_obj w)"
      "reports w1 = reports w" "maps w1 = maps w" by auto
    note s1 = ostep_install [OF h N(2,3,4)]
    obtain ok w2 where cn: "sys_connect g (take (sun_path_size - 1) path) w1 = (ok, w2)" by fastforce
    have w2: "fd_obj w2 = fd_obj w1" "reports w2 = reports w1" "maps w2 = maps w1"
      using cn sys_try_eq [of w1] by (auto simp: sys_connect_def split: prod.splits option.splits if_splits)
    note s2 = ostep_trans [OF s1 ostep_same_fds [OF ostep_holds [OF s1] w2(1,2)]]
    note s3 = ostep_trans [OF s2 ostep_close [OF ostep_holds [OF s2]]]
    show "ostep Z w (open_fds [f] @ Z) w' \<and> maps w' = maps w \<and> (f = -1 \<or> 0 \<le> f)"
      using c n cn N s2 s3 w2 False by (cases ok) (auto simp: connect_unix_def)
  qed
qed

lemma ostep_new: "holds Z w \<Longrightarrow> sys_new w = (f, w') \<Longrightarrow> ostep Z w (open_fds [f] @ Z) w'"
proof -
  assume h: "holds Z w" and n: "sys_new w = (f, w')"
  from sys_newD [OF n] show "ostep Z w (open_fds [f] @ Z) w'"
  proof (elim disjE exE conjE)
    assume "f < 0" "w' = w\<lparr>faults := tl (faults w)\<rparr>"
    then show ?thesis using h by (auto intro: ostep_same_fds)
  next
    fix t assume *: "0 \<le> f" "fd_obj w f = None" "fd_obj w' = (fd_obj w)(f \<mapsto> next_obj w)"
      "w' = w\<lparr>faults := tl (faults w), next_obj := next_obj w + 1, fdtab := t\<rparr>"
    have "reports w' = reports w" using *(4) by simp
    from ostep_install [OF h *(2,3) this] *(1) show ?thesis by simp
  qed
qed

lemma sys_new_maps: "sys_new w = (f, w') \<Longrightarrow> maps w' = maps w"
  using sys_newD [of w f w'] by auto

lemma ostep_mset_right: "ostep Z w Z1 w' \<Longrightarrow> mset Z1 = mset Z' \<Longrightarrow> ostep Z w Z' w'"
  using holds_mset [of Z1 Z'] by (simp add: ostep_def)

subsection \<open>The contract of a client that can fall back\<close>

text \<open>
  Both libraries keep a \<open>fallback\<close> flag and tell their owner through a callback when it is set.
  The contract: entering fallback sets the flag, calls the callback exactly when the flag was not
  set, keeps the control socket, and does nothing when the flag is set already.  So however many
  operations of one failure cascade enter fallback, the owner hears of it once.
\<close>

locale fallback_client =
  fixes enter :: "'c \<Rightarrow> os \<Rightarrow> ('c \<times> os) option"
    and in_fallback :: "'c \<Rightarrow> bool"
    and calls :: "'c \<Rightarrow> nat"
    and has_cb :: "'c \<Rightarrow> bool"
    and control :: "'c \<Rightarrow> fd"
  assumes enter_flag: "enter c w = Some (c', w') \<Longrightarrow> in_fallback c'"
    and enter_again: "in_fallback c \<Longrightarrow> enter c w = Some (c, w)"
    and enter_calls: "\<not> in_fallback c \<Longrightarrow> enter c w = Some (c', w') \<Longrightarrow> calls c' = calls c + (if has_cb c then 1 else 0)"
    and enter_control: "enter c w = Some (c', w') \<Longrightarrow> control c' = control c"
    and enter_cb: "enter c w = Some (c', w') \<Longrightarrow> has_cb c' = has_cb c"
begin

fun enter_times :: "nat \<Rightarrow> 'c \<Rightarrow> os \<Rightarrow> ('c \<times> os) option" where
  "enter_times 0 c w = Some (c, w)"
| "enter_times (Suc n) c w = do { (c, w) \<leftarrow> enter c w; enter_times n c w }"

lemma enter_times_idle: "in_fallback c \<Longrightarrow> enter_times n c w = Some (c, w)"
  by (induction n) (simp_all add: enter_again)

lemma enter_many: "0 < n \<Longrightarrow> enter_times n c w = enter c w"
  by (cases n; cases "enter c w") (auto simp: enter_times_idle enter_flag)

lemma calls_at_most_once: "0 < n \<Longrightarrow> enter_times n c w = Some (c', w') \<Longrightarrow> calls c' \<le> Suc (calls c)"
  by (cases "in_fallback c") (auto simp: enter_many enter_again dest: enter_calls)

end

end
