(* ===== verification/Producer.thy ===== *)
theory Producer
  imports Ownership
begin

section \<open>The producer library (\<open>libdisplay_producer/display_producer.c\<close>)\<close>

text \<open>
  The library the compositor links: it connects to the daemon, picks up the descriptors of a
  display session (two event descriptors, the data socket, the shared index of the selected
  buffer), receives the display buffers, reads input events and window commands and sends window
  events.  When the session breaks it \<^emph>\<open>falls back\<close>: everything but the control socket is released
  and the owner is told, and the session can be picked up again later.
  \<open>struct display_ctx\<close> is the record \<open>producer_ctx\<close>; the address of the shared word is the
  object it shows.  Functions that only read the context keep their names; those that the consumer
  library also has are prefixed with \<open>producer_\<close>.
\<close>

subsection \<open>State\<close>

record producer_ctx =
  ctrl :: fd
  data_fd :: fd
  buf_ready_efd :: fd
  refresh_done_efd :: fd
  shm_fd :: fd
  shm_ptr :: "obj option"
  screen_w :: u32
  screen_h :: u32
  pixel_format :: u32
  refresh :: u32
  fallback :: bool
  async_pending :: bool
  dmabuf_fds :: "fd list"  \<comment> \<open>\<open>MAX_BUFS\<close> entries\<close>
  dmabuf_infos :: "buf_info list"  \<comment> \<open>\<open>MAX_BUFS\<close> entries\<close>
  buf_count :: nat
  fallback_cb :: bool  \<comment> \<open>a callback is registered\<close>
  fallback_calls :: nat  \<comment> \<open>how often it was called\<close>

definition zero_buf_info :: buf_info where
  "zero_buf_info = \<lparr>bi_stride = 0, bi_format = 0, bi_modifier = 0, bi_offset = 0\<rparr>"

subsection \<open>Operations\<close>

definition producer_enter_fallback :: "producer_ctx \<Rightarrow> os \<Rightarrow> producer_ctx \<times> os" where
  "producer_enter_fallback ctx w =
     (if fallback ctx then (ctx, w)
      else
        (let w = fold close_if_open (take (buf_count ctx) (dmabuf_fds ctx)) w;
             w = close_if_open (data_fd ctx) w;
             w = close_if_open (buf_ready_efd ctx) w;
             w = close_if_open (refresh_done_efd ctx) w;
             w = unmap_if_mapped (shm_ptr ctx) w;
             w = close_if_open (shm_fd ctx) w
         in (ctx\<lparr>fallback := True,
               dmabuf_fds := map closed_fd (take (buf_count ctx) (dmabuf_fds ctx)) @
                             drop (buf_count ctx) (dmabuf_fds ctx),
               buf_count := 0,
               data_fd := closed_fd (data_fd ctx),
               buf_ready_efd := closed_fd (buf_ready_efd ctx),
               refresh_done_efd := closed_fd (refresh_done_efd ctx),
               shm_ptr := None,
               shm_fd := closed_fd (shm_fd ctx),
               fallback_calls := (if fallback_cb ctx then Suc (fallback_calls ctx) else fallback_calls ctx)\<rparr>, w)))"

text \<open>Reading \<open>resp.type\<close> after \<open>recv_fds\<close> wrote \<open>bs\<close> to \<open>resp\<close>.\<close>

definition read_type :: "byte list \<Rightarrow> os \<Rightarrow> u32 \<times> os" where
  "read_type bs w =
     (if length bs < 4 then (unle32 (bs @ replicate (4 - length bs) 0), report Uninit_read w)
      else (unle32 bs, w))"

text \<open>
  The end of \<open>pickup_fds\<close> and of \<open>try_reconnect\<close>, which have the same text: the reply of the daemon
  is received and its descriptors become those of the session.
\<close>

definition adopt_fds :: "producer_ctx \<Rightarrow> fd list \<Rightarrow> os \<Rightarrow> int \<times> producer_ctx \<times> os" where
  "adopt_fds ctx fds w =
     (let ctx = ctx\<lparr>buf_ready_efd := fds ! 0, refresh_done_efd := fds ! 1, data_fd := fds ! 2, shm_fd := fds ! 3\<rparr>;
          (p, w) = sys_mmap (shm_fd ctx) w
      in case p of
           None \<Rightarrow> (-1, ctx\<lparr>shm_ptr := None\<rparr>, w)
         | Some ob \<Rightarrow> (0, ctx\<lparr>shm_ptr := Some ob, fallback := False\<rparr>, w))"

definition receive_fds_ready :: "producer_ctx \<Rightarrow> os \<Rightarrow> (int \<times> producer_ctx \<times> os) option" where
  "receive_fds_ready ctx w = do {
     (n, bs, fds, w) \<leftarrow> recv_fds (ctrl ctx) sizeof_ctrl_msg 4 w;
     if n \<le> 0 then Some (-1, ctx, w)
     else do {
       let (ty, w) = read_type bs w;
       if ty \<noteq> CTRL_MSG_FDS_READY \<or> length fds < 4 then Some (-1, ctx, w)
       else Some (adopt_fds ctx fds w)
     }
   }"

definition pickup_fds :: "producer_ctx \<Rightarrow> os \<Rightarrow> (int \<times> producer_ctx \<times> os) option" where
  "pickup_fds ctx w = do {
     (r, w) \<leftarrow> send_all (ctrl ctx) (enc_hdr (mk_hdr CTRL_MSG_PICKUP_FDS 0)) w;
     if r < 0 then Some (-1, ctx, w) else receive_fds_ready ctx w
   }"

text \<open>The \<open>fail\<close> path of \<open>connect_to_deamon\<close>; \<open>disconnect\<close> also closes the buffers.\<close>

definition release_session :: "producer_ctx \<Rightarrow> os \<Rightarrow> os" where
  "release_session ctx w =
     (let w = unmap_if_mapped (shm_ptr ctx) w;
          w = close_if_open (shm_fd ctx) w;
          w = close_if_open (ctrl ctx) w;
          w = close_if_open (data_fd ctx) w;
          w = close_if_open (buf_ready_efd ctx) w
      in close_if_open (refresh_done_efd ctx) w)"

definition producer_disconnect :: "producer_ctx option \<Rightarrow> os \<Rightarrow> os" where
  "producer_disconnect p w =
     (case p of
        None \<Rightarrow> w
      | Some ctx \<Rightarrow> release_session ctx (fold close_if_open (take (buf_count ctx) (dmabuf_fds ctx)) w))"

definition producer_ctx_init :: producer_ctx where
  "producer_ctx_init = \<lparr>ctrl = -1, data_fd = -1, buf_ready_efd = -1, refresh_done_efd = -1, shm_fd = -1,
     shm_ptr = None, screen_w = 0, screen_h = 0, pixel_format = 0, refresh = 0, fallback = True,
     async_pending = False, dmabuf_fds = replicate MAX_BUFS (-1), dmabuf_infos = replicate MAX_BUFS zero_buf_info,
     buf_count = 0, fallback_cb = False, fallback_calls = 0\<rparr>"

text \<open>The handshake of \<open>connect_to_deamon\<close> after the socket is connected: \<open>False\<close> is \<open>goto fail\<close>.\<close>

definition producer_handshake :: "producer_ctx \<Rightarrow> os \<Rightarrow> (bool \<times> producer_ctx \<times> os) option" where
  "producer_handshake ctx w = do {
     (r, w) \<leftarrow> send_all (ctrl ctx) (enc_hdr (mk_hdr CTRL_MSG_PRODUCER_HELLO 0)) w;
     if r < 0 then Some (False, ctx, w)
     else do {
       (r, buf, w) \<leftarrow> recv_all (ctrl ctx) (sizeof_ctrl_msg + sizeof_screen_info) w;
       if r < 0 then Some (False, ctx, w)
       else do {
         let resp = dec_hdr buf;
         if msg_type resp \<noteq> CTRL_MSG_SCREEN_INFO \<or> msg_size resp \<noteq> 16 then Some (False, ctx, w)
         else do {
           let si = dec_screen (drop sizeof_ctrl_msg buf);
           let ctx = ctx\<lparr>screen_w := si_width si, screen_h := si_height si, pixel_format := si_format si,
                         refresh := si_refresh si\<rparr>;
           (r, ctx, w) \<leftarrow> pickup_fds ctx w;
           Some (r \<ge> 0, ctx, w)
         }
       }
     }
   }"

definition producer_connect_to_deamon :: "string \<Rightarrow> os \<Rightarrow> (producer_ctx option \<times> os) option" where
  "producer_connect_to_deamon path w = do {
     let (ok, w) = sys_try w;  \<comment> \<open>\<open>calloc\<close>\<close>
     if \<not> ok then Some (None, w)
     else do {
       let (f, w) = connect_unix path w;
       let ctx = producer_ctx_init\<lparr>ctrl := f\<rparr>;
       (ok, ctx, w) \<leftarrow> (if f < 0 then Some (False, ctx, w) else producer_handshake ctx w);
       Some (if ok then (Some ctx, w) else (None, release_session ctx w))
     }
   }"

definition get_screen_info :: "producer_ctx \<Rightarrow> u32 \<times> u32 \<times> u32 \<times> u32" where
  "get_screen_info ctx = (screen_w ctx, screen_h ctx, pixel_format ctx, refresh ctx)"

definition wait_buffer_async :: "producer_ctx \<Rightarrow> producer_ctx" where
  "wait_buffer_async ctx = ctx\<lparr>async_pending := True\<rparr>"

text \<open>
  \<open>receive_dmabufs\<close>.  The payload goes to \<open>infos\<close>, an array of \<open>MAX_BUFS\<close> structs (160 bytes);
  a longer payload is written past its end, which is reported.
\<close>

definition store_infos :: "byte list \<Rightarrow> os \<Rightarrow> os" where
  "store_infos bs w =
     (if length bs > MAX_BUFS * sizeof_buf_info
      then report (Buffer_overflow (length bs) (MAX_BUFS * sizeof_buf_info)) w else w)"

definition receive_infos :: "data_msg \<Rightarrow> fd list \<Rightarrow> producer_ctx \<Rightarrow> os \<Rightarrow> (int \<times> producer_ctx \<times> os) option" where
  "receive_infos dhdr fds ctx w = (
     let count = unat (msg_size dhdr) div sizeof_buf_info in
     if count \<noteq> length fds \<or> count > MAX_BUFS then Some (-1, ctx, sys_close_all fds w)
     else do {
       (r, bs, w) \<leftarrow> recv_all (data_fd ctx) (unat (msg_size dhdr)) w;
       let w = store_infos bs w;
       if r < 0 then (let (ctx, w) = producer_enter_fallback ctx (sys_close_all fds w) in Some (-1, ctx, w))
       else Some (0, ctx\<lparr>dmabuf_fds := fds @ drop count (dmabuf_fds ctx),
                         dmabuf_infos := dec_bufs count bs @ drop count (dmabuf_infos ctx),
                         buf_count := count\<rparr>, w)
     })"

definition receive_dmabufs :: "producer_ctx \<Rightarrow> os \<Rightarrow> (int \<times> producer_ctx \<times> os) option" where
  "receive_dmabufs ctx w =
     (if buf_count ctx > 0 then Some (0, ctx, w)
      else do {
        (n, bs, fds, w) \<leftarrow> recv_fds (data_fd ctx) sizeof_data_msg MAX_BUFS w;
        if n < int sizeof_data_msg \<or> length fds < 1 then
          (let (ctx, w) = producer_enter_fallback ctx w in Some (-1, ctx, w))
        else if msg_type (dec_hdr bs) \<noteq> DATA_MSG_BUFS_READY then Some (-1, ctx, sys_close_all fds w)
        else receive_infos (dec_hdr bs) fds ctx w
      })"

text \<open>
  The \<open>poll\<close> loop of \<open>wait_buffer_async_result\<close>: it ends with a buffer (\<open>True\<close>) or in fallback; a
  timeout or an interruption starts it over.
\<close>

function wait_buffer_poll :: "producer_ctx \<Rightarrow> os \<Rightarrow> (bool \<times> producer_ctx \<times> os) option" where
  "wait_buffer_poll ctx w =
     (case sys_poll [buf_ready_efd ctx, data_fd ctx] w of
        None \<Rightarrow> None
      | Some (Poll_intr, w') \<Rightarrow> wait_buffer_poll ctx w'
      | Some (Poll_timeout, w') \<Rightarrow> wait_buffer_poll ctx w'
      | Some (Poll_err, w') \<Rightarrow> (let (ctx, w) = producer_enter_fallback ctx w' in Some (False, ctx, w))
      | Some (Poll_ready rs, w') \<Rightarrow>
          if POLLHUP (rs ! 1) \<or> POLLERR (rs ! 1)
          then (let (ctx, w) = producer_enter_fallback ctx w' in Some (False, ctx, w))
          else if POLLIN (rs ! 0) then Some (True, ctx, w')
          else wait_buffer_poll ctx w')"
  by pat_completeness auto
termination
  by (relation "measure (\<lambda>(ctx, w). length (polls w))") (auto dest: sys_poll_shorter)

declare wait_buffer_poll.simps [simp del]

definition wait_buffer_async_result :: "producer_ctx \<Rightarrow> os \<Rightarrow> (int \<times> producer_ctx \<times> os) option" where
  "wait_buffer_async_result ctx w = do {
     (r, ctx, w) \<leftarrow> (if fallback ctx then pickup_fds (ctx\<lparr>async_pending := False\<rparr>) w else Some (0, ctx, w));
     if r < 0 then Some (-1, ctx, w)
     else if \<not> async_pending ctx then Some (-1, ctx, w)
     else do {
       (ready, ctx, w) \<leftarrow> wait_buffer_poll ctx w;
       if \<not> ready then Some (-1, ctx\<lparr>async_pending := False\<rparr>, w)
       else do {
         let (ok, w) = sys_eventfd_read (buf_ready_efd ctx) w;
         (r, ctx, w) \<leftarrow> receive_dmabufs ctx w;
         if r < 0 then Some (-1, ctx\<lparr>async_pending := False\<rparr>, w)
         else Some (0, ctx\<lparr>async_pending := False\<rparr>, w)
       }
     }
   }"

definition trigger_refresh :: "producer_ctx \<Rightarrow> os \<Rightarrow> int \<times> os" where
  "trigger_refresh ctx w =
     (if fallback ctx then (0, w) else (0, sys_eventfd_write (refresh_done_efd ctx) 1 w))"

text \<open>
  The loop that throws away the payload of an unknown message, in pieces of at most 256 bytes
  (the size of \<open>discard\<close>).
\<close>

function discard_payload :: "fd \<Rightarrow> nat \<Rightarrow> os \<Rightarrow> (int \<times> os) option" where
  "discard_payload f sz w =
     (if sz = 0 then Some (0, w)
      else (case recv_all f (min sz 256) w of
              None \<Rightarrow> None
            | Some (r, bs, w') \<Rightarrow> if r < 0 then Some (-1, w') else discard_payload f (sz - min sz 256) w'))"
  by pat_completeness auto
termination
  by (relation "measure (\<lambda>(f, sz, w). sz)") auto

declare discard_payload.simps [simp del]

text \<open>What \<open>poll_display_event\<close> wrote through its two pointers.\<close>

datatype display_event = No_event | Input InputEvent | Command WindowCommand

definition skip_message :: "producer_ctx \<Rightarrow> data_msg \<Rightarrow> os \<Rightarrow> (int \<times> display_event \<times> producer_ctx \<times> os) option" where
  "skip_message ctx hdr w =
     (if unat (msg_size hdr) > 4096 then
        (let (ctx, w) = producer_enter_fallback ctx w in Some (-1, No_event, ctx, w))
      else do {
        (r, bs, w) \<leftarrow> recv_all (data_fd ctx) sizeof_data_msg w;
        if r < 0 then Some (-1, No_event, ctx, w)
        else do {
          (r, w) \<leftarrow> discard_payload (data_fd ctx) (unat (msg_size hdr)) w;
          Some (r, No_event, ctx, w)
        }
      })"

text \<open>
  The two arms of \<open>poll_display_event\<close> for messages it knows have the same text: a wrong size falls
  back, otherwise header and struct are received together and the struct is copied out.
\<close>

definition recv_struct :: "producer_ctx \<Rightarrow> bool \<Rightarrow> nat \<Rightarrow> (byte list \<Rightarrow> int \<times> display_event) \<Rightarrow> os \<Rightarrow>
    (int \<times> display_event \<times> producer_ctx \<times> os) option" where
  "recv_struct ctx size_ok n decode w =
     (if \<not> size_ok then (let (ctx, w) = producer_enter_fallback ctx w in Some (-1, No_event, ctx, w))
      else do {
        (r, msg, w) \<leftarrow> recv_all (data_fd ctx) n w;
        Some (if r < 0 then (-1, No_event, ctx, w) else (fst (decode msg), snd (decode msg), ctx, w))
      })"

definition read_display_event :: "producer_ctx \<Rightarrow> data_msg \<Rightarrow> os \<Rightarrow> (int \<times> display_event \<times> producer_ctx \<times> os) option" where
  "read_display_event ctx hdr w =
     (if msg_type hdr = DATA_MSG_INPUT_EVENT then
        recv_struct ctx (msg_size hdr = 20) (sizeof_data_msg + sizeof_InputEvent)
          (\<lambda>msg. (102, Input (dec_input (drop sizeof_data_msg msg)))) w
      else if msg_type hdr = DATA_MSG_WINDOW_COMMAND then
        recv_struct ctx (msg_size hdr = 8) (sizeof_data_msg + sizeof_WindowCommand)
          (\<lambda>msg. (301, Command (dec_window_command (drop sizeof_data_msg msg)))) w
      else skip_message ctx hdr w)"

definition poll_display_event :: "producer_ctx \<Rightarrow> os \<Rightarrow> (int \<times> display_event \<times> producer_ctx \<times> os) option" where
  "poll_display_event ctx w =
     (if fallback ctx then Some (0, No_event, ctx, w)
      else do {
        (p, w) \<leftarrow> sys_poll [data_fd ctx] w;
        case p of
          Poll_ready rs \<Rightarrow>
            if POLLHUP (rs ! 0) \<or> POLLERR (rs ! 0) then
              (let (ctx, w) = producer_enter_fallback ctx w in Some (-1, No_event, ctx, w))
            else do {
              (n, bs, w) \<leftarrow> sys_peek (data_fd ctx) (sizeof_data_msg + sizeof_InputEvent) w;
              if (case n of Ret k \<Rightarrow> k < sizeof_data_msg | _ \<Rightarrow> True) then Some (0, No_event, ctx, w)
              else read_display_event ctx (dec_hdr bs) w
            }
        | _ \<Rightarrow> Some (0, No_event, ctx, w)
      })"

definition poll_input_event :: "producer_ctx \<Rightarrow> os \<Rightarrow> (int \<times> display_event \<times> producer_ctx \<times> os) option" where
  "poll_input_event ctx w = do {
     (ret, ev, ctx, w) \<leftarrow> poll_display_event ctx w;
     Some (if ret = 102 then 1 else if ret < 0 then ret else 0, ev, ctx, w)
   }"

definition push_window_event :: "producer_ctx \<Rightarrow> WindowEvent \<Rightarrow> os \<Rightarrow> (int \<times> producer_ctx \<times> os) option" where
  "push_window_event ctx event w =
     (if fallback ctx then Some (0, ctx, w)
      else do {
        (r, w) \<leftarrow> send_all (data_fd ctx) (enc_hdr (mk_hdr DATA_MSG_WINDOW_EVENT 268) @ enc_window_event event) w;
        if r < 0 then (let (ctx, w) = producer_enter_fallback ctx w in Some (-1, ctx, w))
        else Some (1, ctx, w)
      })"

definition producer_set_fallback_callback :: "producer_ctx \<Rightarrow> bool \<Rightarrow> producer_ctx" where
  "producer_set_fallback_callback ctx cb = ctx\<lparr>fallback_cb := cb\<rparr>"

definition is_fallback :: "producer_ctx \<Rightarrow> bool" where
  "is_fallback ctx = fallback ctx"

definition try_reconnect :: "producer_ctx \<Rightarrow> os \<Rightarrow> (int \<times> producer_ctx \<times> os) option" where
  "try_reconnect ctx w =
     (if \<not> fallback ctx then Some (0, ctx, w)
      else do {
        (r, w) \<leftarrow> send_all (ctrl ctx) (enc_hdr (mk_hdr CTRL_MSG_PICKUP_FDS 0)) w;
        if r < 0 then Some (-1, ctx, w)
        else do {
          (p, w) \<leftarrow> sys_poll [ctrl ctx] w;
          case p of
            Poll_ready rs \<Rightarrow> do {
              (r, ctx, w) \<leftarrow> receive_fds_ready ctx w;
              Some (r, if r = 0 then ctx\<lparr>buf_count := 0\<rparr> else ctx, w)
            }
          | _ \<Rightarrow> Some (-1, ctx, w)
        }
      })"

definition get_data_fd :: "producer_ctx \<Rightarrow> fd" where
  "get_data_fd ctx = data_fd ctx"

definition get_buffer_ready_fd :: "producer_ctx \<Rightarrow> fd" where
  "get_buffer_ready_fd ctx = buf_ready_efd ctx"

definition get_buf_count :: "producer_ctx \<Rightarrow> nat" where
  "get_buf_count ctx = buf_count ctx"

definition get_selected_idx :: "producer_ctx \<Rightarrow> os \<Rightarrow> nat" where
  "get_selected_idx ctx w =
     (case shm_ptr ctx of
        None \<Rightarrow> 0
      | Some ob \<Rightarrow> if unat (mem w ob) < buf_count ctx then unat (mem w ob) else 0)"

definition get_dmabuf_fd_at :: "producer_ctx \<Rightarrow> int \<Rightarrow> fd" where
  "get_dmabuf_fd_at ctx idx =
     (if idx < 0 \<or> idx \<ge> int (buf_count ctx) then -1 else dmabuf_fds ctx ! nat idx)"

definition get_dmabuf_fd :: "producer_ctx \<Rightarrow> os \<Rightarrow> fd" where
  "get_dmabuf_fd ctx w = get_dmabuf_fd_at ctx (int (get_selected_idx ctx w))"

definition get_dmabuf_info_at :: "producer_ctx \<Rightarrow> int \<Rightarrow> buf_info option" where
  "get_dmabuf_info_at ctx idx =
     (if idx < 0 \<or> idx \<ge> int (buf_count ctx) then None else Some (dmabuf_infos ctx ! nat idx))"

definition get_dmabuf_info :: "producer_ctx \<Rightarrow> os \<Rightarrow> buf_info option" where
  "get_dmabuf_info ctx w = get_dmabuf_info_at ctx (int (get_selected_idx ctx w))"

subsection \<open>The invariant of a context\<close>

definition powned :: "producer_ctx \<Rightarrow> fd list" where
  "powned ctx = open_fds (take (buf_count ctx) (dmabuf_fds ctx) @
     [data_fd ctx, buf_ready_efd ctx, refresh_done_efd ctx, shm_fd ctx, ctrl ctx])"

definition pshape :: "producer_ctx \<Rightarrow> bool" where
  "pshape ctx \<longleftrightarrow> length (dmabuf_fds ctx) = MAX_BUFS \<and> length (dmabuf_infos ctx) = MAX_BUFS \<and> buf_count ctx \<le> MAX_BUFS \<and>
     (\<forall>f \<in> set (take (buf_count ctx) (dmabuf_fds ctx)). 0 \<le> f) \<and>
     (if fallback ctx then buf_count ctx = 0 \<and> shm_ptr ctx = None
      else 0 \<le> data_fd ctx \<and> 0 \<le> buf_ready_efd ctx \<and> 0 \<le> refresh_done_efd ctx \<and> 0 \<le> shm_fd ctx \<and> shm_ptr ctx \<noteq> None)"

definition pinv :: "fd list \<Rightarrow> producer_ctx \<Rightarrow> os \<Rightarrow> bool" where
  "pinv X ctx w \<longleftrightarrow> pshape ctx \<and> holds (powned ctx @ X) w \<and> (\<forall>ob. shm_ptr ctx = Some ob \<longrightarrow> ob \<in> set (maps w))"

text \<open>
  \<open>pstep\<close>: an operation keeps the invariant; it may lose descriptors, and the only reports are a
  reply of which not even the type arrived, and the overflow of \<open>infos\<close> by less than one struct.
\<close>

definition pbenign :: "report \<Rightarrow> bool" where
  "pbenign r = (case r of Uninit_read \<Rightarrow> True | Buffer_overflow n k \<Rightarrow> k = 160 \<and> 160 < n \<and> n < 180 | _ \<Rightarrow> False)"

definition pstep :: "fd list \<Rightarrow> producer_ctx \<Rightarrow> os \<Rightarrow> producer_ctx \<Rightarrow> os \<Rightarrow> bool" where
  "pstep X ctx w ctx' w' \<longleftrightarrow> pinv X ctx' w' \<and> lost (powned ctx @ X) w \<subseteq> lost (powned ctx' @ X) w' \<and>
     (\<exists>rs. reports w' = reports w @ rs \<and> list_all pbenign rs)"

lemma pstep_refl: "pinv X ctx w \<Longrightarrow> pstep X ctx w ctx w"
  by (simp add: pstep_def)

lemma pstep_trans: "pstep X c w c' w' \<Longrightarrow> pstep X c' w' c'' w'' \<Longrightarrow> pstep X c w c'' w''"
  unfolding pstep_def by (metis append_assoc list_all_append subset_trans)

lemma pstep_pinv: "pstep X c w c' w' \<Longrightarrow> pinv X c' w'"
  by (simp add: pstep_def)

lemma pstep_keeps: "pinv X ctx w \<Longrightarrow> keeps w w' \<Longrightarrow> pstep X ctx w ctx w'"
  by (auto simp: pstep_def pinv_def keeps_def holds_def lost_def)

lemma pstep_ctx:
  assumes "pstep X c w c' w'" and "powned c'' = powned c'" and "pshape c''" and "shm_ptr c'' = shm_ptr c'"
  shows "pstep X c w c'' w'"
  using assms by (simp add: pstep_def pinv_def)

lemma pshape_frame [simp]:
  "pshape (ctx\<lparr>async_pending := b\<rparr>) = pshape ctx" "pshape (ctx\<lparr>fallback_cb := b\<rparr>) = pshape ctx"
  "pshape (ctx\<lparr>fallback_calls := n\<rparr>) = pshape ctx" "powned (ctx\<lparr>async_pending := b\<rparr>) = powned ctx"
  "powned (ctx\<lparr>fallback_cb := b\<rparr>) = powned ctx" "powned (ctx\<lparr>fallback_calls := n\<rparr>) = powned ctx"
  by (simp_all add: pshape_def powned_def)

lemma pinv_async [simp]: "pinv X (ctx\<lparr>async_pending := b\<rparr>) w = pinv X ctx w"
  by (simp add: pinv_def)

lemma pstep_async [simp]:
  "pstep X (ctx\<lparr>async_pending := b\<rparr>) w c' w' = pstep X ctx w c' w'"
  "pstep X ctx w (c'\<lparr>async_pending := b\<rparr>) w' = pstep X ctx w c' w'"
  by (simp_all add: pstep_def)

subsection \<open>Fallback\<close>

text \<open>
  Entering fallback: everything but the control socket is closed, each descriptor once, the shared
  word is unmapped, nothing is lost and nothing reported.
\<close>

lemma producer_enter_fallback_step:
  assumes inv: "pinv X ctx w" and e: "producer_enter_fallback ctx w = (ctx', w')"
  shows "ostep (powned ctx @ X) w (powned ctx' @ X) w'" "pinv X ctx' w'" "fallback ctx'"
    "powned ctx' = (if fallback ctx then powned ctx else open_fds [ctrl ctx])"
    "maps w' = (case shm_ptr ctx of None \<Rightarrow> maps w | Some ob \<Rightarrow> remove1 ob (maps w))"
    "ctrl ctx' = ctrl ctx"
proof -
  have *: "ostep (powned ctx @ X) w (powned ctx' @ X) w' \<and> pinv X ctx' w' \<and> fallback ctx' \<and>
    powned ctx' = (if fallback ctx then powned ctx else open_fds [ctrl ctx]) \<and>
    maps w' = (case shm_ptr ctx of None \<Rightarrow> maps w | Some ob \<Rightarrow> remove1 ob (maps w)) \<and> ctrl ctx' = ctrl ctx"
  proof (cases "fallback ctx")
    case True
    with inv e show ?thesis
      by (auto simp: producer_enter_fallback_def pinv_def pshape_def ostep_refl)
  next
    case False
    let ?Y = "take (buf_count ctx) (dmabuf_fds ctx) @ [data_fd ctx, buf_ready_efd ctx, refresh_done_efd ctx]"
    have w': "w' = sys_close_all (open_fds [shm_fd ctx]) (unmap_if_mapped (shm_ptr ctx) (sys_close_all (open_fds ?Y) w))"
      using e False
      by (simp add: producer_enter_fallback_def Let_def fold_close_if_open close_open_Cons del: open_fds_simps(2))
    have o: "powned ctx @ X = open_fds (?Y @ [shm_fd ctx]) @ (open_fds [ctrl ctx] @ X)" by (simp add: powned_def)
    have h: "holds (open_fds (?Y @ [shm_fd ctx]) @ (open_fds [ctrl ctx] @ X)) w"
      using inv by (simp only: pinv_def o)
    have m: "\<And>ob. shm_ptr ctx = Some ob \<Longrightarrow> ob \<in> set (maps w)" using inv by (simp add: pinv_def)
    note rel = ostep_release [OF h m w']
    have c': "powned ctx' = open_fds [ctrl ctx]" "fallback ctx'" "shm_ptr ctx' = None" "pshape ctx'" "ctrl ctx' = ctrl ctx"
      using e False inv by (auto simp: producer_enter_fallback_def Let_def powned_def pinv_def pshape_def)
    with rel False o show ?thesis by (auto simp: pinv_def ostep_holds)
  qed
  then show "ostep (powned ctx @ X) w (powned ctx' @ X) w'" "pinv X ctx' w'" "fallback ctx'"
    "powned ctx' = (if fallback ctx then powned ctx else open_fds [ctrl ctx])"
    "maps w' = (case shm_ptr ctx of None \<Rightarrow> maps w | Some ob \<Rightarrow> remove1 ob (maps w))"
    "ctrl ctx' = ctrl ctx" by blast+
qed

lemma pstep_fallback:
  assumes "pstep X c w c' w'" and "producer_enter_fallback c' w' = (c'', w'')"
  shows "pstep X c w c'' w''"
  using assms producer_enter_fallback_step(1,2) [OF pstep_pinv [OF assms(1)] assms(2)]
  by (auto simp: pstep_def ostep_def)

interpretation producer_fb:
  fallback_client "\<lambda>c w. Some (producer_enter_fallback c w)" fallback fallback_calls fallback_cb ctrl
  by unfold_locales (auto simp: producer_enter_fallback_def Let_def split: if_splits)

lemma receive_fds_ready_step:
  assumes inv: "pinv X ctx w" and fb: "fallback ctx" and r: "receive_fds_ready ctx w = Some (x, ctx', w')"
  shows "pstep X ctx w ctx' w'" "x = 0 \<or> x = -1" "x = 0 \<longleftrightarrow> \<not> fallback ctx'" "ctrl ctx' = ctrl ctx"
    "async_pending ctx' = async_pending ctx"
proof -
  from r obtain n bs fds w1 where rf: "recv_fds (ctrl ctx) 8 4 w = Some (n, bs, fds, w1)"
    by (auto simp: receive_fds_ready_def bind_Some_iff)
  note res = recv_fds_result [OF rf]
  have h: "holds (powned ctx @ X) w" using inv by (simp add: pinv_def)
  note s1 = ostep_recv_fds [OF h rf]
  have ob: "shm_ptr ctx = None" "buf_count ctx = 0" "pshape ctx" using inv fb by (auto simp: pinv_def pshape_def)
  note drop = holds_drop [OF ostep_holds [OF s1]]
  define W where "W = (if n \<le> 0 then w1 else snd (read_type bs w1))"
  have W: "fd_obj W = fd_obj w1" "\<exists>rs. reports W = reports w1 @ rs \<and> list_all pbenign rs"
    by (auto simp: W_def read_type_def report_def pbenign_def)
  have give_up: "pstep X ctx w ctx W"
  proof -
    have "holds (powned ctx @ X) W" using drop(1) W(1) by (simp add: holds_def)
    moreover have "lost (powned ctx @ X) w \<subseteq> lost (powned ctx @ X) W"
      using drop(2) s1 W(1) by (auto simp: ostep_def lost_def)
    moreover have "\<exists>rs. reports W = reports w @ rs \<and> list_all pbenign rs" using W(2) s1 by (simp add: ostep_def)
    ultimately show ?thesis using ob by (simp add: pstep_def pinv_def)
  qed
  show "pstep X ctx w ctx' w'" "x = 0 \<or> x = -1" "x = 0 \<longleftrightarrow> \<not> fallback ctx'" "ctrl ctx' = ctrl ctx" "async_pending ctx' = async_pending ctx"
  proof (atomize (full), goal_cases)
    case 1
    show ?case
    proof (cases "n \<le> 0 \<or> fst (read_type bs w1) \<noteq> CTRL_MSG_FDS_READY \<or> length fds < 4")
      case True
      then have "x = -1" "ctx' = ctx" "w' = W"
        using r rf by (auto simp: receive_fds_ready_def W_def split: if_splits prod.splits)
      with give_up fb show ?thesis by simp
    next
      case False
      have rt: "read_type bs w1 = (CTRL_MSG_FDS_READY, W)" using False by (simp add: W_def prod_eq_iff)
      have len: "length fds = 4" using False res(2) by simp
      then obtain a b c d where fds: "fds = [a, b, c, d]"
        by (auto simp: numeral_eq_Suc length_Suc_conv)
      obtain p w2 where mm: "sys_mmap d W = (p, w2)" by fastforce
      let ?c = "ctx\<lparr>buf_ready_efd := a, refresh_done_efd := b, data_fd := c, shm_fd := d\<rparr>"
      note M = sys_mmapD [OF mm]
      have e: "(x, ctx', w') = (case p of None \<Rightarrow> (-1, ?c\<lparr>shm_ptr := None\<rparr>, w2)
          | Some ob \<Rightarrow> (0, ?c\<lparr>shm_ptr := Some ob, fallback := False\<rparr>, w2))"
        using r rf False mm rt by (simp add: receive_fds_ready_def adopt_fds_def fds Let_def)
      have pos: "0 \<le> a" "0 \<le> b" "0 \<le> c" "0 \<le> d" using res(5) fds by auto
      have c': "ctx' = (if p = None then ?c\<lparr>shm_ptr := None\<rparr> else ?c\<lparr>shm_ptr := p, fallback := False\<rparr>)"
        "w' = w2" "x = (if p = None then -1 else 0)"
        using e by (cases p; simp)+
      have own: "powned ctx' = [c, a, b, d] @ open_fds [ctrl ctx]"
        using pos ob by (simp add: c' powned_def)
      have pc: "powned ctx = open_fds [data_fd ctx, buf_ready_efd ctx, refresh_done_efd ctx, shm_fd ctx] @ open_fds [ctrl ctx]"
        by (simp add: powned_def ob)
      have sub: "set (powned ctx' @ X) \<subseteq> set (fds @ powned ctx @ X)"
        unfolding own fds by (auto simp: powned_def)
      have di: "distinct (powned ctx' @ X)"
        using ostep_holds [OF s1] unfolding own fds holds_def pc by (auto simp del: open_fds_simps set_open_fds)
      have h2: "holds (powned ctx' @ X) w2"
        using holds_subset [OF ostep_holds [OF s1] sub di] M(1) W(1) by (simp add: holds_def)
      have l2: "lost (powned ctx @ X) w \<subseteq> lost (powned ctx' @ X) w2"
        using lost_subset [OF sub, of w1] s1 M(1) W(1) by (auto simp: ostep_def lost_def)
      have sh: "pshape ctx'" using ob pos fb by (auto simp: pshape_def c')
      have "\<exists>rs. reports w2 = reports w @ rs \<and> list_all pbenign rs" using W(2) s1 M(2) by (simp add: ostep_def)
      moreover have "shm_ptr ctx' = Some ob \<longrightarrow> ob \<in> set (maps w2)" for ob using M(7) by (auto simp: c' split: if_splits)
      ultimately have "pstep X ctx w ctx' w'" using h2 l2 sh c'(2) by (simp add: pstep_def pinv_def)
      then show ?thesis using fb by (simp add: c')
    qed
  qed
qed

lemma pickup_fds_step:
  assumes inv: "pinv X ctx w" and fb: "fallback ctx" and r: "pickup_fds ctx w = Some (x, ctx', w')"
  shows "pstep X ctx w ctx' w'" "x = 0 \<or> x = -1" "x = 0 \<longleftrightarrow> \<not> fallback ctx'" "async_pending ctx' = async_pending ctx"
proof -
  from r obtain y w1 where s: "send_all (ctrl ctx) (enc_hdr (mk_hdr CTRL_MSG_PICKUP_FDS 0)) w = Some (y, w1)"
    by (auto simp: pickup_fds_def bind_Some_iff)
  have k: "pstep X ctx w ctx w1" by (rule pstep_keeps [OF inv send_all_keeps(1) [OF s]])
  show "pstep X ctx w ctx' w'" "x = 0 \<or> x = -1" "x = 0 \<longleftrightarrow> \<not> fallback ctx'" "async_pending ctx' = async_pending ctx"
  proof (atomize (full), goal_cases)
    case 1
    show ?case
    proof (cases "y < 0")
      case True
      with r s fb k show ?thesis by (auto simp: pickup_fds_def)
    next
      case False
      with r s have "receive_fds_ready ctx w1 = Some (x, ctx', w')" by (simp add: pickup_fds_def)
      note R = receive_fds_ready_step [OF pstep_pinv [OF k] fb this]
      show ?thesis using R pstep_trans [OF k R(1)] by simp
    qed
  qed
qed

lemma pstep_drop_fds:
  assumes s: "ostep (powned ctx @ X) w (fds @ powned ctx @ X) w1" and inv: "pinv X ctx w" and m: "maps w1 = maps w"
  shows "pstep X ctx w ctx (sys_close_all fds w1)"
  using ostep_trans [OF s ostep_close_all [OF ostep_holds [OF s]]] inv m by (simp add: pstep_def pinv_def ostep_def)

lemma store_infos_step:
  "fd_obj (store_infos bs w) = fd_obj w" "maps (store_infos bs w) = maps w"
  "length bs < 180 \<Longrightarrow> \<exists>rs. reports (store_infos bs w) = reports w @ rs \<and> list_all pbenign rs"
  by (auto simp: store_infos_def report_def pbenign_def)

lemma receive_infos_step:
  assumes inv: "pinv X ctx w" and z: "buf_count ctx = 0" and nf: "\<not> fallback ctx"
    and s: "ostep (powned ctx @ X) w (fds @ powned ctx @ X) w1" and m: "maps w1 = maps w"
    and r: "receive_infos dhdr fds ctx w1 = Some (x, ctx', w')"
  shows "pstep X ctx w ctx' w'"
proof -
  let ?n = "unat (msg_size dhdr) div 20"
  show ?thesis
  proof (cases "?n \<noteq> length fds \<or> ?n > MAX_BUFS")
    case True
    with r have "ctx' = ctx" "w' = sys_close_all fds w1" by (auto simp: receive_infos_def Let_def)
    with pstep_drop_fds [OF s inv m] show ?thesis by simp
  next
    case False
    with r obtain y bs w2 where ra: "recv_all (data_fd ctx) (unat (msg_size dhdr)) w1 = Some (y, bs, w2)"
      by (auto simp: receive_infos_def Let_def bind_Some_iff)
    have len: "length bs < 180" using recv_all_length [OF ra] False by linarith
    let ?w = "store_infos bs w2"
    have k: "keeps w1 w2" using recv_all_keeps [OF ra] by simp
    have fw: "fd_obj ?w = fd_obj w1" "maps ?w = maps w" using k m by (simp_all add: store_infos_step keeps_def)
    obtain rs where rs: "reports ?w = reports w @ rs" "list_all pbenign rs"
      using store_infos_step(3) [OF len, of w2] k s by (auto simp: keeps_def ostep_def)
    show ?thesis
    proof (cases "y < 0")
      case True
      have h: "holds (fds @ powned ctx @ X) ?w" using ostep_holds [OF s] fw(1) by (simp add: holds_def)
      note cl = ostep_close_all [OF h]
      have "pstep X ctx w ctx (sys_close_all fds ?w)"
        using cl inv fw rs s by (auto simp: pstep_def pinv_def ostep_def lost_def)
      moreover have "producer_enter_fallback ctx (sys_close_all fds ?w) = (ctx', w')"
        using r ra True False by (simp add: receive_infos_def Let_def split: prod.splits)
      ultimately show ?thesis by (rule pstep_fallback)
    next
      case y: False
      have c': "ctx' = ctx\<lparr>dmabuf_fds := fds @ drop ?n (dmabuf_fds ctx),
          dmabuf_infos := dec_bufs ?n bs @ drop ?n (dmabuf_infos ctx), buf_count := ?n\<rparr>" "w' = ?w"
        using r ra y False by (auto simp: receive_infos_def Let_def)
      have pos: "\<forall>f \<in> set fds. 0 \<le> f" using holds_nonneg [OF ostep_holds [OF s]] by simp
      then have of: "open_fds fds = fds" by (simp add: open_fds_def)
      have own: "powned ctx' = fds @ powned ctx" using False of by (simp add: c' powned_def z)
      have "holds (powned ctx' @ X) w'" "lost (powned ctx' @ X) w' = lost (powned ctx @ X) w"
        using s fw(1) by (auto simp: own c'(2) ostep_def holds_def lost_def)
      moreover have "pshape ctx'" using inv nf False pos by (auto simp: pinv_def pshape_def c')
      moreover have "shm_ptr ctx' = shm_ptr ctx" by (simp add: c')
      ultimately show ?thesis using inv rs fw(2) c'(2) by (auto simp: pstep_def pinv_def)
    qed
  qed
qed

lemma receive_dmabufs_step:
  assumes inv: "pinv X ctx w" and nf: "\<not> fallback ctx" and r: "receive_dmabufs ctx w = Some (x, ctx', w')"
  shows "pstep X ctx w ctx' w'"
proof (cases "buf_count ctx > 0")
  case True
  with r inv show ?thesis by (simp add: receive_dmabufs_def pstep_refl)
next
  case z: False
  with r obtain n bs fds w1 where rf: "recv_fds (data_fd ctx) 8 MAX_BUFS w = Some (n, bs, fds, w1)"
    by (auto simp: receive_dmabufs_def bind_Some_iff)
  have h: "holds (powned ctx @ X) w" using inv by (simp add: pinv_def)
  note s1 = ostep_recv_fds [OF h rf] and m = recv_fds_maps [OF rf]
  have lose: "pstep X ctx w ctx w1"
    using holds_drop [OF ostep_holds [OF s1]] s1 inv m by (auto simp: pstep_def pinv_def ostep_def)
  consider (short) "n < 8 \<or> length fds < 1" | (type) "\<not> (n < 8 \<or> length fds < 1)" "msg_type (dec_hdr bs) \<noteq> DATA_MSG_BUFS_READY"
    | (ok) "receive_infos (dec_hdr bs) fds ctx w1 = Some (x, ctx', w')"
    using r rf z by (fastforce simp: receive_dmabufs_def split: if_splits)
  then show ?thesis
  proof cases
    case short
    have "producer_enter_fallback ctx w1 = (ctx', w')"
      using r rf z short by (auto simp: receive_dmabufs_def split: prod.splits if_splits)
    with lose show ?thesis by (rule pstep_fallback)
  next
    case type
    then have "ctx' = ctx" "w' = sys_close_all fds w1" using r rf z by (auto simp: receive_dmabufs_def)
    with pstep_drop_fds [OF s1 inv m] show ?thesis by simp
  next
    case ok
    show ?thesis by (rule receive_infos_step [OF inv _ nf s1 m ok]) (use z in simp)
  qed
qed

lemma wait_buffer_poll_step:
  "pinv X ctx w \<Longrightarrow> wait_buffer_poll ctx w = Some (ready, ctx', w') \<Longrightarrow>
     pstep X ctx w ctx' w' \<and> (if ready then ctx' = ctx else fallback ctx')"
proof (induction ctx w rule: wait_buffer_poll.induct)
  case (1 ctx w)
  from "1.prems" obtain p w1 where sp: "sys_poll [buf_ready_efd ctx, data_fd ctx] w = Some (p, w1)"
    by (auto simp: wait_buffer_poll.simps [of ctx w] split: option.splits)
  have k: "pstep X ctx w ctx w1" by (rule pstep_keeps [OF "1.prems"(1) sys_poll_keeps [OF sp]])
  note inv1 = pstep_pinv [OF k]
  have again: ?case if "wait_buffer_poll ctx w1 = Some (ready, ctx', w')"
    "pstep X ctx w1 ctx' w' \<and> (if ready then ctx' = ctx else fallback ctx')"
    using that k by (auto intro: pstep_trans)
  have fall: ?case if "producer_enter_fallback ctx w1 = (ctx', w')" "\<not> ready"
    using that pstep_fallback [OF k that(1)] producer_enter_fallback_step(3) [OF inv1 that(1)] by simp
  show ?case
  proof (cases p)
    case Poll_intr
    then show ?thesis using again "1.IH"(1) [OF sp refl] "1.prems" sp inv1
      by (simp add: wait_buffer_poll.simps [of ctx w])
  next
    case Poll_err
    then show ?thesis using fall "1.prems" sp
      by (simp add: wait_buffer_poll.simps [of ctx w] split: prod.splits)
  next
    case Poll_timeout
    then show ?thesis using again "1.IH"(2) [OF sp refl] "1.prems" sp inv1
      by (simp add: wait_buffer_poll.simps [of ctx w])
  next
    case (Poll_ready rs)
    show ?thesis
    proof (cases "POLLHUP (rs ! 1) \<or> POLLERR (rs ! 1)")
      case True
      then show ?thesis using fall "1.prems" sp Poll_ready
        by (simp add: wait_buffer_poll.simps [of ctx w] split: prod.splits)
    next
      case no: False
      show ?thesis
      proof (cases "POLLIN (rs ! 0)")
        case True
        then have "ready" "ctx' = ctx" "w' = w1"
          using "1.prems" sp Poll_ready no by (simp_all add: wait_buffer_poll.simps [of ctx w])
        with k show ?thesis by simp
      next
        case False
        then have "wait_buffer_poll ctx w1 = Some (ready, ctx', w')"
          using "1.prems" sp Poll_ready no by (simp add: wait_buffer_poll.simps [of ctx w])
        then show ?thesis using again "1.IH"(3) [OF sp refl Poll_ready no False inv1] by simp
      qed
    qed
  qed
qed

lemma wait_buffer_async_result_step:
  assumes inv: "pinv X ctx w" and r: "wait_buffer_async_result ctx w = Some (x, ctx', w')"
  shows "pstep X ctx w ctx' w'" "fallback ctx \<Longrightarrow> x = -1"
proof -
  have "pstep X ctx w ctx' w' \<and> (fallback ctx \<longrightarrow> x = -1)"
  proof (cases "fallback ctx")
    case True
    with r obtain y c1 w1 where pk: "pickup_fds (ctx\<lparr>async_pending := False\<rparr>) w = Some (y, c1, w1)"
      by (auto simp: wait_buffer_async_result_def bind_Some_iff)
    note P = pickup_fds_step [OF _ _ pk, of X] 
    have s: "pstep X ctx w c1 w1" "\<not> async_pending c1" using P inv True by simp_all
    with r pk True show ?thesis by (auto simp: wait_buffer_async_result_def split: if_splits)
  next
    case nf: False
    show ?thesis
    proof (cases "async_pending ctx")
      case False
      with r nf inv show ?thesis by (auto simp: wait_buffer_async_result_def pstep_refl)
    next
      case True
      with r nf obtain ready c1 w1 where wp: "wait_buffer_poll ctx w = Some (ready, c1, w1)"
        by (auto simp: wait_buffer_async_result_def bind_Some_iff)
      note W = wait_buffer_poll_step [OF inv wp]
      show ?thesis
      proof (cases ready)
        case False
        with r nf True wp W show ?thesis by (auto simp: wait_buffer_async_result_def)
      next
        case ready: True
        obtain ok w2 where er: "sys_eventfd_read (buf_ready_efd c1) w1 = (ok, w2)" by fastforce
        have c1: "c1 = ctx" "pstep X ctx w ctx w1" using W ready by auto
        have s2: "pstep X ctx w ctx w2"
          by (rule pstep_trans [OF c1(2) pstep_keeps [OF pstep_pinv [OF c1(2)] sys_eventfd_keeps(1) [OF er]]])
        have w0: "wait_buffer_async_result ctx w = do { (r, c, w) \<leftarrow> receive_dmabufs ctx w2;
            Some (if r < 0 then -1 else 0, c\<lparr>async_pending := False\<rparr>, w) }"
          using nf True wp ready er c1(1) by (cases "receive_dmabufs ctx w2") (auto simp: wait_buffer_async_result_def)
        from r obtain y c3 w3 where rd: "receive_dmabufs ctx w2 = Some (y, c3, w3)"
          unfolding w0 by (auto simp: bind_Some_iff)
        from r rd have "ctx' = c3\<lparr>async_pending := False\<rparr>" "w' = w3" unfolding w0 by auto
        moreover have "pstep X ctx w c3 w3" by (rule pstep_trans [OF s2 receive_dmabufs_step [OF pstep_pinv [OF s2] nf rd]])
        ultimately show ?thesis using nf by simp
      qed
    qed
  qed
  then show "pstep X ctx w ctx' w'" "fallback ctx \<Longrightarrow> x = -1" by simp_all
qed

lemma pstep_keeps_trans: "pstep X c w c' w' \<Longrightarrow> keeps w' w'' \<Longrightarrow> pstep X c w c' w''"
  using pstep_trans pstep_keeps pstep_pinv by blast

lemma discard_payload_keeps: "discard_payload f n w = Some (r, w') \<Longrightarrow> keeps w w' \<and> (r = 0 \<or> r = -1)"
proof (induction f n w rule: discard_payload.induct)
  case (1 f n w)
  show ?case
  proof (cases "n = 0")
    case True
    with "1.prems" show ?thesis by (simp add: discard_payload.simps [of f 0 w])
  next
    case False
    with "1.prems" obtain x bs w1 where s: "recv_all f (min n 256) w = Some (x, bs, w1)"
      by (auto simp: discard_payload.simps [of f n w] split: option.splits)
    have k: "keeps w w1" using recv_all_keeps [OF s] by simp
    show ?thesis
    proof (cases "x < 0")
      case True
      with "1.prems" s False k show ?thesis by (auto simp: discard_payload.simps [of f n w])
    next
      case x: False
      with "1.prems" s False have "discard_payload f (n - min n 256) w1 = Some (r, w')"
        by (simp add: discard_payload.simps [of f n w])
      from "1.IH" [OF False s refl refl x this] k show ?thesis by (auto intro: keeps_trans)
    qed
  qed
qed

lemma skip_message_step:
  assumes inv: "pinv X ctx w" and r: "skip_message ctx hdr w = Some (x, ev, ctx', w')"
  shows "pstep X ctx w ctx' w'" "ev = No_event"
proof -
  have "pstep X ctx w ctx' w' \<and> ev = No_event"
  proof (cases "unat (msg_size hdr) > 4096")
    case True
    with r have "producer_enter_fallback ctx w = (ctx', w')" "ev = No_event"
      by (auto simp: skip_message_def split: prod.splits)
    with pstep_fallback [OF pstep_refl [OF inv]] show ?thesis by simp
  next
    case False
    with r obtain y bs w1 where ra: "recv_all (data_fd ctx) 8 w = Some (y, bs, w1)"
      by (auto simp: skip_message_def bind_Some_iff)
    have s1: "pstep X ctx w ctx w1" using recv_all_keeps [OF ra] by (auto intro: pstep_keeps [OF inv])
    show ?thesis
    proof (cases "y < 0")
      case True
      with r ra False s1 show ?thesis by (simp add: skip_message_def)
    next
      case y: False
      have "skip_message ctx hdr w = do { (r, w) \<leftarrow> discard_payload (data_fd ctx) (unat (msg_size hdr)) w1; Some (r, No_event, ctx, w) }"
        using ra False y by (simp add: skip_message_def)
      with r obtain z where z: "discard_payload (data_fd ctx) (unat (msg_size hdr)) w1 = Some (z, w')" "ctx' = ctx" "ev = No_event"
        by (cases "discard_payload (data_fd ctx) (unat (msg_size hdr)) w1") auto
      from discard_payload_keeps [OF z(1)] have "keeps w1 w'" by simp
      from pstep_keeps_trans [OF s1 this] z show ?thesis by simp
    qed
  qed
  then show "pstep X ctx w ctx' w'" "ev = No_event" by simp_all
qed

lemma recv_struct_step:
  assumes inv: "pinv X ctx w" and r: "recv_struct ctx b n dec w = Some (x, ev, ctx', w')"
  shows "pstep X ctx w ctx' w'"
proof (cases b)
  case False
  with r have "producer_enter_fallback ctx w = (ctx', w')" by (auto simp: recv_struct_def split: prod.splits)
  with pstep_fallback [OF pstep_refl [OF inv]] show ?thesis by simp
next
  case True
  with r obtain y bs where "recv_all (data_fd ctx) n w = Some (y, bs, w')" "ctx' = ctx"
    by (auto simp: recv_struct_def bind_Some_iff split: if_splits)
  with recv_all_keeps show ?thesis by (blast intro: pstep_keeps [OF inv])
qed

lemma read_display_event_step:
  assumes inv: "pinv X ctx w" and r: "read_display_event ctx hdr w = Some (x, ev, ctx', w')"
  shows "pstep X ctx w ctx' w'"
  using r recv_struct_step [OF inv] skip_message_step(1) [OF inv]
  by (auto simp: read_display_event_def split: if_splits)

lemma poll_display_event_step:
  assumes inv: "pinv X ctx w" and r: "poll_display_event ctx w = Some (x, ev, ctx', w')"
  shows "pstep X ctx w ctx' w'"
proof (cases "fallback ctx")
  case True
  with r inv show ?thesis by (simp add: poll_display_event_def pstep_refl)
next
  case nf: False
  with r obtain p w1 where sp: "sys_poll [data_fd ctx] w = Some (p, w1)"
    by (auto simp: poll_display_event_def bind_Some_iff)
  have s1: "pstep X ctx w ctx w1" by (rule pstep_keeps [OF inv sys_poll_keeps [OF sp]])
  show ?thesis
  proof (cases "\<exists>rs. p = Poll_ready rs")
    case False
    then have "ctx' = ctx" "w' = w1" using r nf sp by (cases p; simp add: poll_display_event_def)+
    with s1 show ?thesis by simp
  next
    case True
    then obtain rs where p: "p = Poll_ready rs" by blast
    show ?thesis
    proof (cases "POLLHUP (rs ! 0) \<or> POLLERR (rs ! 0)")
      case True
      then have "producer_enter_fallback ctx w1 = (ctx', w')"
        using r nf sp p by (auto simp: poll_display_event_def split: prod.splits)
      with s1 show ?thesis by (rule pstep_fallback)
    next
      case False
      with r nf sp p obtain n bs w2 where pk: "sys_peek (data_fd ctx) 28 w1 = Some (n, bs, w2)"
        by (auto simp: poll_display_event_def bind_Some_iff)
      have s2: "pstep X ctx w ctx w2" by (rule pstep_keeps_trans [OF s1 sys_peek_keeps [OF pk]])
      show ?thesis
      proof (cases "case n of Ret k \<Rightarrow> k < sizeof_data_msg | _ \<Rightarrow> True")
        case True
        then have "ctx' = ctx" "w' = w2" using r nf sp p False pk by (simp_all add: poll_display_event_def)
        with s2 show ?thesis by simp
      next
        case ok: False
        then have "read_display_event ctx (dec_hdr bs) w2 = Some (x, ev, ctx', w')"
          using r nf sp p False pk by (simp add: poll_display_event_def)
        from pstep_trans [OF s2 read_display_event_step [OF pstep_pinv [OF s2] this]] show ?thesis .
      qed
    qed
  qed
qed

lemma push_window_event_step:
  assumes inv: "pinv X ctx w" and r: "push_window_event ctx e w = Some (x, ctx', w')"
  shows "pstep X ctx w ctx' w'"
proof (cases "fallback ctx")
  case True
  with r inv show ?thesis by (simp add: push_window_event_def pstep_refl)
next
  case False
  with r obtain y w1 where s: "send_all (data_fd ctx) (enc_hdr (mk_hdr DATA_MSG_WINDOW_EVENT 268) @ enc_window_event e) w = Some (y, w1)"
    by (auto simp: push_window_event_def bind_Some_iff)
  have s1: "pstep X ctx w ctx w1" by (rule pstep_keeps [OF inv send_all_keeps(1) [OF s]])
  show ?thesis
  proof (cases "y < 0")
    case True
    with r s False have "producer_enter_fallback ctx w1 = (ctx', w')"
      by (auto simp: push_window_event_def split: prod.splits)
    with s1 show ?thesis by (rule pstep_fallback)
  next
    case y: False
    with r s False s1 show ?thesis by (simp add: push_window_event_def)
  qed
qed

lemma try_reconnect_step:
  assumes inv: "pinv X ctx w" and r: "try_reconnect ctx w = Some (x, ctx', w')"
  shows "pstep X ctx w ctx' w'" "x = 0 \<Longrightarrow> \<not> fallback ctx'"
proof -
  have "pstep X ctx w ctx' w' \<and> (x = 0 \<longrightarrow> \<not> fallback ctx')"
  proof (cases "fallback ctx")
    case False
    with r inv show ?thesis by (simp add: try_reconnect_def pstep_refl)
  next
    case fb: True
    with r obtain y w1 where s: "send_all (ctrl ctx) (enc_hdr (mk_hdr CTRL_MSG_PICKUP_FDS 0)) w = Some (y, w1)"
      by (auto simp: try_reconnect_def bind_Some_iff)
    have s1: "pstep X ctx w ctx w1" by (rule pstep_keeps [OF inv send_all_keeps(1) [OF s]])
    show ?thesis
    proof (cases "y < 0")
      case True
      with r s fb s1 show ?thesis by (auto simp: try_reconnect_def)
    next
      case y: False
      with r s fb obtain p w2 where sp: "sys_poll [ctrl ctx] w1 = Some (p, w2)"
        by (auto simp: try_reconnect_def bind_Some_iff)
      have s2: "pstep X ctx w ctx w2" by (rule pstep_keeps_trans [OF s1 sys_poll_keeps [OF sp]])
      show ?thesis
      proof (cases "\<exists>rs. p = Poll_ready rs")
        case False
        then have "ctx' = ctx" "w' = w2" "x = -1" using r fb s y sp by (cases p; simp add: try_reconnect_def)+
        with s2 show ?thesis by simp
      next
        case True
        with r fb s y sp obtain c3 where rr: "receive_fds_ready ctx w2 = Some (x, c3, w')"
          and c3: "ctx' = (if x = 0 then c3\<lparr>buf_count := 0\<rparr> else c3)"
          by (auto simp: try_reconnect_def bind_Some_iff)
        note R = receive_fds_ready_step [OF pstep_pinv [OF s2] fb rr]
        have z: "buf_count c3 = 0"
        proof -
          have "pshape ctx" using inv by (simp add: pinv_def)
          then show ?thesis using rr fb
            by (auto simp: receive_fds_ready_def adopt_fds_def bind_Some_iff pshape_def Let_def split: if_splits prod.splits option.splits)
        qed
        then have "c3\<lparr>buf_count := 0\<rparr> = c3" by simp
        then have "ctx' = c3" using c3 by (simp split: if_splits)
        with R pstep_trans [OF s2 R(1)] show ?thesis by simp
      qed
    qed
  qed
  then show "pstep X ctx w ctx' w'" "x = 0 \<Longrightarrow> \<not> fallback ctx'" by simp_all
qed

lemma release_session_step:
  assumes inv: "pinv X ctx w" and z: "buf_count ctx = 0"
  shows "ostep (powned ctx @ X) w X (release_session ctx w)"
    "maps (release_session ctx w) = (case shm_ptr ctx of None \<Rightarrow> maps w | Some ob \<Rightarrow> remove1 ob (maps w))"
proof -
  let ?Y = "[shm_fd ctx, ctrl ctx, data_fd ctx, buf_ready_efd ctx, refresh_done_efd ctx]"
  have w': "release_session ctx w = sys_close_all (open_fds ?Y) (unmap_if_mapped (shm_ptr ctx) (sys_close_all (open_fds []) w))"
    by (simp add: release_session_def Let_def close_open_Cons del: open_fds_simps(2))
  have m: "mset (open_fds ([] @ ?Y) @ X) = mset (powned ctx @ X)"
    by (simp add: powned_def z mset_open_fds del: open_fds_simps)
  have h: "holds (open_fds ([] @ ?Y) @ X) w" using inv holds_mset(1) [OF m] by (simp add: pinv_def)
  have mm: "\<And>ob. shm_ptr ctx = Some ob \<Longrightarrow> ob \<in> set (maps w)" using inv by (simp add: pinv_def)
  note rel = ostep_release [OF h mm w']
  show "ostep (powned ctx @ X) w X (release_session ctx w)" by (rule ostep_mset [OF m rel(1)])
  show "maps (release_session ctx w) = (case shm_ptr ctx of None \<Rightarrow> maps w | Some ob \<Rightarrow> remove1 ob (maps w))" by (rule rel(2))
qed

lemma producer_disconnect_step:
  assumes inv: "pinv X ctx w"
  shows "ostep (powned ctx @ X) w X (producer_disconnect (Some ctx) w)"
    "maps (producer_disconnect (Some ctx) w) = (case shm_ptr ctx of None \<Rightarrow> maps w | Some ob \<Rightarrow> remove1 ob (maps w))"
proof -
  let ?b = "open_fds (take (buf_count ctx) (dmabuf_fds ctx))"
  let ?c = "ctx\<lparr>buf_count := 0\<rparr>" and ?w = "sys_close_all ?b w"
  have o: "powned ctx @ X = ?b @ (powned ?c @ X)" by (simp add: powned_def)
  have h: "holds (?b @ (powned ?c @ X)) w" using inv by (simp only: pinv_def o)
  note s1 = ostep_close_all [OF h]
  have "pshape ?c" using inv by (auto simp: pinv_def pshape_def)
  then have i: "pinv X ?c ?w" using inv ostep_holds [OF s1] by (simp add: pinv_def)
  have e: "producer_disconnect (Some ctx) w = release_session ?c ?w"
    by (simp add: producer_disconnect_def fold_close_if_open release_session_def)
  show "ostep (powned ctx @ X) w X (producer_disconnect (Some ctx) w)"
    unfolding e o by (rule ostep_trans [OF s1 release_session_step(1) [OF i]]) simp
  show "maps (producer_disconnect (Some ctx) w) = (case shm_ptr ctx of None \<Rightarrow> maps w | Some ob \<Rightarrow> remove1 ob (maps w))"
    unfolding e using release_session_step(2) [OF i] by (simp split: option.split)
qed

lemma producer_handshake_step:
  assumes inv: "pinv X ctx w" and fb: "fallback ctx" and r: "producer_handshake ctx w = Some (ok, ctx', w')"
  shows "pstep X ctx w ctx' w' \<and> (ok \<longleftrightarrow> \<not> fallback ctx')"
proof -
  from r obtain x w1 where s: "send_all (ctrl ctx) (enc_hdr (mk_hdr CTRL_MSG_PRODUCER_HELLO 0)) w = Some (x, w1)"
    by (auto simp: producer_handshake_def bind_Some_iff)
  have s1: "pstep X ctx w ctx w1" by (rule pstep_keeps [OF inv send_all_keeps(1) [OF s]])
  show ?thesis
  proof (cases "x < 0")
    case True
    with r s s1 fb show ?thesis by (auto simp: producer_handshake_def)
  next
    case x: False
    with r s obtain y buf w2 where ra: "recv_all (ctrl ctx) 24 w1 = Some (y, buf, w2)"
      by (auto simp: producer_handshake_def bind_Some_iff)
    have s2: "pstep X ctx w ctx w2" using recv_all_keeps [OF ra] by (intro pstep_keeps_trans [OF s1]) simp
    show ?thesis
    proof (cases "y < 0 \<or> msg_type (dec_hdr buf) \<noteq> CTRL_MSG_SCREEN_INFO \<or> msg_size (dec_hdr buf) \<noteq> 16")
      case True
      then have "ok = False" "ctx' = ctx" "w' = w2" using r s x ra by (auto simp: producer_handshake_def split: if_splits)
      with s2 fb show ?thesis by simp
    next
      case y: False
      let ?si = "dec_screen (drop 8 buf)"
      let ?c = "ctx\<lparr>screen_w := si_width ?si, screen_h := si_height ?si, pixel_format := si_format ?si, refresh := si_refresh ?si\<rparr>"
      obtain z where pk: "pickup_fds ?c w2 = Some (z, ctx', w')" and ok: "ok = (z \<ge> 0)"
        using r s x ra y by (auto simp: producer_handshake_def bind_Some_iff Let_def)
      have own: "powned ?c = powned ctx" "pshape ?c = pshape ctx" by (simp_all add: powned_def pshape_def)
      have i: "pinv X ?c w2" using pstep_pinv [OF s2] by (simp add: pinv_def own)
      note P = pickup_fds_step [OF i _ pk]
      have "pstep X ctx w ?c w2" using s2 i by (simp add: pstep_def own)
      then have "pstep X ctx w ctx' w'" using P(1) fb by (auto intro: pstep_trans)
      then show ?thesis using P fb ok by auto
    qed
  qed
qed

lemma producer_connect_step:
  assumes h: "holds X w" and r: "producer_connect_to_deamon path w = Some (res, w')"
  shows "case res of
      Some ctx \<Rightarrow> pinv X ctx w' \<and> \<not> fallback ctx \<and> lost X w \<subseteq> lost (powned ctx @ X) w'
    | None \<Rightarrow> holds X w' \<and> lost X w \<subseteq> lost X w'"
    "\<exists>rs. reports w' = reports w @ rs \<and> list_all pbenign rs"
proof -
  obtain ok w1 where t: "sys_try w = (ok, w1)" by fastforce
  have w1: "fd_obj w1 = fd_obj w" "reports w1 = reports w" "maps w1 = maps w" using sys_tryD [OF t] by simp_all
  have h1: "holds X w1" "lost X w1 = lost X w" using h w1(1) by (simp_all add: holds_def lost_def)
  have "(case res of
      Some ctx \<Rightarrow> pinv X ctx w' \<and> \<not> fallback ctx \<and> lost X w \<subseteq> lost (powned ctx @ X) w'
    | None \<Rightarrow> holds X w' \<and> lost X w \<subseteq> lost X w') \<and> (\<exists>rs. reports w' = reports w @ rs \<and> list_all pbenign rs)"
  proof (cases ok)
    case False
    with r t h1 w1 show ?thesis by (auto simp: producer_connect_to_deamon_def)
  next
    case True
    obtain f w2 where c: "connect_unix path w1 = (f, w2)" by fastforce
    note C = connect_unix_step [OF h1(1) c]
    let ?c = "producer_ctx_init\<lparr>ctrl := f\<rparr>"
    have own: "powned ?c = open_fds [f]" "pshape ?c" "shm_ptr ?c = None" "fallback ?c"
      by (simp_all add: powned_def producer_ctx_init_def pshape_def)
    have i: "pinv X ?c w2" using ostep_holds [OF C(1)] own by (simp add: pinv_def del: open_fds_simps)
    have l: "lost (powned ?c @ X) w2 = lost X w" "reports w2 = reports w" using C(1) own(1) h1 w1 by (simp_all add: ostep_def)
    from r t True c obtain ok2 c2 w3 where hs: "(if f < 0 then Some (False, ?c, w2) else producer_handshake ?c w2) = Some (ok2, c2, w3)"
      and res: "(res, w') = (if ok2 then (Some c2, w3) else (None, release_session c2 w3))"
      by (auto simp: producer_connect_to_deamon_def bind_Some_iff Let_def)
    have st: "pstep X ?c w2 c2 w3 \<and> (ok2 \<longleftrightarrow> \<not> fallback c2)"
      using hs producer_handshake_step [OF i own(4)] pstep_refl [OF i] own(4) by (auto split: if_splits)
    show ?thesis
    proof (cases ok2)
      case True
      with st res l show ?thesis by (auto simp: pstep_def)
    next
      case False
      then have "buf_count c2 = 0" using st by (auto simp: pstep_def pinv_def pshape_def)
      note rel = release_session_step(1) [OF pstep_pinv this, of X "?c" w2]
      with False st res l show ?thesis by (auto simp: pstep_def ostep_def)
    qed
  qed
  then show "case res of
      Some ctx \<Rightarrow> pinv X ctx w' \<and> \<not> fallback ctx \<and> lost X w \<subseteq> lost (powned ctx @ X) w'
    | None \<Rightarrow> holds X w' \<and> lost X w \<subseteq> lost X w'"
    "\<exists>rs. reports w' = reports w @ rs \<and> list_all pbenign rs" by simp_all
qed

subsection \<open>Properties\<close>

lemma discard_payload_enough:
  assumes "fd_obj w f = Some ob" and "rx_ok (rxq w ob)" and "n \<le> length (rx_data (rxq w ob))"
  shows "\<exists>q. discard_payload f n w = Some (0, set_rx ob q w) \<and> rx_data q = drop n (rx_data (rxq w ob)) \<and> rx_ok q"
  using assms
proof (induction f n w rule: discard_payload.induct)
  case (1 f n w)
  show ?case
  proof (cases "n = 0")
    case True
    with "1.prems" show ?thesis
      by (intro exI [of _ "rxq w ob"]) (simp add: discard_payload.simps [of f 0] set_rx_same)
  next
    case False
    let ?k = "min n 256" and ?q = "rxq w ob"
    let ?w = "set_rx ob (rx_drop ?k ?q) w"
    have ra: "recv_all f ?k w = Some (0, take ?k (rx_data ?q), ?w)"
      using "1.prems" by (intro recv_all_enough) simp_all
    have d: "rx_data (rx_drop ?k ?q) = drop ?k (rx_data ?q)" using "1.prems" by (intro rx_data_drop) simp
    have "\<exists>q. discard_payload f (n - ?k) ?w = Some (0, set_rx ob q ?w) \<and>
        rx_data q = drop (n - ?k) (rx_data (rxq ?w ob)) \<and> rx_ok q"
      using "1.prems" d rx_ok_drop by (intro "1.IH" [OF False ra refl refl]) (auto simp: )
    then obtain q where q: "discard_payload f (n - ?k) ?w = Some (0, set_rx ob q ?w)"
      "rx_data q = drop (n - ?k) (drop ?k (rx_data ?q))" "rx_ok q" by (auto simp: d)
    have "discard_payload f n w = Some (0, set_rx ob q w)"
      using False ra q(1) by (simp add: discard_payload.simps [of f n w])
    moreover have "rx_data q = drop n (rx_data ?q)" using q(2) by simp
    ultimately show ?thesis using q(3) by blast
  qed
qed

text \<open>\<open>poll_display_event\<close> up to the \<open>memcpy\<close> of the header, when \<open>poll\<close> found data.\<close>

definition input_ready :: "producer_ctx \<Rightarrow> obj \<Rightarrow> os \<Rightarrow> os \<Rightarrow> bool" where
  "input_ready ctx ob w w1 \<longleftrightarrow> \<not> fallback ctx \<and> fd_obj w (data_fd ctx) = Some ob \<and> rx_ok (rxq w ob) \<and>
     (\<exists>r ps data obs q. polls w = Poll_ready [r] # ps \<and> \<not> POLLHUP r \<and> \<not> POLLERR r \<and> w1 = w\<lparr>polls := ps\<rparr> \<and>
        rxq w ob = Chunk data obs # q \<and> 8 \<le> length data)"

lemma poll_display_event_ready:
  assumes "input_ready ctx ob w w1"
  shows "poll_display_event ctx w = read_display_event ctx (dec_hdr (rx_data (rxq w ob))) w1"
proof -
  from assms obtain r ps data obs q where
    nf: "\<not> fallback ctx" "fd_obj w (data_fd ctx) = Some ob" "rx_ok (rxq w ob)" and
    p: "polls w = Poll_ready [r] # ps" "\<not> POLLHUP r" "\<not> POLLERR r" "w1 = w\<lparr>polls := ps\<rparr>" and
    q: "rxq w ob = Chunk data obs # q" "8 \<le> length data" by (auto simp: input_ready_def)
  have pos: "\<not> data_fd ctx < 0" using fd_obj_SomeD [OF nf(2)] by simp
  have sp: "sys_poll [data_fd ctx] w = Some (Poll_ready [r\<lparr>POLLNVAL := False\<rparr>], w1)"
    using nf(2) pos p by (simp add: sys_poll_def poll_entry_def)
  have pk: "sys_peek (data_fd ctx) 28 w1 = Some (Ret (length (take 28 data)), take 28 data, w1)"
    using nf(2) q p(4) by (simp add: sys_peek_def)
  show ?thesis using nf(1) sp pk p(2,3) q
    by (simp add: poll_display_event_def dec_hdr_take_more dec_hdr_append min_def)
qed

lemma poll_display_event_message:
  assumes "input_ready ctx ob w w1" and "rx_data (rxq w ob) = msg @ rest"
    and "msg = input_frame.frame e \<and> ev = Input e \<and> code = 102 \<or> msg = command_frame.frame c \<and> ev = Command c \<and> code = 301"
  shows "\<exists>q. poll_display_event ctx w = Some (code, ev, ctx, set_rx ob q w1) \<and> rx_data q = rest \<and> rx_ok q"
proof -
  have fw: "fd_obj w1 (data_fd ctx) = Some ob" "rxq w1 = rxq w" "rx_ok (rxq w1 ob)"
    using assms(1) by (auto simp: input_ready_def)
  note P = poll_display_event_ready [OF assms(1)]
  from assms(3) show ?thesis
  proof (elim disjE conjE)
    assume m: "msg = input_frame.frame e" "ev = Input e" "code = 102"
    then have d: "rx_data (rxq w1 ob) = input_frame.frame e @ rest" using assms(2) fw(2) by simp
    have h: "dec_hdr (rx_data (rxq w ob)) = mk_hdr 102 20" using input_frame.frame_hdr assms(2) m(1) by simp
    from input_frame.recv_frame [OF _ fw(1,3) d] obtain q where
      q: "recv_all (data_fd ctx) 28 w1 = Some (0, input_frame.frame e, set_rx ob q w1)" "rx_data q = rest" "rx_ok q" by auto
    have "dec_input (drop 8 (input_frame.frame e)) = e" using input_frame.frame_payload [of e "[]"] by simp
    with P h q m show ?thesis by (auto simp: read_display_event_def recv_struct_def)
  next
    assume m: "msg = command_frame.frame c" "ev = Command c" "code = 301"
    then have d: "rx_data (rxq w1 ob) = command_frame.frame c @ rest" using assms(2) fw(2) by simp
    have h: "dec_hdr (rx_data (rxq w ob)) = mk_hdr 301 8" using command_frame.frame_hdr assms(2) m(1) by simp
    from command_frame.recv_frame [OF _ fw(1,3) d] obtain q where
      q: "recv_all (data_fd ctx) 16 w1 = Some (0, command_frame.frame c, set_rx ob q w1)" "rx_data q = rest" "rx_ok q" by auto
    have "dec_window_command (drop 8 (command_frame.frame c)) = c" using command_frame.frame_payload [of c "[]"] by simp
    with P h q m show ?thesis by (auto simp: read_display_event_def recv_struct_def)
  qed
qed


text \<open>A context and a world for the examples: the session's descriptors 1 to 4 show the objects 11 to 14.\<close>

definition demo_ctx :: producer_ctx where
  "demo_ctx = producer_ctx_init\<lparr>ctrl := 0, buf_ready_efd := 1, refresh_done_efd := 2, data_fd := 3, shm_fd := 4,
     shm_ptr := Some 14, fallback := False\<rparr>"

definition demo_world :: "rx list \<Rightarrow> os" where
  "demo_world q = os_init\<lparr>fdtab := map Some [10, 11, 12, 13, 14], maps := [14], polls := [Poll_ready [pollin_event]],
     rxq := (\<lambda>_. [])(13 := q)\<rparr>"

lemma demo_world_sel [simp]:
  "fd_obj (demo_world q) 0 = Some 10" "fd_obj (demo_world q) 1 = Some 11" "fd_obj (demo_world q) 2 = Some 12"
  "fd_obj (demo_world q) 3 = Some 13" "fd_obj (demo_world q) 4 = Some 14" "rxq (demo_world q) 13 = q"
  "maps (demo_world q) = [14]" "polls (demo_world q) = [Poll_ready [pollin_event]]" "txplan (demo_world q) = []"
  "faults (demo_world q) = []" "reports (demo_world q) = []"
  by (simp_all add: demo_world_def os_init_def fd_obj_def)

lemma demo_ctx_sel [simp]:
  "ctrl demo_ctx = 0" "data_fd demo_ctx = 3" "buf_ready_efd demo_ctx = 1" "refresh_done_efd demo_ctx = 2" "shm_fd demo_ctx = 4"
  "shm_ptr demo_ctx = Some 14" "\<not> fallback demo_ctx" "buf_count demo_ctx = 0" "dmabuf_fds demo_ctx = replicate 8 (-1)"
  by (simp_all add: demo_ctx_def producer_ctx_init_def)

lemma demo_pinv: "pinv [] demo_ctx (demo_world q)"
  by (simp add: pinv_def pshape_def powned_def holds_def)
     (simp add: demo_ctx_def producer_ctx_init_def)

definition demo_input :: InputEvent where
  "demo_input = \<lparr>ie_type = 1, ie_0 = 0, ie_1 = 5, ie_2 = 6, ie_3 = 2\<rparr>"


text \<open>
  A message of a type the producer does not know is skipped whole, header and payload, so that
  the next message is read from its beginning (up to 4096 bytes; a longer one falls back).
\<close>

theorem unknown_message_skipped:
  assumes "input_ready ctx ob w w1" and "rx_data (rxq w ob) = enc_hdr hdr @ payload @ rest"
    and "msg_type hdr \<noteq> DATA_MSG_INPUT_EVENT" and "msg_type hdr \<noteq> DATA_MSG_WINDOW_COMMAND"
    and "length payload = unat (msg_size hdr)"
  shows "if unat (msg_size hdr) > 4096
     then poll_display_event ctx w = (let (c, w') = producer_enter_fallback ctx w1 in Some (-1, No_event, c, w'))
     else \<exists>q. poll_display_event ctx w = Some (0, No_event, ctx, set_rx ob q w1) \<and> rx_data q = rest \<and> rx_ok q"
proof -
  have fw: "fd_obj w1 (data_fd ctx) = Some ob" "rxq w1 = rxq w" "rx_ok (rxq w1 ob)"
    using assms(1) by (auto simp: input_ready_def)
  have "poll_display_event ctx w = skip_message ctx hdr w1"
    using poll_display_event_ready [OF assms(1)] assms(2-4) by (simp add: read_display_event_def)
  moreover have "\<exists>q. skip_message ctx hdr w1 = Some (0, No_event, ctx, set_rx ob q w1) \<and> rx_data q = rest \<and> rx_ok q"
    if small: "\<not> unat (msg_size hdr) > 4096"
  proof -
    let ?q = "rx_drop 8 (rxq w1 ob)"
    let ?w = "set_rx ob ?q w1"
    have l8: "8 \<le> length (rx_data (rxq w1 ob))" using assms(2) fw(2) by simp
    have ra: "recv_all (data_fd ctx) 8 w1 = Some (0, take 8 (rx_data (rxq w1 ob)), ?w)"
      by (rule recv_all_enough [OF fw(1,3) l8])
    have d: "rx_data ?q = payload @ rest" using rx_data_drop [OF l8] assms(2) fw(2) by simp
    obtain q where q: "discard_payload (data_fd ctx) (unat (msg_size hdr)) ?w = Some (0, set_rx ob q ?w)"
      "rx_data q = rest" "rx_ok q"
      using discard_payload_enough [of ?w "data_fd ctx" ob "unat (msg_size hdr)"] fw d assms(5) rx_ok_drop [OF fw(3)] by auto
    have "skip_message ctx hdr w1 = Some (0, No_event, ctx, set_rx ob q w1)"
      using ra q(1) small by (simp add: skip_message_def)
    with q show ?thesis by blast
  qed
  ultimately show ?thesis by (simp add: skip_message_def)
qed

theorem unknown_message_skipped_witness:
  "\<exists>w q. poll_display_event demo_ctx (demo_world [Chunk (enc_hdr (mk_hdr 999 3) @ [7]) [], Chunk [8, 9, 42] []]) =
     Some (0, No_event, demo_ctx, set_rx 13 q w) \<and> rx_data q = [42]"
proof -
  let ?w = "demo_world [Chunk (enc_hdr (mk_hdr 999 3) @ [7]) [], Chunk [8, 9, 42] []]"
  have "input_ready demo_ctx 13 ?w (?w\<lparr>polls := []\<rparr>)"
    by (simp add: input_ready_def pollin_event_def no_events_def)
  from unknown_message_skipped [OF this, of "mk_hdr 999 3" "[7, 8, 9]" "[42]"] show ?thesis by auto
qed

lemma receive_dmabufs_chunk:
  assumes "buf_count ctx = 0" and "fd_obj w (data_fd ctx) = Some ob" and "rxq w ob = Chunk (enc_hdr hdr) obs # q" and "rx_ok q"
    and "1 \<le> length obs" "length obs \<le> MAX_BUFS" and "msg_type hdr = DATA_MSG_BUFS_READY" and "unat (msg_size hdr) div 20 = length obs"
    and "unat (msg_size hdr) \<le> length (rx_data q)"
    and p: "p = sys_installs obs (set_rx ob q w)"
  shows "receive_dmabufs ctx w = Some (0, ctx\<lparr>dmabuf_fds := fst p @ drop (length obs) (dmabuf_fds ctx),
       dmabuf_infos := dec_bufs (length obs) (take (unat (msg_size hdr)) (rx_data q)) @ drop (length obs) (dmabuf_infos ctx),
       buf_count := length obs\<rparr>,
     store_infos (take (unat (msg_size hdr)) (rx_data q)) (set_rx ob (rx_drop (unat (msg_size hdr)) q) (snd p)))"
proof -
  have rf: "recv_fds (data_fd ctx) 8 MAX_BUFS w = Some (8, enc_hdr hdr, fst p, snd p)"
    using recv_fds_chunk [OF assms(2,3), of MAX_BUFS] assms(6) by (simp add: p after_hdr_def)
  have fo: "fd_obj (snd p) (data_fd ctx) = Some ob"
    using recv_fds_result(5,6) [OF rf, of "data_fd ctx"] assms(2) by (cases "data_fd ctx \<in> set (fst p)") auto
  have "recv_all (data_fd ctx) (unat (msg_size hdr)) (snd p) =
      Some (0, take (unat (msg_size hdr)) (rx_data q), set_rx ob (rx_drop (unat (msg_size hdr)) q) (snd p))"
    using recv_all_enough [OF fo, of "unat (msg_size hdr)"] assms(4,9) by (simp add: p)
  moreover have l: "length (fst p) = length obs" by (simp add: p)
  moreover have "fst p \<noteq> []" using l assms(5) by auto
  ultimately show ?thesis using rf assms(1,5-8)
    by (simp add: receive_dmabufs_def receive_infos_def split_beta Let_def)
qed

text \<open>
  Buffers: when the consumer's announcement of \<open>k\<close> buffers is at the head of the data stream,
  followed by their descriptions, \<open>receive_dmabufs\<close> stores exactly these descriptions, descriptors
  for exactly these buffers, in order, and the count, and reports nothing.
\<close>

theorem buffers_received:
  assumes "buf_count ctx = 0" and "fd_obj w (data_fd ctx) = Some ob"
    and "rxq w ob = Chunk (enc_hdr (mk_hdr DATA_MSG_BUFS_READY (of_nat (20 * length infos)))) obs # q" and "rx_ok q"
    and "1 \<le> length obs" "length obs \<le> MAX_BUFS" and "length infos = length obs" and "rx_data q = enc_bufs infos @ rest"
  shows "\<exists>ctx' w'. receive_dmabufs ctx w = Some (0, ctx', w') \<and> buf_count ctx' = length obs \<and>
     take (length obs) (dmabuf_infos ctx') = infos \<and>
     map (fd_obj w') (take (length obs) (dmabuf_fds ctx')) = map Some obs \<and>
     rx_data (rxq w' ob) = rest \<and> reports w' = reports w"
proof -
  let ?k = "length obs"
  let ?hdr = "mk_hdr DATA_MSG_BUFS_READY (of_nat (20 * length infos))"
  have sz: "unat (msg_size ?hdr) = 20 * ?k" using assms(6,7) by (simp add: unat_of_nat del: of_nat_mult)
  define p where "p = sys_installs obs (set_rx ob q w)"
  have len: "unat (msg_size ?hdr) \<le> length (rx_data q)" using assms(7,8) sz by simp
  have r: "receive_dmabufs ctx w = Some (0, ctx\<lparr>dmabuf_fds := fst p @ drop ?k (dmabuf_fds ctx),
       dmabuf_infos := dec_bufs ?k (take (20 * ?k) (rx_data q)) @ drop ?k (dmabuf_infos ctx),
       buf_count := ?k\<rparr>, store_infos (take (20 * ?k) (rx_data q)) (set_rx ob (rx_drop (20 * ?k) q) (snd p)))"
    using receive_dmabufs_chunk [OF assms(1-6) _ _ len p_def] sz by simp
  have tk: "take (20 * ?k) (rx_data q) = enc_bufs infos" using assms(7,8) by simp
  have si: "store_infos (enc_bufs infos) v = v" for v using assms(6,7) by (simp add: store_infos_def)
  have "dec_bufs ?k (enc_bufs infos) = infos" using dec_enc_bufs [of infos] assms(7) by simp
  moreover have "map (fd_obj (snd p)) (fst p) = map Some obs" unfolding p_def by (rule map_fd_obj_installs)
  moreover have "rx_data (rx_drop (20 * ?k) q) = rest" using rx_data_drop [of "20 * ?k" q] assms(7,8) by simp
  moreover have "reports (snd p) = reports w" "length (fst p) = ?k" by (simp_all add: p_def)
  ultimately show ?thesis using r assms(7) by (simp add: tk si)
qed

definition demo_buf :: "nat \<Rightarrow> buf_info" where
  "demo_buf i = \<lparr>bi_stride = 4096, bi_format = of_nat i, bi_modifier = 0, bi_offset = 0\<rparr>"

theorem buffers_received_witness:
  "\<exists>ctx' w'. receive_dmabufs demo_ctx (demo_world [Chunk (enc_hdr (mk_hdr 200 40)) [31, 32], Chunk (enc_bufs [demo_buf 0, demo_buf 1]) []]) =
       Some (0, ctx', w') \<and> buf_count ctx' = 2 \<and> take 2 (dmabuf_infos ctx') = [demo_buf 0, demo_buf 1] \<and>
     map (fd_obj w') (take 2 (dmabuf_fds ctx')) = [Some 31, Some 32]"
  using buffers_received [of demo_ctx "demo_world [Chunk (enc_hdr (mk_hdr 200 40)) [31, 32], Chunk (enc_bufs [demo_buf 0, demo_buf 1]) []]"
      13 "[demo_buf 0, demo_buf 1]" "[31, 32]" "[Chunk (enc_bufs [demo_buf 0, demo_buf 1]) []]" "[]"]
  by (auto simp: enc_bufs_def hdr_codec.enc_ne_Nil buf_codec.enc_ne_Nil numeral_2_eq_2)





text \<open>
  Falling back releases the session exactly: every buffer, the data socket, the event
  descriptors and the shared word are closed or unmapped once, nothing else is touched, the control
  socket stays open, and the owner is told exactly once however often fallback is entered.
\<close>

theorem fallback_releases_session:
  assumes "pinv X ctx w" and "\<not> fallback ctx" and "0 \<le> ctrl ctx" and "0 < n"
    and "producer_fb.enter_times n ctx w = Some (ctx', w')"
  shows "fallback ctx' \<and> ctrl ctx' = ctrl ctx \<and> pinv X ctx' w' \<and>
     dom (fd_obj w') = dom (fd_obj w) - (set (powned ctx) - {ctrl ctx}) \<and>
     maps w' = remove1 (the (shm_ptr ctx)) (maps w) \<and> reports w' = reports w \<and>
     fallback_calls ctx' = fallback_calls ctx + (if fallback_cb ctx then 1 else 0)"
proof -
  have e: "producer_enter_fallback ctx w = (ctx', w')" using producer_fb.enter_many [OF assms(4), of ctx w] assms(5) by simp
  note E = producer_enter_fallback_step [OF assms(1) e]
  have own: "powned ctx' = [ctrl ctx]" "ctrl ctx \<in> set (powned ctx)"
    using E(4) assms(2,3) by (simp_all add: powned_def)
  have X: "set (powned ctx) \<inter> set X = {}" "set (powned ctx @ X) \<subseteq> dom (fd_obj w)" "set ([ctrl ctx] @ X) \<subseteq> dom (fd_obj w')"
    using assms(1) E(2) own(1) by (auto simp: pinv_def holds_def)
  have "lost ([ctrl ctx] @ X) w' = lost (powned ctx @ X) w" using E(1) own(1) by (simp add: ostep_def)
  then have "dom (fd_obj w') = dom (fd_obj w) - (set (powned ctx) - {ctrl ctx})"
    using X own(2) unfolding lost_def by auto
  moreover have "shm_ptr ctx \<noteq> None" using assms(1,2) by (simp add: pinv_def pshape_def)
  moreover have "fallback_calls ctx' = fallback_calls ctx + (if fallback_cb ctx then 1 else 0)"
    using producer_fb.enter_calls [OF assms(2)] e by simp
  ultimately show ?thesis using E by (auto simp: ostep_def)
qed

theorem fallback_releases_session_witness:
  "\<exists>ctx' w'. producer_enter_fallback demo_ctx (demo_world []) = (ctx', w') \<and> dom (fd_obj w') = {0} \<and> maps w' = []"
proof -
  obtain ctx' w' where e: "producer_enter_fallback demo_ctx (demo_world []) = (ctx', w')" by fastforce
  have "fd_obj (demo_world []) f = None" if "f \<notin> {0, 1, 2, 3, 4}" for f
  proof -
    have "f < 0 \<or> 5 \<le> f" using that by simp presburger
    then show ?thesis by (auto simp: fd_obj_def demo_world_def os_init_def)
  qed
  then have d: "dom (fd_obj (demo_world [])) = {0, 1, 2, 3, 4}"
    unfolding dom_def by (intro set_eqI) (metis (mono_tags, lifting) demo_world_sel(1-5) insert_iff mem_Collect_eq option.distinct(1) empty_iff)
  have own: "set (powned demo_ctx) = {0, 1, 2, 3, 4}" by (auto simp: powned_def)
  from fallback_releases_session [OF demo_pinv [of "[]"], of 1 ctx' w'] e d own show ?thesis by auto
qed

text \<open>Any sequence of calls of the library on a connected context, with anything happening outside.\<close>

inductive producer_reach :: "producer_ctx \<Rightarrow> os \<Rightarrow> producer_ctx \<Rightarrow> os \<Rightarrow> bool" for c0 w0 where
  start: "producer_reach c0 w0 c0 w0"
| wait: "producer_reach c0 w0 c w \<Longrightarrow> wait_buffer_async_result c w = Some (x, c', w') \<Longrightarrow> producer_reach c0 w0 c' w'"
| ask: "producer_reach c0 w0 c w \<Longrightarrow> producer_reach c0 w0 (wait_buffer_async c) w"
| refreshed: "producer_reach c0 w0 c w \<Longrightarrow> producer_reach c0 w0 c (snd (trigger_refresh c w))"
| poll: "producer_reach c0 w0 c w \<Longrightarrow> poll_display_event c w = Some (x, ev, c', w') \<Longrightarrow> producer_reach c0 w0 c' w'"
| push: "producer_reach c0 w0 c w \<Longrightarrow> push_window_event c e w = Some (x, c', w') \<Longrightarrow> producer_reach c0 w0 c' w'"
| reconnect: "producer_reach c0 w0 c w \<Longrightarrow> try_reconnect c w = Some (x, c', w') \<Longrightarrow> producer_reach c0 w0 c' w'"
| callback: "producer_reach c0 w0 c w \<Longrightarrow> producer_reach c0 w0 (producer_set_fallback_callback c b) w"
| outside: "producer_reach c0 w0 c w \<Longrightarrow> keeps w w' \<Longrightarrow> producer_reach c0 w0 c w'"

lemma producer_reach_step:
  assumes "producer_reach c0 w0 c w" and "pinv X c0 w0"
  shows "pstep X c0 w0 c w"
  using assms
proof (induction rule: producer_reach.induct)
  case (callback c w b)
  then show ?case by (auto simp: producer_set_fallback_callback_def pstep_def pinv_def)
next
  case (ask c w)
  then show ?case by (simp add: wait_buffer_async_def)
next
  case (refreshed c w)
  then have "pstep X c0 w0 c w" by simp
  moreover have "keeps w (snd (trigger_refresh c w))" by (simp add: trigger_refresh_def sys_eventfd_keeps)
  ultimately show ?case by (rule pstep_keeps_trans)
qed (auto intro: pstep_refl pstep_trans pstep_keeps_trans pstep_pinv wait_buffer_async_result_step(1)
    poll_display_event_step push_window_event_step try_reconnect_step(1))

lemma receive_fds_ready_ok:
  assumes "fd_obj w (ctrl ctx) = Some ob" and "rxq w ob = Chunk (enc_hdr (mk_hdr CTRL_MSG_FDS_READY 0)) obs # q"
    and "length obs = 4" and "faults w = []"
  shows "\<exists>ctx' w'. receive_fds_ready ctx w = Some (0, ctx', w') \<and> \<not> fallback ctx' \<and>
     map (fd_obj w') [buf_ready_efd ctx', refresh_done_efd ctx', data_fd ctx', shm_fd ctx'] = map Some obs \<and>
     shm_ptr ctx' = Some (obs ! 3) \<and> txq w' = txq w \<and> dialed w' = dialed w \<and> get_screen_info ctx' = get_screen_info ctx \<and>
     reports w' = reports w \<and> rxq w' = (rxq w)(ob := q) \<and> ctrl ctx' = ctrl ctx \<and> maps w' = obs ! 3 # maps w"
proof -
  define p where "p = sys_installs obs (set_rx ob q w)"
  have rf: "recv_fds (ctrl ctx) 8 4 w = Some (8, enc_hdr (mk_hdr CTRL_MSG_FDS_READY 0), fst p, snd p)"
    using recv_fds_chunk [OF assms(1,2), of 4] assms(3) by (simp add: p_def after_hdr_def)
  have "length (fst p) = 4" using assms(3) by (simp add: p_def)
  then obtain a b c d where f: "fst p = [a, b, c, d]" by (auto simp: numeral_eq_Suc length_Suc_conv)
  from assms(3) obtain oa ob' oc od where o: "obs = [oa, ob', oc, od]" by (auto simp: numeral_eq_Suc length_Suc_conv)
  have m: "map (fd_obj (snd p)) [a, b, c, d] = map Some obs" using map_fd_obj_installs [of obs "set_rx ob q w"] f by (simp add: p_def)
  have rt: "read_type (enc_hdr (mk_hdr CTRL_MSG_FDS_READY 0)) (snd p) = (10, snd p)"
    by (simp add: read_type_def enc_hdr_def)
  have mm: "sys_mmap d (snd p) = (Some od, (snd p)\<lparr>maps := od # maps w\<rparr>)"
    using m assms(4) o by (simp add: sys_mmap_def sys_try_def p_def)
  show ?thesis using rf rt mm f m o
    by (simp add: receive_fds_ready_def adopt_fds_def split_beta Let_def get_screen_info_def p_def)
qed

lemma producer_connect_ok:
  assumes fa: "faults w = []" and tx: "txplan w = []" and obs: "length obs = 4"
    and q: "rxq w (next_obj w) = Chunk (screen_frame.frame si) [] # Chunk (enc_hdr (mk_hdr CTRL_MSG_FDS_READY 0)) obs # q"
  shows "\<exists>ctx w'. producer_connect_to_deamon path w = Some (Some ctx, w') \<and>
     get_screen_info ctx = (si_width si, si_height si, si_format si, si_refresh si) \<and> \<not> fallback ctx \<and>
     map (fd_obj w') [buf_ready_efd ctx, refresh_done_efd ctx, data_fd ctx, shm_fd ctx] = map Some obs \<and>
     shm_ptr ctx = Some (obs ! 3) \<and> dialed w' = dialed w @ [(next_obj w, take 107 path)] \<and>
     txq w' (next_obj w) = txq w (next_obj w) @
       [(enc_hdr (mk_hdr CTRL_MSG_PRODUCER_HELLO 0), []), (enc_hdr (mk_hdr CTRL_MSG_PICKUP_FDS 0), [])]"
proof -
  let ?ob = "next_obj w"
  from connect_unix_ok [OF fa] obtain f t where
    c: "connect_unix path w = (f, w\<lparr>next_obj := ?ob + 1, fdtab := t, dialed := dialed w @ [(?ob, take 107 path)]\<rparr>)"
      "0 \<le> f" "fd_obj (w\<lparr>fdtab := t\<rparr>) = (fd_obj w)(f \<mapsto> ?ob)" by metis
  define w1 where "w1 = w\<lparr>next_obj := ?ob + 1, fdtab := t, dialed := dialed w @ [(?ob, take 107 path)]\<rparr>"
  have "fd_obj w1 = fd_obj (w\<lparr>fdtab := t\<rparr>)" by (rule fd_obj_fdtab_cong) (simp add: w1_def)
  then have f1: "fd_obj w1 f = Some ?ob" using c(3) by simp
  let ?c = "producer_ctx_init\<lparr>ctrl := f\<rparr>"
  let ?w2 = "push_tx ?ob (enc_hdr (mk_hdr CTRL_MSG_PRODUCER_HELLO 0), []) w1"
  have s1: "send_all f (enc_hdr (mk_hdr CTRL_MSG_PRODUCER_HELLO 0)) w1 = Some (0, ?w2)"
    using f1 tx by (intro send_all_now) (simp_all add: w1_def)
  let ?q = "Chunk (enc_hdr (mk_hdr CTRL_MSG_FDS_READY 0)) obs # q"
  have fl: "length (screen_frame.frame si) = 24" "screen_frame.frame si \<noteq> []"
    using screen_frame.frame_length [of si] by (auto simp: screen_frame.frame_def)
  have ra: "recv_all f 24 ?w2 = Some (0, screen_frame.frame si, set_rx ?ob ?q ?w2)"
    using f1 q fl by (intro recv_all_chunk) (simp_all add: w1_def)
  let ?w3 = "set_rx ?ob ?q ?w2"
  have h: "dec_hdr (screen_frame.frame si) = mk_hdr 7 16" "dec_screen (drop 8 (screen_frame.frame si)) = si"
    using screen_frame.frame_hdr [of si "[]"] screen_frame.frame_payload [of si "[]"] by simp_all
  let ?c3 = "?c\<lparr>screen_w := si_width si, screen_h := si_height si, pixel_format := si_format si, refresh := si_refresh si\<rparr>"
  let ?w4 = "push_tx ?ob (enc_hdr (mk_hdr CTRL_MSG_PICKUP_FDS 0), []) ?w3"
  have s2: "send_all f (enc_hdr (mk_hdr CTRL_MSG_PICKUP_FDS 0)) ?w3 = Some (0, ?w4)"
    using f1 tx by (intro send_all_now) (simp_all add: w1_def)
  have "fd_obj ?w4 (ctrl ?c3) = Some ?ob" "rxq ?w4 ?ob = ?q" "faults ?w4 = []" using f1 fa by (simp_all add: w1_def)
  from receive_fds_ready_ok [OF this(1,2) obs this(3)] obtain ctx w' where
    r: "receive_fds_ready ?c3 ?w4 = Some (0, ctx, w')" "\<not> fallback ctx"
     "map (fd_obj w') [buf_ready_efd ctx, refresh_done_efd ctx, data_fd ctx, shm_fd ctx] = map Some obs"
     "shm_ptr ctx = Some (obs ! 3)" "txq w' = txq ?w4" "dialed w' = dialed ?w4" "get_screen_info ctx = get_screen_info ?c3"
    by metis
  have "pickup_fds ?c3 ?w3 = Some (0, ctx, w')" using s2 r(1) by (simp add: pickup_fds_def)
  then have "producer_handshake ?c w1 = Some (True, ctx, w')"
    using s1 ra h by (simp add: producer_handshake_def Let_def)
  then have "producer_connect_to_deamon path w = Some (Some ctx, w')"
    using fa c w1_def by (simp add: producer_connect_to_deamon_def sys_try_def Let_def)
  then show ?thesis using r by (auto simp: get_screen_info_def w1_def)
qed

text \<open>
  C4. From connecting to disconnecting, through any sequence of calls and whatever daemon and
  consumer send: the context is well-formed, no descriptor is closed twice or used after it was
  closed, and disconnecting closes all it holds; the only reports are a reply cut short and the
  overflow by less than one struct.
\<close>

theorem producer_lifetime_safe:
  assumes "holds X w" and "producer_connect_to_deamon path w = Some (Some c0, w0)" and "producer_reach c0 w0 c w1"
  shows "pinv X c w1 \<and> holds X (producer_disconnect (Some c) w1) \<and>
     lost X (producer_disconnect (Some c) w1) = lost (powned c @ X) w1 \<and>
     (\<exists>rs. reports (producer_disconnect (Some c) w1) = reports w @ rs \<and> list_all pbenign rs)"
proof -
  note C = producer_connect_step [OF assms(1,2)]
  have i: "pinv X c0 w0" using C(1) by simp
  note R = producer_reach_step [OF assms(3) i]
  obtain r1 where r1: "reports w0 = reports w @ r1" "list_all pbenign r1" using C(2) by blast
  obtain r2 where r2: "reports w1 = reports w0 @ r2" "list_all pbenign r2" using R by (auto simp: pstep_def)
  have "ostep (powned c @ X) w1 X (producer_disconnect (Some c) w1)"
    by (rule producer_disconnect_step(1) [OF pstep_pinv [OF R]])
  with r1 r2 pstep_pinv [OF R] show ?thesis by (auto simp: ostep_def)
qed

definition demo_phone :: screen_info where
  "demo_phone = \<lparr>si_width = 1080, si_height = 2400, si_format = 1, si_refresh = 60\<rparr>"

definition demo_daemon_world :: os where
  "demo_daemon_world = os_init\<lparr>rxq := (\<lambda>_. [])(0 :=
     [Chunk (screen_frame.frame demo_phone) [],
      Chunk (enc_hdr (mk_hdr CTRL_MSG_FDS_READY 0)) [21, 22, 23, 24]])\<rparr>"

lemma demo_daemon_world_sel [simp]:
  "faults demo_daemon_world = []" "txplan demo_daemon_world = []" "next_obj demo_daemon_world = 0"
  "rxq demo_daemon_world 0 = [Chunk (screen_frame.frame demo_phone) [],
      Chunk (enc_hdr (mk_hdr CTRL_MSG_FDS_READY 0)) [21, 22, 23, 24]]"
  by (simp_all add: demo_daemon_world_def os_init_def)

theorem producer_lifetime_safe_witness:
  "\<exists>c0 w0. producer_connect_to_deamon ''sock'' demo_daemon_world = Some (Some c0, w0) \<and>
     pinv [] (wait_buffer_async c0) w0 \<and> holds [] (producer_disconnect (Some (wait_buffer_async c0)) w0)"
proof -
  obtain c0 w0 where c: "producer_connect_to_deamon ''sock'' demo_daemon_world = Some (Some c0, w0)"
    using producer_connect_ok [of demo_daemon_world "[21, 22, 23, 24]" demo_phone "[]" "''sock''"] by auto
  have "producer_reach c0 w0 (wait_buffer_async c0) w0" by (rule producer_reach.ask [OF producer_reach.start])
  note S = producer_lifetime_safe [OF _ c this, of "[]"]
  have "holds [] demo_daemon_world" by (simp add: holds_def)
  from S [OF this] c show ?thesis by blast
qed

text \<open>
  C34. Connecting: when the daemon answers the hello with a screen description and the request with
  four objects, the producer knows exactly that screen, its session consists of exactly these
  objects in the protocol's order (buffer ready, refresh done, data, shared word), the shared word
  is mapped, and the daemon was sent a hello and a request and nothing else.
\<close>

theorem producer_connects:
  assumes "faults w = []" and "txplan w = []" and "length obs = 4"
    and "rxq w (next_obj w) = Chunk (screen_frame.frame si) [] # Chunk (enc_hdr (mk_hdr CTRL_MSG_FDS_READY 0)) obs # q"
  shows "\<exists>ctx w'. producer_connect_to_deamon path w = Some (Some ctx, w') \<and>
     get_screen_info ctx = (si_width si, si_height si, si_format si, si_refresh si) \<and> \<not> fallback ctx \<and>
     map (fd_obj w') [buf_ready_efd ctx, refresh_done_efd ctx, data_fd ctx, shm_fd ctx] = map Some obs \<and>
     shm_ptr ctx = Some (obs ! 3) \<and> dialed w' = dialed w @ [(next_obj w, take 107 path)] \<and>
     txq w' (next_obj w) = txq w (next_obj w) @
       [(enc_hdr (mk_hdr CTRL_MSG_PRODUCER_HELLO 0), []), (enc_hdr (mk_hdr CTRL_MSG_PICKUP_FDS 0), [])]"
  using producer_connect_ok [OF assms] .

theorem producer_connects_witness:
  "\<exists>ctx w'. producer_connect_to_deamon ''sock'' demo_daemon_world = Some (Some ctx, w') \<and>
     get_screen_info ctx = (1080, 2400, 1, 60) \<and> fd_obj w' (data_fd ctx) = Some 23"
  using producer_connects [of demo_daemon_world "[21, 22, 23, 24]" demo_phone "[]" "''sock''"] by (auto simp: demo_phone_def)

text \<open>
  Waiting for a buffer during fallback clears the request before it picks up the new session, so
  that the call fails even when the session was picked up: the owner is told of a failure, and the
  context is connected.
\<close>

theorem wait_in_fallback_fails:
  assumes "fallback ctx" and "pickup_fds (ctx\<lparr>async_pending := False\<rparr>) w = Some (0, ctx', w')" and "pinv X ctx w"
  shows "wait_buffer_async_result ctx w = Some (-1, ctx', w') \<and> \<not> fallback ctx'"
  using assms pickup_fds_step [OF _ _ assms(2), of X] by (simp add: wait_buffer_async_result_def)

theorem wait_in_fallback_fails_witness:
  "\<exists>ctx w ctx' w'. fallback ctx \<and> async_pending ctx \<and> wait_buffer_async_result ctx w = Some (-1, ctx', w') \<and> \<not> fallback ctx'"
proof -
  let ?c = "producer_ctx_init\<lparr>ctrl := 0, async_pending := True\<rparr>"
  let ?w = "os_init\<lparr>fdtab := [Some 9], rxq := (\<lambda>_. [Chunk (enc_hdr (mk_hdr CTRL_MSG_FDS_READY 0)) [21, 22, 23, 24]])\<rparr>"
  let ?w1 = "push_tx 9 (enc_hdr (mk_hdr CTRL_MSG_PICKUP_FDS 0), []) ?w"
  have f0: "fd_obj ?w 0 = Some 9" by (simp add: fd_obj_def)
  have i: "pinv [] ?c ?w"
    by (simp add: pinv_def pshape_def powned_def holds_def fd_obj_def producer_ctx_init_def)
  have s: "send_all 0 (enc_hdr (mk_hdr CTRL_MSG_PICKUP_FDS 0)) ?w = Some (0, ?w1)"
    using f0 by (intro send_all_now) (simp_all add: os_init_def)
  obtain c' w' where "receive_fds_ready (?c\<lparr>async_pending := False\<rparr>) ?w1 = Some (0, c', w')"
    using receive_fds_ready_ok [of ?w1 "?c\<lparr>async_pending := False\<rparr>" 9 "[21, 22, 23, 24]" "[]"] f0 by (auto simp: os_init_def)
  then have pk: "pickup_fds (?c\<lparr>async_pending := False\<rparr>) ?w = Some (0, c', w')" using s by (simp add: pickup_fds_def)
  have "fallback ?c" "async_pending ?c" by (simp_all add: producer_ctx_init_def)
  with wait_in_fallback_fails [OF _ pk i] show ?thesis by blast
qed

end
