(* ===== verification/Consumer.thy ===== *)
theory Consumer
  imports Ownership
begin

section \<open>The consumer library (\<open>libdisplay_consumer/display_consumer.c\<close>)\<close>

text \<open>
  The library the Android display links: it creates the descriptors of a display session (two
  event descriptors, the data socket pair, the shared word), deposits them with the daemon,
  announces the display buffers to the producer, selects the buffer to be drawn, waits until it
  was drawn, sends input events and window commands and reads window events.  When the session
  breaks it falls back: the old session is released, a new one is created and deposited.
  \<open>struct display_ctx\<close> is the record \<open>consumer_ctx\<close>.  The stored buffer descriptors belong to the
  caller, the library only sends them.
\<close>

subsection \<open>State\<close>

record consumer_ctx =
  c_ctrl_fd :: fd
  c_data_fd :: fd
  c_buf_ready_efd :: fd
  c_refresh_done_efd :: fd
  c_shm_fd :: fd
  c_shm_ptr :: "obj option"
  c_screen_w :: u32
  c_screen_h :: u32
  c_pixel_format :: u32
  c_fallback :: bool
  buffer_pending :: bool
  stored_fds :: "fd list"  \<comment> \<open>\<open>MAX_BUFS\<close> entries\<close>
  stored_infos :: "buf_info list"  \<comment> \<open>\<open>MAX_BUFS\<close> entries\<close>
  stored_count :: nat
  c_fallback_cb :: bool
  c_fallback_calls :: nat

definition consumer_ctx_init :: consumer_ctx where
  "consumer_ctx_init = \<lparr>c_ctrl_fd = -1, c_data_fd = -1, c_buf_ready_efd = -1, c_refresh_done_efd = -1,
     c_shm_fd = -1, c_shm_ptr = None, c_screen_w = 0, c_screen_h = 0, c_pixel_format = 0, c_fallback = True,
     buffer_pending = False, stored_fds = replicate MAX_BUFS 0,
     stored_infos = replicate MAX_BUFS \<lparr>bi_stride = 0, bi_format = 0, bi_modifier = 0, bi_offset = 0\<rparr>,
     stored_count = 0, c_fallback_cb = False, c_fallback_calls = 0\<rparr>"

subsection \<open>Operations\<close>

definition create_shm :: "consumer_ctx \<Rightarrow> os \<Rightarrow> int \<times> consumer_ctx \<times> os" where
  "create_shm ctx w =
     (let (f, w) = sys_new w;  \<comment> \<open>\<open>memfd_create\<close>\<close>
          ctx = ctx\<lparr>c_shm_fd := f\<rparr>
      in if f < 0 then (-1, ctx, w)
         else let (ok, w) = sys_try w  \<comment> \<open>\<open>ftruncate\<close>\<close>
         in if \<not> ok then (-1, ctx\<lparr>c_shm_fd := -1\<rparr>, sys_close f w)
         else let (p, w) = sys_mmap f w
         in case p of
              None \<Rightarrow> (-1, ctx\<lparr>c_shm_ptr := None, c_shm_fd := -1\<rparr>, sys_close f w)
            | Some ob \<Rightarrow> (0, ctx\<lparr>c_shm_ptr := Some ob\<rparr>, sys_store ob 0 w))"

definition send_hello_fds :: "consumer_ctx \<Rightarrow> os \<Rightarrow> (int \<times> consumer_ctx \<times> os) option" where
  "send_hello_fds ctx w =
     (case sys_socketpair w of
        (None, w) \<Rightarrow> Some (-1, ctx, w)
      | (Some (sv0, sv1), w) \<Rightarrow> do {
          let ctx = ctx\<lparr>c_data_fd := sv0\<rparr>;
          (ret, w) \<leftarrow> send_fds (c_ctrl_fd ctx) (enc_hdr (mk_hdr CTRL_MSG_CONSUMER_HELLO 0))
             [c_buf_ready_efd ctx, c_refresh_done_efd ctx, sv1, c_shm_fd ctx] w;
          Some (ret, ctx, sys_close sv1 w)
        })"

definition consumer_enter_fallback :: "consumer_ctx \<Rightarrow> os \<Rightarrow> (consumer_ctx \<times> os) option" where
  "consumer_enter_fallback ctx w =
     (if c_fallback ctx then Some (ctx, w)
      else do {
        let w = close_if_open (c_data_fd ctx) w;
        let w = close_if_open (c_buf_ready_efd ctx) w;
        let w = close_if_open (c_refresh_done_efd ctx) w;
        let w = unmap_if_mapped (c_shm_ptr ctx) w;
        let w = close_if_open (c_shm_fd ctx) w;
        let (br, w) = sys_new w;  \<comment> \<open>\<open>eventfd\<close>\<close>
        let (rd, w) = sys_new w;  \<comment> \<open>\<open>eventfd\<close>\<close>
        let ctx = ctx\<lparr>c_fallback := True, buffer_pending := False, c_data_fd := closed_fd (c_data_fd ctx),
                      c_buf_ready_efd := br, c_refresh_done_efd := rd, c_shm_ptr := None,
                      c_shm_fd := closed_fd (c_shm_fd ctx)\<rparr>;
        let (r, ctx, w) = create_shm ctx w;
        (r, ctx, w) \<leftarrow> (if r < 0 then Some (r, ctx, w) else send_hello_fds ctx w);
        Some (ctx\<lparr>c_fallback_calls := (if c_fallback_cb ctx then Suc (c_fallback_calls ctx) else c_fallback_calls ctx)\<rparr>, w)
      })"

definition push_dmabufs_internal :: "consumer_ctx \<Rightarrow> os \<Rightarrow> (int \<times> consumer_ctx \<times> os) option" where
  "push_dmabufs_internal ctx w =
     (if stored_count ctx = 0 then Some (0, ctx, w)
      else do {
        (r, w) \<leftarrow> send_fds (c_data_fd ctx) (enc_hdr (mk_hdr DATA_MSG_BUFS_READY (of_nat (stored_count ctx * sizeof_buf_info))))
           (take (stored_count ctx) (stored_fds ctx)) w;
        if r < 0 then do { (ctx, w) \<leftarrow> consumer_enter_fallback ctx w; Some (-1, ctx, w) }
        else do {
          (r, w) \<leftarrow> send_all (c_data_fd ctx) (enc_bufs (take (stored_count ctx) (stored_infos ctx))) w;
          if r < 0 then do { (ctx, w) \<leftarrow> consumer_enter_fallback ctx w; Some (-1, ctx, w) }
          else Some (0, ctx, w)
        }
      })"

definition try_exit_fallback :: "consumer_ctx \<Rightarrow> os \<Rightarrow> (bool \<times> consumer_ctx \<times> os) option" where
  "try_exit_fallback ctx w = do {
     (p, w) \<leftarrow> sys_poll [c_ctrl_fd ctx] w;
     if (case p of Poll_ready rs \<Rightarrow> POLLIN (rs ! 0) | _ \<Rightarrow> False) then do {
       (r, bs, w) \<leftarrow> recv_all (c_ctrl_fd ctx) sizeof_ctrl_msg w;
       if r = 0 \<and> msg_type (dec_hdr bs) = CTRL_MSG_FDS_READY then do {
         (r, ctx, w) \<leftarrow> push_dmabufs_internal (ctx\<lparr>c_fallback := False\<rparr>) w;
         Some (True, ctx, w)
       }
       else Some (False, ctx, w)
     }
     else Some (False, ctx, w)
   }"

text \<open>The \<open>fail\<close> path of \<open>connect_to_deamon\<close>, and \<open>disconnect\<close>, which has the same text.\<close>

definition consumer_release :: "consumer_ctx \<Rightarrow> os \<Rightarrow> os" where
  "consumer_release ctx w =
     (let w = unmap_if_mapped (c_shm_ptr ctx) w;
          w = close_if_open (c_shm_fd ctx) w;
          w = close_if_open (c_ctrl_fd ctx) w;
          w = close_if_open (c_data_fd ctx) w;
          w = close_if_open (c_buf_ready_efd ctx) w
      in close_if_open (c_refresh_done_efd ctx) w)"

definition consumer_setup :: "consumer_ctx \<Rightarrow> os \<Rightarrow> (bool \<times> consumer_ctx \<times> os) option" where
  "consumer_setup ctx w = do {
     let (br, w) = sys_new w;  \<comment> \<open>\<open>eventfd\<close>\<close>
     let (rd, w) = sys_new w;  \<comment> \<open>\<open>eventfd\<close>\<close>
     let ctx = ctx\<lparr>c_buf_ready_efd := br, c_refresh_done_efd := rd\<rparr>;
     if br < 0 \<or> rd < 0 then Some (False, ctx, w)
     else do {
       let (r, ctx, w) = create_shm ctx w;
       if r < 0 then Some (False, ctx, w)
       else do {
         (r, ctx, w) \<leftarrow> send_hello_fds ctx w;
         Some (r \<ge> 0, ctx, w)
       }
     }
   }"

definition consumer_connect_to_deamon :: "string \<Rightarrow> os \<Rightarrow> (consumer_ctx option \<times> os) option" where
  "consumer_connect_to_deamon path w = do {
     let (ok, w) = sys_try w;  \<comment> \<open>\<open>calloc\<close>\<close>
     if \<not> ok then Some (None, w)
     else do {
       let (f, w) = connect_unix path w;
       let ctx = consumer_ctx_init\<lparr>c_ctrl_fd := f\<rparr>;
       (ok, ctx, w) \<leftarrow> (if f < 0 then Some (False, ctx, w) else consumer_setup ctx w);
       Some (if ok then (Some ctx, w) else (None, consumer_release ctx w))
     }
   }"

definition consumer_disconnect :: "consumer_ctx option \<Rightarrow> os \<Rightarrow> os" where
  "consumer_disconnect p w = (case p of None \<Rightarrow> w | Some ctx \<Rightarrow> consumer_release ctx w)"

definition wake_display_consumer :: "consumer_ctx option \<Rightarrow> os \<Rightarrow> os" where
  "wake_display_consumer p w =
     (case p of
        None \<Rightarrow> w
      | Some ctx \<Rightarrow>
          (let w = (if c_refresh_done_efd ctx \<ge> 0 then sys_eventfd_write (c_refresh_done_efd ctx) 1 w else w)
           in if c_buf_ready_efd ctx \<ge> 0 then sys_eventfd_write (c_buf_ready_efd ctx) 1 w else w))"

definition set_screen_info :: "consumer_ctx \<Rightarrow> screen_info \<Rightarrow> os \<Rightarrow> (int \<times> consumer_ctx \<times> os) option" where
  "set_screen_info ctx si w = do {
     let ctx = ctx\<lparr>c_screen_w := si_width si, c_screen_h := si_height si, c_pixel_format := si_format si\<rparr>;
     (r, w) \<leftarrow> send_all (c_ctrl_fd ctx) (enc_hdr (mk_hdr CTRL_MSG_SCREEN_INFO 16) @ enc_screen si) w;
     Some (r, ctx, w)
   }"

definition push_dmabufs :: "consumer_ctx \<Rightarrow> fd list \<Rightarrow> buf_info list \<Rightarrow> int \<Rightarrow> os \<Rightarrow> (int \<times> consumer_ctx \<times> os) option" where
  "push_dmabufs ctx fds infos cnt w =
     (if cnt \<le> 0 \<or> cnt > int MAX_BUFS then Some (-1, ctx, w)
      else do {
        let n = nat cnt;
        let ctx = ctx\<lparr>stored_fds := take n fds @ drop n (stored_fds ctx),
                      stored_infos := take n infos @ drop n (stored_infos ctx), stored_count := n\<rparr>;
        if c_fallback ctx then Some (0, ctx, w) else push_dmabufs_internal ctx w
      })"

definition select_dmabuf :: "consumer_ctx \<Rightarrow> int \<Rightarrow> os \<Rightarrow> (int \<times> consumer_ctx \<times> os) option" where
  "select_dmabuf ctx idx w = do {
     (b, ctx, w) \<leftarrow> (if c_fallback ctx then try_exit_fallback ctx w else Some (True, ctx, w));
     if c_fallback ctx then Some (0, ctx, w)
     else if idx < 0 \<or> idx \<ge> int (stored_count ctx) then Some (-1, ctx, w)
     else do {
       let w = (case c_shm_ptr ctx of
                  None \<Rightarrow> report Null_deref w
                | Some ob \<Rightarrow> sys_store ob (of_int idx) w);
       let w = sys_eventfd_write (c_buf_ready_efd ctx) 1 w;
       Some (0, ctx\<lparr>buffer_pending := True\<rparr>, w)
     }
   }"

text \<open>The \<open>poll\<close> loop of \<open>refresh_done\<close>: \<open>True\<close> when the producer has signalled.\<close>

function refresh_poll :: "consumer_ctx \<Rightarrow> os \<Rightarrow> (bool \<times> consumer_ctx \<times> os) option" where
  "refresh_poll ctx w =
     (case sys_poll [c_refresh_done_efd ctx, c_data_fd ctx] w of
        None \<Rightarrow> None
      | Some (Poll_intr, w') \<Rightarrow> refresh_poll ctx w'
      | Some (Poll_timeout, w') \<Rightarrow> refresh_poll ctx w'
      | Some (Poll_err, w') \<Rightarrow> map_option (Pair False) (consumer_enter_fallback ctx w')
      | Some (Poll_ready rs, w') \<Rightarrow>
          if POLLERR (rs ! 0) \<or> POLLNVAL (rs ! 0) then map_option (Pair False) (consumer_enter_fallback ctx w')
          else if POLLHUP (rs ! 1) \<or> POLLERR (rs ! 1) \<or> POLLNVAL (rs ! 1)
          then map_option (Pair False) (consumer_enter_fallback ctx w')
          else if POLLIN (rs ! 0) then Some (True, ctx, w')
          else refresh_poll ctx w')"
  by pat_completeness auto
termination
  by (relation "measure (\<lambda>(ctx, w). length (polls w))") (auto dest: sys_poll_shorter)

declare refresh_poll.simps [simp del]

definition refresh_done :: "consumer_ctx \<Rightarrow> os \<Rightarrow> (int \<times> consumer_ctx \<times> os) option" where
  "refresh_done ctx w =
     (if \<not> buffer_pending ctx then Some (0, ctx, w)
      else do {
        (ready, ctx, w) \<leftarrow> refresh_poll ctx w;
        if \<not> ready then Some (-1, ctx, w)
        else do {
          let (ok, w) = sys_eventfd_read (c_refresh_done_efd ctx) w;
          if \<not> ok then do { (ctx, w) \<leftarrow> consumer_enter_fallback ctx w; Some (-1, ctx, w) }
          else Some (0, ctx\<lparr>buffer_pending := False\<rparr>, w)
        }
      })"

text \<open>
  \<open>push_input_event\<close> and \<open>push_window_command\<close> have the same text but for the message and the value
  returned on success.
\<close>

definition push_message :: "consumer_ctx \<Rightarrow> byte list \<Rightarrow> int \<Rightarrow> os \<Rightarrow> (int \<times> consumer_ctx \<times> os) option" where
  "push_message ctx msg ok w =
     (if c_fallback ctx then Some (0, ctx, w)
      else do {
        (r, w) \<leftarrow> send_all (c_data_fd ctx) msg w;
        if r < 0 then do { (ctx, w) \<leftarrow> consumer_enter_fallback ctx w; Some (-1, ctx, w) }
        else Some (ok, ctx, w)
      })"

definition push_input_event :: "consumer_ctx \<Rightarrow> InputEvent \<Rightarrow> os \<Rightarrow> (int \<times> consumer_ctx \<times> os) option" where
  "push_input_event ctx event w = push_message ctx (enc_hdr (mk_hdr DATA_MSG_INPUT_EVENT 20) @ enc_input event) 0 w"

definition poll_window_event :: "consumer_ctx \<Rightarrow> os \<Rightarrow> (int \<times> WindowEvent option \<times> consumer_ctx \<times> os) option" where
  "poll_window_event ctx w =
     (if c_fallback ctx then Some (0, None, ctx, w)
      else do {
        (p, w) \<leftarrow> sys_poll [c_data_fd ctx] w;
        case p of
          Poll_ready rs \<Rightarrow>
            if POLLHUP (rs ! 0) \<or> POLLERR (rs ! 0) then do { (ctx, w) \<leftarrow> consumer_enter_fallback ctx w; Some (-1, None, ctx, w) }
            else do {
              (n, bs, w) \<leftarrow> sys_peek (c_data_fd ctx) sizeof_data_msg w;
              if (case n of Ret k \<Rightarrow> k < sizeof_data_msg | _ \<Rightarrow> True) then Some (0, None, ctx, w)
              else if msg_type (dec_hdr bs) \<noteq> DATA_MSG_WINDOW_EVENT then Some (0, None, ctx, w)
              else if msg_size (dec_hdr bs) \<noteq> 268 then do { (ctx, w) \<leftarrow> consumer_enter_fallback ctx w; Some (-1, None, ctx, w) }
              else do {
                (r, msg, w) \<leftarrow> recv_all (c_data_fd ctx) (sizeof_data_msg + sizeof_WindowEvent) w;
                if r < 0 then do { (ctx, w) \<leftarrow> consumer_enter_fallback ctx w; Some (-1, None, ctx, w) }
                else Some (1, Some (dec_window_event (drop sizeof_data_msg msg)), ctx, w)
              }
            }
        | _ \<Rightarrow> Some (0, None, ctx, w)
      })"

definition push_window_command :: "consumer_ctx \<Rightarrow> WindowCommand \<Rightarrow> os \<Rightarrow> (int \<times> consumer_ctx \<times> os) option" where
  "push_window_command ctx command w =
     push_message ctx (enc_hdr (mk_hdr DATA_MSG_WINDOW_COMMAND 8) @ enc_window_command command) 1 w"

definition consumer_set_fallback_callback :: "consumer_ctx \<Rightarrow> bool \<Rightarrow> consumer_ctx" where
  "consumer_set_fallback_callback ctx cb = ctx\<lparr>c_fallback_cb := cb\<rparr>"

subsection \<open>The invariant of a context\<close>

definition cowned :: "consumer_ctx \<Rightarrow> fd list" where
  "cowned ctx = open_fds [c_data_fd ctx, c_buf_ready_efd ctx, c_refresh_done_efd ctx, c_shm_fd ctx, c_ctrl_fd ctx]"

definition cshape :: "consumer_ctx \<Rightarrow> bool" where
  "cshape ctx \<longleftrightarrow> length (stored_fds ctx) = MAX_BUFS \<and> length (stored_infos ctx) = MAX_BUFS \<and> stored_count ctx \<le> MAX_BUFS"

definition cinv :: "fd list \<Rightarrow> consumer_ctx \<Rightarrow> os \<Rightarrow> bool" where
  "cinv X ctx w \<longleftrightarrow> cshape ctx \<and> holds (cowned ctx @ X) w \<and> (c_shm_ptr ctx = None \<longleftrightarrow> c_shm_fd ctx < 0) \<and>
     (\<forall>ob. c_shm_ptr ctx = Some ob \<longrightarrow> ob \<in> set (maps w))"

definition cstep :: "fd list \<Rightarrow> consumer_ctx \<Rightarrow> os \<Rightarrow> consumer_ctx \<Rightarrow> os \<Rightarrow> bool" where
  "cstep X ctx w ctx' w' \<longleftrightarrow> cinv X ctx' w' \<and> lost (cowned ctx' @ X) w' = lost (cowned ctx @ X) w \<and>
     (\<exists>rs. reports w' = reports w @ rs \<and> set rs \<subseteq> {Null_deref})"

lemma cstep_refl: "cinv X ctx w \<Longrightarrow> cstep X ctx w ctx w"
  by (simp add: cstep_def)

lemma cstep_trans: "cstep X c w c' w' \<Longrightarrow> cstep X c' w' c'' w'' \<Longrightarrow> cstep X c w c'' w''"
  unfolding cstep_def by (metis Un_least append_assoc set_append)

lemma cstep_cinv: "cstep X c w c' w' \<Longrightarrow> cinv X c' w'"
  by (simp add: cstep_def)

lemma cstep_ostep: "ostep (cowned c @ X) w (cowned c' @ X) w' \<Longrightarrow> cinv X c' w' \<Longrightarrow> cstep X c w c' w'"
  by (simp add: cstep_def ostep_def)

lemma cstep_keeps: "cinv X ctx w \<Longrightarrow> keeps w w' \<Longrightarrow> cstep X ctx w ctx w'"
  by (auto simp: cstep_def cinv_def keeps_def holds_def lost_def)

lemma cstep_keeps_trans: "cstep X c w c' w' \<Longrightarrow> keeps w' w'' \<Longrightarrow> cstep X c w c' w''"
  using cstep_trans cstep_keeps cstep_cinv by blast

lemma cinv_frame [simp]:
  "cinv X (ctx\<lparr>buffer_pending := b\<rparr>) w = cinv X ctx w" "cinv X (ctx\<lparr>c_fallback := b\<rparr>) w = cinv X ctx w"
  "cinv X (ctx\<lparr>c_fallback_calls := n\<rparr>) w = cinv X ctx w" "cinv X (ctx\<lparr>c_fallback_cb := b\<rparr>) w = cinv X ctx w"
  "cowned (ctx\<lparr>buffer_pending := b\<rparr>) = cowned ctx" "cowned (ctx\<lparr>c_fallback := b\<rparr>) = cowned ctx"
  "cowned (ctx\<lparr>c_fallback_calls := n\<rparr>) = cowned ctx" "cowned (ctx\<lparr>c_fallback_cb := b\<rparr>) = cowned ctx"
  by (simp_all add: cinv_def cowned_def cshape_def)

lemma cstep_frame [simp]:
  "cstep X (ctx\<lparr>c_fallback := b\<rparr>) w c' w' = cstep X ctx w c' w'"
  "cstep X ctx w (c'\<lparr>c_fallback := b\<rparr>) w' = cstep X ctx w c' w'"
  "cstep X ctx w (c'\<lparr>buffer_pending := b\<rparr>) w' = cstep X ctx w c' w'"
  "cstep X ctx w (c'\<lparr>c_fallback_calls := n\<rparr>) w' = cstep X ctx w c' w'"
  "cstep X ctx w (c'\<lparr>c_fallback_cb := b\<rparr>) w' = cstep X ctx w c' w'"
  by (simp_all add: cstep_def)

lemma create_shm_step:
  assumes h: "holds Z w" and n: "c_shm_ptr ctx = None" and r: "create_shm ctx w = (x, ctx', w')"
  shows "ostep Z w (open_fds [c_shm_fd ctx'] @ Z) w'"
    "\<exists>f p. ctx' = ctx\<lparr>c_shm_fd := f, c_shm_ptr := p\<rparr> \<and> (p = None \<longleftrightarrow> f < 0) \<and> x = (if f < 0 then -1 else 0) \<and>
       maps w' = (case p of None \<Rightarrow> maps w | Some ob \<Rightarrow> ob # maps w)"
proof -
  obtain f w1 where sn: "sys_new w = (f, w1)" by fastforce
  note s1 = ostep_new [OF h sn] and m1 = sys_new_maps [OF sn]
  have nn: "ctx\<lparr>c_shm_ptr := None\<rparr> = ctx" using n by simp
  have "ostep Z w (open_fds [c_shm_fd ctx'] @ Z) w' \<and> (\<exists>f p. ctx' = ctx\<lparr>c_shm_fd := f, c_shm_ptr := p\<rparr> \<and>
      (p = None \<longleftrightarrow> f < 0) \<and> x = (if f < 0 then -1 else 0) \<and> maps w' = (case p of None \<Rightarrow> maps w | Some ob \<Rightarrow> ob # maps w))"
  proof (cases "f < 0")
    case True
    with r sn have e: "ctx' = ctx\<lparr>c_shm_fd := f\<rparr>" "w' = w1" "x = -1" by (auto simp: create_shm_def)
    have "ctx' = ctx\<lparr>c_shm_fd := f, c_shm_ptr := None\<rparr>" using e n by simp
    with True s1 m1 e show ?thesis by (auto intro!: exI [of _ f] exI [of _ None])
  next
    case f: False
    obtain ok w2 where t: "sys_try w1 = (ok, w2)" by fastforce
    have w2: "fd_obj w2 = fd_obj w1" "reports w2 = reports w1" "maps w2 = maps w1" using sys_tryD [OF t] by simp_all
    have s2: "ostep Z w (f # Z) w2" using ostep_trans [OF s1 ostep_same_fds [OF ostep_holds [OF s1] w2(1,2)]] f by simp
    show ?thesis
    proof (cases ok)
      case False
      with r sn f t have e: "ctx' = ctx\<lparr>c_shm_fd := -1\<rparr>" "w' = sys_close f w2" "x = -1"
        by (auto simp: create_shm_def)
      have "ctx' = ctx\<lparr>c_shm_fd := -1, c_shm_ptr := None\<rparr>" using e n by simp
      with ostep_trans [OF s2 ostep_close [OF ostep_holds [OF s2]]] e m1 w2 show ?thesis
        by (auto intro!: exI [of _ "-1"] exI [of _ None])
    next
      case ok: True
      obtain p w3 where mm: "sys_mmap f w2 = (p, w3)" by fastforce
      note M = sys_mmapD [OF mm]
      note s3 = ostep_trans [OF s2 ostep_same_fds [OF ostep_holds [OF s2] M(1,2)]]
      show ?thesis
      proof (cases p)
        case None
        with r sn f t ok mm have e: "ctx' = ctx\<lparr>c_shm_fd := -1, c_shm_ptr := None\<rparr>" "w' = sys_close f w3" "x = -1"
          by (auto simp: create_shm_def)
        with ostep_trans [OF s3 ostep_close [OF ostep_holds [OF s3]]] m1 w2 M(7) None show ?thesis
          by (auto intro!: exI [of _ "-1"] exI [of _ None])
      next
        case (Some ob)
        with r sn f t ok mm have e: "ctx' = ctx\<lparr>c_shm_fd := f, c_shm_ptr := Some ob\<rparr>" "w' = sys_store ob 0 w3" "x = 0"
          by (auto simp: create_shm_def)
        have "ostep (f # Z) w3 (f # Z) w'"
          by (rule ostep_same_fds [OF ostep_holds [OF s3]]) (simp_all add: e sys_store_def)
        with ostep_trans [OF s3 this] e f m1 w2 M(7) Some show ?thesis
          by (auto simp: sys_store_def intro!: exI [of _ f] exI [of _ "Some ob"])
      qed
    qed
  qed
  then show "ostep Z w (open_fds [c_shm_fd ctx'] @ Z) w'"
    "\<exists>f p. ctx' = ctx\<lparr>c_shm_fd := f, c_shm_ptr := p\<rparr> \<and> (p = None \<longleftrightarrow> f < 0) \<and> x = (if f < 0 then -1 else 0) \<and>
       maps w' = (case p of None \<Rightarrow> maps w | Some ob \<Rightarrow> ob # maps w)" by simp_all
qed

lemma send_hello_fds_step:
  assumes h: "holds Z w" and n: "c_data_fd ctx < 0" and r: "send_hello_fds ctx w = Some (x, ctx', w')"
  shows "ostep Z w (open_fds [c_data_fd ctx'] @ Z) w'" "\<exists>f. ctx' = ctx\<lparr>c_data_fd := f\<rparr>" "maps w' = maps w" "mem w' = mem w"
proof -
  obtain sv w1 where sp: "sys_socketpair w = (sv, w1)" by fastforce
  have "ostep Z w (open_fds [c_data_fd ctx'] @ Z) w' \<and> (\<exists>f. ctx' = ctx\<lparr>c_data_fd := f\<rparr>) \<and> maps w' = maps w \<and> mem w' = mem w"
  proof (cases sv)
    case None
    with r sp have e: "ctx' = ctx" "w' = w1" by (auto simp: send_hello_fds_def)
    have w1: "w1 = w\<lparr>faults := tl (faults w)\<rparr>" using sys_socketpairD [OF sp] None by simp
    have "ctx = ctx\<lparr>c_data_fd := c_data_fd ctx\<rparr>" by simp
    with ostep_same_fds [OF h] e n w1 show ?thesis by (auto intro!: exI [of _ "c_data_fd ctx"])
  next
    case (Some p)
    then obtain f g where p: "sv = Some (f, g)" by (cases p) auto
    from sys_socketpairD [OF sp] p obtain t where S: "0 \<le> f" "0 \<le> g" "f \<noteq> g" "fd_obj w f = None" "fd_obj w g = None"
      "fd_obj w1 = (fd_obj w)(f \<mapsto> next_obj w, g \<mapsto> next_obj w + 1)"
      "reports w1 = reports w" "maps w1 = maps w" "mem w1 = mem w" by auto
    from r sp p obtain w2 where sf: "send_fds (c_ctrl_fd ctx) (enc_hdr (mk_hdr CTRL_MSG_CONSUMER_HELLO 0))
        [c_buf_ready_efd ctx, c_refresh_done_efd ctx, g, c_shm_fd ctx] w1 = Some (x, w2)"
      and e: "ctx' = ctx\<lparr>c_data_fd := f\<rparr>" "w' = sys_close g w2"
      by (auto simp: send_hello_fds_def bind_Some_iff)
    have k: "keeps w1 w2" using send_fds_result(1) [OF sf] by simp
    have nin: "f \<notin> set Z" "g \<notin> set Z" using h S(4,5) unfolding holds_def by metis+
    have h1: "holds (g # f # Z) w1" using h S nin by (auto simp: holds_def)
    have l1: "lost (g # f # Z) w1 = lost Z w" using S by (auto simp: lost_def)
    have s1: "ostep Z w (g # f # Z) w1" using h1 l1 S(7) by (simp add: ostep_def)
    note s2 = ostep_trans [OF s1 ostep_keeps [OF h1 k]]
    note s3 = ostep_trans [OF s2 ostep_close [OF ostep_holds [OF s2]]]
    show ?thesis using s3 e S(1,8,9) k by (auto simp: keeps_def)
  qed
  then show "ostep Z w (open_fds [c_data_fd ctx'] @ Z) w'" "\<exists>f. ctx' = ctx\<lparr>c_data_fd := f\<rparr>" "maps w' = maps w" "mem w' = mem w"
    by simp_all
qed

subsection \<open>Fallback\<close>

text \<open>
  Entering fallback: the old session is released, the new one (two event descriptors, the shared
  word, the data socket) is held, and nothing is lost.
\<close>

lemma consumer_enter_fallback_step:
  assumes inv: "cinv X ctx w" and r: "consumer_enter_fallback ctx w = Some (ctx', w')"
  shows "cstep X ctx w ctx' w'" "ostep (cowned ctx @ X) w (cowned ctx' @ X) w'" "c_fallback ctx'" "c_ctrl_fd ctx' = c_ctrl_fd ctx"
    "c_fallback_cb ctx' = c_fallback_cb ctx"
    "c_fallback_calls ctx' = c_fallback_calls ctx + (if c_fallback ctx \<or> \<not> c_fallback_cb ctx then 0 else 1)"
proof -
  have "ostep (cowned ctx @ X) w (cowned ctx' @ X) w' \<and> cinv X ctx' w' \<and> c_fallback ctx' \<and> c_ctrl_fd ctx' = c_ctrl_fd ctx \<and>
    c_fallback_cb ctx' = c_fallback_cb ctx \<and>
    c_fallback_calls ctx' = c_fallback_calls ctx + (if c_fallback ctx \<or> \<not> c_fallback_cb ctx then 0 else 1)"
  proof (cases "c_fallback ctx")
    case True
    with r inv show ?thesis by (simp add: consumer_enter_fallback_def cinv_def ostep_refl)
  next
    case nf: False
    let ?Y = "[c_data_fd ctx, c_buf_ready_efd ctx, c_refresh_done_efd ctx]"
    define w1 where "w1 = sys_close_all (open_fds [c_shm_fd ctx]) (unmap_if_mapped (c_shm_ptr ctx) (sys_close_all (open_fds ?Y) w))"
    have w1: "close_if_open (c_shm_fd ctx) (unmap_if_mapped (c_shm_ptr ctx)
        (close_if_open (c_refresh_done_efd ctx) (close_if_open (c_buf_ready_efd ctx) (close_if_open (c_data_fd ctx) w)))) = w1"
      by (simp add: w1_def close_open_Cons del: open_fds_simps(2))
    let ?Z = "open_fds [c_ctrl_fd ctx] @ X"
    have o: "cowned ctx @ X = open_fds (?Y @ [c_shm_fd ctx]) @ ?Z" by (simp add: cowned_def)
    have h: "holds (open_fds (?Y @ [c_shm_fd ctx]) @ ?Z) w" using inv by (simp only: cinv_def o)
    have mm: "\<And>ob. c_shm_ptr ctx = Some ob \<Longrightarrow> ob \<in> set (maps w)" using inv by (simp add: cinv_def)
    have s1: "ostep (cowned ctx @ X) w ?Z w1" unfolding o by (rule ostep_release(1) [OF h mm w1_def])
    obtain br w2 where n2: "sys_new w1 = (br, w2)" by fastforce
    note s2 = ostep_trans [OF s1 ostep_new [OF ostep_holds [OF s1] n2]]
    obtain rd w3 where n3: "sys_new w2 = (rd, w3)" by fastforce
    note s3 = ostep_trans [OF s2 ostep_new [OF ostep_holds [OF s2] n3]]
    let ?c = "ctx\<lparr>c_fallback := True, buffer_pending := False, c_data_fd := closed_fd (c_data_fd ctx),
       c_buf_ready_efd := br, c_refresh_done_efd := rd, c_shm_ptr := None, c_shm_fd := closed_fd (c_shm_fd ctx)\<rparr>"
    obtain x c4 w4 where cs: "create_shm ?c w3 = (x, c4, w4)" by (metis prod_cases3)
    note C = create_shm_step [OF ostep_holds [OF s3] _ cs]
    obtain f p where c4: "c4 = ?c\<lparr>c_shm_fd := f, c_shm_ptr := p\<rparr>" "p = None \<longleftrightarrow> f < 0" "x = (if f < 0 then -1 else 0)"
      "maps w4 = (case p of None \<Rightarrow> maps w3 | Some ob \<Rightarrow> ob # maps w3)" using C(2) by auto
    have s4: "ostep (cowned ctx @ X) w (open_fds [f] @ open_fds [rd] @ open_fds [br] @ ?Z) w4"
      using ostep_trans [OF s3 C(1)] c4(1) by simp
    obtain y c5 w5 where sh: "(if x < 0 then Some (x, c4, w4) else send_hello_fds c4 w4) = Some (y, c5, w5)"
      and e: "ctx' = c5\<lparr>c_fallback_calls := (if c_fallback_cb c5 then Suc (c_fallback_calls c5) else c_fallback_calls c5)\<rparr>" "w' = w5"
      using r nf by (auto simp: consumer_enter_fallback_def w1 n2 n3 cs bind_Some_iff)
    have "\<exists>d. c5 = c4\<lparr>c_data_fd := d\<rparr> \<and> ostep (cowned ctx @ X) w (open_fds [d] @ open_fds [f] @ open_fds [rd] @ open_fds [br] @ ?Z) w5 \<and> maps w5 = maps w4"
    proof (cases "x < 0")
      case True
      then have e5: "c5 = c4" "w5 = w4" using sh by simp_all
      have "c4 = c4\<lparr>c_data_fd := closed_fd (c_data_fd ctx)\<rparr>" using c4(1) by simp
      with s4 e5 show ?thesis by (metis append_Nil closed_fd_neg(2) open_fds_simps(1,2))
    next
      case False
      then have sh': "send_hello_fds c4 w4 = Some (y, c5, w5)" using sh by simp
      note S = send_hello_fds_step [OF ostep_holds [OF s4] _ sh']
      have "c_data_fd c4 < 0" using c4(1) by simp
      from S [OF this] ostep_trans [OF s4 S(1) [OF this]] show ?thesis by force
    qed
    then obtain d where d: "c5 = c4\<lparr>c_data_fd := d\<rparr>"
      "ostep (cowned ctx @ X) w (open_fds [d] @ open_fds [f] @ open_fds [rd] @ open_fds [br] @ ?Z) w5" "maps w5 = maps w4" by blast
    have own: "cowned ctx' = open_fds [d, br, rd, f, c_ctrl_fd ctx]" by (simp add: e d(1) c4(1) cowned_def)
    have ms: "mset (open_fds [d] @ open_fds [f] @ open_fds [rd] @ open_fds [br] @ ?Z) = mset (cowned ctx' @ X)"
      unfolding own by (simp add: mset_open_fds del: open_fds_simps)
    have s5: "ostep (cowned ctx @ X) w (cowned ctx' @ X) w'" unfolding e(2) by (rule ostep_mset_right [OF d(2) ms])
    have "cshape ctx'" using inv by (simp add: cinv_def cshape_def e d(1) c4(1))
    moreover have "c_shm_ptr ctx' = p" "c_shm_fd ctx' = f" by (simp_all add: e d(1) c4(1))
    ultimately have "cinv X ctx' w'"
      using ostep_holds [OF s5] c4(2,4) d(3) e(2) by (auto simp: cinv_def split: option.splits)
    then show ?thesis using s5 nf by (simp add: e d(1) c4(1))
  qed
  then show "cstep X ctx w ctx' w'" "ostep (cowned ctx @ X) w (cowned ctx' @ X) w'" "c_fallback ctx'" "c_ctrl_fd ctx' = c_ctrl_fd ctx"
    "c_fallback_cb ctx' = c_fallback_cb ctx"
    "c_fallback_calls ctx' = c_fallback_calls ctx + (if c_fallback ctx \<or> \<not> c_fallback_cb ctx then 0 else 1)"
    by (simp_all add: cstep_ostep)
qed

lemma cstep_fallback:
  assumes "cstep X c w c' w'" and "consumer_enter_fallback c' w' = Some (c'', w'')"
  shows "cstep X c w c'' w''"
  using cstep_trans [OF assms(1) consumer_enter_fallback_step(1) [OF cstep_cinv [OF assms(1)] assms(2)]] .

lemma create_shm_frame:
  "create_shm ctx w = (x, ctx', w') \<Longrightarrow> c_fallback ctx' = c_fallback ctx \<and> c_ctrl_fd ctx' = c_ctrl_fd ctx \<and>
     c_fallback_cb ctx' = c_fallback_cb ctx \<and> c_fallback_calls ctx' = c_fallback_calls ctx"
  by (auto simp: create_shm_def Let_def split: prod.splits if_splits option.splits)

lemma send_hello_frame:
  "send_hello_fds ctx w = Some (x, ctx', w') \<Longrightarrow> c_fallback ctx' = c_fallback ctx \<and> c_ctrl_fd ctx' = c_ctrl_fd ctx \<and>
     c_fallback_cb ctx' = c_fallback_cb ctx \<and> c_fallback_calls ctx' = c_fallback_calls ctx"
  by (auto simp: send_hello_fds_def bind_Some_iff split: prod.splits option.splits)

lemma enter_fallback_frame:
  assumes nf: "\<not> c_fallback c" and r: "consumer_enter_fallback c w = Some (c', w')"
  shows "c_fallback c' \<and> c_ctrl_fd c' = c_ctrl_fd c \<and> c_fallback_cb c' = c_fallback_cb c \<and>
     c_fallback_calls c' = c_fallback_calls c + (if c_fallback_cb c then 1 else 0)"
proof -
  define w1 where "w1 = close_if_open (c_shm_fd c) (unmap_if_mapped (c_shm_ptr c)
    (close_if_open (c_refresh_done_efd c) (close_if_open (c_buf_ready_efd c) (close_if_open (c_data_fd c) w))))"
  obtain br w2 where n2: "sys_new w1 = (br, w2)" by fastforce
  obtain rd w3 where n3: "sys_new w2 = (rd, w3)" by fastforce
  let ?c = "c\<lparr>c_fallback := True, buffer_pending := False, c_data_fd := closed_fd (c_data_fd c),
     c_buf_ready_efd := br, c_refresh_done_efd := rd, c_shm_ptr := None, c_shm_fd := closed_fd (c_shm_fd c)\<rparr>"
  obtain x c4 w4 where cs: "create_shm ?c w3 = (x, c4, w4)" by (metis prod_cases3)
  obtain y c5 where h: "(if x < 0 then Some (x, c4, w4) else send_hello_fds c4 w4) = Some (y, c5, w')"
    and c': "c' = c5\<lparr>c_fallback_calls := (if c_fallback_cb c5 then Suc (c_fallback_calls c5) else c_fallback_calls c5)\<rparr>"
    using r nf by (auto simp: consumer_enter_fallback_def w1_def [symmetric] n2 n3 cs bind_Some_iff)
  have "c_fallback c5 = c_fallback c4 \<and> c_ctrl_fd c5 = c_ctrl_fd c4 \<and> c_fallback_cb c5 = c_fallback_cb c4 \<and> c_fallback_calls c5 = c_fallback_calls c4"
    using h send_hello_frame by (auto split: if_splits)
  with create_shm_frame [OF cs] show ?thesis by (simp add: c')
qed

interpretation consumer_fb:
  fallback_client consumer_enter_fallback c_fallback c_fallback_calls c_fallback_cb c_ctrl_fd
proof
  fix c :: consumer_ctx and w c' w'
  assume r: "consumer_enter_fallback c w = Some (c', w')"
  have "c_fallback c' \<and> c_ctrl_fd c' = c_ctrl_fd c \<and> c_fallback_cb c' = c_fallback_cb c"
  proof (cases "c_fallback c")
    case True
    with r show ?thesis by (simp add: consumer_enter_fallback_def)
  next
    case False
    from enter_fallback_frame [OF this r] show ?thesis by simp
  qed
  then show "c_fallback c'" "c_ctrl_fd c' = c_ctrl_fd c" "c_fallback_cb c' = c_fallback_cb c" by simp_all
  show "c_fallback_calls c' = c_fallback_calls c + (if c_fallback_cb c then 1 else 0)" if "\<not> c_fallback c"
    using enter_fallback_frame [OF that r] by simp
next
  fix c :: consumer_ctx and w
  show "c_fallback c \<Longrightarrow> consumer_enter_fallback c w = Some (c, w)" by (simp add: consumer_enter_fallback_def)
qed

subsection \<open>Every operation keeps the invariant\<close>

lemma push_dmabufs_internal_step:
  assumes inv: "cinv X ctx w" and r: "push_dmabufs_internal ctx w = Some (x, ctx', w')"
  shows "cstep X ctx w ctx' w'"
proof (cases "stored_count ctx = 0")
  case True
  with r inv show ?thesis by (simp add: push_dmabufs_internal_def cstep_refl)
next
  case n: False
  let ?m = "enc_hdr (mk_hdr DATA_MSG_BUFS_READY (of_nat (stored_count ctx * sizeof_buf_info)))"
  obtain y w1 where s: "send_fds (c_data_fd ctx) ?m (take (stored_count ctx) (stored_fds ctx)) w = Some (y, w1)"
    using r n by (cases "send_fds (c_data_fd ctx) ?m (take (stored_count ctx) (stored_fds ctx)) w")
      (auto simp: push_dmabufs_internal_def)
  have s1: "cstep X ctx w ctx w1" using send_fds_result(1) [OF s] by (intro cstep_keeps [OF inv]) simp
  show ?thesis
  proof (cases "y < 0")
    case True
    with r n s obtain "consumer_enter_fallback ctx w1 = Some (ctx', w')"
      by (auto simp: push_dmabufs_internal_def bind_Some_iff)
    with s1 show ?thesis by (rule cstep_fallback)
  next
    case y: False
    let ?b = "enc_bufs (take (stored_count ctx) (stored_infos ctx))"
    obtain z w2 where sa: "send_all (c_data_fd ctx) ?b w1 = Some (z, w2)"
      using r n s y by (cases "send_all (c_data_fd ctx) ?b w1") (auto simp: push_dmabufs_internal_def)
    have s2: "cstep X ctx w ctx w2" by (rule cstep_keeps_trans [OF s1 send_all_keeps(1) [OF sa]])
    show ?thesis
    proof (cases "z < 0")
      case True
      with r n s y sa obtain "consumer_enter_fallback ctx w2 = Some (ctx', w')"
        by (auto simp: push_dmabufs_internal_def bind_Some_iff)
      with s2 show ?thesis by (rule cstep_fallback)
    next
      case False
      with r n s y sa s2 show ?thesis by (simp add: push_dmabufs_internal_def)
    qed
  qed
qed

lemma try_exit_fallback_step:
  assumes inv: "cinv X ctx w" and r: "try_exit_fallback ctx w = Some (b, ctx', w')"
  shows "cstep X ctx w ctx' w'"
proof -
  from r obtain p w1 where sp: "sys_poll [c_ctrl_fd ctx] w = Some (p, w1)"
    by (auto simp: try_exit_fallback_def bind_Some_iff)
  have s1: "cstep X ctx w ctx w1" by (rule cstep_keeps [OF inv sys_poll_keeps [OF sp]])
  show ?thesis
  proof (cases "case p of Poll_ready rs \<Rightarrow> POLLIN (rs ! 0) | _ \<Rightarrow> False")
    case False
    with r sp s1 show ?thesis by (simp add: try_exit_fallback_def)
  next
    case pin: True
    with r sp obtain y bs w2 where ra: "recv_all (c_ctrl_fd ctx) 8 w1 = Some (y, bs, w2)"
      by (auto simp: try_exit_fallback_def bind_Some_iff)
    have s2: "cstep X ctx w ctx w2" using recv_all_keeps [OF ra] by (intro cstep_keeps_trans [OF s1]) simp
    show ?thesis
    proof (cases "y = 0 \<and> msg_type (dec_hdr bs) = CTRL_MSG_FDS_READY")
      case False
      with r sp pin ra s2 show ?thesis by (auto simp: try_exit_fallback_def split: if_splits)
    next
      case True
      with r sp pin ra obtain z where pd: "push_dmabufs_internal (ctx\<lparr>c_fallback := False\<rparr>) w2 = Some (z, ctx', w')"
        by (auto simp: try_exit_fallback_def bind_Some_iff)
      have "cinv X (ctx\<lparr>c_fallback := False\<rparr>) w2" using cstep_cinv [OF s2] by simp
      from push_dmabufs_internal_step [OF this pd] s2 show ?thesis by (auto intro: cstep_trans)
    qed
  qed
qed

lemma push_dmabufs_step:
  assumes inv: "cinv X ctx w" and l: "nat cnt \<le> length fds" "nat cnt \<le> length infos"
    and r: "push_dmabufs ctx fds infos cnt w = Some (x, ctx', w')"
  shows "cstep X ctx w ctx' w'"
proof (cases "cnt \<le> 0 \<or> cnt > int MAX_BUFS")
  case True
  with r inv show ?thesis by (auto simp: push_dmabufs_def cstep_refl split: if_splits)
next
  case False
  let ?c = "ctx\<lparr>stored_fds := take (nat cnt) fds @ drop (nat cnt) (stored_fds ctx),
     stored_infos := take (nat cnt) infos @ drop (nat cnt) (stored_infos ctx), stored_count := nat cnt\<rparr>"
  have i: "cinv X ?c w" and o: "cowned ?c = cowned ctx"
    using inv False l by (auto simp: cinv_def cshape_def cowned_def)
  have s: "cstep X ctx w ?c w" using i by (simp add: cstep_def o)
  show ?thesis
  proof (cases "c_fallback ctx")
    case True
    with r False s show ?thesis by (auto simp: push_dmabufs_def Let_def)
  next
    case nf: False
    with r False have "push_dmabufs_internal ?c w = Some (x, ctx', w')" by (auto simp: push_dmabufs_def Let_def)
    from cstep_trans [OF s push_dmabufs_internal_step [OF i this]] show ?thesis .
  qed
qed

lemma select_dmabuf_step:
  assumes inv: "cinv X ctx w" and r: "select_dmabuf ctx idx w = Some (x, ctx', w')"
  shows "cstep X ctx w ctx' w'"
proof -
  obtain b c1 w1 where e: "(if c_fallback ctx then try_exit_fallback ctx w else Some (True, ctx, w)) = Some (b, c1, w1)"
    using r by (auto simp: select_dmabuf_def bind_Some_iff)
  have s1: "cstep X ctx w c1 w1"
    using e try_exit_fallback_step [OF inv] cstep_refl [OF inv] by (auto split: if_splits)
  show ?thesis
  proof (cases "c_fallback c1 \<or> idx < 0 \<or> idx \<ge> int (stored_count c1)")
    case True
    with r e s1 show ?thesis by (auto simp: select_dmabuf_def split: if_splits)
  next
    case False
    let ?w2 = "case c_shm_ptr c1 of None \<Rightarrow> report Null_deref w1 | Some ob \<Rightarrow> sys_store ob (of_int idx) w1"
    have e2: "ctx' = c1\<lparr>buffer_pending := True\<rparr>" "w' = sys_eventfd_write (c_buf_ready_efd c1) 1 ?w2"
      using r e False by (auto simp: select_dmabuf_def Let_def)
    have "fd_obj ?w2 = fd_obj w1" "maps ?w2 = maps w1" "\<exists>rs. reports ?w2 = reports w1 @ rs \<and> set rs \<subseteq> {Null_deref}"
      by (auto simp: report_def sys_store_def split: option.split)
    then have "cstep X c1 w1 c1 ?w2" using cstep_cinv [OF s1] by (auto simp: cstep_def cinv_def holds_def lost_def)
    then have "cstep X c1 w1 c1 w'" unfolding e2 by (rule cstep_keeps_trans) (rule sys_eventfd_keeps)
    with s1 e2(1) show ?thesis by (simp add: cstep_trans)
  qed
qed

lemma refresh_poll_step:
  "cinv X ctx w \<Longrightarrow> refresh_poll ctx w = Some (ready, ctx', w') \<Longrightarrow>
     cstep X ctx w ctx' w' \<and> (if ready then ctx' = ctx else c_fallback ctx')"
proof (induction ctx w rule: refresh_poll.induct)
  case (1 ctx w)
  from "1.prems" obtain p w1 where sp: "sys_poll [c_refresh_done_efd ctx, c_data_fd ctx] w = Some (p, w1)"
    by (auto simp: refresh_poll.simps [of ctx w] split: option.splits)
  have k: "cstep X ctx w ctx w1" by (rule cstep_keeps [OF "1.prems"(1) sys_poll_keeps [OF sp]])
  note inv1 = cstep_cinv [OF k]
  have again: ?case if "cstep X ctx w1 ctx' w' \<and> (if ready then ctx' = ctx else c_fallback ctx')"
    using that k by (auto intro: cstep_trans)
  have fall: ?case if "map_option (Pair False) (consumer_enter_fallback ctx w1) = Some (ready, ctx', w')"
  proof -
    have e: "consumer_enter_fallback ctx w1 = Some (ctx', w')" "\<not> ready" using that by auto
    from cstep_fallback [OF k e(1)] consumer_enter_fallback_step(3) [OF inv1 e(1)] e(2) show ?thesis by simp
  qed
  show ?case
  proof (cases p)
    case Poll_intr
    with "1.prems"(2) sp have "refresh_poll ctx w1 = Some (ready, ctx', w')" by (simp add: refresh_poll.simps [of ctx w])
    from again [OF "1.IH"(1) [OF sp refl Poll_intr inv1 this]] show ?thesis .
  next
    case Poll_err
    with "1.prems"(2) sp show ?thesis by (intro fall) (simp add: refresh_poll.simps [of ctx w])
  next
    case Poll_timeout
    with "1.prems"(2) sp have "refresh_poll ctx w1 = Some (ready, ctx', w')" by (simp add: refresh_poll.simps [of ctx w])
    from again [OF "1.IH"(2) [OF sp refl Poll_timeout inv1 this]] show ?thesis .
  next
    case (Poll_ready rs)
    consider (bad) "POLLERR (rs ! 0) \<or> POLLNVAL (rs ! 0) \<or> POLLHUP (rs ! 1) \<or> POLLERR (rs ! 1) \<or> POLLNVAL (rs ! 1)"
      | (ok) "\<not> (POLLERR (rs ! 0) \<or> POLLNVAL (rs ! 0))" "\<not> (POLLHUP (rs ! 1) \<or> POLLERR (rs ! 1) \<or> POLLNVAL (rs ! 1))" by blast
    then show ?thesis
    proof cases
      case bad
      with "1.prems"(2) sp Poll_ready show ?thesis
        by (intro fall) (auto simp: refresh_poll.simps [of ctx w] split: if_splits)
    next
      case ok
      show ?thesis
      proof (cases "POLLIN (rs ! 0)")
        case True
        then have "ready" "ctx' = ctx" "w' = w1"
          using "1.prems"(2) sp Poll_ready ok by (simp_all add: refresh_poll.simps [of ctx w])
        with k show ?thesis by simp
      next
        case False
        then have "refresh_poll ctx w1 = Some (ready, ctx', w')"
          using "1.prems"(2) sp Poll_ready ok by (simp add: refresh_poll.simps [of ctx w])
        from again [OF "1.IH"(3) [OF sp refl Poll_ready ok False inv1 this]] show ?thesis .
      qed
    qed
  qed
qed

lemma refresh_done_step:
  assumes inv: "cinv X ctx w" and r: "refresh_done ctx w = Some (x, ctx', w')"
  shows "cstep X ctx w ctx' w'"
proof (cases "buffer_pending ctx")
  case False
  with r inv show ?thesis by (simp add: refresh_done_def cstep_refl)
next
  case True
  with r obtain ready c1 w1 where rp: "refresh_poll ctx w = Some (ready, c1, w1)"
    by (auto simp: refresh_done_def bind_Some_iff)
  note R = refresh_poll_step [OF inv rp]
  show ?thesis
  proof (cases ready)
    case False
    with r True rp R show ?thesis by (simp add: refresh_done_def)
  next
    case ready: True
    obtain ok w2 where er: "sys_eventfd_read (c_refresh_done_efd c1) w1 = (ok, w2)" by fastforce
    have s1: "cstep X ctx w c1 w1" using R by simp
    have s2: "cstep X ctx w c1 w2" by (rule cstep_keeps_trans [OF s1 sys_eventfd_keeps(1) [OF er]])
    show ?thesis
    proof (cases ok)
      case False
      with r True rp ready er have "consumer_enter_fallback c1 w2 = Some (ctx', w')"
        by (auto simp: refresh_done_def bind_Some_iff)
      with s2 show ?thesis by (rule cstep_fallback)
    next
      case ok: True
      with r True rp ready er s2 show ?thesis by (auto simp: refresh_done_def)
    qed
  qed
qed

lemma push_message_step:
  assumes inv: "cinv X ctx w" and r: "push_message ctx m ok w = Some (x, ctx', w')"
  shows "cstep X ctx w ctx' w'"
proof (cases "c_fallback ctx")
  case True
  with r inv show ?thesis by (simp add: push_message_def cstep_refl)
next
  case nf: False
  with r obtain y w1 where s: "send_all (c_data_fd ctx) m w = Some (y, w1)"
    by (auto simp: push_message_def bind_Some_iff)
  have s1: "cstep X ctx w ctx w1" by (rule cstep_keeps [OF inv send_all_keeps(1) [OF s]])
  show ?thesis
  proof (cases "y < 0")
    case True
    with r nf s have "consumer_enter_fallback ctx w1 = Some (ctx', w')" by (auto simp: push_message_def bind_Some_iff)
    with s1 show ?thesis by (rule cstep_fallback)
  next
    case False
    with r nf s s1 show ?thesis by (simp add: push_message_def)
  qed
qed

lemma poll_window_event_step:
  assumes inv: "cinv X ctx w" and r: "poll_window_event ctx w = Some (x, ev, ctx', w')"
  shows "cstep X ctx w ctx' w'"
proof (cases "c_fallback ctx")
  case True
  with r inv show ?thesis by (simp add: poll_window_event_def cstep_refl)
next
  case nf: False
  with r obtain p w1 where sp: "sys_poll [c_data_fd ctx] w = Some (p, w1)"
    by (auto simp: poll_window_event_def bind_Some_iff)
  have s1: "cstep X ctx w ctx w1" by (rule cstep_keeps [OF inv sys_poll_keeps [OF sp]])
  have fall: ?thesis if "cstep X ctx w ctx v" "(do { (ctx, w) \<leftarrow> consumer_enter_fallback ctx v; Some (-1, None, ctx, w) }) = Some (x, ev, ctx', w')" for v
    using that(2) cstep_fallback [OF that(1)] by (auto simp: bind_Some_iff)
  show ?thesis
  proof (cases "\<exists>rs. p = Poll_ready rs")
    case False
    then have "ctx' = ctx" "w' = w1" using r nf sp by (cases p; simp add: poll_window_event_def)+
    with s1 show ?thesis by simp
  next
    case True
    then obtain rs where p: "p = Poll_ready rs" by blast
    show ?thesis
    proof (cases "POLLHUP (rs ! 0) \<or> POLLERR (rs ! 0)")
      case True
      with r nf sp p show ?thesis by (intro fall [OF s1]) (simp add: poll_window_event_def)
    next
      case up: False
      with r nf sp p obtain n bs w2 where pk: "sys_peek (c_data_fd ctx) 8 w1 = Some (n, bs, w2)"
        by (auto simp: poll_window_event_def bind_Some_iff)
      have s2: "cstep X ctx w ctx w2" by (rule cstep_keeps_trans [OF s1 sys_peek_keeps [OF pk]])
      consider (skip) "(case n of Ret k \<Rightarrow> k < sizeof_data_msg | _ \<Rightarrow> True) \<or> msg_type (dec_hdr bs) \<noteq> DATA_MSG_WINDOW_EVENT"
        | (size) "\<not> (case n of Ret k \<Rightarrow> k < sizeof_data_msg | _ \<Rightarrow> True)" "msg_type (dec_hdr bs) = DATA_MSG_WINDOW_EVENT" "msg_size (dec_hdr bs) \<noteq> 268"
        | (ok) "\<not> (case n of Ret k \<Rightarrow> k < sizeof_data_msg | _ \<Rightarrow> True)" "msg_type (dec_hdr bs) = DATA_MSG_WINDOW_EVENT" "msg_size (dec_hdr bs) = 268"
        by blast
      then show ?thesis
      proof cases
        case skip
        then have "ctx' = ctx" "w' = w2" using r nf sp p up pk by (auto simp: poll_window_event_def split: if_splits)
        with s2 show ?thesis by simp
      next
        case size
        with r nf sp p up pk show ?thesis by (intro fall [OF s2]) (simp add: poll_window_event_def)
      next
        case ok
        have e: "poll_window_event ctx w = do { (r, msg, w) \<leftarrow> recv_all (c_data_fd ctx) 276 w2;
            if r < 0 then do { (ctx, w) \<leftarrow> consumer_enter_fallback ctx w; Some (-1, None, ctx, w) }
            else Some (1, Some (dec_window_event (drop 8 msg)), ctx, w) }"
          using nf sp p up pk ok by (simp add: poll_window_event_def)
        from r obtain y msg w3 where ra: "recv_all (c_data_fd ctx) 276 w2 = Some (y, msg, w3)"
          unfolding e by (auto simp: bind_Some_iff)
        have s3: "cstep X ctx w ctx w3" using recv_all_keeps [OF ra] by (intro cstep_keeps_trans [OF s2]) simp
        show ?thesis
        proof (cases "y < 0")
          case True
          with r ra e show ?thesis by (intro fall [OF s3]) simp
        next
          case False
          with r ra e s3 show ?thesis by simp
        qed
      qed
    qed
  qed
qed

lemma set_screen_info_step:
  assumes inv: "cinv X ctx w" and r: "set_screen_info ctx si w = Some (x, ctx', w')"
  shows "cstep X ctx w ctx' w'"
proof -
  let ?c = "ctx\<lparr>c_screen_w := si_width si, c_screen_h := si_height si, c_pixel_format := si_format si\<rparr>"
  from r have s: "send_all (c_ctrl_fd ctx) (enc_hdr (mk_hdr CTRL_MSG_SCREEN_INFO 16) @ enc_screen si) w = Some (x, w')" and c: "ctx' = ?c"
    by (auto simp: set_screen_info_def bind_Some_iff)
  have "cstep X ctx w ctx w'" by (rule cstep_keeps [OF inv send_all_keeps(1) [OF s]])
  moreover have "cowned ?c = cowned ctx" "cshape ?c = cshape ctx" by (simp_all add: cowned_def cshape_def)
  ultimately show ?thesis by (simp add: c cstep_def cinv_def)
qed

lemma wake_keeps: "keeps w (wake_display_consumer p w)"
  by (auto simp: wake_display_consumer_def Let_def split: option.split intro: keeps_trans sys_eventfd_keeps(2))

lemma consumer_release_step:
  assumes inv: "cinv X ctx w"
  shows "ostep (cowned ctx @ X) w X (consumer_release ctx w)"
    "maps (consumer_release ctx w) = (case c_shm_ptr ctx of None \<Rightarrow> maps w | Some ob \<Rightarrow> remove1 ob (maps w))"
proof -
  let ?Y = "[c_shm_fd ctx, c_ctrl_fd ctx, c_data_fd ctx, c_buf_ready_efd ctx, c_refresh_done_efd ctx]"
  have w': "consumer_release ctx w = sys_close_all (open_fds ?Y) (unmap_if_mapped (c_shm_ptr ctx) (sys_close_all (open_fds []) w))"
    by (simp add: consumer_release_def Let_def close_open_Cons del: open_fds_simps(2))
  have m: "mset (open_fds ([] @ ?Y) @ X) = mset (cowned ctx @ X)"
    by (simp add: cowned_def mset_open_fds del: open_fds_simps)
  have h: "holds (open_fds ([] @ ?Y) @ X) w" using inv holds_mset(1) [OF m] by (simp add: cinv_def)
  have mm: "\<And>ob. c_shm_ptr ctx = Some ob \<Longrightarrow> ob \<in> set (maps w)" using inv by (simp add: cinv_def)
  note rel = ostep_release [OF h mm w']
  show "ostep (cowned ctx @ X) w X (consumer_release ctx w)" by (rule ostep_mset [OF m rel(1)])
  show "maps (consumer_release ctx w) = (case c_shm_ptr ctx of None \<Rightarrow> maps w | Some ob \<Rightarrow> remove1 ob (maps w))" by (rule rel(2))
qed

lemma consumer_setup_step:
  assumes inv: "cinv X ctx w" and n: "c_shm_fd ctx < 0" "c_data_fd ctx < 0" "c_buf_ready_efd ctx < 0" "c_refresh_done_efd ctx < 0"
    and r: "consumer_setup ctx w = Some (ok, ctx', w')"
  shows "ostep (cowned ctx @ X) w (cowned ctx' @ X) w'" "cinv X ctx' w'"
proof -
  let ?Z = "open_fds [c_ctrl_fd ctx] @ X"
  have o: "cowned ctx @ X = ?Z" "c_shm_ptr ctx = None" using n inv by (simp_all add: cowned_def cinv_def)
  have h: "holds ?Z w" using inv o(1) by (simp only: cinv_def)
  obtain br w2 where n2: "sys_new w = (br, w2)" by fastforce
  note s2 = ostep_new [OF h n2]
  obtain rd w3 where n3: "sys_new w2 = (rd, w3)" by fastforce
  note s3 = ostep_trans [OF s2 ostep_new [OF ostep_holds [OF s2] n3]]
  let ?c = "ctx\<lparr>c_buf_ready_efd := br, c_refresh_done_efd := rd\<rparr>"
  have fin: "ostep (cowned ctx @ X) w (cowned c @ X) v \<and> cinv X c v"
    if c: "c = ?c\<lparr>c_shm_fd := f, c_shm_ptr := p, c_data_fd := d\<rparr>" "p = None \<longleftrightarrow> f < 0"
      "ostep ?Z w (open_fds [d] @ open_fds [f] @ open_fds [rd] @ open_fds [br] @ ?Z) v" "\<forall>ob. p = Some ob \<longrightarrow> ob \<in> set (maps v)" for c f p d v
  proof -
    have ms: "mset (open_fds [d] @ open_fds [f] @ open_fds [rd] @ open_fds [br] @ ?Z) = mset (cowned c @ X)"
      by (simp add: c(1) cowned_def mset_open_fds del: open_fds_simps)
    have "ostep (cowned ctx @ X) w (cowned c @ X) v" unfolding o(1) by (rule ostep_mset_right [OF c(3) ms])
    moreover have "cinv X c v" using ostep_holds [OF calculation] inv c(1,2,4) by (auto simp: cinv_def cshape_def)
    ultimately show ?thesis by simp
  qed
  have "ostep (cowned ctx @ X) w (cowned ctx' @ X) w' \<and> cinv X ctx' w'"
  proof (cases "br < 0 \<or> rd < 0")
    case True
    with r n2 n3 have "ctx' = ?c" "w' = w3" by (auto simp: consumer_setup_def Let_def)
    with s3 n o(2) show ?thesis by (intro fin [where f = "c_shm_fd ctx" and p = None and d = "c_data_fd ctx"]) (auto simp: )
  next
    case False
    obtain x c4 w4 where cs: "create_shm ?c w3 = (x, c4, w4)" by (metis prod_cases3)
    note C = create_shm_step [OF ostep_holds [OF s3] _ cs]
    obtain f p where c4: "c4 = ?c\<lparr>c_shm_fd := f, c_shm_ptr := p\<rparr>" "p = None \<longleftrightarrow> f < 0" "x = (if f < 0 then -1 else 0)"
      "maps w4 = (case p of None \<Rightarrow> maps w3 | Some ob \<Rightarrow> ob # maps w3)" using C(2) o(2) by auto
    have s4: "ostep ?Z w (open_fds [f] @ open_fds [rd] @ open_fds [br] @ ?Z) w4"
      using ostep_trans [OF s3 C(1)] c4(1) o(2) by simp
    show ?thesis
    proof (cases "x < 0")
      case True
      with r n2 n3 False cs have "ctx' = c4" "w' = w4" by (auto simp: consumer_setup_def Let_def)
      with c4 s4 n show ?thesis
        by (intro fin [where f = f and p = p and d = "c_data_fd ctx"]) (auto split: option.splits if_splits)
    next
      case x: False
      with r n2 n3 False cs obtain y where sh: "send_hello_fds c4 w4 = Some (y, ctx', w')"
        by (auto simp: consumer_setup_def Let_def bind_Some_iff)
      have dn: "c_data_fd c4 < 0" using c4(1) n by simp
      note S = send_hello_fds_step [OF ostep_holds [OF s4] dn sh]
      obtain d where d: "ctx' = c4\<lparr>c_data_fd := d\<rparr>" using S(2) by blast
      show ?thesis
        using ostep_trans [OF s4 S(1)] c4 d S(3)
        by (intro fin [where f = f and p = p and d = d]) (auto split: option.splits)
    qed
  qed
  then show "ostep (cowned ctx @ X) w (cowned ctx' @ X) w'" "cinv X ctx' w'" by simp_all
qed

lemma consumer_connect_step:
  assumes h: "holds X w" and r: "consumer_connect_to_deamon path w = Some (res, w')"
  shows "case res of Some ctx \<Rightarrow> cinv X ctx w' \<and> ostep X w (cowned ctx @ X) w' | None \<Rightarrow> ostep X w X w'"
proof -
  obtain ok w1 where t: "sys_try w = (ok, w1)" by fastforce
  have w1: "fd_obj w1 = fd_obj w" "reports w1 = reports w" using sys_tryD [OF t] by simp_all
  note s1 = ostep_same_fds [OF h w1]
  show ?thesis
  proof (cases ok)
    case False
    with r t s1 show ?thesis by (auto simp: consumer_connect_to_deamon_def)
  next
    case True
    obtain f w2 where c: "connect_unix path w1 = (f, w2)" by fastforce
    note C = connect_unix_step [OF ostep_holds [OF s1] c]
    let ?c = "consumer_ctx_init\<lparr>c_ctrl_fd := f\<rparr>"
    have own: "cowned ?c = open_fds [f]" "cshape ?c" "c_shm_ptr ?c = None" "c_shm_fd ?c < 0" "c_data_fd ?c < 0"
      "c_buf_ready_efd ?c < 0" "c_refresh_done_efd ?c < 0"
      by (simp_all add: cowned_def consumer_ctx_init_def cshape_def)
    have s2: "ostep X w (cowned ?c @ X) w2" using ostep_trans [OF s1 C(1)] own(1) by simp
    have i: "cinv X ?c w2" using ostep_holds [OF s2] own by (simp add: cinv_def)
    from r t True c obtain ok2 c2 w3 where hs: "(if f < 0 then Some (False, ?c, w2) else consumer_setup ?c w2) = Some (ok2, c2, w3)"
      and res: "(res, w') = (if ok2 then (Some c2, w3) else (None, consumer_release c2 w3))"
      by (auto simp: consumer_connect_to_deamon_def bind_Some_iff Let_def)
    have "ostep (cowned ?c @ X) w2 (cowned c2 @ X) w3 \<and> cinv X c2 w3"
      using hs consumer_setup_step [OF i own(4-7)] i own(2) ostep_refl by (auto simp: cinv_def split: if_splits)
    then have s3: "ostep X w (cowned c2 @ X) w3" and i3: "cinv X c2 w3" using ostep_trans [OF s2] by blast+
    show ?thesis
      using res s3 i3 ostep_trans [OF s3 consumer_release_step(1) [OF i3]] by (auto split: if_splits)
  qed
qed

subsection \<open>What a new session looks like\<close>

text \<open>
  \<open>session_at N ctx w\<close>: the session's descriptors show the objects \<open>N\<close> (buffer ready), \<open>N + 1\<close>
  (refresh done), \<open>N + 2\<close> (the shared word, mapped, zero) and \<open>N + 3\<close> (the near end of a socket pair
  whose far end is \<open>N + 4\<close>).
\<close>

definition session_at :: "obj \<Rightarrow> consumer_ctx \<Rightarrow> os \<Rightarrow> bool" where
  "session_at N ctx w \<longleftrightarrow> fd_obj w (c_buf_ready_efd ctx) = Some N \<and> fd_obj w (c_refresh_done_efd ctx) = Some (N + 1) \<and>
     fd_obj w (c_shm_fd ctx) = Some (N + 2) \<and> c_shm_ptr ctx = Some (N + 2) \<and> mem w (N + 2) = 0 \<and>
     fd_obj w (c_data_fd ctx) = Some (N + 3) \<and> (N + 3, N + 4) \<in> set (pairs w)"

definition hello_msg :: "byte list" where
  "hello_msg = enc_hdr (mk_hdr CTRL_MSG_CONSUMER_HELLO 0)"

lemma new_session_ok:
  assumes fa: "faults w = []" and tx: "txplan w = []" and cob: "fd_obj w (c_ctrl_fd ctx) = Some cob"
    and n1: "sys_new w = (br, w1)" and n2: "sys_new w1 = (rd, w2)"
  shows "\<exists>c3 w3 c4 w4. create_shm (ctx\<lparr>c_buf_ready_efd := br, c_refresh_done_efd := rd\<rparr>) w2 = (0, c3, w3) \<and> 0 \<le> br \<and> 0 \<le> rd \<and>
     send_hello_fds c3 w3 = Some (0, c4, w4) \<and> session_at (next_obj w) c4 w4 \<and>
     txq w4 = (txq w)(cob := txq w cob @ [(hello_msg, [next_obj w, next_obj w + 1, next_obj w + 4, next_obj w + 2])]) \<and>
     faults w4 = [] \<and> txplan w4 = [] \<and> dialed w4 = dialed w \<and> fd_obj w4 (c_ctrl_fd ctx) = Some cob \<and> rxq w4 = rxq w \<and> polls w4 = polls w"
proof -
  let ?N = "next_obj w"
  obtain t1 where N1: "w1 = w\<lparr>next_obj := Suc ?N, fdtab := t1\<rparr>" "0 \<le> br" "fd_obj w br = None" "fd_obj w1 = (fd_obj w)(br \<mapsto> ?N)"
    using sys_new_ok [OF fa] n1 by auto
  have fa1: "faults w1 = []" using N1(1) fa by simp
  obtain t2 where N2: "w2 = w1\<lparr>next_obj := Suc (next_obj w1), fdtab := t2\<rparr>" "0 \<le> rd" "fd_obj w1 rd = None"
    "fd_obj w2 = (fd_obj w1)(rd \<mapsto> Suc ?N)"
    using sys_new_ok [OF fa1] n2 N1(1) by auto
  have fa2: "faults w2 = []" using N2(1) fa1 by simp
  obtain sf t3 where S: "sys_new w2 = (sf, w2\<lparr>next_obj := Suc (next_obj w2), fdtab := t3\<rparr>)" "0 \<le> sf" "fd_obj w2 sf = None"
    "fd_obj (w2\<lparr>next_obj := Suc (next_obj w2), fdtab := t3\<rparr>) = (fd_obj w2)(sf \<mapsto> ?N + 2)"
    using sys_new_ok [OF fa2] N1(1) N2(1) by auto
  define w2' where "w2' = w2\<lparr>next_obj := Suc (next_obj w2), fdtab := t3\<rparr>"
  have mm: "sys_mmap sf w2' = (Some (?N + 2), w2'\<lparr>maps := (?N + 2) # maps w2'\<rparr>)"
    using S(4) fa2 by (simp add: sys_mmap_def sys_try_def w2'_def)
  let ?c = "ctx\<lparr>c_buf_ready_efd := br, c_refresh_done_efd := rd\<rparr>"
  define c3 where "c3 = ?c\<lparr>c_shm_fd := sf, c_shm_ptr := Some (?N + 2)\<rparr>"
  define w3 where "w3 = sys_store (?N + 2) 0 (w2'\<lparr>maps := (?N + 2) # maps w2'\<rparr>)"
  have cs: "create_shm ?c w2 = (0, c3, w3)"
    using S(1,2) fa2 mm by (simp add: create_shm_def sys_try_def w2'_def c3_def w3_def Let_def)
  have f3: "fd_obj w3 = (fd_obj w2)(sf \<mapsto> ?N + 2)" using S(4) by (simp add: w3_def sys_store_def w2'_def)
  have fr3: "faults w3 = []" "txplan w3 = []" "txq w3 = txq w" "next_obj w3 = ?N + 3" "pairs w3 = pairs w" "dialed w3 = dialed w"
    "rxq w3 = rxq w" "polls w3 = polls w" "mem w3 (?N + 2) = 0"
    using fa2 tx by (simp_all add: w3_def sys_store_def w2'_def N1(1) N2(1))
  obtain sv w4 where sp: "sys_socketpair w3 = (sv, w4)" by fastforce
  have "sv \<noteq> None" using sp fr3(1) by (auto simp: sys_socketpair_def sys_try_def Let_def split: prod.splits)
  with sys_socketpairD [OF sp] obtain d g t4 where P: "sv = Some (d, g)" "0 \<le> d" "0 \<le> g" "d \<noteq> g" "fd_obj w3 d = None" "fd_obj w3 g = None"
    "fd_obj w4 = (fd_obj w3)(d \<mapsto> next_obj w3, g \<mapsto> next_obj w3 + 1)"
    "w4 = w3\<lparr>faults := tl (faults w3), next_obj := next_obj w3 + 2, pairs := pairs w3 @ [(next_obj w3, next_obj w3 + 1)], fdtab := t4\<rparr>"
    by blast
  have ne: "br \<noteq> rd" "br \<noteq> sf" "rd \<noteq> sf" "d \<noteq> br" "d \<noteq> rd" "d \<noteq> sf" "g \<noteq> br" "g \<noteq> rd" "g \<noteq> sf"
    "c_ctrl_fd ctx \<noteq> br" "c_ctrl_fd ctx \<noteq> rd" "c_ctrl_fd ctx \<noteq> sf" "c_ctrl_fd ctx \<noteq> d" "c_ctrl_fd ctx \<noteq> g"
    using N1(3,4) N2(3,4) S(3) f3 P(5,6) cob by (auto split: if_splits)
  have fo: "fd_obj w4 br = Some ?N" "fd_obj w4 rd = Some (?N + 1)" "fd_obj w4 sf = Some (?N + 2)" "fd_obj w4 d = Some (?N + 3)"
    "fd_obj w4 g = Some (?N + 4)" "fd_obj w4 (c_ctrl_fd ctx) = Some cob"
    using P(4,7) f3 N1(4) N2(4) ne cob fr3(4) by simp_all
  let ?w5 = "push_tx cob (hello_msg, [?N, ?N + 1, ?N + 4, ?N + 2]) w4"
  have "txplan w4 = []" using P(8) fr3(2) by simp
  from send_fds_now [OF fo(6) this, of "[br, rd, g, sf]" hello_msg] fo have
    se: "send_fds (c_ctrl_fd ctx) hello_msg [br, rd, g, sf] w4 = Some (0, ?w5)" by simp
  have sh: "send_hello_fds c3 w3 = Some (0, c3\<lparr>c_data_fd := d\<rparr>, sys_close g ?w5)"
    using sp P(1) se by (simp add: send_hello_fds_def c3_def hello_msg_def)
  have "session_at ?N (c3\<lparr>c_data_fd := d\<rparr>) (sys_close g ?w5)"
    using fo ne P(4,8) fr3 by (simp add: session_at_def c3_def fd_obj_close)
  moreover have "fd_obj (sys_close g ?w5) (c_ctrl_fd ctx) = Some cob" using fo(6) ne by (simp add: fd_obj_close)
  ultimately show ?thesis using cs sh N1(2) N2(2) P(8) fr3 by simp
qed

lemma consumer_connect_ok:
  assumes fa: "faults w = []" and tx: "txplan w = []"
  shows "\<exists>ctx w'. consumer_connect_to_deamon path w = Some (Some ctx, w') \<and> c_fallback ctx \<and> stored_count ctx = 0 \<and>
     fd_obj w' (c_ctrl_fd ctx) = Some (next_obj w) \<and> session_at (next_obj w + 1) ctx w' \<and> dialed w' = dialed w @ [(next_obj w, take 107 path)] \<and>
     txq w' = (txq w)(next_obj w := txq w (next_obj w) @
       [(hello_msg, [next_obj w + 1, next_obj w + 2, next_obj w + 5, next_obj w + 3])]) \<and> faults w' = [] \<and> txplan w' = [] \<and> rxq w' = rxq w"
proof -
  let ?N = "next_obj w"
  from connect_unix_ok [OF fa] obtain f t where
    c: "connect_unix path w = (f, w\<lparr>next_obj := ?N + 1, fdtab := t, dialed := dialed w @ [(?N, take 107 path)]\<rparr>)"
      "0 \<le> f" "fd_obj (w\<lparr>fdtab := t\<rparr>) = (fd_obj w)(f \<mapsto> ?N)" by metis
  define w1 where "w1 = w\<lparr>next_obj := ?N + 1, fdtab := t, dialed := dialed w @ [(?N, take 107 path)]\<rparr>"
  have "fd_obj w1 = fd_obj (w\<lparr>fdtab := t\<rparr>)" by (rule fd_obj_fdtab_cong) (simp add: w1_def)
  then have f1: "fd_obj w1 f = Some ?N" using c(3) by simp
  let ?c = "consumer_ctx_init\<lparr>c_ctrl_fd := f\<rparr>"
  obtain br w2 where n1: "sys_new w1 = (br, w2)" by fastforce
  obtain rd w3 where n2: "sys_new w2 = (rd, w3)" by fastforce
  have pre: "faults w1 = []" "txplan w1 = []" "fd_obj w1 (c_ctrl_fd ?c) = Some ?N" using fa tx f1 by (simp_all add: w1_def)
  from new_session_ok [OF pre n1 n2] obtain c3 w4 c4 w5 where
    S: "create_shm (?c\<lparr>c_buf_ready_efd := br, c_refresh_done_efd := rd\<rparr>) w3 = (0, c3, w4)" "0 \<le> br" "0 \<le> rd"
     "send_hello_fds c3 w4 = Some (0, c4, w5)" "session_at (next_obj w1) c4 w5"
     "txq w5 = (txq w1)(?N := txq w1 ?N @ [(hello_msg, [next_obj w1, next_obj w1 + 1, next_obj w1 + 4, next_obj w1 + 2])])"
     "faults w5 = []" "txplan w5 = []" "dialed w5 = dialed w1" "fd_obj w5 (c_ctrl_fd ?c) = Some ?N" "rxq w5 = rxq w1"
    by metis
  have "consumer_setup ?c w1 = Some (True, c4, w5)" using n1 n2 S(1-4) by (simp add: consumer_setup_def Let_def)
  then have e: "consumer_connect_to_deamon path w = Some (Some c4, w5)"
    using fa c w1_def by (simp add: consumer_connect_to_deamon_def sys_try_def Let_def)
  have "c_fallback c4 = c_fallback ?c" "c_ctrl_fd c4 = c_ctrl_fd ?c"
    using create_shm_frame [OF S(1)] send_hello_frame [OF S(4)] by simp_all
  moreover have "stored_count c4 = 0"
    using S(1,4) by (auto simp: create_shm_def send_hello_fds_def bind_Some_iff Let_def consumer_ctx_init_def
        split: prod.splits if_splits option.splits)
  ultimately show ?thesis using e S by (auto simp: w1_def consumer_ctx_init_def)
qed


lemma consumer_fallback_ok:
  assumes inv: "cinv X ctx w" and nf: "\<not> c_fallback ctx" and fa: "faults w = []" and tx: "txplan w = []"
    and cob: "fd_obj w (c_ctrl_fd ctx) = Some cob"
  shows "\<exists>ctx' w'. consumer_enter_fallback ctx w = Some (ctx', w') \<and> c_fallback ctx' \<and> \<not> buffer_pending ctx' \<and>
     session_at (next_obj w) ctx' w' \<and> fd_obj w' (c_ctrl_fd ctx') = Some cob \<and>
     txq w' = (txq w)(cob := txq w cob @ [(hello_msg, [next_obj w, next_obj w + 1, next_obj w + 4, next_obj w + 2])]) \<and>
     faults w' = [] \<and> txplan w' = []"
proof -
  let ?Y = "[c_data_fd ctx, c_buf_ready_efd ctx, c_refresh_done_efd ctx]"
  define w1 where "w1 = sys_close_all (open_fds [c_shm_fd ctx]) (unmap_if_mapped (c_shm_ptr ctx) (sys_close_all (open_fds ?Y) w))"
  have w1: "close_if_open (c_shm_fd ctx) (unmap_if_mapped (c_shm_ptr ctx)
      (close_if_open (c_refresh_done_efd ctx) (close_if_open (c_buf_ready_efd ctx) (close_if_open (c_data_fd ctx) w)))) = w1"
    by (simp add: w1_def close_open_Cons del: open_fds_simps(2))
  have fr: "faults w1 = []" "txplan w1 = []" "txq w1 = txq w" "next_obj w1 = next_obj w"
    using fa tx by (simp_all add: w1_def unmap_if_mapped_def sys_munmap_def report_def split: option.split)
  have "0 \<le> c_ctrl_fd ctx" using fd_obj_SomeD [OF cob] .
  then have "c_ctrl_fd ctx \<notin> set (open_fds (?Y @ [c_shm_fd ctx]))"
    using inv by (auto simp: cinv_def holds_def cowned_def)
  then have "c_ctrl_fd ctx \<notin> set (open_fds ?Y)" "c_ctrl_fd ctx \<notin> set (open_fds [c_shm_fd ctx])"
    by (auto simp del: open_fds_simps)
  then have c1: "fd_obj w1 (c_ctrl_fd ctx) = Some cob"
    using cob unfolding w1_def by (simp add: fd_obj_close_all del: open_fds_simps set_open_fds)
  obtain br w2 where n2: "sys_new w1 = (br, w2)" by fastforce
  obtain rd w3 where n3: "sys_new w2 = (rd, w3)" by fastforce
  let ?c0 = "ctx\<lparr>c_fallback := True, buffer_pending := False, c_data_fd := closed_fd (c_data_fd ctx), c_shm_ptr := None,
     c_shm_fd := closed_fd (c_shm_fd ctx)\<rparr>"
  have c1': "fd_obj w1 (c_ctrl_fd ?c0) = Some cob" using c1 by simp
  from new_session_ok [OF fr(1,2) c1' n2 n3] obtain c3 w4 c4 w5 where
    S: "create_shm (?c0\<lparr>c_buf_ready_efd := br, c_refresh_done_efd := rd\<rparr>) w3 = (0, c3, w4)"
     "send_hello_fds c3 w4 = Some (0, c4, w5)" "session_at (next_obj w1) c4 w5"
     "txq w5 = (txq w1)(cob := txq w1 cob @ [(hello_msg, [next_obj w1, next_obj w1 + 1, next_obj w1 + 4, next_obj w1 + 2])])"
     "faults w5 = []" "txplan w5 = []" "fd_obj w5 (c_ctrl_fd ?c0) = Some cob"
    by metis
  let ?c' = "c4\<lparr>c_fallback_calls := (if c_fallback_cb c4 then Suc (c_fallback_calls c4) else c_fallback_calls c4)\<rparr>"
  have cc: "?c0\<lparr>c_buf_ready_efd := br, c_refresh_done_efd := rd\<rparr> = ctx\<lparr>c_fallback := True, buffer_pending := False,
      c_data_fd := closed_fd (c_data_fd ctx), c_buf_ready_efd := br, c_refresh_done_efd := rd, c_shm_ptr := None,
      c_shm_fd := closed_fd (c_shm_fd ctx)\<rparr>" by simp
  have e: "consumer_enter_fallback ctx w = Some (?c', w5)"
    using nf S(1) [unfolded cc] S(2) by (simp add: consumer_enter_fallback_def w1 n2 n3)
  have "c_fallback c4 = c_fallback ?c0" "c_ctrl_fd c4 = c_ctrl_fd ?c0"
    using create_shm_frame [OF S(1)] send_hello_frame [OF S(2)] by simp_all
  moreover have "\<not> buffer_pending c4"
    using S(1,2) by (auto simp: create_shm_def send_hello_fds_def bind_Some_iff Let_def split: prod.splits if_splits option.splits)
  moreover have "session_at (next_obj w) ?c' w5" using S(3) fr(4) by (simp add: session_at_def)
  ultimately show ?thesis using e S fr by auto
qed

lemma push_dmabufs_internal_ok:
  assumes "0 < stored_count ctx" and "fd_obj w (c_data_fd ctx) = Some ob" and "txplan w = []"
    and "map (fd_obj w) (take (stored_count ctx) (stored_fds ctx)) = map Some obs" and "stored_infos ctx \<noteq> []"
  shows "\<exists>w'. push_dmabufs_internal ctx w = Some (0, ctx, w') \<and> keeps w w' \<and>
     txq w' = (txq w)(ob := txq w ob @ [(enc_hdr (mk_hdr DATA_MSG_BUFS_READY (of_nat (stored_count ctx * 20))), obs),
       (enc_bufs (take (stored_count ctx) (stored_infos ctx)), [])])"
proof -
  let ?m = "enc_hdr (mk_hdr DATA_MSG_BUFS_READY (of_nat (stored_count ctx * 20)))"
  let ?fs = "take (stored_count ctx) (stored_fds ctx)" and ?b = "enc_bufs (take (stored_count ctx) (stored_infos ctx))"
  have op: "\<forall>g \<in> set ?fs. fd_obj w g \<noteq> None"
    using assms(4) by (metis (no_types, lifting) in_set_conv_nth length_map nth_map option.distinct(1))
  have ob: "map (\<lambda>g. the (fd_obj w g)) ?fs = obs" using arg_cong [OF assms(4), of "map the"] by (simp add: o_def)
  let ?w1 = "push_tx ob (?m, obs) w"
  have s1: "send_fds (c_data_fd ctx) ?m ?fs w = Some (0, ?w1)" using send_fds_now [OF assms(2,3) op] ob by simp
  have "?b \<noteq> []" using assms(1,5) by (cases "stored_infos ctx"; cases "stored_count ctx") (auto simp: enc_bufs_def buf_codec.enc_ne_Nil)
  then have s2: "send_all (c_data_fd ctx) ?b ?w1 = Some (0, push_tx ob (?b, []) ?w1)"
    using assms(2,3) by (intro send_all_now) simp_all
  show ?thesis using assms(1) s1 s2 by (simp add: push_dmabufs_internal_def keeps_def)
qed

subsection \<open>Properties\<close>

text \<open>
  C35. Connecting creates a session of five new objects and deposits it: the daemon is sent one hello
  that carries the buffer-ready and refresh-done events, the far end of the data socket and the
  shared word, in this order; the context holds the near end and the mapped word, which is zero.
\<close>

theorem consumer_connects:
  assumes "faults w = []" and "txplan w = []"
  shows "\<exists>ctx w'. consumer_connect_to_deamon path w = Some (Some ctx, w') \<and> c_fallback ctx \<and>
     fd_obj w' (c_ctrl_fd ctx) = Some (next_obj w) \<and> session_at (next_obj w + 1) ctx w' \<and>
     dialed w' = dialed w @ [(next_obj w, take 107 path)] \<and>
     txq w' = (txq w)(next_obj w := txq w (next_obj w) @
       [(hello_msg, [next_obj w + 1, next_obj w + 2, next_obj w + 5, next_obj w + 3])])"
  using consumer_connect_ok [OF assms, of path] by blast

theorem consumer_connects_witness:
  "\<exists>ctx w'. consumer_connect_to_deamon ''sock'' os_init = Some (Some ctx, w') \<and> session_at 1 ctx w' \<and>
     txq w' 0 = [(hello_msg, [1, 2, 5, 3])]"
  using consumer_connects [of os_init "''sock''"] by (auto simp: os_init_def numeral_eq_Suc)

text \<open>Any sequence of calls of the library on a connected context, with anything happening outside.\<close>

inductive consumer_reach :: "consumer_ctx \<Rightarrow> os \<Rightarrow> consumer_ctx \<Rightarrow> os \<Rightarrow> bool" for c0 w0 where
  start: "consumer_reach c0 w0 c0 w0"
| screen: "consumer_reach c0 w0 c w \<Longrightarrow> set_screen_info c si w = Some (x, c', w') \<Longrightarrow> consumer_reach c0 w0 c' w'"
| bufs: "consumer_reach c0 w0 c w \<Longrightarrow> push_dmabufs c fds infos n w = Some (x, c', w') \<Longrightarrow>
    nat n \<le> length fds \<Longrightarrow> nat n \<le> length infos \<Longrightarrow> consumer_reach c0 w0 c' w'"
| select: "consumer_reach c0 w0 c w \<Longrightarrow> select_dmabuf c i w = Some (x, c', w') \<Longrightarrow> consumer_reach c0 w0 c' w'"
| refreshed: "consumer_reach c0 w0 c w \<Longrightarrow> refresh_done c w = Some (x, c', w') \<Longrightarrow> consumer_reach c0 w0 c' w'"
| input: "consumer_reach c0 w0 c w \<Longrightarrow> push_input_event c e w = Some (x, c', w') \<Longrightarrow> consumer_reach c0 w0 c' w'"
| window: "consumer_reach c0 w0 c w \<Longrightarrow> poll_window_event c w = Some (x, ev, c', w') \<Longrightarrow> consumer_reach c0 w0 c' w'"
| command: "consumer_reach c0 w0 c w \<Longrightarrow> push_window_command c cmd w = Some (x, c', w') \<Longrightarrow> consumer_reach c0 w0 c' w'"
| wake: "consumer_reach c0 w0 c w \<Longrightarrow> consumer_reach c0 w0 c (wake_display_consumer (Some c) w)"
| callback: "consumer_reach c0 w0 c w \<Longrightarrow> consumer_reach c0 w0 (consumer_set_fallback_callback c b) w"
| outside: "consumer_reach c0 w0 c w \<Longrightarrow> keeps w w' \<Longrightarrow> consumer_reach c0 w0 c w'"

lemma consumer_reach_step:
  assumes "consumer_reach c0 w0 c w" and "cinv X c0 w0"
  shows "cstep X c0 w0 c w"
  using assms
proof (induction rule: consumer_reach.induct)
  case (callback c w b)
  then show ?case by (simp add: consumer_set_fallback_callback_def)
next
  case (wake c w)
  then show ?case using cstep_keeps_trans wake_keeps by blast
qed (auto simp: push_input_event_def push_window_command_def intro: cstep_refl cstep_trans cstep_keeps_trans cstep_cinv
    set_screen_info_step push_dmabufs_step select_dmabuf_step refresh_done_step push_message_step poll_window_event_step)

text \<open>
  C5. From connecting to disconnecting, through any sequence of calls, any number of fallbacks and
  whatever daemon and producer send, the consumer library loses no descriptor and closes none
  twice: what it opened is closed when it is disconnected, and the descriptors open then are
  exactly those open before it connected.  The only possible report is the store through a null
  pointer when a session could not be created and the daemon confirms it nevertheless.
\<close>

theorem consumer_lifetime_safe:
  assumes "holds X w" and "consumer_connect_to_deamon path w = Some (Some c0, w0)" and "consumer_reach c0 w0 c w1"
  shows "cinv X c w1 \<and> dom (fd_obj (consumer_disconnect (Some c) w1)) = dom (fd_obj w) \<and>
     (\<exists>rs. reports (consumer_disconnect (Some c) w1) = reports w @ rs \<and> set rs \<subseteq> {Null_deref})"
proof -
  have C: "cinv X c0 w0" "ostep X w (cowned c0 @ X) w0" using consumer_connect_step [OF assms(1,2)] by simp_all
  note R = consumer_reach_step [OF assms(3) C(1)]
  let ?w = "consumer_disconnect (Some c) w1"
  have D: "ostep (cowned c @ X) w1 X ?w"
    using consumer_release_step(1) [OF cstep_cinv [OF R]] by (simp add: consumer_disconnect_def)
  have "lost X ?w = lost X w" using C(2) R D by (simp add: ostep_def cstep_def)
  moreover have "set X \<subseteq> dom (fd_obj w)" "set X \<subseteq> dom (fd_obj ?w)" using assms(1) ostep_holds [OF D] by (auto simp: holds_def)
  ultimately have "dom (fd_obj ?w) = dom (fd_obj w)" unfolding lost_def by blast
  moreover have "\<exists>rs. reports ?w = reports w @ rs \<and> set rs \<subseteq> {Null_deref}" using C(2) R D by (auto simp: ostep_def cstep_def)
  ultimately show ?thesis using cstep_cinv [OF R] by simp
qed

theorem consumer_lifetime_safe_witness:
  "\<exists>c0 w0. consumer_connect_to_deamon ''sock'' os_init = Some (Some c0, w0) \<and> dom (fd_obj w0) \<noteq> {} \<and>
     dom (fd_obj (consumer_disconnect (Some c0) w0)) = dom (fd_obj os_init)"
proof -
  obtain c0 w0 where c: "consumer_connect_to_deamon ''sock'' os_init = Some (Some c0, w0)" "fd_obj w0 (c_ctrl_fd c0) \<noteq> None"
    using consumer_connect_ok [of os_init "''sock''"] by (auto simp: os_init_def)
  have h: "holds [] os_init" by (simp add: holds_def)
  from consumer_lifetime_safe [OF h c(1) consumer_reach.start] c show ?thesis by blast
qed

text \<open>
  Fallback replaces the session: five new objects, deposited with the daemon in one new hello on
  the same control socket; a buffer that was pending is no longer waited for.
\<close>

theorem consumer_fallback_renews_session:
  assumes "cinv X ctx w" and "\<not> c_fallback ctx" and "faults w = []" and "txplan w = []" and "fd_obj w (c_ctrl_fd ctx) = Some cob"
  shows "\<exists>ctx' w'. consumer_enter_fallback ctx w = Some (ctx', w') \<and> c_fallback ctx' \<and> \<not> buffer_pending ctx' \<and>
     session_at (next_obj w) ctx' w' \<and> c_ctrl_fd ctx' = c_ctrl_fd ctx \<and> fd_obj w' (c_ctrl_fd ctx') = Some cob \<and>
     txq w' = (txq w)(cob := txq w cob @ [(hello_msg, [next_obj w, next_obj w + 1, next_obj w + 4, next_obj w + 2])]) \<and>
     lost (cowned ctx' @ X) w' = lost (cowned ctx @ X) w \<and> reports w' = reports w"
proof -
  obtain ctx' w' where e: "consumer_enter_fallback ctx w = Some (ctx', w')" "c_fallback ctx'" "\<not> buffer_pending ctx'"
     "session_at (next_obj w) ctx' w'" "fd_obj w' (c_ctrl_fd ctx') = Some cob"
     "txq w' = (txq w)(cob := txq w cob @ [(hello_msg, [next_obj w, next_obj w + 1, next_obj w + 4, next_obj w + 2])])"
    using consumer_fallback_ok [OF assms] by blast
  from consumer_enter_fallback_step(2,4) [OF assms(1) e(1)] e show ?thesis by (simp add: ostep_def)
qed

theorem consumer_fallback_renews_session_witness:
  "\<exists>ctx w ctx' w'. session_at 1 ctx w \<and> consumer_enter_fallback ctx w = Some (ctx', w') \<and> session_at (next_obj w) ctx' w'"
proof -
  obtain c0 w0 where c: "consumer_connect_to_deamon ''sock'' os_init = Some (Some c0, w0)" "fd_obj w0 (c_ctrl_fd c0) = Some 0"
      "session_at 1 c0 w0" "faults w0 = []" "txplan w0 = []"
    using consumer_connect_ok [of os_init "''sock''"] by (auto simp: os_init_def)
  have "holds [] os_init" by (simp add: holds_def)
  then have i: "cinv [] (c0\<lparr>c_fallback := False\<rparr>) w0" using consumer_connect_step [OF _ c(1)] by simp
  have "session_at 1 (c0\<lparr>c_fallback := False\<rparr>) w0" using c(3) by (simp add: session_at_def)
  with consumer_fallback_renews_session [OF i, of 0] c show ?thesis by fastforce
qed


text \<open>
  Selecting a buffer: only an index of a stored buffer is accepted; it is written to the shared
  word, then the producer is signalled once, and the buffer counts as pending.  In fallback without
  a confirmation from the daemon nothing happens.
\<close>

theorem select_writes_index:
  assumes "\<not> c_fallback ctx" and "c_shm_ptr ctx = Some sob" and "fd_obj w (c_buf_ready_efd ctx) = Some bob"
  shows "select_dmabuf ctx idx w =
     (if 0 \<le> idx \<and> idx < int (stored_count ctx)
      then Some (0, ctx\<lparr>buffer_pending := True\<rparr>, w\<lparr>mem := (mem w)(sob := of_int idx), evlog := evlog w @ [(bob, 1)]\<rparr>)
      else Some (-1, ctx, w))"
  using assms by (simp add: select_dmabuf_def sys_store_def sys_eventfd_write_def Let_def)

definition demo_cctx :: consumer_ctx where
  "demo_cctx = consumer_ctx_init\<lparr>c_ctrl_fd := 0, c_buf_ready_efd := 1, c_refresh_done_efd := 2, c_data_fd := 3, c_shm_fd := 4,
     c_shm_ptr := Some 14, c_fallback := False, stored_count := 2, stored_fds := [5, 6, 0, 0, 0, 0, 0, 0]\<rparr>"

definition demo_cworld :: "pollres list \<Rightarrow> os" where
  "demo_cworld ps = os_init\<lparr>fdtab := map Some [10, 11, 12, 13, 14, 15, 16], maps := [14], polls := ps\<rparr>"

lemma demo_cctx_sel [simp]:
  "c_ctrl_fd demo_cctx = 0" "c_buf_ready_efd demo_cctx = 1" "c_refresh_done_efd demo_cctx = 2" "c_data_fd demo_cctx = 3"
  "c_shm_fd demo_cctx = 4" "c_shm_ptr demo_cctx = Some 14" "\<not> c_fallback demo_cctx" "stored_count demo_cctx = 2"
  by (simp_all add: demo_cctx_def consumer_ctx_init_def)

lemma demo_cworld_sel [simp]:
  "fd_obj (demo_cworld ps) 0 = Some 10" "fd_obj (demo_cworld ps) 1 = Some 11" "fd_obj (demo_cworld ps) 2 = Some 12"
  "fd_obj (demo_cworld ps) 3 = Some 13" "fd_obj (demo_cworld ps) 4 = Some 14" "fd_obj (demo_cworld ps) 5 = Some 15"
  "fd_obj (demo_cworld ps) 6 = Some 16" "maps (demo_cworld ps) = [14]" "polls (demo_cworld ps) = ps" "txplan (demo_cworld ps) = []"
  "faults (demo_cworld ps) = []" "reports (demo_cworld ps) = []" "evlog (demo_cworld ps) = []" "next_obj (demo_cworld ps) = 0"
  by (simp_all add: demo_cworld_def os_init_def fd_obj_def)

theorem select_writes_index_witness:
  "\<exists>w'. select_dmabuf demo_cctx 1 (demo_cworld []) = Some (0, demo_cctx\<lparr>buffer_pending := True\<rparr>, w') \<and> mem w' 14 = 1 \<and> evlog w' = [(11, 1)]"
  using select_writes_index [of demo_cctx 14 "demo_cworld []" 11 1] by simp

definition idle_poll :: "pollres \<Rightarrow> bool" where
  "idle_poll p = (p = Poll_intr \<or> p = Poll_timeout)"

lemma refresh_poll_idle:
  assumes "list_all idle_poll ps" and "polls w = ps @ qs"
  shows "refresh_poll ctx w = refresh_poll ctx (w\<lparr>polls := qs\<rparr>)"
  using assms
proof (induction ps arbitrary: w)
  case Nil
  then have "w\<lparr>polls := qs\<rparr> = w" by (cases w) simp
  then show ?case by simp
next
  case (Cons p ps)
  have "refresh_poll ctx w = refresh_poll ctx (w\<lparr>polls := ps @ qs\<rparr>)"
    using Cons.prems by (subst refresh_poll.simps) (auto simp: sys_poll_def idle_poll_def)
  also have "\<dots> = refresh_poll ctx (w\<lparr>polls := qs\<rparr>)" using Cons.IH [of "w\<lparr>polls := ps @ qs\<rparr>"] Cons.prems(1) by simp
  finally show ?case .
qed



text \<open>
  Leaving fallback: when the daemon has confirmed the delivery, the consumer leaves fallback and
  announces its stored buffers on the new data socket, the descriptors with the header and the
  descriptions behind it, before the next selection.
\<close>

theorem exit_fallback_announces_buffers:
  assumes "c_fallback ctx" and "fd_obj w (c_ctrl_fd ctx) = Some cob" and "polls w = Poll_ready [r] # ps" and "POLLIN r"
    and "rxq w cob = Chunk (enc_hdr (mk_hdr CTRL_MSG_FDS_READY 0)) [] # q" and "txplan w = []"
    and "0 < stored_count ctx" and "fd_obj w (c_data_fd ctx) = Some ob" and "stored_infos ctx \<noteq> []"
    and "map (fd_obj w) (take (stored_count ctx) (stored_fds ctx)) = map Some obs"
  shows "\<exists>w'. try_exit_fallback ctx w = Some (True, ctx\<lparr>c_fallback := False\<rparr>, w') \<and>
     txq w' = (txq w)(ob := txq w ob @ [(enc_hdr (mk_hdr DATA_MSG_BUFS_READY (of_nat (stored_count ctx * 20))), obs),
       (enc_bufs (take (stored_count ctx) (stored_infos ctx)), [])])"
proof -
  have pos: "\<not> c_ctrl_fd ctx < 0" using fd_obj_SomeD [OF assms(2)] by simp
  let ?w1 = "w\<lparr>polls := ps\<rparr>"
  have sp: "sys_poll [c_ctrl_fd ctx] w = Some (Poll_ready [r\<lparr>POLLNVAL := False\<rparr>], ?w1)"
    using assms(2,3) pos by (simp add: sys_poll_def poll_entry_def)
  let ?w2 = "set_rx cob q ?w1"
  have ra: "recv_all (c_ctrl_fd ctx) 8 ?w1 = Some (0, enc_hdr (mk_hdr CTRL_MSG_FDS_READY 0), ?w2)"
    using assms(2,5) by (intro recv_all_chunk) simp_all
  let ?c = "ctx\<lparr>c_fallback := False\<rparr>"
  obtain w' where "push_dmabufs_internal ?c ?w2 = Some (0, ?c, w')"
     "txq w' = (txq ?w2)(ob := txq ?w2 ob @ [(enc_hdr (mk_hdr DATA_MSG_BUFS_READY (of_nat (stored_count ?c * 20))), obs),
       (enc_bufs (take (stored_count ?c) (stored_infos ?c)), [])])"
    using push_dmabufs_internal_ok [of ?c ?w2 ob obs] assms by auto
  with sp ra assms(4) show ?thesis by (simp add: try_exit_fallback_def)
qed

theorem exit_fallback_announces_buffers_witness:
  "\<exists>w'. try_exit_fallback (demo_cctx\<lparr>c_fallback := True\<rparr>)
       ((demo_cworld [Poll_ready [pollin_event]])\<lparr>rxq := (\<lambda>_. [Chunk (enc_hdr (mk_hdr CTRL_MSG_FDS_READY 0)) []])\<rparr>) =
     Some (True, demo_cctx, w') \<and> map snd (txq w' 13) = [[15, 16], []]"
proof -
  let ?w = "(demo_cworld [Poll_ready [pollin_event]])\<lparr>rxq := (\<lambda>_. [Chunk (enc_hdr (mk_hdr CTRL_MSG_FDS_READY 0)) []])\<rparr>"
  have c: "demo_cctx\<lparr>c_fallback := True, c_fallback := False\<rparr> = demo_cctx" by (simp add: demo_cctx_def)
  have "txq ?w 13 = []" by (simp add: demo_cworld_def os_init_def)
  moreover have "stored_infos demo_cctx \<noteq> []" "take 2 (stored_fds demo_cctx) = [5, 6]"
    by (simp_all add: demo_cctx_def consumer_ctx_init_def)
  ultimately show ?thesis
    using exit_fallback_announces_buffers [of "demo_cctx\<lparr>c_fallback := True\<rparr>" ?w 10 pollin_event "[]" "[]" 13 "[15, 16]"] c
    by (auto simp: pollin_event_def no_events_def)
qed

end
