(* ===== verification/Weston_Env.thy ===== *)
theory Weston_Env
  imports Producer
begin

section \<open>What the compositor backend calls: event loop, compositor core and renderer\<close>

text \<open>
  The backend runs inside the compositor.  What it sees of its surroundings is the record \<open>wes\<close>:
  \<^item> the kernel (\<open>sys\<close>) of the producer library;
  \<^item> the event loop of libwayland: the registered \<open>sources\<close>, by address.  Removing a source that is
    not registered is a report, a \<open>wl_event_loop_add_*\<close> call fails when the kernel's fault plan says
    so;
  \<^item> the compositor's \<open>output_list\<close> and \<open>pending_output_list\<close> and the parts of the seat that are read;
  \<^item> the renderer's buffers, by number: \<open>live_rbs\<close> are those created and not destroyed;
  \<^item> the log \<open>wlog\<close> of the calls into libweston that only have an effect there.
  Regions are those of pixman, which is not part of the repository: the operations used are a
  parameter \<open>region_ops\<close> of the definitions.  A \<open>float\<close> is its bit pattern.
\<close>

record 'r region_ops =
  r_empty :: 'r
  r_union :: "'r \<Rightarrow> 'r \<Rightarrow> 'r"

datatype handler = Input_fd | Buf_ready | Reconnect | Finish_frame_cb

datatype source = Fd_src fd handler | Timer_src handler nat  \<comment> \<open>milliseconds, 0 when disarmed\<close>

type_synonym src_id = nat

datatype touch_type = WL_TOUCH_DOWN | WL_TOUCH_UP | WL_TOUCH_MOTION

datatype renderer_type = RENDERER_GL | RENDERER_VULKAN | RENDERER_OTHER

datatype drm_format = DRM_FORMAT_XRGB8888 | DRM_FORMAT_ARGB8888 | DRM_FORMAT_ABGR8888 | DRM_FORMAT_XBGR8888

record dmabuf_attributes =
  da_width :: int
  da_height :: int
  da_format :: drm_format
  da_planes :: nat
  da_fd :: fd
  da_offset :: u32
  da_stride :: u32
  da_modifier :: u64

datatype 'r wcall =
  Notify_motion u32 "u32 \<times> u32" "(u32 \<times> u32) option" "(u32 \<times> u32) option"
| Notify_pointer_frame
| Notify_button u32 bool
| Notify_axis u32 u32 bool int
| Notify_key int bool
| Notify_touch touch_type int "u32 \<times> u32"
| Notify_touch_frame
| Notify_touch_cancel
| Touch_focus_none
| Clear_pointer_focus
| Window_command_call nat u32 u32
| Schedule_repaint nat
| Finish_frame bool  \<comment> \<open>with \<open>WP_PRESENTATION_FEEDBACK_INVALID\<close>\<close>
| Finish_frame_from_timer
| Arm_frame_timer
| Add_idle_finish
| Create_renderbuffer dmabuf_attributes
| Destroy_renderbuffer nat
| Repaint_output 'r nat
| Renderer_output_create renderer_type int int
| Renderer_output_destroy renderer_type
| Head_configure int int
| Output_release
| Touch_device_destroy
| Seat_init
| Seat_release
| Init_renderer
| Register_api string

text \<open>
  \<open>struct anland_output\<close> with the fields of \<open>base\<close> that the backend uses; \<open>is_anland\<close> is
  \<open>base->destroy == anland_output_destroy\<close>, so outputs of other backends have the same type.
\<close>

record 'r anland_output =
  o_name :: string
  is_anland :: bool
  o_enabled :: bool
  o_mode :: "(int \<times> int \<times> int) option"  \<comment> \<open>\<open>current_mode\<close>: width, height, refresh\<close>
  o_scale :: int
  o_heads :: nat
  o_region :: 'r
  finish_frame_timer :: "src_id option"
  o_buf_count :: nat
  renderbuffers :: "nat option list"  \<comment> \<open>\<open>MAX_BUFS\<close> entries\<close>
  dmabuf_attrs_arr :: "dmabuf_attributes option list"  \<comment> \<open>\<open>MAX_BUFS\<close> entries\<close>
  accum_damage :: "'r list"  \<comment> \<open>\<open>MAX_BUFS\<close> entries\<close>

record 'r wes =
  sys :: os
  sources :: "src_id \<Rightarrow> source option"
  next_source :: src_id
  outputs :: "'r anland_output list"
  pending :: "'r anland_output list"
  heads :: "bool list"  \<comment> \<open>\<open>head_list\<close>; whether a head belongs to this backend\<close>
  touch_state :: bool
  num_tp :: nat
  pointer_state :: bool
  renderer :: renderer_type
  live_rbs :: "nat list"
  next_rb :: nat
  wlog :: "'r wcall list"

definition emit_calls :: "'r wcall list \<Rightarrow> 'r wes \<Rightarrow> 'r wes" where
  "emit_calls cs s = s\<lparr>wlog := wlog s @ cs\<rparr>"

text \<open>A fallible call: the kernel's fault plan decides.\<close>

definition wtry :: "'r wes \<Rightarrow> bool \<times> 'r wes" where
  "wtry s = (let (ok, w) = sys_try (sys s) in (ok, s\<lparr>sys := w\<rparr>))"

definition wreport :: "report \<Rightarrow> 'r wes \<Rightarrow> 'r wes" where
  "wreport r s = s\<lparr>sys := report r (sys s)\<rparr>"

definition add_source :: "source \<Rightarrow> 'r wes \<Rightarrow> src_id option \<times> 'r wes" where
  "add_source src s =
     (let (ok, s) = wtry s in
      if ok then (Some (next_source s), s\<lparr>sources := (sources s)(next_source s \<mapsto> src), next_source := Suc (next_source s)\<rparr>)
      else (None, s))"

definition remove_source :: "src_id \<Rightarrow> 'r wes \<Rightarrow> 'r wes" where
  "remove_source i s =
     (if sources s i = None then wreport Use_after_free s else s\<lparr>sources := (sources s)(i := None)\<rparr>)"

definition remove_source_opt :: "src_id option \<Rightarrow> 'r wes \<Rightarrow> 'r wes" where
  "remove_source_opt i s = (case i of None \<Rightarrow> s | Some i \<Rightarrow> remove_source i s)"

definition timer_update :: "src_id \<Rightarrow> nat \<Rightarrow> 'r wes \<Rightarrow> 'r wes" where
  "timer_update i ms s =
     (case sources s i of
        Some (Timer_src h _) \<Rightarrow> s\<lparr>sources := (sources s)(i \<mapsto> Timer_src h ms)\<rparr>
      | _ \<Rightarrow> wreport Use_after_free s)"

definition timer_update_opt :: "src_id option \<Rightarrow> nat \<Rightarrow> 'r wes \<Rightarrow> 'r wes" where
  "timer_update_opt i ms s = (case i of None \<Rightarrow> s | Some i \<Rightarrow> timer_update i ms s)"

text \<open>\<open>weston_compositor_find_output_by_name\<close>: the enabled outputs first, then the pending ones.\<close>

definition weston_compositor_find_output_by_name :: "string \<Rightarrow> 'r wes \<Rightarrow> 'r anland_output option" where
  "weston_compositor_find_output_by_name name s = List.find (\<lambda>out. o_name out = name) (outputs s @ pending s)"

text \<open>The first output of the list that belongs to this backend, by its position.\<close>

fun first_anland :: "'r anland_output list \<Rightarrow> nat option" where
  "first_anland [] = None"
| "first_anland (out # outs) = (if is_anland out then Some 0 else map_option Suc (first_anland outs))"

definition set_output :: "nat \<Rightarrow> 'r anland_output \<Rightarrow> 'r wes \<Rightarrow> 'r wes" where
  "set_output i out s = s\<lparr>outputs := (outputs s)[i := out]\<rparr>"

subsection \<open>Their laws\<close>

lemma first_anland_SomeD: "first_anland outs = Some i \<Longrightarrow> i < length outs \<and> is_anland (outs ! i) \<and> (\<forall>j < i. \<not> is_anland (outs ! j))"
proof (induction outs arbitrary: i)
  case (Cons out outs)
  then show ?case by (cases i) (auto split: if_splits simp: less_Suc_eq_0_disj)
qed simp

lemma first_anland_NoneD: "first_anland outs = None \<Longrightarrow> \<forall>out \<in> set outs. \<not> is_anland out"
  by (induction outs) (auto split: if_splits)

lemma first_anland_update:
  "first_anland outs = Some i \<Longrightarrow> is_anland out \<Longrightarrow> first_anland (outs[i := out]) = Some i"
  by (induction outs arbitrary: i) (auto split: if_splits nat.splits)

lemma emit_calls_sel [simp]:
  "sys (emit_calls cs s) = sys s" "sources (emit_calls cs s) = sources s" "next_source (emit_calls cs s) = next_source s"
  "outputs (emit_calls cs s) = outputs s" "pending (emit_calls cs s) = pending s" "live_rbs (emit_calls cs s) = live_rbs s"
  "next_rb (emit_calls cs s) = next_rb s" "wlog (emit_calls cs s) = wlog s @ cs" "touch_state (emit_calls cs s) = touch_state s"
  "heads (emit_calls cs s) = heads s" "num_tp (emit_calls cs s) = num_tp s" "pointer_state (emit_calls cs s) = pointer_state s" "renderer (emit_calls cs s) = renderer s"
  by (simp_all add: emit_calls_def)

lemma emit_calls_append [simp]: "emit_calls ds (emit_calls cs s) = emit_calls (cs @ ds) s"
  by (simp add: emit_calls_def)

lemma emit_calls_Nil [simp]: "emit_calls [] s = s"
  by (simp add: emit_calls_def)

lemma wtry_eq: "wtry s = (case faults (sys s) of [] \<Rightarrow> (True, s) | ok # fs \<Rightarrow> (ok, s\<lparr>sys := (sys s)\<lparr>faults := fs\<rparr>\<rparr>))"
  by (simp add: wtry_def sys_try_def split: list.split)

lemma wtryD:
  assumes "wtry s = (ok, s')"
  shows "\<exists>fs. s' = s\<lparr>sys := (sys s)\<lparr>faults := fs\<rparr>\<rparr>" "keeps (sys s) (sys s')"
proof -
  show "\<exists>fs. s' = s\<lparr>sys := (sys s)\<lparr>faults := fs\<rparr>\<rparr>"
  proof (cases "faults (sys s)")
    case Nil
    then have "s\<lparr>sys := (sys s)\<lparr>faults := []\<rparr>\<rparr> = s" by simp
    then show ?thesis using assms Nil by (metis Pair_inject list.case(1) wtry_eq)
  qed (use assms in \<open>auto simp: wtry_eq\<close>)
  then show "keeps (sys s) (sys s')" by (auto simp: keeps_def)
qed

lemma add_sourceD:
  assumes "add_source src s = (i, s')"
  obtains fs where "s' = s\<lparr>sys := (sys s)\<lparr>faults := fs\<rparr>\<rparr>" "i = None"
  | fs where "s' = s\<lparr>sys := (sys s)\<lparr>faults := fs\<rparr>, sources := (sources s)(next_source s \<mapsto> src), next_source := Suc (next_source s)\<rparr>"
      "i = Some (next_source s)"
proof -
  obtain ok s1 where t: "wtry s = (ok, s1)" by fastforce
  then obtain fs where "s1 = s\<lparr>sys := (sys s)\<lparr>faults := fs\<rparr>\<rparr>" using wtryD(1) by blast
  then show thesis using assms t that by (cases ok) (auto simp: add_source_def)
qed

lemma filter_first_anland:
  assumes "length (filter is_anland outs) \<le> 1" and "first_anland outs = Some i" and "j < length outs" and "is_anland (outs ! j)"
  shows "j = i"
  using assms
proof (induction outs arbitrary: i j)
  case (Cons out outs)
  show ?case
  proof (cases "is_anland out")
    case True
    then have "filter is_anland outs = []" "i = 0" using Cons.prems by auto
    then show ?thesis using Cons.prems(3,4) by (cases j) (auto simp: filter_empty_conv)
  next
    case False
    then obtain i' j' where "i = Suc i'" "j = Suc j'" "first_anland outs = Some i'" using Cons.prems by (cases j) auto
    then show ?thesis using Cons.IH [of i' j'] Cons.prems False by simp
  qed
qed simp

end
