(* ===== verification/Anland.thy ===== *)
theory Anland
  imports Weston_Env
begin

section \<open>The compositor backend (\<open>weston/libweston/backend-anland/anland.c\<close>)\<close>

text \<open>
  The backend is the display producer: it connects to the daemon, imports the consumer's buffers,
  paints the selected one and signals it, and turns the consumer's input events into those of the
  compositor's seat.  \<open>struct anland_backend\<close> is the record \<open>anland_backend\<close>; a handler takes the
  backend and the world and returns both, \<open>None\<close> when a call of the producer library never returns.
  The library calls \<open>anland_fallback_cb\<close> as the last thing it does to a context that falls back;
  \<open>returned\<close> runs it when the library's counter of callbacks has moved.
\<close>

subsection \<open>What the library's calls do to the callback\<close>

text \<open>
  A call on a context keeps the session's descriptors or falls back; it counts one callback exactly
  when it falls back and a callback is registered.  A context in fallback stays there.
\<close>

definition cbstep :: "producer_ctx \<Rightarrow> producer_ctx \<Rightarrow> bool" where
  "cbstep c c' \<longleftrightarrow> fallback_cb c' = fallback_cb c \<and> (fallback c \<longrightarrow> fallback c') \<and>
     fallback_calls c' = fallback_calls c + (if fallback c' \<and> \<not> fallback c \<and> fallback_cb c then 1 else 0) \<and>
     (\<not> fallback c' \<longrightarrow> data_fd c' = data_fd c \<and> buf_ready_efd c' = buf_ready_efd c \<and>
        (0 < buf_count c \<longrightarrow> buf_count c' = buf_count c))"

lemma cbstep_refl [simp]: "cbstep c c"
  by (simp add: cbstep_def)

lemma cbstep_trans: "cbstep c c' \<Longrightarrow> cbstep c' c'' \<Longrightarrow> cbstep c c''"
  by (auto simp: cbstep_def)

lemma cbstep_async [simp]:
  "cbstep (c\<lparr>async_pending := x\<rparr>) c' = cbstep c c'" "cbstep c (c'\<lparr>async_pending := x\<rparr>) = cbstep c c'"
  by (simp_all add: cbstep_def)

lemma cbstep_fallback: "producer_enter_fallback c w = (c', w') \<Longrightarrow> cbstep c c'"
  by (auto simp: producer_enter_fallback_def cbstep_def Let_def split: if_splits)

text \<open>Reading from the data socket either leaves the context alone or falls back and fails.\<close>

definition cb_call :: "producer_ctx \<Rightarrow> producer_ctx \<Rightarrow> int \<Rightarrow> bool" where
  "cb_call c c' r \<longleftrightarrow> c' = c \<or> r < 0 \<and> (\<exists>w w'. producer_enter_fallback c w = (c', w'))"

lemma cb_call_fallback: "producer_enter_fallback c w = (c', w') \<Longrightarrow> cb_call c c' (-1)"
  by (auto simp: cb_call_def)

lemma cb_callD:
  assumes "cb_call c c' r"
  shows "cbstep c c'" "\<not> fallback c' \<Longrightarrow> c' = c" "0 \<le> r \<Longrightarrow> c' = c"
proof -
  show "cbstep c c'" using assms cbstep_fallback by (auto simp: cb_call_def)
  show "\<not> fallback c' \<Longrightarrow> c' = c"
    using assms by (auto simp: cb_call_def producer_enter_fallback_def Let_def split: if_splits)
  show "0 \<le> r \<Longrightarrow> c' = c" using assms by (auto simp: cb_call_def)
qed

lemma skip_message_cb:
  assumes "skip_message c hdr w = Some (r, ev, c', w')"
  shows "cb_call c c' r \<and> r \<le> 0"
proof (cases "unat (msg_size hdr) > 4096")
  case True
  then show ?thesis using assms cb_call_fallback [of c w] by (cases "producer_enter_fallback c w") (auto simp: skip_message_def)
next
  case False
  from assms False obtain x bs w1 where "recv_all (data_fd c) 8 w = Some (x, bs, w1)"
    by (auto simp: skip_message_def bind_Some_iff)
  then show ?thesis using assms False
    by (auto simp: skip_message_def bind_Some_iff cb_call_def split: if_splits dest: discard_payload_keeps)
qed

lemma recv_struct_cb:
  assumes "recv_struct c ok n dec w = Some (r, ev, c', w')"
  shows "cb_call c c' r \<and> (0 < r \<longrightarrow> polls w' = polls w \<and> (\<exists>msg. (r, ev) = dec msg))"
proof (cases ok)
  case False
  then show ?thesis using assms cb_call_fallback [of c w] by (cases "producer_enter_fallback c w") (auto simp: recv_struct_def)
next
  case True
  with assms show ?thesis
    by (auto simp: recv_struct_def bind_Some_iff cb_call_def split: if_splits dest: recv_all_polls)
qed

definition event_code :: "int \<Rightarrow> display_event \<Rightarrow> bool" where
  "event_code r ev = (case ev of Input e \<Rightarrow> r = 102 | Command e \<Rightarrow> r = 301 | No_event \<Rightarrow> r \<le> 0)"

lemma read_display_event_cb:
  assumes "read_display_event c hdr w = Some (r, ev, c', w')"
  shows "cb_call c c' r \<and> (0 < r \<longrightarrow> polls w' = polls w \<and> event_code r ev)"
  using assms
  by (auto simp: read_display_event_def event_code_def split: if_splits dest!: recv_struct_cb dest: skip_message_cb)

lemma poll_display_event_cb:
  assumes r: "poll_display_event c w = Some (r, ev, c', w')"
  shows "cb_call c c' r \<and> (0 < r \<longrightarrow> length (polls w') < length (polls w) \<and> event_code r ev)"
proof (cases "fallback c")
  case True
  with r show ?thesis by (simp add: poll_display_event_def cb_call_def)
next
  case nf: False
  with r obtain p w1 where sp: "sys_poll [data_fd c] w = Some (p, w1)"
    by (auto simp: poll_display_event_def bind_Some_iff)
  have less: "length (polls w1) < length (polls w)" using sp by (rule sys_poll_shorter)
  show ?thesis
  proof (cases "\<exists>rs. p = Poll_ready rs")
    case False
    then show ?thesis using r nf sp by (cases p; simp add: poll_display_event_def cb_call_def)
  next
    case True
    then obtain rs where p: "p = Poll_ready rs" by blast
    show ?thesis
    proof (cases "POLLHUP (rs ! 0) \<or> POLLERR (rs ! 0)")
      case True
      then have "producer_enter_fallback c w1 = (c', w') \<and> r = -1"
        using r nf sp p by (auto simp: poll_display_event_def split: prod.splits)
      then show ?thesis using cb_call_fallback by force
    next
      case False
      with r nf sp p obtain n bs w2 where pk: "sys_peek (data_fd c) 28 w1 = Some (n, bs, w2)"
        by (auto simp: poll_display_event_def bind_Some_iff)
      have "polls w2 = polls w1" using pk by (rule sys_peek_polls)
      moreover have "(r = 0 \<and> c' = c) \<or> read_display_event c (dec_hdr bs) w2 = Some (r, ev, c', w')"
        using r nf sp p False pk by (auto simp: poll_display_event_def split: if_splits)
      ultimately show ?thesis using read_display_event_cb [of c "dec_hdr bs" w2 r ev c' w'] less by (auto simp: cb_call_def)
    qed
  qed
qed

subsection \<open>State\<close>

record anland_backend =
  display :: "producer_ctx option"
  socket_path :: string
  b_refresh :: int
  b_screen_w :: int
  b_screen_h :: int
  input_fd_source :: "src_id option"
  reconnect_timer :: "src_id option"
  buf_ready_source :: "src_id option"
  touch_device :: bool
  consumer_ready :: bool
  dmabuf_received :: bool
  in_fallback :: bool
  window_command_handler :: "nat option"

datatype backend = Anland_backend anland_backend | Other_backend

definition DEFAULT_SOCKET_PATH :: string where
  "DEFAULT_SOCKET_PATH = ''/data/local/tmp/display_daemon.sock''"

abbreviation (input) DEFAULT_REFRESH :: int where "DEFAULT_REFRESH \<equiv> 120000"

definition anland_formats :: "drm_format list" where
  "anland_formats = [DRM_FORMAT_XRGB8888, DRM_FORMAT_ARGB8888, DRM_FORMAT_ABGR8888, DRM_FORMAT_XBGR8888]"

definition to_anland_output :: "'r anland_output \<Rightarrow> 'r anland_output option" where
  "to_anland_output out = (if is_anland out then Some out else None)"

subsection \<open>Input\<close>

text \<open>A \<open>float\<close> compared with \<open>0.0f\<close>: unequal unless it is one of the two zeros.\<close>

definition float_nonzero :: "u32 \<Rightarrow> bool" where
  "float_nonzero bits \<longleftrightarrow> bits \<noteq> 0 \<and> bits \<noteq> 0x80000000"

definition anland_handle_pointer_motion :: "InputEvent \<Rightarrow> 'r wes \<Rightarrow> 'r wes" where
  "anland_handle_pointer_motion ev s =
     (case weston_compositor_find_output_by_name ''anland-1'' s of
        None \<Rightarrow> s
      | Some out \<Rightarrow>
          (let rel = (motion_dx ev, motion_dy ev);
               mask = (if float_nonzero (motion_dx ev) \<or> float_nonzero (motion_dy ev) then 7 else 1 :: u32)
           in emit_calls [Notify_motion mask (motion_x ev, motion_y ev)
                (if mask AND 2 \<noteq> 0 then Some rel else None) (if mask AND 4 \<noteq> 0 then Some rel else None),
                Notify_pointer_frame] s))"

definition anland_handle_pointer_button :: "InputEvent \<Rightarrow> 'r wes \<Rightarrow> 'r wes" where
  "anland_handle_pointer_button ev s =
     emit_calls [Notify_button (button_button ev) (button_pressed ev \<noteq> 0), Notify_pointer_frame] s"

definition anland_handle_pointer_axis :: "InputEvent \<Rightarrow> 'r wes \<Rightarrow> 'r wes" where
  "anland_handle_pointer_axis ev s =
     emit_calls [Notify_axis (axis_axis ev) (axis_value ev) (axis_discrete ev \<noteq> 0) (axis_discrete ev), Notify_pointer_frame] s"

definition anland_handle_key :: "InputEvent \<Rightarrow> 'r wes \<Rightarrow> 'r wes" where
  "anland_handle_key ev s = emit_calls [Notify_key (key_keycode ev) (key_action ev = INPUT_ACTION_DOWN)] s"

definition anland_handle_touch :: "anland_backend \<Rightarrow> InputEvent \<Rightarrow> 'r wes \<Rightarrow> 'r wes" where
  "anland_handle_touch b ev s =
     (if \<not> touch_device b then s
      else (case weston_compositor_find_output_by_name ''anland-1'' s of
              None \<Rightarrow> s
            | Some out \<Rightarrow>
                (case (if touch_action ev = INPUT_ACTION_DOWN then Some WL_TOUCH_DOWN
                       else if touch_action ev = INPUT_ACTION_UP then Some WL_TOUCH_UP
                       else if touch_action ev = INPUT_ACTION_MOVE then Some WL_TOUCH_MOTION
                       else None) of
                   None \<Rightarrow> s
                 | Some type \<Rightarrow> emit_calls [Notify_touch type (touch_pointer_id ev) (touch_x ev, touch_y ev)] s)))"

definition anland_handle_touch_frame :: "anland_backend \<Rightarrow> 'r wes \<Rightarrow> 'r wes" where
  "anland_handle_touch_frame b s = (if touch_device b then emit_calls [Notify_touch_frame] s else s)"

definition anland_process_input_event :: "anland_backend \<Rightarrow> InputEvent \<Rightarrow> 'r wes \<Rightarrow> 'r wes" where
  "anland_process_input_event b ev s =
     (if ie_type ev = INPUT_TYPE_POINTER_MOTION then anland_handle_pointer_motion ev s
      else if ie_type ev = INPUT_TYPE_POINTER_BUTTON then anland_handle_pointer_button ev s
      else if ie_type ev = INPUT_TYPE_POINTER_AXIS then anland_handle_pointer_axis ev s
      else if ie_type ev = INPUT_TYPE_KEY then anland_handle_key ev s
      else if ie_type ev = INPUT_TYPE_TOUCH then anland_handle_touch b ev s
      else if ie_type ev = INPUT_TYPE_TOUCH_FRAME then anland_handle_touch_frame b s
      else s)"

fun anland_backend_from_compositor :: "backend list \<Rightarrow> nat option" where
  "anland_backend_from_compositor [] = None"
| "anland_backend_from_compositor (Anland_backend b # bs) = Some 0"
| "anland_backend_from_compositor (Other_backend # bs) = map_option Suc (anland_backend_from_compositor bs)"

definition anland_process_window_command :: "anland_backend \<Rightarrow> WindowCommand \<Rightarrow> 'r wes \<Rightarrow> 'r wes" where
  "anland_process_window_command b command s =
     (case window_command_handler b of
        None \<Rightarrow> s
      | Some h \<Rightarrow> emit_calls [Window_command_call h (wc_type command) (wc_window_id command)] s)"

subsection \<open>Losing and regaining the session\<close>

definition anland_fallback_cb :: "anland_backend \<Rightarrow> 'r wes \<Rightarrow> anland_backend \<times> 'r wes" where
  "anland_fallback_cb b s =
     (let s = (if touch_device b \<and> touch_state s \<and> num_tp s > 0
               then (emit_calls [Notify_touch_cancel, Touch_focus_none] s)\<lparr>num_tp := 0\<rparr> else s);
          s = (if pointer_state s then emit_calls [Clear_pointer_focus] s else s);
          s = remove_source_opt (buf_ready_source b) s;
          s = remove_source_opt (input_fd_source b) s;
          s = timer_update_opt (reconnect_timer b) 200 s
      in (b\<lparr>buf_ready_source := None, input_fd_source := None, consumer_ready := False,
            dmabuf_received := False, in_fallback := True\<rparr>, s))"

definition returned :: "producer_ctx \<Rightarrow> producer_ctx \<Rightarrow> os \<Rightarrow> anland_backend \<Rightarrow> 'r wes \<Rightarrow> anland_backend \<times> 'r wes" where
  "returned ctx ctx' w b s =
     (let b = b\<lparr>display := Some ctx'\<rparr>; s = s\<lparr>sys := w\<rparr>
      in if fallback_calls ctx' \<noteq> fallback_calls ctx then anland_fallback_cb b s else (b, s))"

definition anland_drop_renderbuffers :: "'r wes \<Rightarrow> 'r wes" where
  "anland_drop_renderbuffers s =
     (case first_anland (outputs s) of
        None \<Rightarrow> s
      | Some i \<Rightarrow> set_output i ((outputs s ! i)\<lparr>renderbuffers := replicate MAX_BUFS None, o_buf_count := 0\<rparr>) s)"

definition anland_try_reconnect :: "anland_backend \<Rightarrow> 'r wes \<Rightarrow> (anland_backend \<times> 'r wes) option" where
  "anland_try_reconnect b s =
     (case display b of
        None \<Rightarrow> Some (b, wreport Null_deref s)
      | Some ctx \<Rightarrow> do {
          (r, ctx', w) \<leftarrow> try_reconnect ctx (sys s);
          let (b, s) = returned ctx ctx' w b s;
          if r < 0 then Some (b, s)
          else do {
            let b = b\<lparr>in_fallback := False\<rparr>;
            let (b, s) = (if get_buffer_ready_fd ctx' \<ge> 0
                          then (let (src, s) = add_source (Fd_src (get_buffer_ready_fd ctx') Buf_ready) s
                                in (b\<lparr>buf_ready_source := src\<rparr>, s))
                          else (b, s));
            Some (b, timer_update_opt (reconnect_timer b) 0 s)
          }
        })"



text \<open>
  The loop of \<open>anland_input_fd_handler\<close>: each round takes one answer of the kernel to \<open>poll\<close>, so it
  ends; a poll that is never answered is \<open>None\<close>.
\<close>

lemma wlog_only [simp]:
  "sys (anland_process_input_event b ev s) = sys s" "sys (anland_process_window_command b cmd s) = sys s"
  by (auto simp: anland_process_input_event_def anland_handle_pointer_motion_def anland_handle_pointer_button_def
      anland_handle_pointer_axis_def anland_handle_key_def anland_handle_touch_def anland_handle_touch_frame_def
      anland_process_window_command_def Let_def split: option.splits)

definition process_display_event :: "anland_backend \<Rightarrow> display_event \<Rightarrow> 'r wes \<Rightarrow> 'r wes" where
  "process_display_event b ev s =
     (case ev of
        Input e \<Rightarrow> anland_process_input_event b e s
      | Command c \<Rightarrow> anland_process_window_command b c s
      | No_event \<Rightarrow> s)"

lemma process_display_event_sys [simp]: "sys (process_display_event b ev s) = sys s"
  by (cases ev) (simp_all add: process_display_event_def)

function input_loop :: "anland_backend \<Rightarrow> 'r wes \<Rightarrow> (anland_backend \<times> 'r wes) option" where
  "input_loop b s =
     (case display b of
        None \<Rightarrow> Some (b, wreport Null_deref s)
      | Some ctx \<Rightarrow>
          (case poll_display_event ctx (sys s) of
             None \<Rightarrow> None
           | Some (r, ev, ctx', w) \<Rightarrow>
               if 0 < r then input_loop (b\<lparr>display := Some ctx'\<rparr>) (process_display_event b ev (s\<lparr>sys := w\<rparr>))
               else Some (returned ctx ctx' w b s)))"
  by pat_completeness auto
termination
  by (relation "measure (\<lambda>(b, s). length (polls (sys s)))") (auto dest: poll_display_event_cb)

declare input_loop.simps [simp del]

definition anland_input_fd_handler :: "anland_backend \<Rightarrow> 'r wes \<Rightarrow> (anland_backend \<times> 'r wes) option" where
  "anland_input_fd_handler b s = (if in_fallback b then Some (b, s) else input_loop b s)"

definition anland_reconnect_timer_handler :: "anland_backend \<Rightarrow> 'r wes \<Rightarrow> (anland_backend \<times> 'r wes) option" where
  "anland_reconnect_timer_handler b s =
     (if \<not> in_fallback b then Some (b, s)
      else do {
        (b, s) \<leftarrow> anland_try_reconnect b (anland_drop_renderbuffers s);
        Some (b, if in_fallback b then timer_update_opt (reconnect_timer b) 200 s else s)
      })"

subsection \<open>Frames\<close>

definition anland_output_start_repaint_loop :: "'r wes \<Rightarrow> 'r wes" where
  "anland_output_start_repaint_loop s = emit_calls [Finish_frame True] s"

definition finish_frame_handler :: "anland_backend \<Rightarrow> nat \<Rightarrow> 'r wes \<Rightarrow> 'r wes" where
  "finish_frame_handler b i s =
     emit_calls (if consumer_ready b then [Finish_frame_from_timer, Schedule_repaint i] else [Finish_frame_from_timer]) s"

definition protocol_format_to_drm :: "u32 \<Rightarrow> drm_format" where
  "protocol_format_to_drm fmt = (if fmt = 1 then DRM_FORMAT_ABGR8888 else DRM_FORMAT_XRGB8888)"

definition buffer_attributes :: "int \<Rightarrow> int \<Rightarrow> fd \<Rightarrow> buf_info \<Rightarrow> dmabuf_attributes" where
  "buffer_attributes width height f info =
     \<lparr>da_width = width, da_height = height, da_format = protocol_format_to_drm (bi_format info), da_planes = 1,
      da_fd = f, da_offset = bi_offset info, da_stride = bi_stride info, da_modifier = bi_modifier info\<rparr>"

definition create_renderbuffer :: "dmabuf_attributes \<Rightarrow> 'r wes \<Rightarrow> nat option \<times> 'r wes" where
  "create_renderbuffer attrs s =
     (let s = emit_calls [Create_renderbuffer attrs] s; (ok, s) = wtry s in
      if ok then (Some (next_rb s), s\<lparr>live_rbs := next_rb s # live_rbs s, next_rb := Suc (next_rb s)\<rparr>) else (None, s))"

text \<open>The loop of \<open>anland_output_import_dmabufs\<close> from buffer \<open>i\<close> on, \<open>n\<close> of them.\<close>

fun import_loop :: "'r region_ops \<Rightarrow> producer_ctx \<Rightarrow> int \<Rightarrow> int \<Rightarrow> nat \<Rightarrow> nat \<Rightarrow> 'r anland_output \<Rightarrow> 'r wes \<Rightarrow>
    bool \<times> 'r anland_output \<times> 'r wes" where
  "import_loop R ctx width height i 0 out s = (True, out, s)"
| "import_loop R ctx width height i (Suc n) out s =
     (case get_dmabuf_info_at ctx (int i) of
        None \<Rightarrow> (False, out, s)
      | Some info \<Rightarrow>
          if get_dmabuf_fd_at ctx (int i) < 0 then (False, out, s)
          else
            (let attrs = buffer_attributes width height (get_dmabuf_fd_at ctx (int i)) info;
                 (rb, s) = create_renderbuffer attrs s;
                 out = out\<lparr>dmabuf_attrs_arr := (dmabuf_attrs_arr out)[i := Some attrs],
                           renderbuffers := (renderbuffers out)[i := rb]\<rparr>
             in if rb = None then (False, out, s)
                else import_loop R ctx width height (Suc i) n
                       (out\<lparr>accum_damage := (accum_damage out)[i := r_union R (r_empty R) (o_region out)]\<rparr>) s))"

definition anland_output_import_dmabufs :: "'r region_ops \<Rightarrow> producer_ctx \<Rightarrow> 'r anland_output \<Rightarrow> 'r wes \<Rightarrow>
    int \<times> 'r anland_output \<times> 'r wes" where
  "anland_output_import_dmabufs R ctx out s =
     (if get_buf_count ctx = 0 then (-1, out, s)
      else (case o_mode out of
              None \<Rightarrow> (-1, out, wreport Null_deref s)
            | Some (width, height, refr) \<Rightarrow>
                (let (ok, out, s) = import_loop R ctx width height 0 (get_buf_count ctx) out s
                 in if ok then (0, out\<lparr>o_buf_count := get_buf_count ctx\<rparr>, s) else (-1, out, s))))"

definition import_first_output :: "'r region_ops \<Rightarrow> producer_ctx \<Rightarrow> 'r wes \<Rightarrow> 'r wes" where
  "import_first_output R ctx s =
     (case first_anland (outputs s) of
        None \<Rightarrow> s
      | Some i \<Rightarrow> (let (r, out, s) = anland_output_import_dmabufs R ctx (outputs s ! i) s in set_output i out s))"

definition watch_data_fd :: "producer_ctx \<Rightarrow> anland_backend \<Rightarrow> 'r wes \<Rightarrow> anland_backend \<times> 'r wes" where
  "watch_data_fd ctx b s =
     (if input_fd_source b = None \<and> get_data_fd ctx \<ge> 0
      then (let (src, s) = add_source (Fd_src (get_data_fd ctx) Input_fd) s in (b\<lparr>input_fd_source := src\<rparr>, s))
      else (b, s))"

definition schedule_first_output :: "'r wes \<Rightarrow> 'r wes" where
  "schedule_first_output s =
     (case first_anland (outputs s) of None \<Rightarrow> s | Some i \<Rightarrow> emit_calls [Schedule_repaint i] s)"

definition anland_buf_ready_handler :: "'r region_ops \<Rightarrow> fd \<Rightarrow> anland_backend \<Rightarrow> 'r wes \<Rightarrow> (anland_backend \<times> 'r wes) option" where
  "anland_buf_ready_handler R f b s =
     (case display b of
        None \<Rightarrow> Some (b, wreport Null_deref s)
      | Some ctx \<Rightarrow>
          if \<not> dmabuf_received b then do {
            (r, ctx', w) \<leftarrow> wait_buffer_async_result (wait_buffer_async ctx) (sys s);
            let (b, s) = returned ctx ctx' w b s;
            if r \<noteq> 0 then Some (b, s)
            else do {
              let s = import_first_output R ctx' s;
              let (b, s) = watch_data_fd ctx' (b\<lparr>dmabuf_received := True\<rparr>) s;
              Some (b\<lparr>consumer_ready := True\<rparr>, schedule_first_output s)
            }
          }
          else (let (ok, w) = sys_eventfd_read f (sys s)
                in Some (b\<lparr>consumer_ready := True\<rparr>, schedule_first_output (s\<lparr>sys := w\<rparr>))))"

definition finish_frame_idle :: "'r wes \<Rightarrow> 'r wes" where
  "finish_frame_idle s = emit_calls [Finish_frame False] s"

text \<open>\<open>dmg\<close> is what \<open>weston_output_flush_damage_for_primary_plane\<close> leaves in \<open>damage\<close>.\<close>

definition anland_output_repaint :: "'r region_ops \<Rightarrow> 'r \<Rightarrow> nat \<Rightarrow> anland_backend \<Rightarrow> 'r wes \<Rightarrow> anland_backend \<times> 'r wes" where
  "anland_output_repaint R dmg i b s =
     (let out = outputs s ! i in
      if o_buf_count out = 0 then (b, emit_calls [Arm_frame_timer] s)
      else (case display b of
        None \<Rightarrow> (b, wreport Null_deref s)
      | Some ctx \<Rightarrow>
          (let idx = get_selected_idx ctx (sys s) in
           if idx \<ge> o_buf_count out then (b, emit_calls [Arm_frame_timer] s)
           else (case renderbuffers out ! idx of
                   None \<Rightarrow> (b, emit_calls [Arm_frame_timer] s)
                 | Some rb \<Rightarrow>
                     (let damage = r_union R dmg (o_region out);
                          acc = map (\<lambda>a. r_union R a damage) (take (o_buf_count out) (accum_damage out)) @
                                drop (o_buf_count out) (accum_damage out);
                          s = emit_calls [Repaint_output (acc ! idx) rb] s;
                          s = set_output i (out\<lparr>accum_damage := acc[idx := r_empty R]\<rparr>) s;
                          (b, s) = (if consumer_ready b
                                    then (b\<lparr>consumer_ready := False\<rparr>, s\<lparr>sys := snd (trigger_refresh ctx (sys s))\<rparr>)
                                    else (b, s))
                      in (b, emit_calls [if b_refresh b = 0 then Add_idle_finish else Arm_frame_timer] s))))))"


subsection \<open>Outputs and heads\<close>

definition destroy_renderbuffer :: "nat option \<Rightarrow> 'r wes \<Rightarrow> 'r wes" where
  "destroy_renderbuffer rb s =
     (case rb of
        None \<Rightarrow> s
      | Some n \<Rightarrow> if n \<in> set (live_rbs s) then (emit_calls [Destroy_renderbuffer n] s)\<lparr>live_rbs := remove1 n (live_rbs s)\<rparr>
                  else wreport Use_after_free s)"

definition anland_output_disable_renderer :: "'r anland_output \<Rightarrow> 'r wes \<Rightarrow> 'r anland_output \<times> 'r wes" where
  "anland_output_disable_renderer out s =
     (let n = o_buf_count out;
          s = fold destroy_renderbuffer (take n (renderbuffers out)) s;
          out = out\<lparr>renderbuffers := replicate n None @ drop n (renderbuffers out), o_buf_count := 0\<rparr>
      in (out, if renderer s = RENDERER_OTHER then s else emit_calls [Renderer_output_destroy (renderer s)] s))"

definition anland_output_disable :: "'r anland_output \<Rightarrow> 'r wes \<Rightarrow> 'r anland_output \<times> 'r wes" where
  "anland_output_disable out s =
     (if \<not> o_enabled out then (out, s)
      else (case finish_frame_timer out of
              None \<Rightarrow> (out, wreport Null_deref s)
            | Some t \<Rightarrow> anland_output_disable_renderer out (remove_source t s)))"

definition anland_output_destroy :: "'r anland_output \<Rightarrow> 'r wes \<Rightarrow> 'r wes" where
  "anland_output_destroy out s = (let (out, s) = anland_output_disable out s in emit_calls [Output_release] s)"

definition anland_output_enable_renderer :: "'r anland_output \<Rightarrow> 'r wes \<Rightarrow> int \<times> 'r wes" where
  "anland_output_enable_renderer out s =
     (case o_mode out of
        None \<Rightarrow> (-1, wreport Null_deref s)
      | Some (width, height, refr) \<Rightarrow>
          if renderer s = RENDERER_OTHER then (-1, s)
          else (let s = emit_calls [Renderer_output_create (renderer s) width height] s;
                    (ok, s) = wtry s
                in (if ok then 0 else -1, s)))"

definition anland_output_enable :: "'r anland_output \<Rightarrow> 'r wes \<Rightarrow> int \<times> 'r anland_output \<times> 'r wes" where
  "anland_output_enable out s =
     (let (src, s) = add_source (Timer_src Finish_frame_cb 0) s;
          out = out\<lparr>finish_frame_timer := src\<rparr>
      in case src of
           None \<Rightarrow> (-1, out, s)
         | Some t \<Rightarrow>
             (let (r, s) = anland_output_enable_renderer out s
              in if r < 0 then (-1, out, remove_source t s) else (0, out, s)))"

text \<open>Signed 32-bit arithmetic: a product outside the range is undefined, and wraps in the model.\<close>

definition smul32 :: "int \<Rightarrow> int \<Rightarrow> int" where
  "smul32 x y = signed_take_bit 31 (x * y)"

definition anland_output_set_size :: "anland_backend \<Rightarrow> 'r anland_output \<Rightarrow> int \<Rightarrow> int \<Rightarrow> 'r wes \<Rightarrow> int \<times> 'r anland_output \<times> 'r wes" where
  "anland_output_set_size b out width height s =
     (case to_anland_output out of
        None \<Rightarrow> (-1, out, s)
      | Some out \<Rightarrow>
          (let (width, height) = (if b_screen_w b > 0 \<and> b_screen_h b > 0 then (b_screen_w b, b_screen_h b) else (width, height));
               s = emit_calls (replicate (o_heads out) (Head_configure width height)) s
           in (0, out\<lparr>o_mode := Some (smul32 width (o_scale out), smul32 height (o_scale out),
                                     if b_refresh b > 0 then b_refresh b else DEFAULT_REFRESH)\<rparr>, s)))"

definition anland_output_create :: "'r region_ops \<Rightarrow> string \<Rightarrow> 'r \<Rightarrow> 'r wes \<Rightarrow> bool \<times> 'r wes" where
  "anland_output_create R name reg s =
     (let (ok, s) = wtry s in
      if \<not> ok then (False, s)
      else (True, s\<lparr>pending := pending s @
             [\<lparr>o_name = name, is_anland = True, o_enabled = False, o_mode = None, o_scale = 0, o_heads = 0, o_region = reg,
               finish_frame_timer = None, o_buf_count = 0, renderbuffers = replicate MAX_BUFS None,
               dmabuf_attrs_arr = replicate MAX_BUFS None, accum_damage = replicate MAX_BUFS (r_empty R)\<rparr>]\<rparr>))"

definition anland_head_create :: "'r wes \<Rightarrow> int \<times> 'r wes" where
  "anland_head_create s =
     (let (ok, s) = wtry s in if \<not> ok then (-1, s) else (0, s\<lparr>heads := heads s @ [True]\<rparr>))"

text \<open>\<open>anland_head_destroy\<close> on every head of the list that belongs to this backend.\<close>

definition anland_heads_destroy :: "'r wes \<Rightarrow> 'r wes" where
  "anland_heads_destroy s = s\<lparr>heads := filter (\<lambda>own. \<not> own) (heads s)\<rparr>"

subsection \<open>Window events\<close>

text \<open>\<open>strncpy\<close> of a C string (without its final zero) to the first \<open>n - 1\<close> bytes of a zeroed array of \<open>n\<close>.\<close>

definition strncpy_field :: "nat \<Rightarrow> byte list option \<Rightarrow> byte list" where
  "strncpy_field n str =
     (case str of
        None \<Rightarrow> replicate n 0
      | Some bs \<Rightarrow> take (n - 1) bs @ replicate (n - length (take (n - 1) bs)) 0)"

definition window_event :: "u32 \<Rightarrow> u32 \<Rightarrow> u32 \<Rightarrow> byte list option \<Rightarrow> byte list option \<Rightarrow> WindowEvent" where
  "window_event type window_id pid app_id title =
     \<lparr>we_type = type, we_window_id = window_id, we_pid = pid,
      we_app_id = strncpy_field WINDOW_EVENT_APP_ID_MAX app_id, we_title = strncpy_field WINDOW_EVENT_TITLE_MAX title\<rparr>"

definition anland_send_window_event ::
    "u32 \<Rightarrow> u32 \<Rightarrow> u32 \<Rightarrow> byte list option \<Rightarrow> byte list option \<Rightarrow> backend list \<Rightarrow> 'r wes \<Rightarrow> (backend list \<times> 'r wes) option" where
  "anland_send_window_event type window_id pid app_id title bs s =
     (case anland_backend_from_compositor bs of
        None \<Rightarrow> Some (bs, s)
      | Some i \<Rightarrow>
          (case bs ! i of
             Other_backend \<Rightarrow> Some (bs, s)
           | Anland_backend b \<Rightarrow>
               (case display b of
                  None \<Rightarrow> Some (bs, s)
                | Some ctx \<Rightarrow> do {
                    (r, ctx', w) \<leftarrow> push_window_event ctx (window_event type window_id pid app_id title) (sys s);
                    let (b, s) = returned ctx ctx' w b s;
                    Some (bs[i := Anland_backend b], s)
                  })))"

definition anland_set_window_command_handler :: "nat option \<Rightarrow> backend list \<Rightarrow> backend list" where
  "anland_set_window_command_handler h bs =
     (case anland_backend_from_compositor bs of
        None \<Rightarrow> bs
      | Some i \<Rightarrow>
          (case bs ! i of
             Other_backend \<Rightarrow> bs
           | Anland_backend b \<Rightarrow> bs[i := Anland_backend (b\<lparr>window_command_handler := h\<rparr>)]))"

subsection \<open>Creation and destruction\<close>

text \<open>
  The result of \<open>anland_input_init\<close> is whether the keyboard could be set up; the touch device may be
  missing.  \<open>seat_inits\<close>/releases are in the log.
\<close>

definition anland_input_init :: "anland_backend \<Rightarrow> 'r wes \<Rightarrow> bool \<times> anland_backend \<times> 'r wes" where
  "anland_input_init b s =
     (let s = (emit_calls [Seat_init] s)\<lparr>pointer_state := True\<rparr>; (ok, s) = wtry s in
      if \<not> ok then (False, b, s)
      else (let s = s\<lparr>touch_state := True, num_tp := 0\<rparr>; (td, s) = wtry s in (True, b\<lparr>touch_device := td\<rparr>, s)))"

definition anland_input_destroy :: "anland_backend \<Rightarrow> 'r wes \<Rightarrow> anland_backend \<times> 'r wes" where
  "anland_input_destroy b s =
     (let s = (if touch_device b then emit_calls [Touch_device_destroy] s else s)
      in (b\<lparr>touch_device := False\<rparr>, emit_calls [Seat_release] s))"

definition anland_destroy :: "anland_backend \<Rightarrow> 'r wes \<Rightarrow> 'r wes" where
  "anland_destroy b s =
     (let s = remove_source_opt (buf_ready_source b) s;
          s = remove_source_opt (input_fd_source b) s;
          s = remove_source_opt (reconnect_timer b) s;
          s = anland_heads_destroy s;
          (b, s) = anland_input_destroy b s
      in s\<lparr>sys := producer_disconnect (display b) (sys s)\<rparr>)"

record anland_config =
  cfg_socket_path :: "string option"
  cfg_refresh :: int

definition anland_backend_init :: "anland_config \<Rightarrow> anland_backend" where
  "anland_backend_init config =
     \<lparr>display = None, socket_path = (case cfg_socket_path config of None \<Rightarrow> DEFAULT_SOCKET_PATH | Some p \<Rightarrow> p),
      b_refresh = (if cfg_refresh config > 0 then cfg_refresh config else DEFAULT_REFRESH), b_screen_w = 0, b_screen_h = 0,
      input_fd_source = None, reconnect_timer = None, buf_ready_source = None, touch_device = False, consumer_ready = False,
      dmabuf_received = False, in_fallback = False, window_command_handler = None\<rparr>"

text \<open>\<open>err_input\<close> and \<open>err_display\<close>: what is undone when creation fails.\<close>

definition create_failed :: "anland_backend \<Rightarrow> 'r wes \<Rightarrow> anland_backend option \<times> 'r wes" where
  "create_failed b s =
     (let s = s\<lparr>sys := producer_disconnect (display b) (sys s)\<rparr>; (b, s) = anland_input_destroy b s in (None, s))"

definition anland_connected :: "anland_backend \<Rightarrow> producer_ctx \<Rightarrow> anland_backend" where
  "anland_connected b ctx =
     (let ctx = producer_set_fallback_callback ctx True; (sw, sh, sf, sr) = get_screen_info ctx
      in b\<lparr>display := Some ctx, b_refresh := sint sr, b_screen_w := sint sw, b_screen_h := sint sh\<rparr>)"

definition anland_register :: "anland_backend \<Rightarrow> producer_ctx \<Rightarrow> 'r wes \<Rightarrow> anland_backend option \<times> 'r wes" where
  "anland_register b ctx s =
     (let (t, s) = add_source (Timer_src Reconnect 0) s;
          b = b\<lparr>reconnect_timer := t\<rparr>;
          (b, s) = (if get_buffer_ready_fd ctx \<ge> 0
                    then (let (src, s) = add_source (Fd_src (get_buffer_ready_fd ctx) Buf_ready) s
                          in (b\<lparr>buf_ready_source := src\<rparr>, s))
                    else (b, s));
          (ok, s) = wtry (emit_calls [Register_api ''weston_windowed_output_api_anland_v2''] s)
      in if \<not> ok then create_failed b s
         else (let (ok, s) = wtry (emit_calls [Register_api ''weston_anland_window_api_v1''] s)
               in if \<not> ok then create_failed b s else (Some b, s)))"

definition anland_backend_create :: "anland_config \<Rightarrow> 'r wes \<Rightarrow> (anland_backend option \<times> 'r wes) option" where
  "anland_backend_create config s =
     (let (ok, s) = wtry s in
      if \<not> ok then Some (None, s)
      else
        (let (ok, b, s) = anland_input_init (anland_backend_init config) s in
         if \<not> ok then Some (None, s)
         else do {
           (ctx, w) \<leftarrow> producer_connect_to_deamon (socket_path b) (sys s);
           let s = s\<lparr>sys := w\<rparr>;
           case ctx of
             None \<Rightarrow> (let (b, s) = anland_input_destroy b s in Some (None, s))
           | Some ctx \<Rightarrow>
               (let b = anland_connected b ctx;
                    (ok, s) = wtry (emit_calls [Init_renderer] s)
                in Some (if \<not> ok then create_failed b s else anland_register b ctx s))
         }))"

text \<open>The header of the configuration: version and size.  \<open>sizeof (struct weston_anland_backend_config)\<close> is a parameter.\<close>

definition weston_backend_init :: "nat \<Rightarrow> (nat \<times> nat \<times> anland_config) option \<Rightarrow> 'r wes \<Rightarrow> (int \<times> anland_backend option \<times> 'r wes) option" where
  "weston_backend_init config_size config_base s =
     (case config_base of
        None \<Rightarrow> Some (-1, None, s)
      | Some (version, len, config) \<Rightarrow>
          if version \<noteq> 1 \<or> len > config_size then Some (-1, None, s)
          else do {
            (b, s) \<leftarrow> anland_backend_create config s;
            Some (if b = None then -1 else 0, b, s)
          })"

end
