(* ===== verification/Anland_Spec.thy ===== *)
theory Anland_Spec
  imports Anland
begin

section \<open>The backend: invariant and properties\<close>

text \<open>
  The invariant of \<open>anland.c\<close> (\<open>ainv\<close>): the backend and the library agree on whether the session is
  lost, the event loop watches the session's descriptors only, and an output paints only into buffers
  of the session.  Every handler keeps it (\<open>astep\<close>); \<open>anland_reach\<close> is any sequence of them.
\<close>


subsection \<open>The remaining calls\<close>

lemma push_window_event_cb:
  assumes "push_window_event c e w = Some (r, c', w')"
  shows "cbstep c c' \<and> (\<not> fallback c' \<longrightarrow> buf_count c' = buf_count c)"
proof (cases "fallback c")
  case True
  with assms show ?thesis by (simp add: push_window_event_def)
next
  case False
  with assms obtain y w1 where "send_all (data_fd c) (enc_hdr (mk_hdr 300 268) @ enc_window_event e) w = Some (y, w1)"
    by (auto simp: push_window_event_def bind_Some_iff)
  then show ?thesis using assms False cbstep_fallback [of c w1]
    by (cases "producer_enter_fallback c w1") (auto simp: push_window_event_def producer_enter_fallback_def Let_def split: if_splits)
qed

lemma receive_infos_cb:
  assumes "receive_infos hdr fds c w = Some (r, c', w')" and "buf_count c = 0"
  shows "cbstep c c'"
proof -
  let ?n = "unat (msg_size hdr) div 20"
  have "c' = c \<or> (\<exists>w1 w2. producer_enter_fallback c w1 = (c', w2)) \<or>
     (\<exists>x y. c' = c\<lparr>dmabuf_fds := x, dmabuf_infos := y, buf_count := ?n\<rparr>)"
    using assms(1) by (auto simp: receive_infos_def Let_def bind_Some_iff split: if_splits prod.splits)
  then show ?thesis using cbstep_fallback assms(2) by (auto simp: cbstep_def)
qed

lemma receive_dmabufs_cb:
  assumes r: "receive_dmabufs c w = Some (r, c', w')"
  shows "cbstep c c' \<and> (r = 0 \<longrightarrow> \<not> fallback c \<longrightarrow> \<not> fallback c')"
proof (cases "buf_count c > 0")
  case True
  with r show ?thesis by (simp add: receive_dmabufs_def)
next
  case False
  with r obtain n bs fds w1 where f: "recv_fds (data_fd c) 8 8 w = Some (n, bs, fds, w1)"
    by (auto simp: receive_dmabufs_def bind_Some_iff)
  have "c' = c \<or> (\<exists>w1 w2. producer_enter_fallback c w1 = (c', w2) \<and> r = -1) \<or> receive_infos (dec_hdr bs) fds c w1 = Some (r, c', w')"
    using r False f by (auto simp: receive_dmabufs_def split: if_splits prod.splits)
  moreover have "r = 0 \<Longrightarrow> \<not> fallback c \<Longrightarrow> \<not> fallback c'" if "receive_infos (dec_hdr bs) fds c w1 = Some (r, c', w')"
    using that by (auto simp: receive_infos_def Let_def bind_Some_iff split: if_splits prod.splits)
  moreover have "cbstep c c'" if "receive_infos (dec_hdr bs) fds c w1 = Some (r, c', w')"
    using receive_infos_cb [OF that] False by simp
  ultimately show ?thesis using cbstep_fallback by auto
qed

lemma wait_buffer_poll_cb: "wait_buffer_poll c w = Some (ready, c', w') \<Longrightarrow> cbstep c c' \<and> (ready \<longrightarrow> c' = c)"
proof (induction c w arbitrary: ready c' w' rule: wait_buffer_poll.induct)
  case (1 c w)
  then obtain p w1 where sp: "sys_poll [buf_ready_efd c, data_fd c] w = Some (p, w1)"
    by (auto simp: wait_buffer_poll.simps [of c w] split: option.splits)
  have fb: "(case producer_enter_fallback c w1 of (c, w) \<Rightarrow> Some (False, c, w)) = Some (ready, c', w') \<Longrightarrow> ?case"
    using cbstep_fallback [of c w1] by (cases "producer_enter_fallback c w1") auto
  show ?case
  proof (cases p)
    case Poll_err
    then show ?thesis using "1.prems" sp fb by (simp add: wait_buffer_poll.simps [of c w])
  next
    case (Poll_ready rs)
    then show ?thesis using "1.prems" "1.IH" sp fb by (simp add: wait_buffer_poll.simps [of c w] split: if_splits)
  qed (use "1.prems" "1.IH" sp in \<open>simp_all add: wait_buffer_poll.simps [of c w]\<close>)
qed

lemma wait_result_cb:
  assumes r: "wait_buffer_async_result c w = Some (r, c', w')" and nf: "\<not> fallback c"
  shows "cbstep c c' \<and> (r = 0 \<longrightarrow> \<not> fallback c')"
proof (cases "async_pending c")
  case False
  with r nf show ?thesis by (simp add: wait_buffer_async_result_def)
next
  case True
  with r nf obtain ready c1 w1 where p: "wait_buffer_poll c w = Some (ready, c1, w1)"
    by (auto simp: wait_buffer_async_result_def bind_Some_iff)
  note P = wait_buffer_poll_cb [OF p]
  show ?thesis
  proof (cases ready)
    case False
    then show ?thesis using r nf True p P by (auto simp: wait_buffer_async_result_def)
  next
    case rd: True
    then have c1: "c1 = c" using P by simp
    from r nf True p rd obtain ok w2 y c2 where d: "receive_dmabufs c1 w2 = Some (y, c2, w')" "c' = c2\<lparr>async_pending := False\<rparr>"
       "r = (if y < 0 then -1 else 0)"
      by (auto simp: wait_buffer_async_result_def bind_Some_iff split_beta Let_def split: if_splits)
    moreover have "y = 0 \<or> y = -1" using d(1)
      by (auto simp: receive_dmabufs_def receive_infos_def bind_Some_iff Let_def split: if_splits prod.splits)
    ultimately show ?thesis using receive_dmabufs_cb [OF d(1)] c1 nf by auto
  qed
qed

lemma adopt_fds_cb:
  assumes "adopt_fds c fds w = (r, c', w')"
  shows "fallback_cb c' = fallback_cb c \<and> fallback_calls c' = fallback_calls c \<and> (r = 0 \<or> r = -1) \<and>
    (fallback c \<longrightarrow> (r = 0 \<longleftrightarrow> \<not> fallback c'))"
  using assms by (auto simp: adopt_fds_def Let_def split: option.splits prod.splits)

lemma receive_fds_ready_cb:
  assumes "receive_fds_ready c w = Some (r, c', w')"
  shows "fallback_cb c' = fallback_cb c \<and> fallback_calls c' = fallback_calls c \<and> (r = 0 \<or> r = -1) \<and>
    (fallback c \<longrightarrow> (r = 0 \<longleftrightarrow> \<not> fallback c'))"
proof -
  obtain n bs fds w1 where f: "recv_fds (ctrl c) 8 4 w = Some (n, bs, fds, w1)"
    using assms by (auto simp: receive_fds_ready_def bind_Some_iff)
  obtain ty w2 where t: "read_type bs w1 = (ty, w2)" by fastforce
  have "(r = -1 \<and> c' = c) \<or> adopt_fds c fds w2 = (r, c', w')"
    using assms f t by (auto simp: receive_fds_ready_def split: if_splits)
  then show ?thesis using adopt_fds_cb [of c fds w2 r c' w'] by auto
qed

lemma try_reconnect_cb:
  assumes r: "try_reconnect c w = Some (r, c', w')" and fb: "fallback c"
  shows "fallback_cb c' = fallback_cb c \<and> fallback_calls c' = fallback_calls c \<and> (r = 0 \<or> r = -1) \<and> (r = 0 \<longleftrightarrow> \<not> fallback c')"
proof -
  obtain y w1 where s: "send_all (ctrl c) (enc_hdr (mk_hdr 9 0)) w = Some (y, w1)"
    using r fb by (auto simp: try_reconnect_def bind_Some_iff)
  show ?thesis
  proof (cases "y < 0")
    case True
    then show ?thesis using r fb s by (simp add: try_reconnect_def)
  next
    case y: False
    with r fb s obtain p w2 where sp: "sys_poll [ctrl c] w1 = Some (p, w2)"
      by (auto simp: try_reconnect_def bind_Some_iff)
    show ?thesis
    proof (cases "\<exists>rs. p = Poll_ready rs")
      case False
      then show ?thesis using r fb s y sp by (cases p; simp add: try_reconnect_def)
    next
      case True
      with r fb s y sp obtain c3 where rr: "receive_fds_ready c w2 = Some (r, c3, w')"
        and c3: "c' = (if r = 0 then c3\<lparr>buf_count := 0\<rparr> else c3)"
        by (auto simp: try_reconnect_def bind_Some_iff)
      then show ?thesis using receive_fds_ready_cb [OF rr] fb by auto
    qed
  qed
qed

subsection \<open>The invariant\<close>

text \<open>
  Sources: an fd source of the loop is one of the backend's two and watches the session's current
  descriptor; in fallback there is none, and the reconnect timer runs.  Outputs: at most one output
  is of this backend, and it has imported buffers only when they are those of the current session
  (or of the session just lost), each with a live render buffer.
\<close>

definition src_ok :: "anland_backend \<Rightarrow> producer_ctx \<Rightarrow> 'r wes \<Rightarrow> bool" where
  "src_ok b c s \<longleftrightarrow>
     (\<forall>i. buf_ready_source b = Some i \<longrightarrow> sources s i = Some (Fd_src (buf_ready_efd c) Buf_ready)) \<and>
     (\<forall>i. input_fd_source b = Some i \<longrightarrow> sources s i = Some (Fd_src (data_fd c) Input_fd)) \<and>
     (\<forall>i. reconnect_timer b = Some i \<longrightarrow> (\<exists>ms. sources s i = Some (Timer_src Reconnect ms))) \<and>
     (\<forall>i f h. sources s i = Some (Fd_src f h) \<longrightarrow> buf_ready_source b = Some i \<or> input_fd_source b = Some i) \<and>
     (\<forall>i. sources s i \<noteq> None \<longrightarrow> i < next_source s)"

definition fb_ok :: "anland_backend \<Rightarrow> 'r wes \<Rightarrow> bool" where
  "fb_ok b s \<longleftrightarrow> (in_fallback b \<longrightarrow> buf_ready_source b = None \<and> input_fd_source b = None \<and> \<not> consumer_ready b \<and> \<not> dmabuf_received b)"

definition armed :: "anland_backend \<Rightarrow> 'r wes \<Rightarrow> bool" where
  "armed b s \<longleftrightarrow> (\<forall>i. in_fallback b \<and> reconnect_timer b = Some i \<longrightarrow> sources s i = Some (Timer_src Reconnect 200))"

definition out_ok :: "'r wes \<Rightarrow> 'r anland_output \<Rightarrow> bool" where
  "out_ok s out \<longleftrightarrow> length (renderbuffers out) = MAX_BUFS \<and> length (accum_damage out) = MAX_BUFS \<and> o_buf_count out \<le> MAX_BUFS \<and>
     (\<forall>i < o_buf_count out. \<exists>n. renderbuffers out ! i = Some n \<and> n \<in> set (live_rbs s)) \<and>
     (0 < o_buf_count out \<longrightarrow> is_anland out) \<and> (is_anland out \<longrightarrow> o_mode out \<noteq> None)"

definition outs_ok :: "anland_backend \<Rightarrow> producer_ctx \<Rightarrow> 'r wes \<Rightarrow> bool" where
  "outs_ok b c s \<longleftrightarrow> (\<forall>out \<in> set (outputs s). out_ok s out \<and>
       (0 < o_buf_count out \<longrightarrow> in_fallback b \<or> dmabuf_received b \<and> o_buf_count out = buf_count c)) \<and>
     length (filter is_anland (outputs s)) \<le> 1"

definition ainv :: "fd list \<Rightarrow> anland_backend \<Rightarrow> producer_ctx \<Rightarrow> 'r wes \<Rightarrow> bool" where
  "ainv X b c s \<longleftrightarrow> display b = Some c \<and> fallback_cb c \<and> pinv X c (sys s) \<and> in_fallback b = fallback c \<and>
     src_ok b c s \<and> fb_ok b s \<and> armed b s \<and> outs_ok b c s"

definition astep :: "fd list \<Rightarrow> anland_backend \<Rightarrow> producer_ctx \<Rightarrow> 'r wes \<Rightarrow> anland_backend \<Rightarrow> 'r wes \<Rightarrow> bool" where
  "astep X b c s b' s' \<longleftrightarrow> (\<exists>c'. ainv X b' c' s' \<and> pstep X c (sys s) c' (sys s'))"

lemmas ainv_defs = ainv_def src_ok_def fb_ok_def armed_def outs_ok_def out_ok_def

lemma astep_refl: "ainv X b c s \<Longrightarrow> astep X b c s b s"
  by (auto simp: astep_def ainv_def intro: pstep_refl)

lemma astep_trans: "astep X b c s b' s' \<Longrightarrow> display b' = Some c' \<Longrightarrow> astep X b' c' s' b'' s'' \<Longrightarrow> astep X b c s b'' s''"
  by (auto simp: astep_def ainv_def intro: pstep_trans)

text \<open>What concerns neither sources nor outputs.\<close>

lemma ainv_frame:
  assumes "ainv X b c s" and "keeps (sys s) (sys s')" and "sources s' = sources s" and "next_source s' = next_source s"
    and "outputs s' = outputs s" and "live_rbs s' = live_rbs s"
  shows "ainv X b c s'"
proof -
  have "src_ok b c s' = src_ok b c s" "fb_ok b s' = fb_ok b s" "armed b s' = armed b s" "outs_ok b c s' = outs_ok b c s"
    using assms(3-6) by (simp_all add: src_ok_def fb_ok_def armed_def outs_ok_def out_ok_def)
  then show ?thesis using assms(1) pstep_pinv [OF pstep_keeps [OF _ assms(2), of X c]] by (simp add: ainv_def)
qed

lemma astep_frame:
  assumes "astep X b c s b' s1" and "keeps (sys s1) (sys s')" and "sources s' = sources s1" and "next_source s' = next_source s1"
    and "outputs s' = outputs s1" and "live_rbs s' = live_rbs s1"
  shows "astep X b c s b' s'"
proof -
  from assms(1) obtain c' where c: "ainv X b' c' s1" "pstep X c (sys s) c' (sys s1)" by (auto simp: astep_def)
  have "ainv X b' c' s'" by (rule ainv_frame [OF c(1) assms(2-6)])
  moreover have "pstep X c (sys s) c' (sys s')" by (rule pstep_keeps_trans [OF c(2) assms(2)])
  ultimately show ?thesis by (auto simp: astep_def)
qed

subsection \<open>The callback\<close>

lemma remove_source_ok: "sources s i \<noteq> None \<Longrightarrow> remove_source i s = s\<lparr>sources := (sources s)(i := None)\<rparr>"
  by (auto simp: remove_source_def)

text \<open>The loop after the callback: no fd source, the timer running, everything else as it was.\<close>

lemma anland_fallback_cb_effect:
  assumes ok: "src_ok b c s" and e: "anland_fallback_cb b s = (b', s')"
  shows "b' = b\<lparr>buf_ready_source := None, input_fd_source := None, consumer_ready := False, dmabuf_received := False, in_fallback := True\<rparr>"
    "sys s' = sys s" "outputs s' = outputs s" "live_rbs s' = live_rbs s" "next_source s' = next_source s"
    "\<And>i f h. sources s' i \<noteq> Some (Fd_src f h)"
    "\<And>i. reconnect_timer b = Some i \<Longrightarrow> sources s' i = Some (Timer_src Reconnect 200)"
    "\<And>i. sources s' i \<noteq> None \<Longrightarrow> sources s i \<noteq> None"
proof -
  define s1 where "s1 = (let s = (if touch_device b \<and> touch_state s \<and> num_tp s > 0
               then (emit_calls [Notify_touch_cancel, Touch_focus_none] s)\<lparr>num_tp := 0\<rparr> else s) in
               if pointer_state s then emit_calls [Clear_pointer_focus] s else s)"
  have s1: "sys s1 = sys s" "sources s1 = sources s" "outputs s1 = outputs s" "live_rbs s1 = live_rbs s" "next_source s1 = next_source s"
    by (simp_all add: s1_def Let_def)
  define s2 where "s2 = remove_source_opt (buf_ready_source b) s1"
  have s2: "s2 = s1\<lparr>sources := (case buf_ready_source b of None \<Rightarrow> sources s | Some i \<Rightarrow> (sources s)(i := None))\<rparr>"
    using ok s1 by (auto simp: s2_def remove_source_opt_def src_ok_def remove_source_def split: option.splits)
  define s3 where "s3 = remove_source_opt (input_fd_source b) s2"
  have ne: "input_fd_source b = Some i \<Longrightarrow> buf_ready_source b \<noteq> Some i" for i using ok by (auto simp: src_ok_def)
  have s3: "s3 = s2\<lparr>sources := (case input_fd_source b of None \<Rightarrow> sources s2 | Some i \<Rightarrow> (sources s2)(i := None))\<rparr>"
    using ok ne by (auto simp: s3_def s2 remove_source_opt_def src_ok_def remove_source_def split: option.splits)
  have fd: "sources s3 i \<noteq> Some (Fd_src f h)" for i f h
  proof
    assume a: "sources s3 i = Some (Fd_src f h)"
    then have "sources s i = Some (Fd_src f h)" "buf_ready_source b \<noteq> Some i" "input_fd_source b \<noteq> Some i"
      by (auto simp: s3 s2 split: option.splits if_splits)
    moreover have "buf_ready_source b = Some i \<or> input_fd_source b = Some i" if "sources s i = Some (Fd_src f h)"
      using ok that unfolding src_ok_def by blast
    ultimately show False by blast
  qed
  have tm: "\<exists>ms. sources s3 i = Some (Timer_src Reconnect ms)" if "reconnect_timer b = Some i" for i
  proof -
    have "buf_ready_source b \<noteq> Some i" "input_fd_source b \<noteq> Some i" using ok that by (auto simp: src_ok_def)
    then show ?thesis using ok that by (auto simp: s3 s2 src_ok_def split: option.splits)
  qed
  have sub: "sources s3 i \<noteq> None \<Longrightarrow> sources s i \<noteq> None" for i by (auto simp: s3 s2 split: option.splits if_splits)
  have s': "s' = timer_update_opt (reconnect_timer b) 200 s3" and b': "b' = b\<lparr>buf_ready_source := None, input_fd_source := None, consumer_ready := False, dmabuf_received := False, in_fallback := True\<rparr>"
    using e by (simp_all add: anland_fallback_cb_def Let_def s3_def s2_def s1_def)
  show "b' = b\<lparr>buf_ready_source := None, input_fd_source := None, consumer_ready := False, dmabuf_received := False, in_fallback := True\<rparr>" by (rule b')
  have t: "s' = s3 \<and> reconnect_timer b = None \<or> (\<exists>i. reconnect_timer b = Some i \<and> s' = s3\<lparr>sources := (sources s3)(i \<mapsto> Timer_src Reconnect 200)\<rparr>)"
  proof (cases "reconnect_timer b")
    case (Some i)
    with tm [OF Some] show ?thesis by (auto simp: s' timer_update_opt_def timer_update_def)
  qed (simp add: s' timer_update_opt_def)
  show "sys s' = sys s" "outputs s' = outputs s" "live_rbs s' = live_rbs s" "next_source s' = next_source s"
    using t s1 by (auto simp: s3 s2)
  show "sources s' i \<noteq> Some (Fd_src f h)" for i f h using t fd by (auto split: if_splits)
  show "reconnect_timer b = Some i \<Longrightarrow> sources s' i = Some (Timer_src Reconnect 200)" for i using t by auto
  show "sources s' i \<noteq> None \<Longrightarrow> sources s i \<noteq> None" for i
    using t sub tm by (auto split: if_splits)
qed

text \<open>
  Back from a call of the library that kept or lost the session: the backend's invariant holds again,
  provided a new buffer count is recorded by the caller (the last premise).
\<close>

lemma returned_step:
  assumes inv: "ainv X b c s" and p: "pstep X c (sys s) c' w" and cb: "cbstep c c'"
    and cnt: "\<not> fallback c' \<Longrightarrow> dmabuf_received b \<Longrightarrow> buf_count c' = buf_count c"
    and e: "returned c c' w b s = (b', s')"
  shows "astep X b c s b' s'" "display b' = Some c'" "\<not> fallback c' \<Longrightarrow> b' = b\<lparr>display := Some c'\<rparr> \<and> s' = s\<lparr>sys := w\<rparr>"
    "fallback c' \<Longrightarrow> in_fallback b'" "sys s' = w"
proof -
  have pi: "pinv X c' w" using p by (rule pstep_pinv)
  have i: "display b = Some c" "fallback_cb c" "in_fallback b = fallback c" "src_ok b c s" "fb_ok b s" "armed b s" "outs_ok b c s"
    using inv by (simp_all add: ainv_def)
  let ?b = "b\<lparr>display := Some c'\<rparr>" and ?s = "s\<lparr>sys := w\<rparr>"
  have ctx: "ainv X b' c' s' \<and> sys s' = w \<and> (\<not> fallback c' \<longrightarrow> b' = ?b \<and> s' = ?s) \<and> (fallback c' \<longrightarrow> in_fallback b')"
  proof (cases "fallback c' \<and> \<not> fallback c")
    case True
    then have "fallback_calls c' \<noteq> fallback_calls c" using cb i(2) by (simp add: cbstep_def)
    then have "anland_fallback_cb ?b ?s = (b', s')" using e by (simp add: returned_def)
    moreover have "src_ok ?b c ?s" using i(4) by (simp add: src_ok_def)
    ultimately have so: "src_ok ?b c ?s" and fc: "anland_fallback_cb ?b ?s = (b', s')" by simp_all
    note F = anland_fallback_cb_effect [OF so fc]
    have "src_ok b' c' s'" using F(5-8) i(4) by (auto simp: F(1) src_ok_def)
    moreover have "outs_ok b' c' s'" using F(3,4) i(7) by (simp add: F(1) outs_ok_def out_ok_def)
    moreover have "fb_ok b' s'" "armed b' s'" using F(7) by (simp_all add: F(1) fb_ok_def armed_def)
    ultimately show ?thesis using True F(1,2) pi cb i(2) by (simp add: ainv_def cbstep_def)
  next
    case False
    then have calls: "fallback_calls c' = fallback_calls c" and fb: "fallback c' = fallback c" using cb by (auto simp: cbstep_def)
    then have b': "b' = ?b" "s' = ?s" using e by (simp_all add: returned_def)
    have "src_ok ?b c' ?s"
      using i(3-5) cb fb by (auto simp: src_ok_def fb_ok_def cbstep_def)
    moreover have "outs_ok ?b c' ?s" using i(3,7) cnt fb by (auto simp: outs_ok_def out_ok_def)
    moreover have "fb_ok ?b ?s" "armed ?b ?s" using i(5,6) by (simp_all add: fb_ok_def armed_def)
    ultimately show ?thesis using b' pi cb i(2,3) fb by (simp add: ainv_def cbstep_def)
  qed
  then show "astep X b c s b' s'" using p by (auto simp: astep_def)
  from ctx show "display b' = Some c'" "\<not> fallback c' \<Longrightarrow> b' = b\<lparr>display := Some c'\<rparr> \<and> s' = s\<lparr>sys := w\<rparr>"
    "fallback c' \<Longrightarrow> in_fallback b'" "sys s' = w" by (simp_all add: ainv_def)
qed

subsection \<open>The input handler\<close>

lemma process_display_event_sel [simp]:
  "sources (process_display_event b ev s) = sources s" "next_source (process_display_event b ev s) = next_source s"
  "outputs (process_display_event b ev s) = outputs s" "live_rbs (process_display_event b ev s) = live_rbs s"
  by (auto simp: process_display_event_def anland_process_input_event_def anland_handle_pointer_motion_def anland_handle_pointer_button_def
      anland_handle_pointer_axis_def anland_handle_key_def anland_handle_touch_def anland_handle_touch_frame_def
      anland_process_window_command_def Let_def split: option.splits display_event.splits)

lemma input_loop_step:
  assumes "ainv X b c s" and "input_loop b s = Some (b', s')"
  shows "astep X b c s b' s'"
  using assms
proof (induction b s arbitrary: c b' s' rule: input_loop.induct)
  case (1 b s)
  have d: "display b = Some c" using "1.prems"(1) by (simp add: ainv_def)
  with "1.prems"(2) obtain r ev c1 w where p: "poll_display_event c (sys s) = Some (r, ev, c1, w)"
    by (auto simp: input_loop.simps [of b s] split: option.splits)
  have inv: "pinv X c (sys s)" using "1.prems"(1) by (simp add: ainv_def)
  note C = cb_callD [OF conjunct1 [OF poll_display_event_cb [OF p]]]
  note P = poll_display_event_step [OF inv p] C(1)
  have cnt: "buf_count c1 = buf_count c" if "\<not> fallback c1" using C(2) that by simp
  have R: "astep X b c s (fst (returned c c1 w b s)) (snd (returned c c1 w b s))"
    by (rule returned_step(1) [OF "1.prems"(1) P cnt prod.collapse [symmetric]])
  show ?case
  proof (cases "0 < r")
    case False
    then have "returned c c1 w b s = (b', s')" using "1.prems"(2) d p by (simp add: input_loop.simps [of b s])
    then show ?thesis using R by simp
  next
    case True
    then have c1: "c1 = c" using C(3) by simp
    have b: "b\<lparr>display := Some c\<rparr> = b" using d by simp
    let ?s = "process_display_event b ev (s\<lparr>sys := w\<rparr>)"
    have k: "input_loop b ?s = Some (b', s')" using "1.prems"(2) d p True c1 b by (simp add: input_loop.simps [of b s])
    have "astep X b c s b (s\<lparr>sys := w\<rparr>)" using R c1 b by (simp add: returned_def)
    then have a: "astep X b c s b ?s" by (rule astep_frame) simp_all
    then have "ainv X b c ?s" using d by (auto simp: astep_def ainv_def)
    then have "astep X b c ?s b' s'" using "1.IH" [OF d p refl refl refl True] c1 b k by simp
    then show ?thesis by (rule astep_trans [OF a d])
  qed
qed

lemma anland_input_fd_handler_step:
  assumes "ainv X b c s" and "anland_input_fd_handler b s = Some (b', s')"
  shows "astep X b c s b' s'"
  using assms input_loop_step astep_refl by (auto simp: anland_input_fd_handler_def split: if_splits)

lemma length_filter_update: "i < length xs \<Longrightarrow> P y = P (xs ! i) \<Longrightarrow> length (filter P (xs[i := y])) = length (filter P xs)"
  by (induction xs arbitrary: i) (auto split: nat.split)

subsection \<open>Importing the buffers\<close>

lemma create_renderbufferD:
  assumes "create_renderbuffer attrs s = (rb, s')"
  shows "keeps (sys s) (sys s')" "sources s' = sources s" "next_source s' = next_source s" "outputs s' = outputs s"
    "set (live_rbs s) \<subseteq> set (live_rbs s')" "\<And>n. rb = Some n \<Longrightarrow> n \<in> set (live_rbs s')" "wlog s' = wlog s @ [Create_renderbuffer attrs]"
proof -
  obtain ok s1 where t: "wtry (emit_calls [Create_renderbuffer attrs] s) = (ok, s1)" by fastforce
  obtain fs where s1: "s1 = (emit_calls [Create_renderbuffer attrs] s)\<lparr>sys := (sys s)\<lparr>faults := fs\<rparr>\<rparr>" using wtryD(1) [OF t] by auto
  then have "keeps (sys s) (sys s1)" by (auto simp: keeps_def)
  then show "keeps (sys s) (sys s')" "sources s' = sources s" "next_source s' = next_source s" "outputs s' = outputs s"
    "set (live_rbs s) \<subseteq> set (live_rbs s')" "\<And>n. rb = Some n \<Longrightarrow> n \<in> set (live_rbs s')" "wlog s' = wlog s @ [Create_renderbuffer attrs]"
    using assms t s1 by (auto simp: create_renderbuffer_def split: if_splits)
qed

text \<open>What the loop has done when it has come to buffer \<open>i + n\<close>.\<close>

lemma import_loop_effect:
  assumes "import_loop R c width height i n out s = (ok, out', s')" and "length (renderbuffers out) = 8" and "i + n \<le> 8"
    and "\<forall>j < i. \<exists>m. renderbuffers out ! j = Some m \<and> m \<in> set (live_rbs s)"
  shows "keeps (sys s) (sys s') \<and> sources s' = sources s \<and> next_source s' = next_source s \<and> outputs s' = outputs s \<and>
    set (live_rbs s) \<subseteq> set (live_rbs s') \<and> length (renderbuffers out') = 8 \<and> length (accum_damage out') = length (accum_damage out) \<and>
    o_buf_count out' = o_buf_count out \<and> is_anland out' = is_anland out \<and> o_mode out' = o_mode out \<and>
    (ok \<longrightarrow> (\<forall>j < i + n. \<exists>m. renderbuffers out' ! j = Some m \<and> m \<in> set (live_rbs s')))"
  using assms
proof (induction R c width height i n out s rule: import_loop.induct)
  case (2 R c width height i n out s)
  show ?case
  proof (cases "get_dmabuf_info_at c (int i) = None \<or> get_dmabuf_fd_at c (int i) < 0")
    case True
    then have "ok = False \<and> out' = out \<and> s' = s" using "2.prems"(1) by (auto split: option.splits)
    then show ?thesis using "2.prems" by simp
  next
    case False
    then obtain info where info: "get_dmabuf_info_at c (int i) = Some info" and f: "\<not> get_dmabuf_fd_at c (int i) < 0" by auto
    let ?a = "buffer_attributes width height (get_dmabuf_fd_at c (int i)) info"
    obtain rb s1 where cr: "create_renderbuffer ?a s = (rb, s1)" by fastforce
    note C = create_renderbufferD [OF cr]
    let ?o1 = "out\<lparr>dmabuf_attrs_arr := (dmabuf_attrs_arr out)[i := Some ?a], renderbuffers := (renderbuffers out)[i := rb]\<rparr>"
    show ?thesis
    proof (cases rb)
      case None
      then have "ok = False \<and> out' = ?o1 \<and> s' = s1" using "2.prems"(1) info f cr by auto
      then show ?thesis using C "2.prems"(2) by simp
    next
      case (Some m)
      let ?o2 = "?o1\<lparr>accum_damage := (accum_damage out)[i := r_union R (r_empty R) (o_region out)]\<rparr>"
      have il: "import_loop R c width height (Suc i) n ?o2 s1 = (ok, out', s')" using "2.prems"(1) info f cr Some by simp
      have "\<forall>j < Suc i. \<exists>m. renderbuffers ?o2 ! j = Some m \<and> m \<in> set (live_rbs s1)"
        using "2.prems"(2-4) C(5,6) Some by (auto simp: less_Suc_eq nth_list_update)
      with "2.IH" [OF info f refl cr [symmetric] refl] il "2.prems"(2,3) Some
      have "keeps (sys s1) (sys s') \<and> sources s' = sources s1 \<and> next_source s' = next_source s1 \<and> outputs s' = outputs s1 \<and>
        set (live_rbs s1) \<subseteq> set (live_rbs s') \<and> length (renderbuffers out') = 8 \<and> length (accum_damage out') = length (accum_damage out) \<and>
        o_buf_count out' = o_buf_count out \<and> is_anland out' = is_anland out \<and> o_mode out' = o_mode out \<and>
        (ok \<longrightarrow> (\<forall>j < Suc i + n. \<exists>m. renderbuffers out' ! j = Some m \<and> m \<in> set (live_rbs s')))" by simp
      then show ?thesis using C by (auto intro: keeps_trans)
    qed
  qed
qed simp

lemma import_first_output_ok:
  assumes "outs_ok b c s" and "\<not> in_fallback b" and "\<not> dmabuf_received b" and "buf_count c' \<le> 8"
    and b': "in_fallback b' = in_fallback b" "dmabuf_received b'" and e: "import_first_output R c' s = s'"
  shows "outs_ok b' c' s'" "keeps (sys s) (sys s')" "sources s' = sources s" "next_source s' = next_source s"
proof -
  have z: "\<forall>out \<in> set (outputs s). out_ok s out \<and> o_buf_count out = 0" and one: "length (filter is_anland (outputs s)) \<le> 1"
    using assms(1-3) by (auto simp: outs_ok_def)
  have "outs_ok b' c' s' \<and> keeps (sys s) (sys s') \<and> sources s' = sources s \<and> next_source s' = next_source s"
  proof (cases "first_anland (outputs s)")
    case None
    then have "s' = s" using e by (simp add: import_first_output_def)
    then show ?thesis using z one by (simp add: outs_ok_def)
  next
    case (Some i)
    note F = first_anland_SomeD [OF Some]
    let ?o = "outputs s ! i"
    have o: "out_ok s ?o" "o_buf_count ?o = 0" using z F by auto
    obtain x out' s1 where im: "anland_output_import_dmabufs R c' ?o s = (x, out', s1)" by (cases "anland_output_import_dmabufs R c' ?o s") auto
    have s': "s' = set_output i out' s1" using e Some im by (simp add: import_first_output_def)
    have k: "keeps (sys s) (sys s1) \<and> sources s1 = sources s \<and> next_source s1 = next_source s \<and> outputs s1 = outputs s \<and>
      set (live_rbs s) \<subseteq> set (live_rbs s1) \<and> out_ok s1 out' \<and> is_anland out' \<and> (0 < o_buf_count out' \<longrightarrow> o_buf_count out' = buf_count c')"
    proof (cases "get_buf_count c' = 0")
      case True
      then show ?thesis using im o F by (auto simp: anland_output_import_dmabufs_def)
    next
      case False
      from o(1) F obtain wd ht rf where m: "o_mode ?o = Some (wd, ht, rf)" unfolding out_ok_def by (metis not_Some_eq prod_cases3)
      obtain ok out2 s2 where l: "import_loop R c' wd ht 0 (buf_count c') ?o s = (ok, out2, s2)" by (metis prod_cases3)
      have L: "length (renderbuffers ?o) = 8" using o by (simp add: out_ok_def)
      note I = import_loop_effect [OF l L]
      have r: "s1 = s2" "out' = (if ok then out2\<lparr>o_buf_count := buf_count c'\<rparr> else out2)"
        using im False m l by (auto simp: anland_output_import_dmabufs_def get_buf_count_def split: if_splits)
      then show ?thesis using I o F assms(4) by (auto simp: out_ok_def)
    qed
    have outs: "outputs s' = (outputs s)[i := out']" "live_rbs s' = live_rbs s1" using s' k by (simp_all add: set_output_def)
    have ok: "out_ok s' out" if "out \<in> set (outputs s)" for out
      using z that k outs by (auto simp: out_ok_def)
    have "length (filter is_anland (outputs s')) \<le> 1" using one outs F k by (simp add: length_filter_update)
    moreover have "out_ok s' out'" using k outs by (simp add: out_ok_def)
    ultimately have "outs_ok b' c' s'" unfolding outs_ok_def outs(1)
      using ok z k b' outs by (auto dest!: set_update_subset_insert [THEN subsetD])
    then show ?thesis using k s' by (simp add: set_output_def)
  qed
  then show "outs_ok b' c' s'" "keeps (sys s) (sys s')" "sources s' = sources s" "next_source s' = next_source s" by simp_all
qed

subsection \<open>The remaining handlers\<close>

lemma schedule_first_output_sel [simp]:
  "sys (schedule_first_output s) = sys s" "sources (schedule_first_output s) = sources s"
  "next_source (schedule_first_output s) = next_source s" "outputs (schedule_first_output s) = outputs s"
  "live_rbs (schedule_first_output s) = live_rbs s"
  by (simp_all add: schedule_first_output_def split: option.split)

text \<open>A new fd source of the backend's own.\<close>

lemma src_ok_add:
  assumes ok: "src_ok b c s" and src: "sources s' = (sources s)(next_source s \<mapsto> Fd_src f h)" "next_source s' = Suc (next_source s)"
    and new: "(buf_ready_source b' = Some (next_source s) \<and> f = buf_ready_efd c \<and> h = Buf_ready \<and> buf_ready_source b = None \<and> input_fd_source b' = input_fd_source b) \<or>
       (input_fd_source b' = Some (next_source s) \<and> f = data_fd c \<and> h = Input_fd \<and> input_fd_source b = None \<and> buf_ready_source b' = buf_ready_source b)"
    and tm: "reconnect_timer b' = reconnect_timer b"
  shows "src_ok b' c s'"
proof -
  have lt: "i < next_source s" if "sources s i = Some x" for i x using ok that unfolding src_ok_def by blast
  have old: "sources s' i = Some x" if "sources s i = Some x" for i x using lt [OF that] that by (simp add: src)
  have new_src: "sources s' (next_source s) = Some (Fd_src f h)" by (simp add: src)
  have oA: "buf_ready_source b = Some i \<Longrightarrow> sources s' i = Some (Fd_src (buf_ready_efd c) Buf_ready)"
    and oB: "input_fd_source b = Some i \<Longrightarrow> sources s' i = Some (Fd_src (data_fd c) Input_fd)" for i
    using ok old unfolding src_ok_def by blast+
  have A: "\<forall>i. buf_ready_source b' = Some i \<longrightarrow> sources s' i = Some (Fd_src (buf_ready_efd c) Buf_ready)"
    using oA new new_src by (metis option.inject)
  have B: "\<forall>i. input_fd_source b' = Some i \<longrightarrow> sources s' i = Some (Fd_src (data_fd c) Input_fd)"
    using oB new new_src by (metis option.inject)
  have C: "\<forall>i. reconnect_timer b' = Some i \<longrightarrow> (\<exists>ms. sources s' i = Some (Timer_src Reconnect ms))"
    using ok old tm unfolding src_ok_def by metis
  have D: "\<forall>i f' h'. sources s' i = Some (Fd_src f' h') \<longrightarrow> buf_ready_source b' = Some i \<or> input_fd_source b' = Some i"
  proof (intro allI impI)
    fix i f' h'
    assume a: "sources s' i = Some (Fd_src f' h')"
    show "buf_ready_source b' = Some i \<or> input_fd_source b' = Some i"
    proof (cases "i = next_source s")
      case False
      then have "sources s i = Some (Fd_src f' h')" using a by (simp add: src)
      then have "buf_ready_source b = Some i \<or> input_fd_source b = Some i" using ok unfolding src_ok_def by blast
      then show ?thesis using new by auto
    qed (use new in auto)
  qed
  have E: "\<forall>i. sources s' i \<noteq> None \<longrightarrow> i < next_source s'"
  proof (intro allI impI)
    fix i
    assume "sources s' i \<noteq> None"
    then have "i = next_source s \<or> sources s i \<noteq> None" unfolding src by (cases "i = next_source s") simp_all
    then show "i < next_source s'" using lt unfolding src by fastforce
  qed
  show ?thesis unfolding src_ok_def using A B C D E by blast
qed

lemma watch_data_fd_ok:
  assumes "src_ok b c s" and "watch_data_fd c b s = (b', s')"
  shows "src_ok b' c s'" "\<exists>x. b' = b\<lparr>input_fd_source := x\<rparr>" "keeps (sys s) (sys s')" "outputs s' = outputs s" "live_rbs s' = live_rbs s"
proof -
  have "src_ok b' c s' \<and> (\<exists>x. b' = b\<lparr>input_fd_source := x\<rparr>) \<and> keeps (sys s) (sys s') \<and> outputs s' = outputs s \<and> live_rbs s' = live_rbs s"
  proof (cases "input_fd_source b = None \<and> get_data_fd c \<ge> 0")
    case False
    then have "b' = b" "s' = s" using assms(2) by (auto simp: watch_data_fd_def)
    moreover have "b = b\<lparr>input_fd_source := input_fd_source b\<rparr>" by simp
    ultimately show ?thesis using assms(1) by (metis keeps_refl)
  next
    case True
    obtain i s1 where a: "add_source (Fd_src (data_fd c) Input_fd) s = (i, s1)" by fastforce
    have b': "b' = b\<lparr>input_fd_source := i\<rparr>" "s' = s1" using assms(2) True a by (simp_all add: watch_data_fd_def get_data_fd_def)
    from a show ?thesis
    proof (cases rule: add_sourceD)
      case (1 fs)
      have "src_ok b' c s' = src_ok b c s" unfolding b' 1 src_ok_def using True by simp
      then show ?thesis using assms(1) b' 1(1) by (auto simp: keeps_def)
    next
      case (2 fs)
      have "src_ok b' c s'" unfolding b'
      proof (rule src_ok_add [OF assms(1)])
        show "sources s1 = (sources s)(next_source s \<mapsto> Fd_src (data_fd c) Input_fd)" "next_source s1 = Suc (next_source s)"
          unfolding 2(1) by simp_all
      qed (simp_all add: True 2(2))
      then show ?thesis using b' 2 by (auto simp: keeps_def)
    qed
  qed
  then show "src_ok b' c s'" "\<exists>x. b' = b\<lparr>input_fd_source := x\<rparr>" "keeps (sys s) (sys s')" "outputs s' = outputs s" "live_rbs s' = live_rbs s"
    by simp_all
qed

lemma anland_buf_ready_handler_step:
  assumes inv: "ainv X b c s" and src: "buf_ready_source b = Some i" and h: "anland_buf_ready_handler R f b s = Some (b', s')"
  shows "astep X b c s b' s'"
proof -
  have d: "display b = Some c" "src_ok b c s" "pinv X c (sys s)" using inv by (simp_all add: ainv_def)
  have nf: "\<not> in_fallback b" "\<not> fallback c" using inv src by (auto simp: ainv_def fb_ok_def)
  show ?thesis
  proof (cases "dmabuf_received b")
    case True
    obtain ok w where r: "sys_eventfd_read f (sys s) = (ok, w)" by fastforce
    have e: "b' = b\<lparr>consumer_ready := True\<rparr>" "s' = schedule_first_output (s\<lparr>sys := w\<rparr>)"
      using h d True r by (simp_all add: anland_buf_ready_handler_def)
    have k: "keeps (sys s) w" using r by (rule sys_eventfd_keeps)
    have "ainv X b' c s" using inv nf by (simp add: e ainv_def src_ok_def fb_ok_def armed_def outs_ok_def)
    then have "astep X b c s b' s" by (auto simp: astep_def ainv_def intro: pstep_refl)
    then show ?thesis by (rule astep_frame) (simp_all add: e k)
  next
    case False
    obtain r c1 w where wr: "wait_buffer_async_result (wait_buffer_async c) (sys s) = Some (r, c1, w)"
      using h d False by (auto simp: anland_buf_ready_handler_def bind_Some_iff)
    have ps: "pstep X c (sys s) c1 w"
      using wait_buffer_async_result_step(1) [OF _ wr, of X] d(3) by (simp add: wait_buffer_async_def)
    have cb: "cbstep c c1" and ok: "r = 0 \<Longrightarrow> \<not> fallback c1"
      using wait_result_cb [OF wr] nf by (simp_all add: wait_buffer_async_def)
    obtain b1 s1 where rt: "returned c c1 w b s = (b1, s1)" by fastforce
    note R = returned_step [OF inv ps cb _ rt, simplified False, simplified]
    show ?thesis
    proof (cases "r = 0")
      case False
      then show ?thesis using h d \<open>\<not> dmabuf_received b\<close> wr rt R(1) by (simp add: anland_buf_ready_handler_def)
    next
      case r0: True
      have e1: "b1 = b\<lparr>display := Some c1\<rparr>" "s1 = s\<lparr>sys := w\<rparr>" using R(3) ok r0 by simp_all
      from R(1) obtain c' where "ainv X b1 c' s1" by (auto simp: astep_def)
      with R(2) have inv1: "ainv X b1 c1 s1" by (auto simp: ainv_def)
      let ?s2 = "import_first_output R c1 s1"
      let ?b2 = "b1\<lparr>dmabuf_received := True\<rparr>"
      have cnt: "buf_count c1 \<le> 8" using inv1 by (simp add: ainv_def pinv_def pshape_def)
      have o1: "outs_ok b1 c1 s1" using inv1 by (simp add: ainv_def)
      note I = import_first_output_ok [OF o1 _ _ cnt, of ?b2 R ?s2]
      have I': "outs_ok ?b2 c1 ?s2" "keeps (sys s1) (sys ?s2)" "sources ?s2 = sources s1" "next_source ?s2 = next_source s1"
        using I nf \<open>\<not> dmabuf_received b\<close> by (simp_all add: e1(1))
      obtain b3 s3 where wd: "watch_data_fd c1 ?b2 ?s2 = (b3, s3)" by fastforce
      have so: "src_ok ?b2 c1 ?s2" using inv1 I' by (simp add: ainv_def src_ok_def)
      note W = watch_data_fd_ok [OF so wd]
      obtain x where b3: "b3 = ?b2\<lparr>input_fd_source := x\<rparr>" using W(2) by blast
      have e: "b' = b3\<lparr>consumer_ready := True\<rparr>" "s' = schedule_first_output s3"
        using h d \<open>\<not> dmabuf_received b\<close> wr rt r0 wd by (simp_all add: anland_buf_ready_handler_def)
      have k: "keeps (sys s1) (sys s')" using keeps_trans [OF I'(2) W(3)] by (simp add: e)
      have "outs_ok b' c1 s'" using I'(1) W(4,5) by (simp add: e b3 outs_ok_def out_ok_def)
      moreover have "src_ok b' c1 s'" using W(1) by (simp add: e b3 src_ok_def)
      moreover have "fb_ok b' s'" "armed b' s'" using nf by (simp_all add: e b3 e1 fb_ok_def armed_def)
      moreover have "pinv X c1 (sys s')"
        using pstep_pinv [OF pstep_keeps [OF _ k, of X c1]] inv1 by (simp add: ainv_def)
      ultimately have "ainv X b' c1 s'" using inv1 by (simp add: ainv_def e b3)
      moreover have "pstep X c (sys s) c1 (sys s')" by (rule pstep_keeps_trans [OF _ k]) (simp add: ps e1)
      ultimately show ?thesis by (auto simp: astep_def)
    qed
  qed
qed

lemma timer_update_ok:
  assumes "src_ok b c s" and "reconnect_timer b = Some i"
  shows "timer_update i ms s = s\<lparr>sources := (sources s)(i \<mapsto> Timer_src Reconnect ms)\<rparr>" "src_ok b c (timer_update i ms s)"
proof -
  obtain m where t: "sources s i = Some (Timer_src Reconnect m)" using assms unfolding src_ok_def by blast
  then show e: "timer_update i ms s = s\<lparr>sources := (sources s)(i \<mapsto> Timer_src Reconnect ms)\<rparr>" by (simp add: timer_update_def)
  have ne: "buf_ready_source b \<noteq> Some i" "input_fd_source b \<noteq> Some i" using assms t unfolding src_ok_def by force+
  have lt: "i < next_source s" using assms t unfolding src_ok_def by blast
  let ?f = "(sources s)(i \<mapsto> Timer_src Reconnect ms)"
  have "buf_ready_source b = Some j \<Longrightarrow> ?f j = Some (Fd_src (buf_ready_efd c) Buf_ready)"
    "input_fd_source b = Some j \<Longrightarrow> ?f j = Some (Fd_src (data_fd c) Input_fd)"
    "?f j = Some (Fd_src f h) \<Longrightarrow> buf_ready_source b = Some j \<or> input_fd_source b = Some j"
    "?f j \<noteq> None \<Longrightarrow> j < next_source s" for j f h
    using assms(1) ne lt unfolding src_ok_def by (cases "j = i"; simp)+
  moreover have "\<exists>ms. ?f j = Some (Timer_src Reconnect ms)" if "reconnect_timer b = Some j" for j using assms(2) that by simp
  ultimately show "src_ok b c (timer_update i ms s)" unfolding e src_ok_def by simp
qed

lemma drop_outputs:
  assumes "outs_ok b c s"
  shows "outs_ok b' c' (anland_drop_renderbuffers s)" "\<forall>out \<in> set (outputs (anland_drop_renderbuffers s)). o_buf_count out = 0"
    "sys (anland_drop_renderbuffers s) = sys s" "sources (anland_drop_renderbuffers s) = sources s"
    "next_source (anland_drop_renderbuffers s) = next_source s" "live_rbs (anland_drop_renderbuffers s) = live_rbs s"
proof -
  let ?s = "anland_drop_renderbuffers s"
  show "sys ?s = sys s" "sources ?s = sources s" "next_source ?s = next_source s" and l: "live_rbs ?s = live_rbs s"
    by (simp_all add: anland_drop_renderbuffers_def set_output_def split: option.split)
  have z: "\<forall>out \<in> set (outputs ?s). o_buf_count out = 0 \<and> out_ok s out" and n: "length (filter is_anland (outputs ?s)) \<le> 1"
  proof -
    have ok: "out_ok s out" if "out \<in> set (outputs s)" for out using assms that by (simp add: outs_ok_def)
    have one: "length (filter is_anland (outputs s)) \<le> 1" using assms by (simp add: outs_ok_def)
    have "(\<forall>out \<in> set (outputs ?s). o_buf_count out = 0 \<and> out_ok s out) \<and> length (filter is_anland (outputs ?s)) \<le> 1"
    proof (cases "first_anland (outputs s)")
      case None
      then show ?thesis using first_anland_NoneD [OF None] ok one by (fastforce simp: anland_drop_renderbuffers_def out_ok_def)
    next
      case (Some i)
      note F = first_anland_SomeD [OF Some]
      let ?o = "(outputs s ! i)\<lparr>renderbuffers := replicate 8 None, o_buf_count := 0\<rparr>"
      have outs: "outputs ?s = (outputs s)[i := ?o]" using Some by (simp add: anland_drop_renderbuffers_def set_output_def)
      have oi: "out_ok s ?o" using ok [of "outputs s ! i"] F by (simp add: out_ok_def)
      have "o_buf_count out = 0 \<and> out_ok s out" if "out \<in> set ((outputs s)[i := ?o])" for out
      proof -
        from that obtain j where j: "j < length (outputs s)" "out = (outputs s)[i := ?o] ! j" by (auto simp: in_set_conv_nth)
        show ?thesis
        proof (cases "j = i")
          case False
          then have o: "out = outputs s ! j" "out_ok s out" using j ok by auto
          moreover have "\<not> is_anland out" using filter_first_anland [OF one Some j(1)] False o by auto
          ultimately show ?thesis by (auto simp: out_ok_def)
        qed (use j oi in auto)
      qed
      then show ?thesis unfolding outs using one F by (simp add: length_filter_update)
    qed
    then show "\<forall>out \<in> set (outputs ?s). o_buf_count out = 0 \<and> out_ok s out" "length (filter is_anland (outputs ?s)) \<le> 1" by simp_all
  qed
  then show "\<forall>out \<in> set (outputs ?s). o_buf_count out = 0" "outs_ok b' c' ?s" using l by (auto simp: outs_ok_def out_ok_def)
qed

lemma timer_update_opt_ok:
  assumes "src_ok b c s"
  shows "src_ok b c (timer_update_opt (reconnect_timer b) ms s)" "sys (timer_update_opt (reconnect_timer b) ms s) = sys s"
    "outputs (timer_update_opt (reconnect_timer b) ms s) = outputs s" "live_rbs (timer_update_opt (reconnect_timer b) ms s) = live_rbs s"
    "reconnect_timer b = Some i \<Longrightarrow> sources (timer_update_opt (reconnect_timer b) ms s) i = Some (Timer_src Reconnect ms)"
  using timer_update_ok [OF assms] assms by (cases "reconnect_timer b"; simp add: timer_update_opt_def)+

text \<open>The timer has fired, so it is disarmed when the handler runs.\<close>

lemma anland_reconnect_timer_handler_step:
  assumes inv: "ainv X b c s" and t: "reconnect_timer b = Some i"
    and h: "anland_reconnect_timer_handler b (timer_update i 0 s) = Some (b', s')"
  shows "astep X b c s b' s'"
proof -
  have d: "display b = Some c" "src_ok b c s" "pinv X c (sys s)" "in_fallback b = fallback c" "outs_ok b c s" "fallback_cb c" "fb_ok b s"
    using inv by (simp_all add: ainv_def)
  note T = timer_update_ok [OF d(2) t, of 0]
  let ?s0 = "timer_update i 0 s"
  show ?thesis
  proof (cases "in_fallback b")
    case False
    then have e: "b' = b" "s' = ?s0" using h by (simp_all add: anland_reconnect_timer_handler_def)
    have "ainv X b c ?s0" using inv T False by (simp add: ainv_def fb_ok_def armed_def outs_ok_def out_ok_def)
    then show ?thesis using e d(3) T(1) by (auto simp: astep_def intro: pstep_refl)
  next
    case True
    let ?s1 = "anland_drop_renderbuffers ?s0"
    have o0: "outs_ok b c ?s0" using d(5) T(1) by (simp add: outs_ok_def out_ok_def)
    note D = drop_outputs [OF o0]
    have src1: "src_ok b c ?s1" using T(2) D(4,5) by (simp add: src_ok_def)
    have fb: "fallback c" "buf_ready_source b = None" "input_fd_source b = None" using True d(4,7) by (simp_all add: fb_ok_def)
    from h True d(1) obtain r c1 w where tr: "try_reconnect c (sys ?s1) = Some (r, c1, w)"
      by (auto simp: anland_reconnect_timer_handler_def anland_try_reconnect_def bind_Some_iff)
    have sys1: "sys ?s1 = sys s" using D(3) T(1) by simp
    have ps: "pstep X c (sys s) c1 w" using try_reconnect_step(1) [OF d(3)] tr sys1 by simp
    note C = try_reconnect_cb [OF tr fb(1)]
    let ?b1 = "b\<lparr>display := Some c1\<rparr>" and ?s2 = "?s1\<lparr>sys := w\<rparr>"
    have rt: "returned c c1 w b ?s1 = (?b1, ?s2)" using C by (simp add: returned_def)
    have nofd: "sources ?s1 j \<noteq> Some (Fd_src f hd)" for j f hd using src1 fb unfolding src_ok_def by simp
    have src2: "src_ok ?b1 c1 ?s2" using src1 fb nofd unfolding src_ok_def by simp
    show ?thesis
    proof (cases "r < 0")
      case True
      then have fb1: "fallback c1" using C by auto
      have e: "b' = ?b1" "s' = timer_update_opt (reconnect_timer ?b1) 200 ?s2"
        using h \<open>in_fallback b\<close> d(1) tr rt True by (auto simp: anland_reconnect_timer_handler_def anland_try_reconnect_def)
      note U = timer_update_opt_ok [OF src2, where ms = 200]
      have "outs_ok b' c1 s'" using D(1) [of b' c1] U by (simp add: e outs_ok_def out_ok_def)
      moreover have "armed b' s'" using U(5) by (simp add: e armed_def)
      moreover have "fb_ok b' s'" using d(7) by (simp add: e fb_ok_def)
      ultimately have "ainv X b' c1 s'" using U(1,2) pstep_pinv [OF ps] C d(6) fb1 \<open>in_fallback b\<close> by (simp add: ainv_def e)
      then show ?thesis using ps U(2) e by (auto simp: astep_def)
    next
      case False
      then have nf: "\<not> fallback c1" "r = 0" using C by auto
      then have pos: "0 \<le> buf_ready_efd c1" using pstep_pinv [OF ps] by (simp add: pinv_def pshape_def)
      obtain x s3 where a: "add_source (Fd_src (buf_ready_efd c1) Buf_ready) ?s2 = (x, s3)" by fastforce
      let ?b3 = "?b1\<lparr>in_fallback := False, buf_ready_source := x\<rparr>"
      have src3: "src_ok ?b3 c1 s3 \<and> keeps w (sys s3) \<and> outputs s3 = outputs ?s1 \<and> live_rbs s3 = live_rbs ?s1"
        using a
      proof (cases rule: add_sourceD)
        case (1 fs)
        have "src_ok ?b3 c1 s3 = src_ok ?b1 c1 ?s2" unfolding 1 src_ok_def using fb by simp
        then show ?thesis using src2 1(1) by (simp add: keeps_def)
      next
        case (2 fs)
        have "src_ok ?b3 c1 s3"
        proof (rule src_ok_add [OF src2])
          show "sources s3 = (sources ?s2)(next_source ?s2 \<mapsto> Fd_src (buf_ready_efd c1) Buf_ready)" "next_source s3 = Suc (next_source ?s2)"
            unfolding 2(1) by simp_all
        qed (simp_all add: 2(2) fb)
        then show ?thesis using 2(1) by (simp add: keeps_def)
      qed
      have e: "b' = ?b3" "s' = timer_update_opt (reconnect_timer ?b3) 0 s3"
        using h \<open>in_fallback b\<close> d(1) tr rt False pos a
        by (auto simp: anland_reconnect_timer_handler_def anland_try_reconnect_def get_buffer_ready_fd_def)
      note U = timer_update_opt_ok [OF conjunct1 [OF src3], where ms = 0]
      have k: "keeps w (sys s')" using src3 U(2) e by simp
      have "outs_ok b' c1 s'" using D(1) [of b' c1] U src3 by (simp add: e outs_ok_def out_ok_def)
      moreover have "armed b' s'" "fb_ok b' s'" by (simp_all add: e armed_def fb_ok_def)
      moreover have "pinv X c1 (sys s')" using pstep_pinv [OF pstep_keeps [OF pstep_pinv [OF ps] k]] .
      ultimately have "ainv X b' c1 s'" using U(1) C d(6) nf by (simp add: ainv_def e)
      moreover have "pstep X c (sys s) c1 (sys s')" by (rule pstep_keeps_trans [OF ps k])
      ultimately show ?thesis by (auto simp: astep_def)
    qed
  qed
qed

text \<open>The debts of the buffers after a frame with damage \<open>dmg\<close>, before the painted buffer's is cleared.\<close>

definition owed :: "'r region_ops \<Rightarrow> 'r \<Rightarrow> 'r anland_output \<Rightarrow> 'r list" where
  "owed R dmg out = map (\<lambda>a. r_union R a (r_union R dmg (o_region out))) (take (o_buf_count out) (accum_damage out)) @
     drop (o_buf_count out) (accum_damage out)"

lemma repaint_effect:
  assumes d: "display b = Some c" and idx: "get_selected_idx c (sys s) < o_buf_count (outputs s ! i)"
    and rb: "renderbuffers (outputs s ! i) ! get_selected_idx c (sys s) = Some rb"
    and h: "anland_output_repaint R dmg i b s = (b', s')"
  shows "outputs s' = (outputs s)[i := (outputs s ! i)\<lparr>accum_damage := (owed R dmg (outputs s ! i))[get_selected_idx c (sys s) := r_empty R]\<rparr>]"
    "wlog s' = wlog s @ [Repaint_output (owed R dmg (outputs s ! i) ! get_selected_idx c (sys s)) rb,
        if b_refresh b = 0 then Add_idle_finish else Arm_frame_timer]"
    "sys s' = (if consumer_ready b then snd (trigger_refresh c (sys s)) else sys s)" "b' = b\<lparr>consumer_ready := False\<rparr>"
    "sources s' = sources s" "next_source s' = next_source s" "live_rbs s' = live_rbs s"
proof -
  let ?o = "outputs s ! i" and ?idx = "get_selected_idx c (sys s)"
  let ?t = "emit_calls [Repaint_output (owed R dmg ?o ! ?idx) rb] s"
  let ?u = "set_output i (?o\<lparr>accum_damage := (owed R dmg ?o)[?idx := r_empty R]\<rparr>) ?t"
  have nz: "o_buf_count ?o \<noteq> 0" "\<not> o_buf_count ?o \<le> ?idx" using idx by simp_all
  have "anland_output_repaint R dmg i b s =
     (let (b, s) = (if consumer_ready b then (b\<lparr>consumer_ready := False\<rparr>, ?u\<lparr>sys := snd (trigger_refresh c (sys s))\<rparr>) else (b, ?u))
      in (b, emit_calls [if b_refresh b = 0 then Add_idle_finish else Arm_frame_timer] s))"
    unfolding anland_output_repaint_def owed_def Let_def using nz d rb by (simp add: set_output_def)
  with h have e: "b' = b\<lparr>consumer_ready := False\<rparr> \<and> s' = emit_calls [if b_refresh b = 0 then Add_idle_finish else Arm_frame_timer]
      (if consumer_ready b then ?u\<lparr>sys := snd (trigger_refresh c (sys s))\<rparr> else ?u)"
    by (cases "consumer_ready b") auto
  show "b' = b\<lparr>consumer_ready := False\<rparr>" using e by (rule conjunct1)
  show "outputs s' = (outputs s)[i := ?o\<lparr>accum_damage := (owed R dmg ?o)[?idx := r_empty R]\<rparr>]"
    "wlog s' = wlog s @ [Repaint_output (owed R dmg ?o ! ?idx) rb, if b_refresh b = 0 then Add_idle_finish else Arm_frame_timer]"
    "sys s' = (if consumer_ready b then snd (trigger_refresh c (sys s)) else sys s)"
    "sources s' = sources s" "next_source s' = next_source s" "live_rbs s' = live_rbs s"
    unfolding conjunct2 [OF e] by (simp_all add: set_output_def)
qed

lemma anland_output_repaint_step:
  assumes inv: "ainv X b c s" and i: "i < length (outputs s)" and h: "anland_output_repaint R dmg i b s = (b', s')"
  shows "astep X b c s b' s'"
proof -
  let ?o = "outputs s ! i"
  have d: "display b = Some c" "pinv X c (sys s)" "out_ok s ?o" using inv i by (simp_all add: ainv_def outs_ok_def)
  let ?idx = "get_selected_idx c (sys s)"
  show ?thesis
  proof (cases "?idx < o_buf_count ?o \<and> renderbuffers ?o ! ?idx \<noteq> None")
    case False
    then have "b' = b" "s' = emit_calls [Arm_frame_timer] s"
      using h d(1) by (auto simp: anland_output_repaint_def Let_def split: if_splits)
    then show ?thesis using astep_frame [OF astep_refl [OF inv]] by simp
  next
    case True
    then obtain rb where rb: "?idx < o_buf_count ?o" "renderbuffers ?o ! ?idx = Some rb" by auto
    note E = repaint_effect [OF d(1) rb h]
    have k: "keeps (sys s) (sys s')" unfolding E(3) by (simp add: trigger_refresh_def sys_eventfd_keeps)
    let ?o' = "?o\<lparr>accum_damage := (owed R dmg ?o)[?idx := r_empty R]\<rparr>"
    have ok': "out_ok s' ?o'" using d(3) by (simp add: out_ok_def owed_def E(7))
    have "out_ok s' out \<and> (0 < o_buf_count out \<longrightarrow> in_fallback b \<or> dmabuf_received b \<and> o_buf_count out = buf_count c)"
      if "out \<in> set (outputs s')" for out
    proof -
      have "out = ?o' \<or> out \<in> set (outputs s)" using that set_update_subset_insert unfolding E(1) by fastforce
      moreover have "?o \<in> set (outputs s)" using i by simp
      ultimately show ?thesis using inv ok' unfolding ainv_def outs_ok_def by (auto simp: out_ok_def E(7))
    qed
    moreover have "length (filter is_anland (outputs s')) \<le> 1"
      using inv i unfolding E(1) by (simp add: length_filter_update ainv_def outs_ok_def)
    ultimately have "outs_ok b' c s'" by (simp add: outs_ok_def E(4))
    moreover have "src_ok b' c s'" "fb_ok b' s'" "armed b' s'"
      using inv by (simp_all add: E(4-6) ainv_def src_ok_def fb_ok_def armed_def)
    moreover have "pinv X c (sys s')" using pstep_pinv [OF pstep_keeps [OF d(2) k]] .
    ultimately have "ainv X b' c s'" using inv by (simp add: ainv_def E(4))
    then show ?thesis using pstep_keeps [OF d(2) k] by (auto simp: astep_def)
  qed
qed

lemma anland_send_window_event_step:
  assumes inv: "ainv X b c s" and h: "anland_send_window_event ty wid pid app ttl (Anland_backend b # bs) s = Some (bs', s')"
  shows "\<exists>b'. bs' = Anland_backend b' # bs \<and> astep X b c s b' s'"
proof -
  have d: "display b = Some c" "pinv X c (sys s)" using inv by (simp_all add: ainv_def)
  from h d(1) obtain r c1 w where p: "push_window_event c (window_event ty wid pid app ttl) (sys s) = Some (r, c1, w)"
    by (auto simp: anland_send_window_event_def bind_Some_iff)
  obtain b1 s1 where rt: "returned c c1 w b s = (b1, s1)" by fastforce
  note C = push_window_event_cb [OF p]
  have "astep X b c s b1 s1"
    by (rule returned_step(1) [OF inv push_window_event_step [OF d(2) p] conjunct1 [OF C] _ rt]) (use C in blast)
  moreover have "bs' = Anland_backend b1 # bs" "s' = s1" using h d(1) p rt by (simp_all add: anland_send_window_event_def)
  ultimately show ?thesis by blast
qed

text \<open>The compositor enables an output whose mode has been set, or disables one.\<close>

lemma output_added_step:
  assumes inv: "ainv X b c s" and "out_ok s out" and "o_buf_count out = 0" and "is_anland out \<longrightarrow> filter is_anland (outputs s) = []"
  shows "astep X b c s b (s\<lparr>outputs := outputs s @ [out]\<rparr>)"
proof -
  have "length (filter is_anland (outputs s)) \<le> 1" using inv by (simp add: ainv_def outs_ok_def)
  then have "ainv X b c (s\<lparr>outputs := outputs s @ [out]\<rparr>)"
    using assms unfolding ainv_def by (auto simp: src_ok_def fb_ok_def armed_def outs_ok_def out_ok_def)
  then show ?thesis using inv by (auto simp: astep_def ainv_def intro: pstep_refl)
qed

subsection \<open>Creation\<close>

text \<open>The world before the backend exists: it has no sources and no outputs yet.\<close>

definition bare :: "'r wes \<Rightarrow> bool" where
  "bare s \<longleftrightarrow> sources s = (\<lambda>_. None) \<and> outputs s = []"

definition fresh_backend :: "anland_backend \<Rightarrow> bool" where
  "fresh_backend b \<longleftrightarrow> input_fd_source b = None \<and> buf_ready_source b = None \<and> reconnect_timer b = None \<and> \<not> consumer_ready b \<and>
     \<not> dmabuf_received b \<and> \<not> in_fallback b"

lemma bare_wtry: "wtry s = (ok, s') \<Longrightarrow> bare s \<Longrightarrow> bare s' \<and> keeps (sys s) (sys s')"
  using wtryD [of s ok s'] by (auto simp: bare_def)

lemma add_timer_ok:
  assumes "bare s" and "fresh_backend b" and "add_source (Timer_src Reconnect 0) s = (t, s')"
  shows "src_ok (b\<lparr>reconnect_timer := t\<rparr>) c s' \<and> keeps (sys s) (sys s') \<and> outputs s' = []"
  using assms(3)
proof (cases rule: add_sourceD)
  case (1 fs)
  then show ?thesis using assms(1,2) by (simp add: src_ok_def bare_def fresh_backend_def keeps_def)
next
  case (2 fs)
  then show ?thesis using assms(1,2) by (simp add: src_ok_def bare_def fresh_backend_def keeps_def)
qed

lemma add_ready_ok:
  assumes "src_ok b c s" and "buf_ready_source b = None" and "add_source (Fd_src (buf_ready_efd c) Buf_ready) s = (x, s')"
  shows "src_ok (b\<lparr>buf_ready_source := x\<rparr>) c s' \<and> keeps (sys s) (sys s') \<and> outputs s' = outputs s \<and> live_rbs s' = live_rbs s"
  using assms(3)
proof (cases rule: add_sourceD)
  case (1 fs)
  have "src_ok (b\<lparr>buf_ready_source := x\<rparr>) c s' = src_ok b c s" unfolding 1 src_ok_def using assms(2) by simp
  then show ?thesis using assms(1) 1(1) by (simp add: keeps_def)
next
  case (2 fs)
  have "src_ok (b\<lparr>buf_ready_source := x\<rparr>) c s'"
  proof (rule src_ok_add [OF assms(1)])
    show "sources s' = (sources s)(next_source s \<mapsto> Fd_src (buf_ready_efd c) Buf_ready)" "next_source s' = Suc (next_source s)"
      unfolding 2(1) by simp_all
  qed (simp_all add: 2(2) assms(2))
  then show ?thesis using 2(1) by (simp add: keeps_def)
qed

lemma create_failed_sel: "fst (create_failed b s) = None" "sys (snd (create_failed b s)) = producer_disconnect (display b) (sys s)"
  "sources (snd (create_failed b s)) = sources s"
  by (simp_all add: create_failed_def anland_input_destroy_def Let_def)

text \<open>
  Registering: either the backend is complete and the invariant holds, or the connection has been
  closed again, with the sources still registered.
\<close>

lemma anland_register_step:
  assumes s: "bare s" and b: "fresh_backend b" "display b = Some c" and c: "c = ctx\<lparr>fallback_cb := True\<rparr>" "\<not> fallback c" "pinv X c (sys s)"
    and r: "anland_register b ctx s = (res, s')"
  shows "\<exists>w. keeps (sys s) w \<and> (case res of
      Some b' \<Rightarrow> ainv X b' c s' \<and> sys s' = w
    | None \<Rightarrow> sys s' = producer_disconnect (Some c) w)"
proof -
  obtain t s1 where t: "add_source (Timer_src Reconnect 0) s = (t, s1)" by fastforce
  let ?b1 = "b\<lparr>reconnect_timer := t\<rparr>"
  note T = add_timer_ok [OF s b(1) t, of c]
  have pos: "0 \<le> buf_ready_efd c" using c(2,3) by (simp add: pinv_def pshape_def)
  obtain x s2 where x: "add_source (Fd_src (buf_ready_efd c) Buf_ready) s1 = (x, s2)" by fastforce
  let ?b2 = "?b1\<lparr>buf_ready_source := x\<rparr>"
  have bn: "buf_ready_source ?b1 = None" using b(1) by (simp add: fresh_backend_def)
  note A = add_ready_ok [OF conjunct1 [OF T] bn x]
  let ?r1 = "Register_api ''weston_windowed_output_api_anland_v2''" and ?r2 = "Register_api ''weston_anland_window_api_v1''"
  obtain ok1 s3 where r1: "wtry (emit_calls [?r1] s2) = (ok1, s3)" by fastforce
  obtain ok2 s4 where r2: "wtry (emit_calls [?r2] s3) = (ok2, s4)" by fastforce
  note W1 = wtryD [OF r1] and W2 = wtryD [OF r2]
  have k3: "keeps (sys s) (sys s3)" using T A W1(2) by (auto intro: keeps_trans)
  have k4: "keeps (sys s) (sys s4)" using keeps_trans [OF k3] W2(2) by simp
  have res: "(res, s') = (if \<not> ok1 then create_failed ?b2 s3 else if \<not> ok2 then create_failed ?b2 s4 else (Some ?b2, s4))"
    using r t x r1 r2 pos c(1) by (auto simp: anland_register_def get_buffer_ready_fd_def Let_def)
  show ?thesis
  proof (cases "ok1 \<and> ok2")
    case True
    then have e: "res = Some ?b2" "s' = s4" using res by simp_all
    have same: "sources s4 = sources s2" "next_source s4 = next_source s2" "outputs s4 = outputs s2" using W1(1) W2(1) by auto
    have "src_ok ?b2 c s4" using A same by (simp add: src_ok_def)
    moreover have "outs_ok ?b2 c s4" using A T same by (simp add: outs_ok_def)
    moreover have "fb_ok ?b2 s4" "armed ?b2 s4" using b(1) by (simp_all add: fb_ok_def armed_def fresh_backend_def)
    moreover have "pinv X c (sys s4)" using pstep_pinv [OF pstep_keeps [OF c(3) k4]] .
    ultimately have "ainv X ?b2 c s4" using b c(1,2) by (simp add: ainv_def fresh_backend_def)
    then show ?thesis using e k4 by auto
  next
    case False
    then obtain s5 where "s5 = s3 \<or> s5 = s4" "(res, s') = create_failed ?b2 s5" using res by (cases ok1) auto
    then have "res = None" "sys s' = producer_disconnect (Some c) (sys s5)" "keeps (sys s) (sys s5)"
      using create_failed_sel [of ?b2 s5] b(2) k3 k4 by (auto simp: prod_eq_iff)
    then show ?thesis by auto
  qed
qed

lemma anland_input_init_ok:
  assumes "anland_input_init (anland_backend_init config) s = (ok, b, s')" and "bare s"
  shows "bare s'" "keeps (sys s) (sys s')" "fresh_backend b" "display b = None" "socket_path b = socket_path (anland_backend_init config)"
proof -
  obtain ok1 s1 where t: "wtry ((emit_calls [Seat_init] s)\<lparr>pointer_state := True\<rparr>) = (ok1, s1)" by fastforce
  obtain td s2 where t2: "wtry (s1\<lparr>touch_state := True, num_tp := 0\<rparr>) = (td, s2)" by fastforce
  have s1: "bare s1 \<and> keeps (sys s) (sys s1)" using bare_wtry [OF t] assms(2) by (simp add: bare_def)
  then have s2: "bare s2 \<and> keeps (sys s) (sys s2)" using bare_wtry [OF t2] by (auto simp: bare_def intro: keeps_trans)
  have "(b = anland_backend_init config \<and> s' = s1) \<or> (b = (anland_backend_init config)\<lparr>touch_device := td\<rparr> \<and> s' = s2)"
    using assms(1) t t2 by (auto simp: anland_input_init_def Let_def split: if_splits)
  then show "bare s'" "keeps (sys s) (sys s')" "fresh_backend b" "display b = None" "socket_path b = socket_path (anland_backend_init config)"
    using s1 s2 by (auto simp: fresh_backend_def anland_backend_init_def)
qed

lemma anland_backend_create_step:
  assumes h: "holds X (sys s)" and bare: "bare s" and r: "anland_backend_create config s = Some (res, s')"
  shows "case res of
      Some b \<Rightarrow> \<exists>c. ainv X b c s' \<and> lost X (sys s) \<subseteq> lost (powned c @ X) (sys s')
    | None \<Rightarrow> holds X (sys s')"
    "\<exists>rs. reports (sys s') = reports (sys s) @ rs \<and> list_all pbenign rs"
proof -
  obtain ok0 s0 where t0: "wtry s = (ok0, s0)" by fastforce
  note B0 = bare_wtry [OF t0 bare]
  obtain ok1 b1 s1 where t1: "anland_input_init (anland_backend_init config) s0 = (ok1, b1, s1)" by (metis prod_cases3)
  note B1 = anland_input_init_ok [OF t1 conjunct1 [OF B0]]
  have k1: "keeps (sys s) (sys s1)" using B0 B1(2) by (auto intro: keeps_trans)
  have h1: "holds X (sys s1)" using h k1 by (simp add: holds_def keepsD(1))
  have "(case res of
      Some b \<Rightarrow> \<exists>c. ainv X b c s' \<and> lost X (sys s) \<subseteq> lost (powned c @ X) (sys s')
    | None \<Rightarrow> holds X (sys s')) \<and> (\<exists>rs. reports (sys s') = reports (sys s) @ rs \<and> list_all pbenign rs)"
  proof (cases "ok0 \<and> ok1")
    case False
    then have "res = None \<and> (s' = s0 \<or> s' = s1)" using r t0 t1 by (auto simp: anland_backend_create_def split: if_splits)
    then show ?thesis using B0 k1 h h1 by (auto simp: holds_def keepsD)
  next
    case True
    then obtain cx w where p: "producer_connect_to_deamon (socket_path b1) (sys s1) = Some (cx, w)"
      using r t0 t1 by (auto simp: anland_backend_create_def bind_Some_iff)
    note P = producer_connect_step [OF h1 p]
    obtain r1 where r1: "reports w = reports (sys s) @ r1" "list_all pbenign r1" using P(2) keepsD(2) [OF k1] by auto
    show ?thesis
    proof (cases cx)
      case None
      then have "res = None" "sys s' = w" using r t0 t1 True p by (auto simp: anland_backend_create_def anland_input_destroy_def Let_def)
      then show ?thesis using P(1) None r1 by auto
    next
      case (Some ctx)
      let ?c = "ctx\<lparr>fallback_cb := True\<rparr>" and ?b = "anland_connected b1 ctx"
      have c: "\<not> fallback ?c" "pinv X ?c w" "lost X (sys s1) \<subseteq> lost (powned ?c @ X) w" using P(1) Some by (auto simp: pinv_def)
      obtain ok2 s2 where t2: "wtry (emit_calls [Init_renderer] (s1\<lparr>sys := w\<rparr>)) = (ok2, s2)" by fastforce
      have B2: "bare s2 \<and> keeps w (sys s2)" using bare_wtry [OF t2] B1(1) by (simp add: bare_def)
      have b: "fresh_backend ?b" "display ?b = Some ?c"
        using B1(3) by (simp_all add: anland_connected_def producer_set_fallback_callback_def get_screen_info_def fresh_backend_def Let_def)
      have c2: "pinv X ?c (sys s2)" using pstep_pinv [OF pstep_keeps [OF c(2) conjunct2 [OF B2]]] .
      have res: "(res, s') = (if \<not> ok2 then create_failed ?b s2 else anland_register ?b ctx s2)"
        using r t0 t1 True p Some t2 by (auto simp: anland_backend_create_def Let_def split: if_splits)
      have "\<exists>w2. keeps (sys s2) w2 \<and> (case res of Some b' \<Rightarrow> ainv X b' ?c s' \<and> sys s' = w2 | None \<Rightarrow> sys s' = producer_disconnect (Some ?c) w2)"
      proof (cases ok2)
        case False
        then have "res = None" "sys s' = producer_disconnect (Some ?c) (sys s2)"
          using res create_failed_sel [of ?b s2] b(2) by (auto simp: prod_eq_iff)
        then show ?thesis by (auto intro: exI [of _ "sys s2"])
      next
        case True
        then show ?thesis using anland_register_step [OF conjunct1 [OF B2] b refl c(1) c2] res by simp
      qed
      then obtain w2 where w2: "keeps (sys s2) w2" "case res of Some b' \<Rightarrow> ainv X b' ?c s' \<and> sys s' = w2 | None \<Rightarrow> sys s' = producer_disconnect (Some ?c) w2"
        by blast
      have kw: "keeps w w2" using B2 w2(1) by (auto intro: keeps_trans)
      have rep: "reports w2 = reports (sys s) @ r1" using r1(1) keepsD(2) [OF kw] by simp
      show ?thesis
      proof (cases res)
        case None
        have "ostep (powned ?c @ X) w2 X (sys s')"
          using producer_disconnect_step(1) [OF pstep_pinv [OF pstep_keeps [OF c(2) kw]]] w2(2) None by simp
        then show ?thesis using None rep r1(2) by (auto simp: ostep_def)
      next
        case (Some b')
        then have a: "ainv X b' ?c s'" "sys s' = w2" using w2(2) by simp_all
        have "lost X (sys s) \<subseteq> lost (powned ?c @ X) (sys s')"
          using c(3) k1 kw by (simp add: lost_def a(2) keepsD(1))
        then show ?thesis using Some a rep r1(2) by (auto intro!: exI [of _ ?c])
      qed
    qed
  qed
  then show "case res of
      Some b \<Rightarrow> \<exists>c. ainv X b c s' \<and> lost X (sys s) \<subseteq> lost (powned c @ X) (sys s')
    | None \<Rightarrow> holds X (sys s')"
    "\<exists>rs. reports (sys s') = reports (sys s) @ rs \<and> list_all pbenign rs" by auto
qed

subsection \<open>Runs of the backend\<close>

text \<open>
  What can happen to a backend: its sources fire, its outputs are painted, windows are announced, an
  output is enabled, and the rest of the compositor and the kernel change what does not belong to it.
\<close>

inductive anland_reach :: "'r region_ops \<Rightarrow> anland_backend \<Rightarrow> 'r wes \<Rightarrow> anland_backend \<Rightarrow> 'r wes \<Rightarrow> bool" for R b0 s0 where
  start: "anland_reach R b0 s0 b0 s0"
| input: "anland_reach R b0 s0 b s \<Longrightarrow> input_fd_source b = Some i \<Longrightarrow> anland_input_fd_handler b s = Some (b', s') \<Longrightarrow>
    anland_reach R b0 s0 b' s'"
| ready: "anland_reach R b0 s0 b s \<Longrightarrow> buf_ready_source b = Some i \<Longrightarrow> sources s i = Some (Fd_src f Buf_ready) \<Longrightarrow>
    anland_buf_ready_handler R f b s = Some (b', s') \<Longrightarrow> anland_reach R b0 s0 b' s'"
| timer: "anland_reach R b0 s0 b s \<Longrightarrow> reconnect_timer b = Some i \<Longrightarrow> sources s i = Some (Timer_src Reconnect ms) \<Longrightarrow> 0 < ms \<Longrightarrow>
    anland_reconnect_timer_handler b (timer_update i 0 s) = Some (b', s') \<Longrightarrow> anland_reach R b0 s0 b' s'"
| repaint: "anland_reach R b0 s0 b s \<Longrightarrow> i < length (outputs s) \<Longrightarrow> anland_output_repaint R dmg i b s = (b', s') \<Longrightarrow>
    anland_reach R b0 s0 b' s'"
| frame: "anland_reach R b0 s0 b s \<Longrightarrow> anland_reach R b0 s0 b (finish_frame_handler b i s)"
| window: "anland_reach R b0 s0 b s \<Longrightarrow>
    anland_send_window_event ty wid pid app ttl (Anland_backend b # bs) s = Some (Anland_backend b' # bs, s') \<Longrightarrow> anland_reach R b0 s0 b' s'"
| enabled: "anland_reach R b0 s0 b s \<Longrightarrow> out_ok s out \<Longrightarrow> o_buf_count out = 0 \<Longrightarrow>
    is_anland out \<longrightarrow> filter is_anland (outputs s) = [] \<Longrightarrow> anland_reach R b0 s0 b (s\<lparr>outputs := outputs s @ [out]\<rparr>)"
| outside: "anland_reach R b0 s0 b s \<Longrightarrow> keeps (sys s) (sys s') \<Longrightarrow> sources s' = sources s \<Longrightarrow> next_source s' = next_source s \<Longrightarrow>
    outputs s' = outputs s \<Longrightarrow> live_rbs s' = live_rbs s \<Longrightarrow> anland_reach R b0 s0 b s'"

lemma astep_next:
  assumes "astep X b0 c0 s0 b s" and "\<And>c. ainv X b c s \<Longrightarrow> astep X b c s b' s'"
  shows "astep X b0 c0 s0 b' s'"
proof -
  from assms(1) obtain c where c: "ainv X b c s" by (auto simp: astep_def)
  then have "display b = Some c" by (simp add: ainv_def)
  from astep_trans [OF assms(1) this assms(2) [OF c]] show ?thesis .
qed

lemma anland_reach_step:
  assumes "anland_reach R b0 s0 b s" and "ainv X b0 c0 s0"
  shows "astep X b0 c0 s0 b s"
  using assms
proof (induction rule: anland_reach.induct)
  case start
  then show ?case by (rule astep_refl)
next
  case (input b s i b' s')
  then show ?case using astep_next anland_input_fd_handler_step by blast
next
  case (ready b s i f b' s')
  then show ?case using astep_next anland_buf_ready_handler_step by blast
next
  case (timer b s i ms b' s')
  then show ?case using astep_next anland_reconnect_timer_handler_step by blast
next
  case (repaint b s i dmg b' s')
  show ?case by (rule astep_next [OF repaint.IH [OF repaint.prems]]) (rule anland_output_repaint_step [OF _ repaint.hyps(2,3)])
next
  case (frame b s i)
  then have "astep X b0 c0 s0 b s" by simp
  then show ?case by (rule astep_frame) (simp_all add: finish_frame_handler_def)
next
  case (window b s ty wid pid app ttl bs b' s')
  show ?case by (rule astep_next [OF window.IH [OF window.prems]]) (use anland_send_window_event_step [OF _ window.hyps(2)] in auto)
next
  case (enabled b s out)
  show ?case by (rule astep_next [OF enabled.IH [OF enabled.prems]]) (rule output_added_step [OF _ enabled.hyps(2-4)])
next
  case (outside b s s')
  show ?case by (rule astep_frame [OF outside.IH [OF outside.prems] outside.hyps(2-6)])
qed

lemma anland_run_inv:
  assumes "holds X (sys s)" and "bare s" and "anland_backend_create config s = Some (Some b0, s0)" and "anland_reach R b0 s0 b s1"
  shows "\<exists>c. ainv X b c s1" "\<exists>rs. reports (sys s1) = reports (sys s) @ rs \<and> list_all pbenign rs"
proof -
  note C = anland_backend_create_step [OF assms(1-3)]
  from C(1) obtain c0 where c0: "ainv X b0 c0 s0" by auto
  from anland_reach_step [OF assms(4) c0] obtain c where c: "ainv X b c s1" "pstep X c0 (sys s0) c (sys s1)" by (auto simp: astep_def)
  then show "\<exists>c. ainv X b c s1" by blast
  from c(2) C(2) show "\<exists>rs. reports (sys s1) = reports (sys s) @ rs \<and> list_all pbenign rs"
    unfolding pstep_def by (metis append_assoc list_all_append)
qed



text \<open>A world for the examples, with regions as lists of points.\<close>

definition list_regions :: "nat list region_ops" where
  "list_regions = \<lparr>r_empty = [], r_union = (@)\<rparr>"

definition demo_wes :: "os \<Rightarrow> nat list wes" where
  "demo_wes w = \<lparr>sys = w, sources = (\<lambda>_. None), next_source = 0, outputs = [], pending = [], heads = [], touch_state = False,
     num_tp = 0, pointer_state = False, renderer = RENDERER_VULKAN, live_rbs = [], next_rb = 0, wlog = []\<rparr>"

definition demo_config :: anland_config where
  "demo_config = \<lparr>cfg_socket_path = Some ''sock'', cfg_refresh = 0\<rparr>"

text \<open>
  A run up to the first frame: the consumer announces two buffers, the backend imports them, the
  consumer selects the second.
\<close>

definition demo_output :: "nat list anland_output" where
  "demo_output = \<lparr>o_name = ''anland-1'', is_anland = True, o_enabled = True, o_mode = Some (1080, 2400, 60), o_scale = 1, o_heads = 1,
     o_region = [0, 1, 2, 3], finish_frame_timer = None, o_buf_count = 0, renderbuffers = replicate 8 None,
     dmabuf_attrs_arr = replicate 8 None, accum_damage = replicate 8 []\<rparr>"

definition demo_bufs_world :: os where
  "demo_bufs_world = demo_daemon_world\<lparr>polls := [Poll_ready [pollin_event, no_events]], mem := (\<lambda>_. 1),
     rxq := (rxq demo_daemon_world)(23 := [Chunk (enc_hdr (mk_hdr DATA_MSG_BUFS_READY 40)) [31, 32],
       Chunk (enc_bufs [demo_buf 1, demo_buf 2]) []])\<rparr>"

definition demo_run :: "(anland_backend \<times> nat list wes) option" where
  "demo_run = do {
     (b, s) \<leftarrow> anland_backend_create demo_config (demo_wes demo_bufs_world);
     case b of
       None \<Rightarrow> None
     | Some b \<Rightarrow>
         (case buf_ready_source b of
            None \<Rightarrow> None
          | Some i \<Rightarrow>
              (case sources s i of
                 Some (Fd_src f Buf_ready) \<Rightarrow> anland_buf_ready_handler list_regions f b (s\<lparr>outputs := outputs s @ [demo_output]\<rparr>)
               | _ \<Rightarrow> None))
   }"

lemma demo_run_ok: "case demo_run of None \<Rightarrow> False | Some (b, s) \<Rightarrow> map o_buf_count (outputs s) = [2] \<and> length (live_rbs s) = 2"
  unfolding demo_run_def demo_bufs_world_def demo_daemon_world_def screen_frame.frame_def by code_simp


lemma wtry_outputs [simp]: "wtry s = (ok, s') \<Longrightarrow> outputs s' = outputs s"
  by (auto simp: wtry_eq split: list.splits)

lemma add_source_outputs [simp]: "add_source src s = (i, s') \<Longrightarrow> outputs s' = outputs s"
  by (erule add_sourceD) simp_all

lemma create_failed_outputs [simp]: "outputs (snd (create_failed b s)) = outputs s"
  by (simp add: create_failed_def anland_input_destroy_def Let_def)

lemma create_failed_outputsD: "create_failed b s = (r, s') \<Longrightarrow> outputs s' = outputs s"
  by (metis create_failed_outputs snd_conv)

lemma anland_register_outputs:
  assumes "anland_register b ctx s = (res, s')"
  shows "outputs s' = outputs s"
proof -
  obtain t s1 where t: "add_source (Timer_src Reconnect 0) s = (t, s1)" by fastforce
  obtain x s2 where x: "add_source (Fd_src (buf_ready_efd ctx) Buf_ready) s1 = (x, s2)" by fastforce
  let ?s = "if get_buffer_ready_fd ctx \<ge> 0 then s2 else s1"
  obtain ok1 s3 where r1: "wtry (emit_calls [Register_api ''weston_windowed_output_api_anland_v2''] ?s) = (ok1, s3)" by fastforce
  obtain ok2 s4 where r2: "wtry (emit_calls [Register_api ''weston_anland_window_api_v1''] s3) = (ok2, s4)" by fastforce
  have s4: "outputs s3 = outputs s" "outputs s4 = outputs s"
    using wtry_outputs [OF r1] wtry_outputs [OF r2] add_source_outputs [OF t] add_source_outputs [OF x] by (simp_all split: if_splits)
  then show ?thesis using assms t x r1 r2
    by (auto simp: anland_register_def get_buffer_ready_fd_def Let_def split: if_splits dest!: create_failed_outputsD)
qed

lemma create_outputs:
  assumes "anland_backend_create config s = Some (res, s')"
  shows "outputs s' = outputs s"
proof -
  obtain ok0 s0 where t0: "wtry s = (ok0, s0)" by fastforce
  obtain ok1 b1 s1 where t1: "anland_input_init (anland_backend_init config) s0 = (ok1, b1, s1)" by (metis prod_cases3)
  have o1: "outputs s1 = outputs s0"
    using t1 by (auto simp: anland_input_init_def Let_def split: prod.splits if_splits dest!: wtry_outputs)
  have o0: "outputs s0 = outputs s" using t0 by simp
  show ?thesis
  proof (cases "ok0 \<and> ok1")
    case False
    then show ?thesis using assms t0 t1 o0 o1 by (auto simp: anland_backend_create_def split: if_splits)
  next
    case True
    then obtain cx w where p: "producer_connect_to_deamon (socket_path b1) (sys s1) = Some (cx, w)"
      using assms t0 t1 by (auto simp: anland_backend_create_def bind_Some_iff)
    obtain ok2 s2 where t2: "wtry (emit_calls [Init_renderer] (s1\<lparr>sys := w\<rparr>)) = (ok2, s2)" by fastforce
    have o2: "outputs s2 = outputs s" using wtry_outputs [OF t2] o0 o1 by simp
    show ?thesis
    proof (cases cx)
      case None
      then show ?thesis using assms t0 t1 True p o0 o1 by (auto simp: anland_backend_create_def anland_input_destroy_def Let_def)
    next
      case (Some ctx)
      then have "(res, s') = (if \<not> ok2 then create_failed (anland_connected b1 ctx) s2 else anland_register (anland_connected b1 ctx) ctx s2)"
        using assms t0 t1 True p t2 by (auto simp: anland_backend_create_def Let_def split: if_splits)
      then show ?thesis using o2 create_failed_outputs anland_register_outputs by (metis snd_conv)
    qed
  qed
qed

lemma demo_reach:
  "\<exists>b0 s0 b s. anland_backend_create demo_config (demo_wes demo_bufs_world) = Some (Some b0, s0) \<and> demo_run = Some (b, s) \<and>
     anland_reach list_regions b0 s0 b s \<and> map o_buf_count (outputs s) = [2]"
proof -
  from demo_run_ok obtain b s where r: "demo_run = Some (b, s)" "map o_buf_count (outputs s) = [2]" by (auto split: option.splits)
  obtain bo s0 where cr: "anland_backend_create demo_config (demo_wes demo_bufs_world) = Some (bo, s0)"
    using r(1) by (cases "anland_backend_create demo_config (demo_wes demo_bufs_world)") (auto simp: demo_run_def)
  obtain b0 where b0: "bo = Some b0" using r(1) cr by (cases bo) (auto simp: demo_run_def)
  obtain i where i: "buf_ready_source b0 = Some i" using r(1) cr b0 by (cases "buf_ready_source b0") (auto simp: demo_run_def)
  obtain src where src: "sources s0 i = Some src" using r(1) cr b0 i by (cases "sources s0 i") (auto simp: demo_run_def)
  obtain f hd where fh: "src = Fd_src f hd" using r(1) cr b0 i src by (cases src) (auto simp: demo_run_def)
  have "hd = Buf_ready" using r(1) cr b0 i src fh by (cases hd) (auto simp: demo_run_def)
  then have c: "anland_backend_create demo_config (demo_wes demo_bufs_world) = Some (Some b0, s0)"
    "buf_ready_source b0 = Some i" "sources s0 i = Some (Fd_src f Buf_ready)"
    "anland_buf_ready_handler list_regions f b0 (s0\<lparr>outputs := outputs s0 @ [demo_output]\<rparr>) = Some (b, s)"
    using r(1) cr b0 i src fh by (simp_all add: demo_run_def)
  have w: "holds [] (sys (demo_wes demo_bufs_world))" "bare (demo_wes demo_bufs_world)"
    by (simp_all add: holds_def bare_def demo_wes_def)
  from anland_run_inv(1) [OF w c(1) anland_reach.start] obtain cx where a: "ainv [] b0 cx s0" by blast
  have "outputs s0 = []" using create_outputs [OF c(1)] by (simp add: demo_wes_def)
  then have "anland_reach list_regions b0 s0 b0 (s0\<lparr>outputs := outputs s0 @ [demo_output]\<rparr>)"
    by (intro anland_reach.enabled anland_reach.start) (simp_all add: out_ok_def demo_output_def)
  then have "anland_reach list_regions b0 s0 b s" by (rule anland_reach.ready [OF _ c(2) _ c(4)]) (simp add: c(3))
  with c(1) r show ?thesis by (intro exI conjI)
qed




text \<open>
  The reference for the debts: what buffer \<open>j\<close> owes after a sequence of frames is what it owed,
  with the damage of every frame since it was last painted.
\<close>

fun debt :: "nat \<Rightarrow> 'p set \<Rightarrow> (nat \<times> 'p set) list \<Rightarrow> 'p set" where
  "debt j D [] = D"
| "debt j D ((idx, P) # fs) = debt j (if idx = j then {} else D \<union> P) fs"

text \<open>Frames of one output: before each, the consumer and the rest of the world have changed the kernel.\<close>

fun run_frames :: "'r region_ops \<Rightarrow> nat \<Rightarrow> (os \<times> 'r) list \<Rightarrow> anland_backend \<Rightarrow> 'r wes \<Rightarrow> anland_backend \<times> 'r wes" where
  "run_frames R i [] b s = (b, s)"
| "run_frames R i ((w, dmg) # fs) b s = (let (b, s) = anland_output_repaint R dmg i b (s\<lparr>sys := w\<rparr>) in run_frames R i fs b s)"

definition paintable :: "producer_ctx \<Rightarrow> 'r anland_output \<Rightarrow> bool" where
  "paintable c out \<longleftrightarrow> o_buf_count out = buf_count c \<and> 0 < buf_count c \<and> length (accum_damage out) = MAX_BUFS \<and> buf_count c \<le> MAX_BUFS \<and>
     (\<forall>j < buf_count c. renderbuffers out ! j \<noteq> None)"

lemma selected_lt: "0 < buf_count c \<Longrightarrow> get_selected_idx c w < buf_count c"
  by (simp add: get_selected_idx_def split: option.split)

lemma repaint_frame:
  assumes pts: "\<And>a b. pts (r_union R a b) = pts a \<union> pts b" "pts (r_empty R) = {}"
    and d: "display b = Some c" and p: "paintable c (outputs s ! i)" and i: "i < length (outputs s)"
    and h: "anland_output_repaint R dmg i b s = (b', s')"
  shows "display b' = Some c" "paintable c (outputs s' ! i)" "i < length (outputs s')" "o_region (outputs s' ! i) = o_region (outputs s ! i)"
    "j < buf_count c \<Longrightarrow> pts (accum_damage (outputs s' ! i) ! j) =
       (if get_selected_idx c (sys s) = j then {} else pts (accum_damage (outputs s ! i) ! j) \<union> (pts dmg \<union> pts (o_region (outputs s ! i))))"
    "\<exists>reg rb last. wlog s' = wlog s @ [Repaint_output reg rb, last] \<and>
       pts reg = pts (accum_damage (outputs s ! i) ! get_selected_idx c (sys s)) \<union> (pts dmg \<union> pts (o_region (outputs s ! i)))"
proof -
  let ?idx = "get_selected_idx c (sys s)" and ?o = "outputs s ! i"
  have idx: "?idx < o_buf_count ?o" "?idx < buf_count c" using p selected_lt by (auto simp: paintable_def)
  obtain rb where rb: "renderbuffers ?o ! ?idx = Some rb" using p idx by (auto simp: paintable_def)
  note E = repaint_effect [OF d idx(1) rb h]
  have o: "owed R dmg ?o ! k = r_union R (accum_damage ?o ! k) (r_union R dmg (o_region ?o))" if "k < buf_count c" for k
    using that p by (simp add: owed_def paintable_def nth_append)
  have l: "length (owed R dmg ?o) = 8" using p by (simp add: owed_def paintable_def)
  show "display b' = Some c" using d E(4) by simp
  show "paintable c (outputs s' ! i)" "i < length (outputs s')" "o_region (outputs s' ! i) = o_region ?o"
    using p i l by (simp_all add: E(1) paintable_def)
  show "pts (accum_damage (outputs s' ! i) ! j) = (if ?idx = j then {} else pts (accum_damage ?o ! j) \<union> (pts dmg \<union> pts (o_region ?o)))"
    if "j < buf_count c"
  proof -
    have "j < 8" using that p by (simp add: paintable_def)
    then show ?thesis using i l o [OF that] pts by (simp add: E(1) nth_list_update)
  qed
  show "\<exists>reg rb last. wlog s' = wlog s @ [Repaint_output reg rb, last] \<and> pts reg = pts (accum_damage ?o ! ?idx) \<union> (pts dmg \<union> pts (o_region ?o))"
    using E(2) o [OF idx(2)] pts(1) by auto
qed

lemma run_frames_debt:
  assumes pts: "\<And>a b. pts (r_union R a b) = pts a \<union> pts b" "pts (r_empty R) = {}"
    and "display b = Some c" and "paintable c (outputs s ! i)" and "i < length (outputs s)" and "j < buf_count c"
  shows "let (b', s') = run_frames R i fs b s in
     display b' = Some c \<and> paintable c (outputs s' ! i) \<and> i < length (outputs s') \<and> o_region (outputs s' ! i) = o_region (outputs s ! i) \<and>
     pts (accum_damage (outputs s' ! i) ! j) =
       debt j (pts (accum_damage (outputs s ! i) ! j)) (map (\<lambda>(w, dmg). (get_selected_idx c w, pts dmg \<union> pts (o_region (outputs s ! i)))) fs)"
  using assms(3-6)
proof (induction fs arbitrary: b s)
  case (Cons x fs)
  obtain w dmg where x: "x = (w, dmg)" by fastforce
  obtain b1 s1 where h: "anland_output_repaint R dmg i b (s\<lparr>sys := w\<rparr>) = (b1, s1)" by fastforce
  have "paintable c (outputs (s\<lparr>sys := w\<rparr>) ! i)" "i < length (outputs (s\<lparr>sys := w\<rparr>))" using Cons.prems by simp_all
  note F = repaint_frame [OF pts Cons.prems(1) this h]
  show ?case using Cons.IH [OF F(1-3) Cons.prems(4)] F(4) F(5) [OF Cons.prems(4)] by (simp add: x h split_beta Let_def)
qed (simp add: Let_def)

text \<open>
  C18. No change is ever left out of a buffer: however the consumer rotates the buffers, a frame
  repaints the selected one with everything that has changed since that buffer was last painted (the
  reference \<open>debt\<close>) together with its own damage.  The operations on regions are pixman's; that union
  and empty region are those of the sets of pixels is its documented behaviour.
\<close>

theorem damage_never_lost:
  assumes "\<And>a b. pts (r_union R a b) = pts a \<union> pts b" and "pts (r_empty R) = {}"
    and "display b = Some c" and "paintable c (outputs s ! i)" and "i < length (outputs s)"
    and "run_frames R i fs b s = (b1, s1)" and "anland_output_repaint R dmg i b1 (s1\<lparr>sys := w\<rparr>) = (b2, s2)"
  shows "\<exists>reg rb last. wlog s2 = wlog s1 @ [Repaint_output reg rb, last] \<and>
     pts reg = debt (get_selected_idx c w) (pts (accum_damage (outputs s ! i) ! get_selected_idx c w))
         (map (\<lambda>(w, dmg). (get_selected_idx c w, pts dmg \<union> pts (o_region (outputs s ! i)))) fs) \<union>
       (pts dmg \<union> pts (o_region (outputs s ! i)))"
proof -
  have j: "get_selected_idx c w < buf_count c" using assms(4) selected_lt by (simp add: paintable_def)
  note D = run_frames_debt [where pts = pts and fs = fs, OF assms(1-5) j, unfolded assms(6), simplified]
  have d: "display b1 = Some c" "paintable c (outputs (s1\<lparr>sys := w\<rparr>) ! i)" "i < length (outputs (s1\<lparr>sys := w\<rparr>))" using D by simp_all
  from repaint_frame(6) [where pts = pts, OF assms(1,2) d assms(7)] D show ?thesis by simp
qed

definition demo_painting :: "nat list wes" where
  "demo_painting = (demo_wes os_init)\<lparr>outputs := [demo_output\<lparr>o_buf_count := 2, renderbuffers := Some 5 # Some 6 # replicate 6 None\<rparr>]\<rparr>"

definition demo_backend :: anland_backend where
  "demo_backend = (anland_backend_init demo_config)\<lparr>display := Some (demo_ctx\<lparr>buf_count := 2\<rparr>)\<rparr>"

theorem damage_never_lost_witness:
  "let (b1, s1) = run_frames list_regions 0 [(os_init\<lparr>mem := (\<lambda>_. 1)\<rparr>, [7]), (os_init\<lparr>mem := (\<lambda>_. 1)\<rparr>, [8])] demo_backend demo_painting;
       (b2, s2) = anland_output_repaint list_regions [9] 0 b1 (s1\<lparr>sys := os_init\<rparr>)
   in \<exists>reg rb last. wlog s2 = wlog s1 @ [Repaint_output reg rb, last] \<and> set reg = {0, 1, 2, 3, 7, 8, 9}"
proof -
  let ?fs = "[(os_init\<lparr>mem := (\<lambda>_. 1)\<rparr>, [7]), (os_init\<lparr>mem := (\<lambda>_. 1)\<rparr>, [8])]"
  obtain b1 s1 where r: "run_frames list_regions 0 ?fs demo_backend demo_painting = (b1, s1)" by fastforce
  obtain b2 s2 where p: "anland_output_repaint list_regions [9] 0 b1 (s1\<lparr>sys := os_init\<rparr>) = (b2, s2)" by fastforce
  have "paintable (demo_ctx\<lparr>buf_count := 2\<rparr>) (outputs demo_painting ! 0)" "0 < length (outputs demo_painting)"
    by (auto simp: paintable_def demo_painting_def demo_output_def less_Suc_eq numeral_2_eq_2)
  from damage_never_lost [where pts = set, OF _ _ _ this r p]
  have "\<exists>reg rb last. wlog s2 = wlog s1 @ [Repaint_output reg rb, last] \<and>
     set reg = debt 0 {} [(1, {7, 0, 1, 2, 3}), (1, {8, 0, 1, 2, 3})] \<union> {9, 0, 1, 2, 3}"
    by (simp add: demo_backend_def list_regions_def get_selected_idx_def os_init_def demo_painting_def demo_output_def insert_commute)
  then show ?thesis unfolding r Let_def prod.case p by auto
qed


subsection \<open>Input, end to end\<close>

text \<open>The bytes of a message as the consumer sends it.\<close>

definition event_bytes :: "display_event \<Rightarrow> byte list" where
  "event_bytes ev = (case ev of Input e \<Rightarrow> input_frame.frame e | Command c \<Rightarrow> command_frame.frame c | No_event \<Rightarrow> [])"

lemma poll_display_event_chunk:
  assumes nf: "\<not> fallback c" and f: "fd_obj w (data_fd c) = Some ob" and q: "rxq w ob = Chunk (event_bytes ev) [] # q"
    and p: "polls w = Poll_ready [r] # ps" "\<not> POLLHUP r" "\<not> POLLERR r" and ev: "ev \<noteq> No_event"
  shows "\<exists>code > 0. poll_display_event c w = Some (code, ev, c, set_rx ob q (w\<lparr>polls := ps\<rparr>))"
proof -
  let ?w = "w\<lparr>polls := ps\<rparr>"
  have l: "8 \<le> length (event_bytes ev)" using ev
    by (cases ev) (simp_all add: event_bytes_def input_frame.frame_length command_frame.frame_length)
  have pos: "\<not> data_fd c < 0" using fd_obj_SomeD [OF f] by simp
  have sp: "sys_poll [data_fd c] w = Some (Poll_ready [r\<lparr>POLLNVAL := False\<rparr>], ?w)"
    using f pos p by (simp add: sys_poll_def poll_entry_def)
  have pk: "sys_peek (data_fd c) 28 ?w = Some (Ret (length (take 28 (event_bytes ev))), take 28 (event_bytes ev), ?w)"
    using f q by (simp add: sys_peek_def)
  have P: "poll_display_event c w = read_display_event c (dec_hdr (event_bytes ev)) ?w"
    using nf sp pk p l by (simp add: poll_display_event_def dec_hdr_take_more min_def)
  have ne: "event_bytes ev \<noteq> []" using l by auto
  have ra: "recv_all (data_fd c) n ?w = Some (0, event_bytes ev, set_rx ob q ?w)" if "length (event_bytes ev) = n" for n
    using f q ne that by (intro recv_all_chunk) simp_all
  show ?thesis
  proof (cases ev)
    case (Input e)
    have "dec_hdr (event_bytes ev) = mk_hdr 102 20" "dec_input (drop 8 (event_bytes ev)) = e" "length (event_bytes ev) = 28"
      using input_frame.frame_hdr [of e "[]"] input_frame.frame_payload [of e "[]"] Input
      by (simp_all add: event_bytes_def input_frame.frame_length)
    then show ?thesis using P ra Input by (simp add: read_display_event_def recv_struct_def)
  next
    case (Command e)
    have "dec_hdr (event_bytes ev) = mk_hdr 301 8" "dec_window_command (drop 8 (event_bytes ev)) = e" "length (event_bytes ev) = 16"
      using command_frame.frame_hdr [of e "[]"] command_frame.frame_payload [of e "[]"] Command
      by (simp_all add: event_bytes_def command_frame.frame_length)
    then show ?thesis using P ra Command by (simp add: read_display_event_def recv_struct_def)
  qed (use ev in simp)
qed

text \<open>
  What an event becomes: the calls into the seat, for a backend with or without a touch device and a
  compositor in which the output is \<open>found\<close> or not.
\<close>

fun event_calls :: "anland_backend \<Rightarrow> bool \<Rightarrow> display_event \<Rightarrow> 'r wcall list" where
  "event_calls b found No_event = []"
| "event_calls b found (Command c) =
     (case window_command_handler b of None \<Rightarrow> [] | Some h \<Rightarrow> [Window_command_call h (wc_type c) (wc_window_id c)])"
| "event_calls b found (Input e) =
     (if ie_type e = INPUT_TYPE_POINTER_MOTION \<and> found then
        (let moved = float_nonzero (motion_dx e) \<or> float_nonzero (motion_dy e);
             rel = (if moved then Some (motion_dx e, motion_dy e) else None)
         in [Notify_motion (if moved then 7 else 1) (motion_x e, motion_y e) rel rel, Notify_pointer_frame])
      else if ie_type e = INPUT_TYPE_POINTER_BUTTON then [Notify_button (button_button e) (button_pressed e \<noteq> 0), Notify_pointer_frame]
      else if ie_type e = INPUT_TYPE_POINTER_AXIS then
        [Notify_axis (axis_axis e) (axis_value e) (axis_discrete e \<noteq> 0) (axis_discrete e), Notify_pointer_frame]
      else if ie_type e = INPUT_TYPE_KEY then [Notify_key (key_keycode e) (key_action e = 0)]
      else if ie_type e = INPUT_TYPE_TOUCH \<and> touch_device b \<and> found \<and> touch_action e \<in> {0, 1, 2} then
        [Notify_touch (if touch_action e = 0 then WL_TOUCH_DOWN else if touch_action e = 1 then WL_TOUCH_UP else WL_TOUCH_MOTION)
           (touch_pointer_id e) (touch_x e, touch_y e)]
      else if ie_type e = INPUT_TYPE_TOUCH_FRAME \<and> touch_device b then [Notify_touch_frame]
      else [])"

abbreviation output_found :: "'r wes \<Rightarrow> bool" where
  "output_found s \<equiv> weston_compositor_find_output_by_name ''anland-1'' s \<noteq> None"

lemma process_input_calls: "anland_process_input_event b e s = emit_calls (event_calls b (output_found s) (Input e)) s"
proof -
  have m: "(7 :: u32) AND 2 \<noteq> 0" "(7 :: u32) AND 4 \<noteq> 0" "(1 :: u32) AND 2 = 0" "(1 :: u32) AND 4 = 0" by simp_all
  consider "ie_type e = 3" | "ie_type e = 4" | "ie_type e = 5" | "ie_type e = 2" | "ie_type e = 1" | "ie_type e = 6"
    | "ie_type e \<notin> {1, 2, 3, 4, 5, 6}" by blast
  then show ?thesis
  proof cases
    case 1
    then show ?thesis using m
      by (cases "weston_compositor_find_output_by_name ''anland-1'' s")
         (simp_all add: anland_process_input_event_def anland_handle_pointer_motion_def Let_def)
  next
    case 5
    then show ?thesis
      by (cases "weston_compositor_find_output_by_name ''anland-1'' s")
         (simp_all add: anland_process_input_event_def anland_handle_touch_def)
  qed (simp_all add: anland_process_input_event_def anland_handle_pointer_button_def anland_handle_pointer_axis_def anland_handle_key_def
      anland_handle_touch_frame_def)
qed

lemma process_display_event_calls: "process_display_event b ev s = emit_calls (event_calls b (output_found s) ev) s"
proof (cases ev)
  case (Input e)
  then show ?thesis by (simp only: process_display_event_def display_event.case process_input_calls)
next
  case (Command c)
  then show ?thesis by (simp add: process_display_event_def anland_process_window_command_def split: option.split)
qed (simp add: process_display_event_def)

lemma output_found_emit [simp]:
  "weston_compositor_find_output_by_name n (emit_calls cs s) = weston_compositor_find_output_by_name n s"
  "weston_compositor_find_output_by_name n (s\<lparr>sys := w\<rparr>) = weston_compositor_find_output_by_name n s"
  by (simp_all add: weston_compositor_find_output_by_name_def)

lemma input_loop_drains:
  assumes "display b = Some c" and "\<not> fallback c" and "fd_obj (sys s) (data_fd c) = Some ob"
    and "rxq (sys s) ob = map (\<lambda>ev. Chunk (event_bytes ev) []) evs @ q" and "No_event \<notin> set evs"
    and "polls (sys s) = replicate (length evs) (Poll_ready [r]) @ Poll_timeout # ps" and "\<not> POLLHUP r" and "\<not> POLLERR r"
  shows "input_loop b s = Some (b, emit_calls (concat (map (event_calls b (output_found s)) evs)) (s\<lparr>sys := set_rx ob q ((sys s)\<lparr>polls := ps\<rparr>)\<rparr>))"
  using assms
proof (induction evs arbitrary: s)
  case Nil
  then have "poll_display_event c (sys s) = Some (0, No_event, c, (sys s)\<lparr>polls := ps\<rparr>)"
    by (simp add: poll_display_event_def sys_poll_def)
  moreover have "b\<lparr>display := Some c\<rparr> = b" using Nil(1) by simp
  moreover have "set_rx ob q ((sys s)\<lparr>polls := ps\<rparr>) = (sys s)\<lparr>polls := ps\<rparr>" using Nil(4) by (simp add: set_rx_def fun_upd_idem)
  ultimately show ?case using Nil(1) by (simp add: input_loop.simps [of b s] returned_def)
next
  case (Cons ev evs)
  let ?q = "map (\<lambda>ev. Chunk (event_bytes ev) []) evs @ q" and ?p = "replicate (length evs) (Poll_ready [r]) @ Poll_timeout # ps"
  let ?w = "set_rx ob ?q ((sys s)\<lparr>polls := ?p\<rparr>)"
  have "rxq (sys s) ob = Chunk (event_bytes ev) [] # ?q" "polls (sys s) = Poll_ready [r] # ?p" "ev \<noteq> No_event"
    using Cons.prems by auto
  from poll_display_event_chunk [OF Cons.prems(2,3) this(1,2) Cons.prems(7,8) this(3)]
  obtain code where p: "0 < code" "poll_display_event c (sys s) = Some (code, ev, c, ?w)" by blast
  have b: "b\<lparr>display := Some c\<rparr> = b" using Cons.prems(1) by simp
  let ?s = "emit_calls (event_calls b (output_found s) ev) (s\<lparr>sys := ?w\<rparr>)"
  have "input_loop b s = input_loop (b\<lparr>display := Some c\<rparr>) ?s"
    using Cons.prems(1) p by (simp add: input_loop.simps [of b s] process_display_event_calls)
  also have "\<dots> = input_loop b ?s" by (simp only: b)
  also have "\<dots> = Some (b, emit_calls (concat (map (event_calls b (output_found s)) evs)) (?s\<lparr>sys := set_rx ob q (?w\<lparr>polls := ps\<rparr>)\<rparr>))"
    using Cons.IH [of ?s] Cons.prems by simp
  also have "set_rx ob q (?w\<lparr>polls := ps\<rparr>) = set_rx ob q ((sys s)\<lparr>polls := ps\<rparr>)" by (simp add: set_rx_def)
  finally show ?case by (simp add: emit_calls_def)
qed

text \<open>
  C16. Input reaches the seat in order and nothing is dropped: when the consumer's events and window
  commands are queued on the data socket, one call of the handler takes them all off the socket and
  makes, in the order they were sent, exactly the calls of \<open>event_calls\<close>.
\<close>

theorem input_handler_drains:
  assumes "display b = Some c" and "\<not> fallback c" and "\<not> in_fallback b" and "fd_obj (sys s) (data_fd c) = Some ob"
    and "rxq (sys s) ob = map (\<lambda>ev. Chunk (event_bytes ev) []) evs @ q" and "No_event \<notin> set evs"
    and "polls (sys s) = replicate (length evs) (Poll_ready [r]) @ Poll_timeout # ps" and "\<not> POLLHUP r" and "\<not> POLLERR r"
  shows "anland_input_fd_handler b s =
     Some (b, emit_calls (concat (map (event_calls b (output_found s)) evs)) (s\<lparr>sys := set_rx ob q ((sys s)\<lparr>polls := ps\<rparr>)\<rparr>))"
  using input_loop_drains [OF assms(1,2,4-9)] assms(3) by (simp add: anland_input_fd_handler_def)

definition demo_button :: InputEvent where
  "demo_button = \<lparr>ie_type = 4, ie_0 = 0x110, ie_1 = 1, ie_2 = 0, ie_3 = 0\<rparr>"

definition demo_key :: InputEvent where
  "demo_key = \<lparr>ie_type = 2, ie_0 = 0, ie_1 = 30, ie_2 = 0, ie_3 = 0\<rparr>"

theorem input_handler_drains_witness:
  "\<exists>s'. anland_input_fd_handler demo_backend (demo_wes ((demo_world [Chunk (event_bytes (Input demo_button)) [], Chunk (event_bytes (Input demo_key)) []])
       \<lparr>polls := [Poll_ready [pollin_event], Poll_ready [pollin_event], Poll_timeout]\<rparr>)) = Some (demo_backend, s') \<and>
     wlog s' = [Notify_button 0x110 True, Notify_pointer_frame, Notify_key 30 True]"
proof -
  let ?w = "(demo_world [Chunk (event_bytes (Input demo_button)) [], Chunk (event_bytes (Input demo_key)) []])
       \<lparr>polls := [Poll_ready [pollin_event], Poll_ready [pollin_event], Poll_timeout]\<rparr>"
  have "display demo_backend = Some (demo_ctx\<lparr>buf_count := 2\<rparr>)" "\<not> in_fallback demo_backend"
    by (simp_all add: demo_backend_def anland_backend_init_def)
  note H = input_handler_drains [OF this(1) _ this(2), of "demo_wes ?w" 13 "[Input demo_button, Input demo_key]" "[]" pollin_event "[]"]
  have "concat (map (event_calls demo_backend (output_found (demo_wes ?w))) [Input demo_button, Input demo_key]) =
      [Notify_button 0x110 True, Notify_pointer_frame, Notify_key 30 True]"
    by (simp add: demo_button_def demo_key_def input_views)
  with H show ?thesis by (simp add: demo_wes_def pollin_event_def no_events_def del: event_calls.simps)
qed



text \<open>
  Losing a session loses its render buffers: the reconnect handler clears the output's buffer
  table without destroying the buffers, so all of them stay allocated with nothing referring to them.
\<close>

theorem reconnect_leaks_renderbuffers:
  assumes "ainv X b c s" and "in_fallback b" and "anland_reconnect_timer_handler b s = Some (b', s')"
    and "out \<in> set (outputs s)" and "j < o_buf_count out" and "renderbuffers out ! j = Some n"
  shows "n \<in> set (live_rbs s') \<and> (\<forall>o' \<in> set (outputs s'). o_buf_count o' = 0)"
proof -
  have a: "outs_ok b c s" "display b = Some c" "fallback c" using assms(1,2) by (simp_all add: ainv_def)
  have "out_ok s out" using a(1) assms(4) unfolding outs_ok_def by blast
  then have live: "n \<in> set (live_rbs s)" using assms(5,6) unfolding out_ok_def by auto
  let ?s = "anland_drop_renderbuffers s"
  note D = drop_outputs [OF a(1)]
  obtain b1 s1 where t: "anland_try_reconnect b ?s = Some (b1, s1)"
    and s': "s' = (if in_fallback b1 then timer_update_opt (reconnect_timer b1) 200 s1 else s1)"
    using assms(2,3) by (auto simp: anland_reconnect_timer_handler_def bind_Some_iff)
  have tu: "outputs (timer_update_opt t ms z) = outputs z \<and> live_rbs (timer_update_opt t ms z) = live_rbs z" for t ms and z :: "'a wes"
    by (auto simp: timer_update_opt_def timer_update_def wreport_def split: option.splits source.splits)
  have "outputs s1 = outputs ?s \<and> live_rbs s1 = live_rbs ?s"
  proof -
    obtain r c1 w where tr: "try_reconnect c (sys ?s) = Some (r, c1, w)"
      using t a(2) by (auto simp: anland_try_reconnect_def bind_Some_iff)
    have rt: "returned c c1 w b ?s = (b\<lparr>display := Some c1\<rparr>, ?s\<lparr>sys := w\<rparr>)"
      using try_reconnect_cb [OF tr a(3)] by (simp add: returned_def)
    obtain x s2 where x: "add_source (Fd_src (buf_ready_efd c1) Buf_ready) (?s\<lparr>sys := w\<rparr>) = (x, s2)" by fastforce
    have s2: "outputs s2 = outputs ?s \<and> live_rbs s2 = live_rbs ?s" using x by (rule add_sourceD) simp_all
    show ?thesis
    proof (cases "r < 0")
      case True
      then have "s1 = ?s\<lparr>sys := w\<rparr>" using t a(2) tr rt by (simp add: anland_try_reconnect_def)
      then show ?thesis by simp
    next
      case False
      then have "s1 = timer_update_opt (reconnect_timer b) 0 (if 0 \<le> buf_ready_efd c1 then s2 else ?s\<lparr>sys := w\<rparr>)"
        using t a(2) tr rt x by (cases "0 \<le> buf_ready_efd c1") (auto simp: anland_try_reconnect_def get_buffer_ready_fd_def)
      then show ?thesis using s2 tu by simp
    qed
  qed
  then have "outputs s' = outputs ?s \<and> live_rbs s' = live_rbs ?s" using s' tu by simp
  then show ?thesis using D(2,6) live by simp
qed

theorem reconnect_leaks_renderbuffers_witness:
  "\<exists>b' s'. anland_reconnect_timer_handler (demo_backend\<lparr>in_fallback := True, display := Some (demo_ctx\<lparr>fallback := True, fallback_cb := True, buf_ready_efd := -1, refresh_done_efd := -1, data_fd := -1,
         shm_fd := -1, shm_ptr := None\<rparr>)\<rparr>)
       (demo_painting\<lparr>sys := os_init\<lparr>fdtab := [Some 10], txplan := [Tx_err]\<rparr>, live_rbs := [5, 6]\<rparr>) = Some (b', s') \<and>
     5 \<in> set (live_rbs s') \<and> (\<forall>o' \<in> set (outputs s'). o_buf_count o' = 0)"
proof -
  let ?c = "demo_ctx\<lparr>fallback := True, fallback_cb := True, buf_ready_efd := -1, refresh_done_efd := -1, data_fd := -1, shm_fd := -1, shm_ptr := None\<rparr>"
  let ?b = "demo_backend\<lparr>in_fallback := True, display := Some ?c\<rparr>"
  let ?s = "demo_painting\<lparr>sys := os_init\<lparr>fdtab := [Some 10], txplan := [Tx_err]\<rparr>, live_rbs := [5, 6]\<rparr>"
  have p: "pinv [] ?c (sys ?s)"
    by (simp add: pinv_def pshape_def powned_def holds_def fd_obj_def demo_ctx_def producer_ctx_init_def)
  have "ainv [] ?b ?c ?s" using p
    by (auto simp: ainv_defs demo_backend_def anland_backend_init_def demo_painting_def demo_wes_def demo_output_def less_Suc_eq numeral_2_eq_2)
  moreover have "anland_reconnect_timer_handler ?b ?s \<noteq> None" by code_simp
  then have "\<exists>b' s'. anland_reconnect_timer_handler ?b ?s = Some (b', s')" by auto
  ultimately show ?thesis
    using reconnect_leaks_renderbuffers [of "[]" ?b ?c ?s _ _ "outputs ?s ! 0" 0 5] 
    by (auto simp: demo_backend_def demo_painting_def demo_wes_def demo_output_def)
qed

end
