(* ===== verification/Native_Consumer.thy ===== *)
theory Native_Consumer
  imports Consumer
begin

section \<open>The Android app's native side (\<open>android_consumer/.../jni/native_consumer.c\<close>)\<close>

text \<open>
  The app owns the screen: it collects the buffers of a native window, connects as the display
  consumer, and in its render thread hands each locked buffer to the producer and posts it when the
  producer is done.  The JNI functions send input and exchange window events.
  \<open>struct consumer_state\<close> with the static variables of the file is the record \<open>app\<close>.  The native
  window, \<open>/proc\<close> and the JNI environment are not part of the repository; what their calls answer is
  in the record \<open>dev\<close>: the buffers \<open>ANativeWindow_lock\<close> will give (a lock with none left never
  returns), the window's size and its number of undequeued buffers, the lines of
  \<open>/proc/self/maps\<close>, the entries of \<open>/proc/self/fd\<close> with the inode of each descriptor.  \<open>posts\<close>
  counts \<open>ANativeWindow_unlockAndPost\<close>.  A \<open>float\<close> is its bit pattern, and the subtraction of two
  floats is the parameter \<open>fsub\<close>.  The functions run as the app calls them, one after the other: the
  \<open>usleep\<close>s and the mutex leave no trace, and \<open>pthread_join\<close> is that the render thread has ended.
\<close>

subsection \<open>State\<close>

record anw_buffer =
  bits :: nat
  bw :: int
  bh :: int
  bstride :: int

record dev =
  dsys :: os
  locks :: "anw_buffer option list"  \<comment> \<open>\<open>None\<close>: the lock fails\<close>
  posts :: nat
  win_w :: int
  win_h :: int
  min_undequeued :: int
  proc_maps :: "(nat \<times> nat \<times> nat) option list option"  \<comment> \<open>lines: start, end, inode; \<open>None\<close>: cannot be parsed\<close>
  proc_fds :: "(bool \<times> fd) list option"  \<comment> \<open>entries: starts with a dot, its number\<close>
  inode_of :: "fd \<Rightarrow> nat option"
  fill_test :: bool
  pixels :: "(nat \<times> nat \<times> u32) list"  \<comment> \<open>what the test pattern wrote: row, column, value\<close>

record app =
  n_window :: bool
  n_ctx :: "consumer_ctx option"
  n_running :: bool
  need_reconnect :: bool
  n_count :: int
  n_fds :: "fd list"  \<comment> \<open>\<open>MAX_COLLECT_BUFS\<close> entries\<close>
  n_infos :: "buf_info list"  \<comment> \<open>\<open>MAX_COLLECT_BUFS\<close> entries\<close>
  buf_bits :: "nat list"  \<comment> \<open>\<open>MAX_COLLECT_BUFS\<close> entries\<close>
  n_w :: int
  n_h :: int
  n_path :: string
  frame_counter :: u64
  motion_has_last :: bool
  motion_last_x :: u32
  motion_last_y :: u32
  api_loaded :: bool

abbreviation (input) MAX_COLLECT_BUFS :: nat where "MAX_COLLECT_BUFS \<equiv> 8"
abbreviation (input) PIXEL_FORMAT_RGBA_8888 :: u32 where "PIXEL_FORMAT_RGBA_8888 \<equiv> 1"

definition default_path :: string where
  "default_path = ''/data/local/tmp/display_daemon.sock''"

definition g_state :: app where
  "g_state = \<lparr>n_window = False, n_ctx = None, n_running = False, need_reconnect = False, n_count = 0, n_fds = replicate MAX_COLLECT_BUFS 0,
     n_infos = replicate MAX_COLLECT_BUFS \<lparr>bi_stride = 0, bi_format = 0, bi_modifier = 0, bi_offset = 0\<rparr>,
     buf_bits = replicate MAX_COLLECT_BUFS 0, n_w = 0, n_h = 0, n_path = default_path, frame_counter = 0,
     motion_has_last = False, motion_last_x = 0, motion_last_y = 0, api_loaded = False\<rparr>"

subsection \<open>Collecting the window's buffers\<close>

definition find_buf_index :: "app \<Rightarrow> fd \<Rightarrow> int" where
  "find_buf_index s f =
     (case List.find (\<lambda>i. n_fds s ! i = f) [0..<nat (n_count s)] of None \<Rightarrow> -1 | Some i \<Rightarrow> int i)"

text \<open>The region of \<open>/proc/self/maps\<close> that holds the address: its inode.\<close>

fun map_inode :: "nat \<Rightarrow> (nat \<times> nat \<times> nat) option list \<Rightarrow> nat option" where
  "map_inode target [] = None"
| "map_inode target (None # ls) = map_inode target ls"
| "map_inode target (Some (start, stop, inode) # ls) =
     (if start \<le> target \<and> target < stop then Some inode else map_inode target ls)"

fun fd_with_inode :: "(fd \<Rightarrow> nat option) \<Rightarrow> nat \<Rightarrow> (bool \<times> fd) list \<Rightarrow> fd" where
  "fd_with_inode ino n [] = -1"
| "fd_with_inode ino n ((dot, f) # es) = (if \<not> dot \<and> ino f = Some n then f else fd_with_inode ino n es)"

definition fd_from_maps :: "nat \<Rightarrow> dev \<Rightarrow> fd" where
  "fd_from_maps addr d =
     (case proc_maps d of
        None \<Rightarrow> -1
      | Some ls \<Rightarrow>
          (case map_inode addr ls of
             None \<Rightarrow> -1
           | Some n \<Rightarrow>
               if n = 0 then -1
               else (case proc_fds d of None \<Rightarrow> -1 | Some es \<Rightarrow> fd_with_inode (inode_of d) n es)))"

definition ANativeWindow_lock :: "dev \<Rightarrow> (anw_buffer option \<times> dev) option" where
  "ANativeWindow_lock d = (case locks d of [] \<Rightarrow> None | b # bs \<Rightarrow> Some (b, d\<lparr>locks := bs\<rparr>))"

definition ANativeWindow_unlockAndPost :: "dev \<Rightarrow> dev" where
  "ANativeWindow_unlockAndPost d = d\<lparr>posts := Suc (posts d)\<rparr>"

definition store_buffer :: "nat \<Rightarrow> anw_buffer \<Rightarrow> fd \<Rightarrow> app \<Rightarrow> app" where
  "store_buffer i buf f s = s\<lparr>buf_bits := (buf_bits s)[i := bits buf], n_fds := (n_fds s)[i := f],
     n_infos := (n_infos s)[i := \<lparr>bi_stride = of_int (bstride buf * 4), bi_format = PIXEL_FORMAT_RGBA_8888, bi_modifier = 0, bi_offset = 0\<rparr>]\<rparr>"

text \<open>The loop of \<open>collect_dmabufs\<close>: \<open>n\<close> attempts left, \<open>found\<close> buffers collected.\<close>

fun collect_loop :: "nat \<Rightarrow> nat \<Rightarrow> nat \<Rightarrow> app \<Rightarrow> dev \<Rightarrow> (nat \<times> app \<times> dev) option" where
  "collect_loop 0 target found s d = Some (found, s, d)"
| "collect_loop (Suc n) target found s d =
     (if found \<ge> target then Some (found, s, d)
      else (case ANativeWindow_lock d of
              None \<Rightarrow> None
            | Some (None, d) \<Rightarrow> Some (found, s, d)
            | Some (Some buf, d) \<Rightarrow>
                (let f = fd_from_maps (bits buf) d;
                     d = ANativeWindow_unlockAndPost d
                 in if f < 0 then collect_loop n target found s d
                    else if bits buf \<in> set (take found (buf_bits s)) then collect_loop n target found s d
                    else (let (df, w) = sys_dup f (dsys d); d = d\<lparr>dsys := w\<rparr> in
                          if df < 0 then collect_loop n target found s d
                          else collect_loop n target (Suc found) (store_buffer found buf df s) d))))"

definition collect_dmabufs :: "app \<Rightarrow> dev \<Rightarrow> (int \<times> app \<times> dev) option" where
  "collect_dmabufs s d =
     (let target = nat (n_count s) in
      case collect_loop (target * 4) target 0 s d of
        None \<Rightarrow> None
      | Some (found, s, d) \<Rightarrow>
          Some (if int found < n_count s
                then (-1, s\<lparr>n_fds := replicate found (-1) @ drop found (n_fds s)\<rparr>, d\<lparr>dsys := sys_close_all (take found (n_fds s)) (dsys d)\<rparr>)
                else (0, s\<lparr>n_count := int found\<rparr>, d)))"

definition cleanup_dmabufs :: "app \<Rightarrow> dev \<Rightarrow> app \<times> dev" where
  "cleanup_dmabufs s d =
     (let n = nat (n_count s)
      in (s\<lparr>n_fds := map closed_fd (take n (n_fds s)) @ drop n (n_fds s), n_count := 0\<rparr>,
          d\<lparr>dsys := fold close_if_open (take n (n_fds s)) (dsys d)\<rparr>))"

subsection \<open>Connecting\<close>

text \<open>The second half of \<open>do_connect\<close>, once the buffers are collected.\<close>

definition connect_collected :: "string \<Rightarrow> app \<Rightarrow> dev \<Rightarrow> (int \<times> app \<times> dev) option" where
  "connect_collected path s d = do {
     (ctx, w) \<leftarrow> consumer_connect_to_deamon path (dsys d);
     case ctx of
       None \<Rightarrow> Some (-1, s, d\<lparr>dsys := w\<rparr>)
     | Some ctx \<Rightarrow> do {
         (x, ctx, w) \<leftarrow> set_screen_info ctx \<lparr>si_width = of_int (n_w s), si_height = of_int (n_h s),
             si_format = PIXEL_FORMAT_RGBA_8888, si_refresh = 0\<rparr> w;
         (x, ctx, w) \<leftarrow> push_dmabufs ctx (n_fds s) (n_infos s) (n_count s) w;
         Some (0, s\<lparr>n_ctx := Some ctx, need_reconnect := False, frame_counter := 0\<rparr>, d\<lparr>dsys := w\<rparr>)
       }
   }"

definition do_connect :: "app \<Rightarrow> dev \<Rightarrow> (int \<times> app \<times> dev) option" where
  "do_connect s d = do {
     let path = take 107 (n_path s);
     let d = d\<lparr>dsys := consumer_disconnect (n_ctx s) (dsys d)\<rparr>;
     let (s, d) = cleanup_dmabufs (s\<lparr>n_ctx := None\<rparr>) d;
     let s = s\<lparr>n_w := win_w d, n_h := win_h d\<rparr>;
     let total = min (min_undequeued d + 2) (int MAX_COLLECT_BUFS);
     (r, s, d) \<leftarrow> collect_dmabufs (s\<lparr>n_count := total\<rparr>) d;
     if r < 0 then Some (-1, s, d) else connect_collected path s d
   }"

definition fill_test_enabled :: "dev \<Rightarrow> bool" where
  "fill_test_enabled d = fill_test d"

text \<open>The colour of one pixel of the test pattern; \<open>frame\<close> only counts modulo 256.\<close>

definition fill_pixel :: "int \<Rightarrow> int \<Rightarrow> u64 \<Rightarrow> nat \<Rightarrow> nat \<Rightarrow> u32" where
  "fill_pixel width height frame x y =
     (let r = of_int ((int x * 255) div (if width > 1 then width - 1 else 1)) :: 8 word;
          g = of_int ((int y * 255) div (if height > 1 then height - 1 else 1)) :: 8 word;
          b = ucast (frame * 3) :: 8 word
      in push_bit 24 0xff OR push_bit 16 (ucast b) OR push_bit 8 (ucast g) OR ucast r)"

definition fill_test_buffer :: "anw_buffer \<Rightarrow> u64 \<Rightarrow> dev \<Rightarrow> dev" where
  "fill_test_buffer buf frame d =
     d\<lparr>pixels := [(y, x, fill_pixel (bw buf) (bh buf) frame x y). y \<leftarrow> [0..<nat (bh buf)], x \<leftarrow> [0..<nat (bw buf)]]\<rparr>"

definition on_fallback :: "app \<Rightarrow> app" where
  "on_fallback s = s\<lparr>need_reconnect := True\<rparr>"

text \<open>Back from a call of the consumer library, which may have called \<open>on_fallback\<close>.\<close>

definition lib_returned :: "consumer_ctx \<Rightarrow> consumer_ctx \<Rightarrow> app \<Rightarrow> app" where
  "lib_returned ctx ctx' s =
     (let s = s\<lparr>n_ctx := Some ctx'\<rparr> in if c_fallback_calls ctx' \<noteq> c_fallback_calls ctx then on_fallback s else s)"

subsection \<open>The render thread\<close>

definition buffer_index :: "app \<Rightarrow> nat \<Rightarrow> nat option" where
  "buffer_index s p = List.find (\<lambda>i. buf_bits s ! i = p) [0..<nat (n_count s)]"

text \<open>
  \<open>select_dmabuf (s->ctx, idx) < 0 || refresh_done (s->ctx) < 0\<close>: whether the frame failed.
\<close>

definition show_frame :: "consumer_ctx \<Rightarrow> nat \<Rightarrow> app \<Rightarrow> dev \<Rightarrow> (bool \<times> app \<times> dev) option" where
  "show_frame ctx idx s d = do {
     (r, ctx1, w) \<leftarrow> select_dmabuf ctx (int idx) (dsys d);
     if r < 0 then Some (False, lib_returned ctx ctx1 s, d\<lparr>dsys := w\<rparr>)
     else do {
       (r, ctx2, w) \<leftarrow> refresh_done ctx1 w;
       Some (r \<ge> 0, lib_returned ctx1 ctx2 (lib_returned ctx ctx1 s), d\<lparr>dsys := w\<rparr>)
     }
   }"

text \<open>The part of the loop body that has a buffer locked.\<close>

definition render_locked :: "anw_buffer \<Rightarrow> consumer_ctx \<Rightarrow> app \<Rightarrow> dev \<Rightarrow> (app \<times> dev) option" where
  "render_locked buf ctx s d =
     (case buffer_index s (bits buf) of
        None \<Rightarrow> Some (s, ANativeWindow_unlockAndPost d)
      | Some idx \<Rightarrow> do {
          let frame = frame_counter s + 1;
          (ok, s, d) \<leftarrow> show_frame ctx idx (s\<lparr>frame_counter := frame\<rparr>) d;
          let d = (if ok \<and> fill_test_enabled d then fill_test_buffer buf frame d else d);
          Some (s, ANativeWindow_unlockAndPost d)
        })"

text \<open>The start of a round: a requested reconnection.\<close>

definition render_connect :: "app \<Rightarrow> dev \<Rightarrow> (bool \<times> app \<times> dev) option" where
  "render_connect s d =
     (if need_reconnect s then do {
        (r, s, d) \<leftarrow> do_connect s d;
        if r < 0 then Some (False, s, d)
        else Some (True, s\<lparr>n_ctx := map_option (\<lambda>ctx. consumer_set_fallback_callback ctx True) (n_ctx s)\<rparr>, d)
      }
      else Some (True, s, d))"

text \<open>One round of the loop of \<open>render_thread_func\<close>.\<close>

definition render_round :: "app \<Rightarrow> dev \<Rightarrow> (app \<times> dev) option" where
  "render_round s d = do {
     (ok, s, d) \<leftarrow> render_connect s d;
     if \<not> ok then Some (s, d)
     else (case n_ctx s of
             None \<Rightarrow> Some (s, d)
           | Some ctx \<Rightarrow> do {
               (buf, d) \<leftarrow> ANativeWindow_lock d;
               case buf of
                 None \<Rightarrow> Some (s, d)
               | Some buf \<Rightarrow> render_locked buf ctx s d
             })
   }"

text \<open>
  The thread, given what it reads from \<open>running\<close> at the head of each round; finding it cleared after
  a frame ends the thread after the post, as finding it cleared at the head of the next round does.
\<close>

fun render_thread_func :: "bool list \<Rightarrow> app \<Rightarrow> dev \<Rightarrow> (app \<times> dev) option" where
  "render_thread_func (True # rs) s d = do { (s, d) \<leftarrow> render_round s d; render_thread_func rs s d }"
| "render_thread_func _ s d = Some (s, d)"

subsection \<open>The JNI functions\<close>

definition nativeSetSocketPath :: "string option \<Rightarrow> app \<Rightarrow> app" where
  "nativeSetSocketPath path s =
     s\<lparr>n_path := (case path of None \<Rightarrow> default_path | Some p \<Rightarrow> if p = [] then default_path else take 107 p), need_reconnect := True\<rparr>"

text \<open>What \<open>nativeStart\<close> and \<open>nativeStop\<close> do to what an earlier start left, after its thread has ended.\<close>

definition stop_session :: "app \<Rightarrow> dev \<Rightarrow> app \<times> dev" where
  "stop_session s d =
     (let d = (if n_running s then d\<lparr>dsys := wake_display_consumer (n_ctx s) (dsys d)\<rparr> else d);
          d = d\<lparr>dsys := consumer_disconnect (n_ctx s) (dsys d)\<rparr>
      in cleanup_dmabufs (s\<lparr>n_running := False, n_ctx := None\<rparr>) d)"

definition nativeStart :: "bool \<Rightarrow> bool \<Rightarrow> app \<Rightarrow> dev \<Rightarrow> app \<times> dev" where
  "nativeStart api_ok surface_ok s d =
     (if \<not> api_loaded s \<and> \<not> api_ok then (s, d)
      else
        (let (s, d) = stop_session (s\<lparr>api_loaded := True\<rparr>) d;
             s = s\<lparr>motion_has_last := False, n_window := surface_ok\<rparr>
         in if \<not> surface_ok then (s, d) else (s\<lparr>n_running := True, need_reconnect := True\<rparr>, d)))"

definition nativeStop :: "app \<Rightarrow> dev \<Rightarrow> app \<times> dev" where
  "nativeStop s d = (let (s, d) = stop_session s d in (s\<lparr>n_window := False\<rparr>, d))"

definition send_input :: "InputEvent \<Rightarrow> app \<Rightarrow> dev \<Rightarrow> (app \<times> dev) option" where
  "send_input ev s d =
     (case n_ctx s of
        None \<Rightarrow> Some (s, d)
      | Some ctx \<Rightarrow> do {
          (r, ctx', w) \<leftarrow> push_input_event ctx ev (dsys d);
          Some (lib_returned ctx ctx' s, d\<lparr>dsys := w\<rparr>)
        })"

definition nativeSendTouch :: "i32 \<Rightarrow> u32 \<Rightarrow> u32 \<Rightarrow> i32 \<Rightarrow> app \<Rightarrow> dev \<Rightarrow> (app \<times> dev) option" where
  "nativeSendTouch action x y pointer_id s d =
     send_input \<lparr>ie_type = INPUT_TYPE_TOUCH, ie_0 = action, ie_1 = x, ie_2 = y, ie_3 = pointer_id\<rparr> s d"

definition nativeSendTouchFrame :: "app \<Rightarrow> dev \<Rightarrow> (app \<times> dev) option" where
  "nativeSendTouchFrame s d = send_input \<lparr>ie_type = INPUT_TYPE_TOUCH_FRAME, ie_0 = 0, ie_1 = 0, ie_2 = 0, ie_3 = 0\<rparr> s d"

definition nativeSendKey :: "i32 \<Rightarrow> i32 \<Rightarrow> app \<Rightarrow> dev \<Rightarrow> (app \<times> dev) option" where
  "nativeSendKey action keycode s d =
     send_input \<lparr>ie_type = INPUT_TYPE_KEY, ie_0 = action, ie_1 = keycode, ie_2 = 0, ie_3 = 0\<rparr> s d"

text \<open>A \<open>float\<close> equal to \<open>0.0f\<close> is one of the two zeros.\<close>

definition float_zero :: "u32 \<Rightarrow> bool" where
  "float_zero x \<longleftrightarrow> x = 0 \<or> x = 0x80000000"

definition nativeSendMouseMotion :: "(u32 \<Rightarrow> u32 \<Rightarrow> u32) \<Rightarrow> u32 \<Rightarrow> u32 \<Rightarrow> u32 \<Rightarrow> u32 \<Rightarrow> app \<Rightarrow> dev \<Rightarrow> (app \<times> dev) option" where
  "nativeSendMouseMotion fsub x y dx dy s d =
     (if n_ctx s = None then Some (s, d)
      else
        (let (dx, dy) = (if float_zero dx \<and> float_zero dy \<and> motion_has_last s
                         then (fsub x (motion_last_x s), fsub y (motion_last_y s)) else (dx, dy));
             s = s\<lparr>motion_last_x := x, motion_last_y := y, motion_has_last := True\<rparr>
         in send_input \<lparr>ie_type = INPUT_TYPE_POINTER_MOTION, ie_0 = x, ie_1 = y, ie_2 = dx, ie_3 = dy\<rparr> s d))"

definition nativeSendMouseButton :: "u32 \<Rightarrow> bool \<Rightarrow> app \<Rightarrow> dev \<Rightarrow> (app \<times> dev) option" where
  "nativeSendMouseButton button pressed s d =
     send_input \<lparr>ie_type = INPUT_TYPE_POINTER_BUTTON, ie_0 = button, ie_1 = (if pressed then 1 else 0), ie_2 = 0, ie_3 = 0\<rparr> s d"

definition nativeSendMouseScroll :: "u32 \<Rightarrow> u32 \<Rightarrow> app \<Rightarrow> dev \<Rightarrow> (app \<times> dev) option" where
  "nativeSendMouseScroll axis v s d =
     send_input \<lparr>ie_type = INPUT_TYPE_POINTER_AXIS, ie_0 = axis, ie_1 = v, ie_2 = 0, ie_3 = 0\<rparr> s d"

text \<open>The window event as the \<open>jlong\<close> that is returned to Java: type in the upper half, window in the lower.\<close>

definition pack_event :: "u32 \<Rightarrow> u32 \<Rightarrow> 64 word" where
  "pack_event ty wid = push_bit 32 (ucast ty) OR ucast wid"

definition nativePollWindowEvent :: "app \<Rightarrow> dev \<Rightarrow> (64 word \<times> app \<times> dev) option" where
  "nativePollWindowEvent s d =
     (case n_ctx s of
        None \<Rightarrow> Some (0, s, d)
      | Some ctx \<Rightarrow> do {
          (r, ev, ctx', w) \<leftarrow> poll_window_event ctx (dsys d);
          Some (if r \<le> 0 then 0 else (case ev of None \<Rightarrow> 0 | Some e \<Rightarrow> pack_event (we_type e) (we_window_id e)),
                lib_returned ctx ctx' s, d\<lparr>dsys := w\<rparr>)
        })"

definition nativeSendWindowCommand :: "u32 \<Rightarrow> u32 \<Rightarrow> app \<Rightarrow> dev \<Rightarrow> (bool \<times> app \<times> dev) option" where
  "nativeSendWindowCommand type window_id s d =
     (case n_ctx s of
        None \<Rightarrow> Some (False, s, d)
      | Some ctx \<Rightarrow> do {
          (r, ctx', w) \<leftarrow> push_window_command ctx \<lparr>wc_type = type, wc_window_id = window_id\<rparr> (dsys d);
          Some (r > 0, lib_returned ctx ctx' s, d\<lparr>dsys := w\<rparr>)
        })"

subsection \<open>What is collected\<close>

lemma sys_dupD:
  assumes "sys_dup f w = (df, w')"
  shows "df < 0 \<and> fd_obj w' = fd_obj w \<and> reports w' = reports w \<or>
    (\<exists>ob. 0 \<le> df \<and> fd_obj w f = Some ob \<and> fd_obj w df = None \<and> fd_obj w' = (fd_obj w)(df \<mapsto> ob) \<and> reports w' = reports w)"
proof -
  obtain ok w1 where t: "sys_try w = (ok, w1)" by fastforce
  note T = sys_tryD [OF t]
  show ?thesis
  proof (cases "ok \<and> fd_obj w f \<noteq> None")
    case False
    then show ?thesis using assms t T by (auto simp: sys_dup_def split: option.splits if_splits)
  next
    case True
    then obtain ob where ob: "fd_obj w f = Some ob" by auto
    obtain g w2 where i: "sys_install ob w1 = (g, w2)" by fastforce
    note I = sys_installD [OF i]
    have "df = g" "w' = w2" using assms t True ob T i by (auto simp: sys_dup_def)
    then show ?thesis using I ob T by auto
  qed
qed

text \<open>What holds along the loop: kept by a failed lock, by a buffer that is skipped, by a failed \<open>dup\<close> and by a buffer that is stored.\<close>

lemma collect_loop_rule:
  assumes "collect_loop n target k s d = Some (k', s', d')" and "P k s d" and "target \<le> M"
    and "\<And>k s d d1. P k s d \<Longrightarrow> ANativeWindow_lock d = Some (None, d1) \<Longrightarrow> P k s d1"
    and "\<And>k s d d1 buf. P k s d \<Longrightarrow> ANativeWindow_lock d = Some (Some buf, d1) \<Longrightarrow> P k s (ANativeWindow_unlockAndPost d1)"
    and "\<And>k s d d1 buf f df w. P k s (ANativeWindow_unlockAndPost d1) \<Longrightarrow> f = fd_from_maps (bits buf) d1 \<Longrightarrow> 0 \<le> f \<Longrightarrow>
      bits buf \<notin> set (take k (buf_bits s)) \<Longrightarrow> k < M \<Longrightarrow> sys_dup f (dsys (ANativeWindow_unlockAndPost d1)) = (df, w) \<Longrightarrow>
      (if df < 0 then P k s (ANativeWindow_unlockAndPost d1\<lparr>dsys := w\<rparr>) else P (Suc k) (store_buffer k buf df s) (ANativeWindow_unlockAndPost d1\<lparr>dsys := w\<rparr>))"
  shows "P k' s' d'"
  using assms(1-3)
proof (induction n target k s d rule: collect_loop.induct)
  case (2 n target k s d)
  note keeps = assms(4-6)
  show ?case
  proof (cases "k \<ge> target")
    case True
    then show ?thesis using "2.prems" by auto
  next
    case lt: False
    then obtain b d1 where l: "ANativeWindow_lock d = Some (b, d1)" using "2.prems" by (auto split: option.splits)
    show ?thesis
    proof (cases b)
      case None
      then show ?thesis using "2.prems" lt l keeps(1) by auto
    next
      case (Some buf)
      define f where "f = fd_from_maps (bits buf) d1"
      define d2 where "d2 = ANativeWindow_unlockAndPost d1"
      note IH = "2.IH" [OF lt l refl Some f_def d2_def]
      obtain df w where dp: "sys_dup f (dsys d2) = (df, w)" by fastforce
      have p: "P k s d2" using keeps(2) "2.prems"(2) l Some by (simp add: d2_def)
      have rest: "collect_loop (Suc n) target k s d =
        (if f < 0 \<or> bits buf \<in> set (take k (buf_bits s)) then collect_loop n target k s d2
         else if df < 0 then collect_loop n target k s (d2\<lparr>dsys := w\<rparr>) else collect_loop n target (Suc k) (store_buffer k buf df s) (d2\<lparr>dsys := w\<rparr>))"
        using lt l Some dp by (simp add: f_def d2_def Let_def)
      show ?thesis
      proof (cases "f < 0 \<or> bits buf \<in> set (take k (buf_bits s))")
        case True
        then show ?thesis using IH(1,2) "2.prems"(1,3) rest p by (cases "f < 0") auto
      next
        case nd: False
        have q: "if df < 0 then P k s (d2\<lparr>dsys := w\<rparr>) else P (Suc k) (store_buffer k buf df s) (d2\<lparr>dsys := w\<rparr>)"
          unfolding d2_def by (rule keeps(3) [OF _ f_def]) (use p nd lt dp "2.prems"(3) in \<open>auto simp: d2_def\<close>)
        have r: "(if df < 0 then collect_loop n target k s (d2\<lparr>dsys := w\<rparr>) else collect_loop n target (Suc k) (store_buffer k buf df s) (d2\<lparr>dsys := w\<rparr>))
            = Some (k', s', d')"
          using "2.prems"(1) unfolding rest using nd by simp
        show ?thesis using IH(3) [OF _ _ refl _ refl] IH(4) [OF _ _ refl _ refl] nd "2.prems"(3) dp q r by (cases "df < 0") auto
      qed
    qed
  qed
qed auto

text \<open>The state of the collection: the first \<open>k\<close> slots hold different buffers with descriptors of their own.\<close>

definition collected :: "fd list \<Rightarrow> os \<Rightarrow> dev \<Rightarrow> nat \<Rightarrow> app \<Rightarrow> dev \<Rightarrow> bool" where
  "collected X w0 d0 k s d \<longleftrightarrow> length (n_fds s) = 8 \<and> length (n_infos s) = 8 \<and> length (buf_bits s) = 8 \<and> k \<le> 8 \<and>
     distinct (take k (buf_bits s)) \<and> ostep X w0 (take k (n_fds s) @ X) (dsys d) \<and>
     proc_maps d = proc_maps d0 \<and> proc_fds d = proc_fds d0 \<and> inode_of d = inode_of d0 \<and>
     (\<forall>f. fd_obj w0 f \<noteq> None \<longrightarrow> fd_obj (dsys d) f = fd_obj w0 f) \<and>
     (\<forall>i < k. 0 \<le> fd_from_maps (buf_bits s ! i) d0 \<and>
        (fd_obj w0 (fd_from_maps (buf_bits s ! i) d0) \<noteq> None \<longrightarrow> fd_obj (dsys d) (n_fds s ! i) = fd_obj w0 (fd_from_maps (buf_bits s ! i) d0)))"

lemma collected_frame:
  assumes "collected X w0 d0 k s d" and "dsys d' = dsys d \<or> fd_obj (dsys d') = fd_obj (dsys d) \<and> reports (dsys d') = reports (dsys d)"
    and "proc_maps d' = proc_maps d" "proc_fds d' = proc_fds d" "inode_of d' = inode_of d"
  shows "collected X w0 d0 k s d'"
proof -
  have e: "fd_obj (dsys d') = fd_obj (dsys d)" "reports (dsys d') = reports (dsys d)" using assms(2) by auto
  then show ?thesis using assms(1,3-5) by (simp add: collected_def ostep_def holds_def lost_def)
qed

lemma fd_from_maps_cong: "proc_maps d' = proc_maps d \<Longrightarrow> proc_fds d' = proc_fds d \<Longrightarrow> inode_of d' = inode_of d \<Longrightarrow> fd_from_maps a d' = fd_from_maps a d"
  by (simp add: fd_from_maps_def split: option.split)

lemma fd_with_inode_listed: "0 \<le> fd_with_inode ino n es \<Longrightarrow> \<exists>dot. (dot, fd_with_inode ino n es) \<in> set es"
  by (induction ino n es rule: fd_with_inode.induct) (auto split: if_splits)

text \<open>\<open>/proc/self/fd\<close> lists open descriptors.\<close>

definition proc_ok :: "dev \<Rightarrow> bool" where
  "proc_ok d \<longleftrightarrow> (\<forall>es dot f. proc_fds d = Some es \<and> (dot, f) \<in> set es \<longrightarrow> fd_obj (dsys d) f \<noteq> None)"

lemma fd_from_maps_open:
  assumes "proc_ok d" and "0 \<le> fd_from_maps a d"
  shows "fd_obj (dsys d) (fd_from_maps a d) \<noteq> None"
proof -
  obtain ls n es where e: "proc_maps d = Some ls" "map_inode a ls = Some n" "proc_fds d = Some es" "fd_from_maps a d = fd_with_inode (inode_of d) n es"
    using assms(2) by (auto simp: fd_from_maps_def split: option.splits if_splits)
  then show ?thesis using assms fd_with_inode_listed [of "inode_of d" n es] by (auto simp: proc_ok_def)
qed

lemma collected_store:
  assumes c2: "collected X (dsys d0) d0 k s d2" and d2: "d2 = ANativeWindow_unlockAndPost d1" and f: "f = fd_from_maps (bits buf) d1" "0 \<le> f"
    and new: "bits buf \<notin> set (take k (buf_bits s))" "k < 8" and dp: "sys_dup f (dsys d2) = (df, w)" "0 \<le> df"
  shows "collected X (dsys d0) d0 (Suc k) (store_buffer k buf df s) (d2\<lparr>dsys := w\<rparr>)"
proof -
  let ?s = "store_buffer k buf df s"
  obtain ob where ob: "fd_obj (dsys d2) f = Some ob" "fd_obj (dsys d2) df = None" "fd_obj w = (fd_obj (dsys d2))(df \<mapsto> ob)"
    "reports w = reports (dsys d2)" using sys_dupD [OF dp(1)] dp(2) by auto
  have C: "length (n_fds s) = 8" "length (n_infos s) = 8" "length (buf_bits s) = 8" "distinct (take k (buf_bits s))"
    "ostep X (dsys d0) (take k (n_fds s) @ X) (dsys d2)" using c2 unfolding collected_def by auto
  have t: "take (Suc k) (n_fds ?s) = take k (n_fds s) @ [df]" "take (Suc k) (buf_bits ?s) = take k (buf_bits s) @ [bits buf]"
    using C new(2) by (simp_all add: store_buffer_def take_Suc_conv_app_nth)
  have i: "ostep (take k (n_fds s) @ X) (dsys d2) (df # take k (n_fds s) @ X) w"
    by (rule ostep_install [OF ostep_holds [OF C(5)] ob(2,3,4)])
  have o: "ostep X (dsys d0) (take (Suc k) (n_fds ?s) @ X) w"
    by (rule ostep_perm [OF ostep_trans [OF C(5) i]]) (use ostep_holds [OF i] in \<open>auto simp: t holds_def\<close>)
  have fe: "f = fd_from_maps (bits buf) d0"
    unfolding f(1) using c2 d2 by (intro fd_from_maps_cong) (simp_all add: collected_def ANativeWindow_unlockAndPost_def)
  have old: "\<forall>g. fd_obj (dsys d0) g \<noteq> None \<longrightarrow> fd_obj (dsys d2) g = fd_obj (dsys d0) g" using c2 by (simp add: collected_def)
  have keep: "fd_obj w g = fd_obj (dsys d2) g" if "fd_obj (dsys d2) g \<noteq> None" for g using that ob(2,3) by auto
  have "0 \<le> fd_from_maps (buf_bits ?s ! i) d0 \<and> (fd_obj (dsys d0) (fd_from_maps (buf_bits ?s ! i) d0) \<noteq> None \<longrightarrow>
      fd_obj w (n_fds ?s ! i) = fd_obj (dsys d0) (fd_from_maps (buf_bits ?s ! i) d0))" if "i < Suc k" for i
  proof (cases "i = k")
    case True
    then show ?thesis using ob old [rule_format, of f] C f fe new(2) by (simp add: store_buffer_def)
  next
    case False
    then have i: "i < k" using that by simp
    then have "n_fds s ! i \<in> set (take k (n_fds s))" using C new(2) by (auto simp: in_set_conv_nth)
    then have "fd_obj (dsys d2) (n_fds s ! i) \<noteq> None" using ostep_holds [OF C(5)] by (simp add: holds_def)
    then show ?thesis using keep c2 i False by (simp add: store_buffer_def collected_def)
  qed
  then show ?thesis using o t C c2 new old keep by (auto simp: collected_def store_buffer_def)
qed

lemma lock_keeps: "ANativeWindow_lock d = Some (b, d1) \<Longrightarrow> dsys d1 = dsys d \<and> proc_maps d1 = proc_maps d \<and> proc_fds d1 = proc_fds d \<and>
    inode_of d1 = inode_of d \<and> min_undequeued d1 = min_undequeued d"
  by (auto simp: ANativeWindow_lock_def split: list.splits)

lemma collect_loop_effect:
  assumes r: "collect_loop n target 0 s d = Some (k', s', d')" and c: "collected X (dsys d0) d0 0 s d" and t: "target \<le> 8"
  shows "collected X (dsys d0) d0 k' s' d' \<and> n_count s' = n_count s \<and> n_ctx s' = n_ctx s \<and> k' \<le> target \<and>
    drop k' (n_fds s') = drop k' (n_fds s) \<and> min_undequeued d' = min_undequeued d"
    (is "?P k' s' d'")
proof (rule collect_loop_rule [OF r, where P = ?P and M = target])
  show "?P 0 s d" using c by simp
next
  fix k s1 d1 d2
  assume "?P k s1 d1" and l: "ANativeWindow_lock d1 = Some (None, d2)"
  then show "?P k s1 d2" using lock_keeps [OF l] collected_frame [of X "dsys d0" d0 k s1 d1 d2] by simp
next
  fix k s1 d1 d2 buf
  assume "?P k s1 d1" and l: "ANativeWindow_lock d1 = Some (Some buf, d2)"
  then show "?P k s1 (ANativeWindow_unlockAndPost d2)" 
    using lock_keeps [OF l] collected_frame [of X "dsys d0" d0 k s1 d1 "ANativeWindow_unlockAndPost d2"] by (simp add: ANativeWindow_unlockAndPost_def)
next
  fix k s1 d2 f df w and buf :: anw_buffer
  let ?d = "ANativeWindow_unlockAndPost d2"
  assume p: "?P k s1 ?d" and f: "f = fd_from_maps (bits buf) d2" "0 \<le> f"
    and n: "bits buf \<notin> set (take k (buf_bits s1))" "k < target" and dp: "sys_dup f (dsys ?d) = (df, w)"
  show "if df < 0 then ?P k s1 (?d\<lparr>dsys := w\<rparr>) else ?P (Suc k) (store_buffer k buf df s1) (?d\<lparr>dsys := w\<rparr>)"
  proof (cases "df < 0")
    case True
    then show ?thesis using p sys_dupD [OF dp] collected_frame [of X "dsys d0" d0 k s1 ?d "?d\<lparr>dsys := w\<rparr>"] by auto
  next
    case False
    have "drop (Suc k) ((n_fds s1)[k := df]) = drop (Suc k) (n_fds s)"
      using p by (simp add: drop_update_cancel) (metis Suc_eq_plus1 drop_drop plus_1_eq_Suc)
    then show ?thesis using p False n t collected_store [OF _ refl f n(1) _ dp] by (simp add: store_buffer_def)
  qed
qed (rule order_refl)

lemma collect_dmabufs_step:
  assumes h: "holds X (dsys d)" and l: "length (n_fds s) = 8" "length (n_infos s) = 8" "length (buf_bits s) = 8" "n_count s \<le> 8"
    and r: "collect_dmabufs s d = Some (r, s', d')"
  shows "length (n_fds s') = 8 \<and> length (n_infos s') = 8 \<and> length (buf_bits s') = 8 \<and> n_count s' = max (n_count s) (if r = 0 then 0 else n_count s) \<and>
    n_ctx s' = n_ctx s \<and>
    (if r = 0 then collected X (dsys d) d (nat (n_count s)) s' d' else r = -1 \<and> ostep X (dsys d) X (dsys d'))"
proof -
  let ?t = "nat (n_count s)"
  obtain k s1 d1 where c: "collect_loop (?t * 4) ?t 0 s d = Some (k, s1, d1)" using r by (auto simp: collect_dmabufs_def Let_def split: option.splits)
  have "collected X (dsys d) d 0 s d" using h l by (simp add: collected_def ostep_refl)
  from collect_loop_effect [OF c this] l(4)
  have C: "collected X (dsys d) d k s1 d1" "n_count s1 = n_count s" "n_ctx s1 = n_ctx s" "k \<le> ?t" by auto
  show ?thesis
  proof (cases "int k < n_count s")
    case True
    then have e: "r = -1" "s' = s1\<lparr>n_fds := replicate k (-1) @ drop k (n_fds s1)\<rparr>" "d' = d1\<lparr>dsys := sys_close_all (take k (n_fds s1)) (dsys d1)\<rparr>"
      using r c C(2) by (auto simp: collect_dmabufs_def Let_def)
    have o: "ostep X (dsys d) (take k (n_fds s1) @ X) (dsys d1)" using C(1) by (simp add: collected_def)
    have "ostep X (dsys d) X (dsys d')" using ostep_trans [OF o ostep_close_all [OF ostep_holds [OF o]]] by (simp add: e)
    then show ?thesis using C e by (simp add: collected_def)
  next
    case False
    then have k: "k = ?t" using C(4) by simp
    have e: "r = 0" "s' = s1\<lparr>n_count := int k\<rparr>" "d' = d1" using r c C(2) False by (auto simp: collect_dmabufs_def Let_def)
    then show ?thesis using C k by (auto simp: collected_def)
  qed
qed

text \<open>
  C23. Collecting the window's buffers: when it succeeds there are exactly as many as asked for, all
  different, and the app has one descriptor of its own for each, showing the file that backs the
  buffer's memory; when it fails every descriptor it had duplicated is closed again.  That
  \<open>/proc/self/fd\<close> lists open descriptors is its documented behaviour.
\<close>

theorem buffers_collected:
  assumes "holds X (dsys d)" and "length (n_fds s) = 8" and "length (n_infos s) = 8" and "length (buf_bits s) = 8" and "n_count s \<le> 8"
    and "proc_ok d" and "collect_dmabufs s d = Some (r, s', d')"
  shows "if r = 0
     then distinct (take (nat (n_count s)) (buf_bits s')) \<and> holds (take (nat (n_count s)) (n_fds s') @ X) (dsys d') \<and>
       (\<forall>i < nat (n_count s). fd_obj (dsys d') (n_fds s' ! i) = fd_obj (dsys d) (fd_from_maps (buf_bits s' ! i) d))
     else holds X (dsys d') \<and> lost X (dsys d') = lost X (dsys d) \<and> reports (dsys d') = reports (dsys d)"
  using collect_dmabufs_step [OF assms(1-5,7)] fd_from_maps_open [OF assms(6)] by (auto simp: collected_def ostep_def split: if_splits)

definition demo_dev :: dev where
  "demo_dev = \<lparr>dsys = os_init\<lparr>fdtab := map Some [40, 41, 42]\<rparr>,
     locks = [Some \<lparr>bits = 1000, bw = 2, bh = 2, bstride = 2\<rparr>, Some \<lparr>bits = 2000, bw = 2, bh = 2, bstride = 2\<rparr>],
     posts = 0, win_w = 2, win_h = 2, min_undequeued = 0, proc_maps = Some [None, Some (900, 1100, 7), Some (1900, 2100, 8)],
     proc_fds = Some [(True, 0), (False, 1), (False, 2)], inode_of = (\<lambda>f. if f = 1 then Some 7 else if f = 2 then Some 8 else None),
     fill_test = False, pixels = []\<rparr>"

theorem buffers_collected_witness:
  "\<exists>s' d'. collect_dmabufs (g_state\<lparr>n_count := 2\<rparr>) demo_dev = Some (0, s', d') \<and> distinct (take 2 (buf_bits s')) \<and>
     fd_obj (dsys d') (n_fds s' ! 1) = Some 42"
proof -
  have "case collect_dmabufs (g_state\<lparr>n_count := 2\<rparr>) demo_dev of Some (r, s', d') \<Rightarrow> r = 0 \<and> buf_bits s' ! 1 = 2000 | None \<Rightarrow> False" by code_simp
  then obtain s' d' where r: "collect_dmabufs (g_state\<lparr>n_count := 2\<rparr>) demo_dev = Some (0, s', d')" "buf_bits s' ! 1 = 2000" by (auto split: option.splits)
  have "holds [] (dsys demo_dev)" "proc_ok demo_dev" by (auto simp: holds_def proc_ok_def demo_dev_def fd_obj_def)
  moreover have "fd_obj (dsys demo_dev) (fd_from_maps 2000 demo_dev) = Some 42"
    by (simp add: fd_from_maps_def demo_dev_def fd_obj_def)
  ultimately show ?thesis using buffers_collected [of "[]" demo_dev "g_state\<lparr>n_count := 2\<rparr>" 0 s' d'] r by (auto simp: g_state_def)
qed

text \<open>
  C39. A failed collection makes the next attempt close descriptors that were never the app's: the
  slots that were not filled still hold their initial value 0, \<open>buf_count\<close> counts them, and
  \<open>cleanup_dmabufs\<close> closes descriptor 0 for the first of them and a closed one for each other.
\<close>

theorem failed_collect_closes_fd0:
  assumes "n_ctx s = None" and "n_count s = 0" and "n_fds s = replicate 8 0" and "locks d = None # ls" and "min_undequeued d = 1"
    and "fd_obj (dsys d) 0 \<noteq> None"
  shows "\<exists>s' d'. do_connect s d = Some (-1, s', d') \<and> dsys d' = dsys d \<and>
     fd_obj (dsys (snd (cleanup_dmabufs s' d'))) 0 = None \<and>
     reports (dsys (snd (cleanup_dmabufs s' d'))) = reports (dsys d) @ [Bad_close 0, Bad_close 0]"
proof -
  let ?d = "d\<lparr>locks := ls\<rparr>"
  have c: "cleanup_dmabufs (s\<lparr>n_ctx := None\<rparr>) d = (s, d)"
    using assms(1,2) by (simp add: cleanup_dmabufs_def)
  let ?s = "s\<lparr>n_w := win_w d, n_h := win_h d, n_count := 3\<rparr>"
  have "collect_loop (Suc 11) 3 0 ?s d = Some (0, ?s, ?d)"
    using assms(4) by (subst collect_loop.simps(2)) (simp add: ANativeWindow_lock_def)
  then have cl: "collect_loop 12 3 0 ?s d = Some (0, ?s, ?d)" by simp
  have cd: "collect_dmabufs ?s d = Some (-1, ?s, ?d)"
    using cl by (simp add: collect_dmabufs_def sys_close_all_def)
  have dc: "do_connect s d = Some (-1, ?s, ?d)"
    using assms(1,5) c cd by (simp add: do_connect_def consumer_disconnect_def)
  let ?w = "dsys d"
  have close3: "fold close_if_open [0, 0, 0] ?w = sys_close 0 (sys_close 0 (sys_close 0 ?w))" by (simp add: close_if_open_def)
  have fds: "take 3 (n_fds ?s) = [0, 0, 0]" using assms(3) by (simp add: numeral_eq_Suc)
  have z: "fd_obj (sys_close 0 w) 0 = None" for w by (cases "fd_obj w 0") (auto simp: sys_close_def fd_obj_def)
  have o: "fd_obj (sys_close 0 (sys_close 0 (sys_close 0 ?w))) 0 = None" by (rule z)
  have r: "reports (sys_close 0 (sys_close 0 (sys_close 0 ?w))) = reports ?w @ [Bad_close 0, Bad_close 0]"
    using assms(6) z [of ?w] z [of "sys_close 0 ?w"] by (simp add: sys_close_def report_def)
  show ?thesis using dc fds close3 o r by (intro exI [of _ ?s] exI [of _ ?d]) (simp add: cleanup_dmabufs_def)
qed

theorem failed_collect_closes_fd0_witness:
  "\<exists>s' d'. do_connect g_state (demo_dev\<lparr>locks := [None], min_undequeued := 1\<rparr>) = Some (-1, s', d') \<and>
     fd_obj (dsys (snd (cleanup_dmabufs s' d'))) 0 = None"
proof -
  have "fd_obj (dsys (demo_dev\<lparr>locks := [None], min_undequeued := 1\<rparr>)) 0 \<noteq> None" by (simp add: demo_dev_def fd_obj_def)
  from failed_collect_closes_fd0 [OF _ _ _ _ _ this, of g_state "[]"] show ?thesis by (auto simp: g_state_def)
qed

subsection \<open>Every locked buffer is posted\<close>

definition granted :: "anw_buffer option list \<Rightarrow> nat" where
  "granted ls = length (filter (\<lambda>b. b \<noteq> None) ls)"

text \<open>From \<open>d\<close> to \<open>d'\<close> every buffer that a lock gave was posted once, and nothing else was.\<close>

definition posted :: "dev \<Rightarrow> dev \<Rightarrow> bool" where
  "posted d d' \<longleftrightarrow> (\<exists>used. locks d = used @ locks d' \<and> posts d' = posts d + granted used)"

lemma posted_same: "locks d' = locks d \<Longrightarrow> posts d' = posts d \<Longrightarrow> posted d d'"
  by (auto simp: posted_def granted_def intro: exI [of _ "[]"])

lemma posted_sys [simp]: "posted d (d'\<lparr>dsys := w\<rparr>) = posted d d'"
  by (simp add: posted_def)

lemma posted_trans: "posted d1 d2 \<Longrightarrow> posted d2 d3 \<Longrightarrow> posted d1 d3"
  unfolding posted_def granted_def by (elim exE conjE, rule_tac x = "used @ useda" in exI) simp

lemma posted_lock_fails: "ANativeWindow_lock d = Some (None, d1) \<Longrightarrow> posted d d1"
  by (auto simp: posted_def granted_def ANativeWindow_lock_def split: list.splits intro: exI [of _ "[None]"])

lemma posted_lock_post:
  assumes "ANativeWindow_lock d = Some (Some b, d1)" and "locks d2 = locks d1" and "posts d2 = posts d1"
  shows "posted d (ANativeWindow_unlockAndPost d2)"
  using assms by (auto simp: posted_def granted_def ANativeWindow_lock_def ANativeWindow_unlockAndPost_def split: list.splits intro: exI [of _ "[Some b]"])

lemma collect_loop_posted: "collect_loop n target k s d = Some (k', s', d') \<Longrightarrow> posted d d'"
  by (erule collect_loop_rule [where P = "\<lambda>k s d'. posted d d'"])
    (auto intro: posted_same posted_trans posted_lock_fails posted_lock_post split: if_splits)

lemma do_connect_posted:
  assumes "do_connect s d = Some (r, s', d')"
  shows "posted d d'"
proof -
  let ?d0 = "d\<lparr>dsys := consumer_disconnect (n_ctx s) (dsys d)\<rparr>"
  obtain s0 d1 where d1: "cleanup_dmabufs (s\<lparr>n_ctx := None\<rparr>) ?d0 = (s0, d1)" by fastforce
  then have k: "locks d1 = locks d" "posts d1 = posts d" by (auto simp: cleanup_dmabufs_def Let_def)
  obtain s1 r2 s2 d2 where c: "collect_dmabufs s1 d1 = Some (r2, s2, d2)" "locks d' = locks d2" "posts d' = posts d2"
    using assms d1 by (auto simp: do_connect_def connect_collected_def Option.bind_eq_Some_conv Let_def split: if_splits option.splits)
  obtain k s3 d3 where l: "collect_loop (nat (n_count s1) * 4) (nat (n_count s1)) 0 s1 d1 = Some (k, s3, d3)"
      "locks d2 = locks d3" "posts d2 = posts d3"
    using c(1) by (fastforce simp: collect_dmabufs_def Let_def split: option.splits if_splits)
  show ?thesis
    by (rule posted_trans [OF posted_same posted_trans [OF collect_loop_posted [OF l(1)] posted_same]]) (simp_all add: k c l)
qed

lemma render_connect_posted: "render_connect s d = Some (ok, s', d') \<Longrightarrow> posted d d'"
  by (fastforce simp: Option.bind_eq_Some_conv render_connect_def intro: do_connect_posted posted_same split: if_splits option.splits)

lemma show_frame_keeps: "show_frame ctx i s d = Some (ok, s', d') \<Longrightarrow> locks d' = locks d \<and> posts d' = posts d"
  by (auto simp: Option.bind_eq_Some_conv show_frame_def split: if_splits option.splits)

lemma render_locked_posts:
  assumes "render_locked buf ctx s d = Some (s', d')"
  shows "\<exists>d2. locks d2 = locks d \<and> posts d2 = posts d \<and> d' = ANativeWindow_unlockAndPost d2"
proof (cases "buffer_index s (bits buf)")
  case None
  then show ?thesis using assms by (auto simp: render_locked_def)
next
  case (Some idx)
  then obtain ok s1 d1 where f: "show_frame ctx idx (s\<lparr>frame_counter := frame_counter s + 1\<rparr>) d = Some (ok, s1, d1)"
    "d' = ANativeWindow_unlockAndPost (if ok \<and> fill_test_enabled d1 then fill_test_buffer buf (frame_counter s + 1) d1 else d1)"
    using assms by (auto simp: Option.bind_eq_Some_conv render_locked_def Let_def split: option.splits)
  show ?thesis
    by (rule exI, intro conjI, rule_tac [3] f(2)) (use show_frame_keeps [OF f(1)] in \<open>simp_all add: fill_test_buffer_def\<close>)
qed

lemma render_round_posted:
  assumes "render_round s d = Some (s', d')"
  shows "posted d d'"
proof -
  obtain ok s1 d1 where c: "render_connect s d = Some (ok, s1, d1)" using assms by (auto simp: Option.bind_eq_Some_conv render_round_def split: option.splits)
  note p = render_connect_posted [OF c]
  show ?thesis
  proof (cases "ok \<and> n_ctx s1 \<noteq> None")
    case False
    then have "d' = d1" using assms c by (auto simp: Option.bind_eq_Some_conv render_round_def split: if_splits)
    then show ?thesis using p by simp
  next
    case True
    then obtain ctx b d2 where l: "n_ctx s1 = Some ctx" "ANativeWindow_lock d1 = Some (b, d2)"
      using assms c by (auto simp: Option.bind_eq_Some_conv render_round_def split: option.splits)
    have "posted d1 d'"
    proof (cases b)
      case None
      then show ?thesis using assms c True l posted_lock_fails by (auto simp: Option.bind_eq_Some_conv render_round_def)
    next
      case (Some buf)
      then have "render_locked buf ctx s1 d2 = Some (s', d')" using assms c True l by (auto simp: Option.bind_eq_Some_conv render_round_def)
      from render_locked_posts [OF this] show ?thesis using posted_lock_post l Some by auto
    qed
    then show ?thesis using p posted_trans by blast
  qed
qed

text \<open>
  C24. However the render thread runs -- reconnections, failed collections, frames whose refresh
  fails, unknown buffers -- it posts every buffer that a lock of the window gave it exactly once
  and never posts without having locked, so the window's queue never runs dry of buffers.
\<close>

theorem render_thread_posts_what_it_locks:
  assumes "render_thread_func rs s d = Some (s', d')"
  shows "\<exists>used. locks d = used @ locks d' \<and> posts d' = posts d + granted used"
proof -
  have "posted d d'"
    using assms
  proof (induction rs s d rule: render_thread_func.induct)
    case (1 rs s d)
    then obtain s1 d1 where r: "render_round s d = Some (s1, d1)" "render_thread_func rs s1 d1 = Some (s', d')" by (auto simp: Option.bind_eq_Some_conv)
    then show ?case using "1.IH" [OF r(1) refl] render_round_posted [OF r(1)] posted_trans by blast
  qed (auto intro: posted_same)
  then show ?thesis by (simp add: posted_def)
qed

theorem render_thread_posts_what_it_locks_witness:
  "\<exists>s' d'. render_thread_func [True] (g_state\<lparr>need_reconnect := True\<rparr>) (demo_dev\<lparr>locks := locks demo_dev @ [None]\<rparr>) = Some (s', d') \<and> posts d' = 2"
proof -
  let ?r = "render_thread_func [True] (g_state\<lparr>need_reconnect := True\<rparr>) (demo_dev\<lparr>locks := locks demo_dev @ [None]\<rparr>)"
  have "case ?r of Some (s', d') \<Rightarrow> locks d' = [] | None \<Rightarrow> False" by code_simp
  then obtain s' d' where r: "?r = Some (s', d')" "locks d' = []" by (auto split: option.splits)
  from render_thread_posts_what_it_locks [OF r(1)] r(2) have "posts d' = posts (demo_dev\<lparr>locks := locks demo_dev @ [None]\<rparr>) + granted (locks (demo_dev\<lparr>locks := locks demo_dev @ [None]\<rparr>))" by auto
  then show ?thesis using r(1) by (auto simp: demo_dev_def granted_def)
qed

subsection \<open>The window event as a \<open>jlong\<close>\<close>

text \<open>
  The packed event that \<open>nativePollWindowEvent\<close> returns to Java keeps both halves of what the
  consumer library read: shifting right by 32 gives the type and truncating gives the window.
\<close>

theorem pack_event_roundtrip: "ucast (drop_bit 32 (pack_event ty wid)) = ty \<and> ucast (pack_event ty wid) = wid"
  unfolding pack_event_def
  by (rule conjI; rule bit_word_eqI) (auto simp: bit_simps dest: bit_imp_le_length)

end
