(* ===== verification/Native_Session.thy ===== *)
theory Native_Session
  imports Native_Consumer
begin

section \<open>The sessions of the Android app\<close>

text \<open>
  The invariant of the app's state -- which descriptors it owns for the window's buffers and through
  the consumer library -- and that every JNI function and every round of the render thread of
  \<open>native_consumer.c\<close> keeps it; from it, that stopping releases what was acquired.
\<close>

text \<open>The number of buffers \<open>do_connect\<close> asks for, and the descriptors the app holds for them.\<close>

definition wanted :: "dev \<Rightarrow> int" where
  "wanted d = min (min_undequeued d + 2) 8"

definition bufs :: "app \<Rightarrow> dev \<Rightarrow> fd list" where
  "bufs s d = open_fds (take (nat (wanted d)) (n_fds s))"

definition app_owned :: "app \<Rightarrow> dev \<Rightarrow> fd list" where
  "app_owned s d = (case n_ctx s of None \<Rightarrow> [] | Some c \<Rightarrow> cowned c) @ bufs s d"

definition app_inv :: "fd list \<Rightarrow> app \<Rightarrow> dev \<Rightarrow> bool" where
  "app_inv X s d \<longleftrightarrow> length (n_fds s) = 8 \<and> length (n_infos s) = 8 \<and> length (buf_bits s) = 8 \<and>
     (n_count s = wanted d \<or> n_count s = 0 \<and> bufs s d = []) \<and> holds (bufs s d @ X) (dsys d) \<and>
     (\<forall>c. n_ctx s = Some c \<longrightarrow> cinv (bufs s d @ X) c (dsys d))"

definition app_step :: "fd list \<Rightarrow> app \<Rightarrow> dev \<Rightarrow> app \<Rightarrow> dev \<Rightarrow> bool" where
  "app_step X s d s' d' \<longleftrightarrow> app_inv X s' d' \<and> wanted d' = wanted d \<and>
     lost (app_owned s' d' @ X) (dsys d') = lost (app_owned s d @ X) (dsys d) \<and>
     (\<exists>rs. reports (dsys d') = reports (dsys d) @ rs \<and> set rs \<subseteq> {Null_deref})"

lemma app_step_refl: "app_inv X s d \<Longrightarrow> app_step X s d s d"
  by (simp add: app_step_def)

lemma app_step_trans: "app_step X s d s1 d1 \<Longrightarrow> app_step X s1 d1 s2 d2 \<Longrightarrow> app_step X s d s2 d2"
  unfolding app_step_def by (metis Un_least append_assoc set_append)

lemma app_stepD: "app_step X s d s' d' \<Longrightarrow> app_inv X s' d'"
  by (simp add: app_step_def)

text \<open>Only these fields matter.\<close>

lemma app_frame:
  assumes "n_fds s' = n_fds s" "n_infos s' = n_infos s" "buf_bits s' = buf_bits s" "n_count s' = n_count s" "n_ctx s' = n_ctx s"
    and "dsys d' = dsys d" "min_undequeued d' = min_undequeued d" and "app_step X s0 d0 s d"
  shows "app_step X s0 d0 s' d'"
proof -
  have e: "wanted d' = wanted d" "bufs s' d' = bufs s d" "app_owned s' d' = app_owned s d"
    using assms(1-7) by (simp_all add: app_owned_def bufs_def wanted_def)
  show ?thesis using assms unfolding app_step_def app_inv_def e by (metis (no_types))
qed

text \<open>A step of the consumer library on the app's context.\<close>

lemma app_step_lib:
  assumes inv: "app_inv X s d" and c: "n_ctx s = Some c" and st: "cstep (bufs s d @ X) c (dsys d) c' w'"
  shows "app_step X s d (s\<lparr>n_ctx := Some c'\<rparr>) (d\<lparr>dsys := w'\<rparr>)"
proof -
  have e: "bufs (s\<lparr>n_ctx := Some c'\<rparr>) (d\<lparr>dsys := w'\<rparr>) = bufs s d" "wanted (d\<lparr>dsys := w'\<rparr>) = wanted d"
    by (simp_all add: bufs_def wanted_def)
  have i: "cinv (bufs s d @ X) c' w'" by (rule cstep_cinv [OF st])
  then have "holds (bufs s d @ X) w'" unfolding cinv_def by (meson holds_drop)
  then have "app_inv X (s\<lparr>n_ctx := Some c'\<rparr>) (d\<lparr>dsys := w'\<rparr>)" using inv i by (simp add: app_inv_def e)
  moreover have "app_owned s d = cowned c @ bufs s d" "app_owned (s\<lparr>n_ctx := Some c'\<rparr>) (d\<lparr>dsys := w'\<rparr>) = cowned c' @ bufs s d"
    using c by (simp_all add: app_owned_def e)
  ultimately show ?thesis using st by (simp add: app_step_def cstep_def e)
qed

lemma lib_returned_step:
  assumes "app_inv X s d" and "n_ctx s = Some c" and "cstep (bufs s d @ X) c (dsys d) c' w'"
  shows "app_step X s d (lib_returned c0 c' s) (d\<lparr>dsys := w'\<rparr>)"
  by (rule app_frame [OF _ _ _ _ _ _ _ app_step_lib [OF assms]]) (simp_all add: lib_returned_def on_fallback_def Let_def)

lemma lib_returned_ctx [simp]: "n_ctx (lib_returned c c' s) = Some c'" "n_fds (lib_returned c c' s) = n_fds s"
  by (simp_all add: lib_returned_def on_fallback_def Let_def)

lemma bufs_lib [simp]: "bufs (lib_returned c c' s) (d\<lparr>dsys := w\<rparr>) = bufs s d" "bufs (lib_returned c c' s) d = bufs s d"
  by (simp_all add: bufs_def wanted_def)

text \<open>Disconnecting and closing the buffers.\<close>

lemma app_disconnect_step:
  assumes inv: "app_inv X s d"
  shows "app_step X s d (s\<lparr>n_ctx := None\<rparr>) (d\<lparr>dsys := consumer_disconnect (n_ctx s) (dsys d)\<rparr>)"
proof (cases "n_ctx s")
  case None
  then show ?thesis by (intro app_frame [OF _ _ _ _ _ _ _ app_step_refl [OF inv]]) (simp_all add: consumer_disconnect_def)
next
  case (Some c)
  let ?w = "consumer_release c (dsys d)"
  have c: "cinv (bufs s d @ X) c (dsys d)" using inv Some by (simp add: app_inv_def)
  note R = consumer_release_step(1) [OF c]
  have "bufs (s\<lparr>n_ctx := None\<rparr>) (d\<lparr>dsys := ?w\<rparr>) = bufs s d" "wanted (d\<lparr>dsys := ?w\<rparr>) = wanted d"
    by (simp_all add: bufs_def wanted_def)
  then show ?thesis using inv Some R by (simp add: app_step_def app_inv_def app_owned_def consumer_disconnect_def ostep_def)
qed

lemma cleanup_step:
  assumes inv: "app_inv X s d" and n: "n_ctx s = None" and r: "cleanup_dmabufs s d = (s', d')"
  shows "app_step X s d s' d' \<and> n_ctx s' = None \<and> n_count s' = 0 \<and> bufs s' d' = []"
proof (cases "n_count s = 0 \<and> bufs s d = []")
  case True
  then have "s' = s\<lparr>n_count := 0\<rparr>" "d' = d" using r by (auto simp: cleanup_dmabufs_def)
  then have "s' = s" "d' = d" using True by simp_all
  then show ?thesis using True inv n app_step_refl by auto
next
  case False
  let ?k = "nat (wanted d)"
  have nc: "n_count s = wanted d" and l: "length (n_fds s) = 8" "?k \<le> 8" and h: "holds (bufs s d @ X) (dsys d)"
    using inv False by (auto simp: app_inv_def wanted_def)
  then have e: "s' = s\<lparr>n_fds := map closed_fd (take ?k (n_fds s)) @ drop ?k (n_fds s), n_count := 0\<rparr>"
    "d' = d\<lparr>dsys := sys_close_all (bufs s d) (dsys d)\<rparr>"
    using r by (auto simp: cleanup_dmabufs_def Let_def fold_close_if_open bufs_def)
  have w: "wanted d' = wanted d" by (simp add: e wanted_def)
  have "open_fds (map closed_fd fs) = []" for fs by (induction fs) (auto simp: closed_fd_neg)
  then have b: "bufs s' d' = []" using l by (simp add: bufs_def w) (simp add: e)
  have o: "ostep (bufs s d @ X) (dsys d) X (dsys d')" using ostep_close_all [OF h] by (simp add: e)
  then show ?thesis using inv n b w l by (simp add: app_step_def app_inv_def app_owned_def ostep_def) (simp add: e n)
qed


text \<open>Collecting: a success from any state without buffers, a failure from one whose slots are all closed.\<close>

lemma collect_loop_app:
  assumes l: "length (n_fds s) = 8" "length (n_infos s) = 8" "length (buf_bits s) = 8" and h: "holds X (dsys d)" and c: "n_ctx s = None"
    and r: "collect_dmabufs (s\<lparr>n_w := a, n_h := b, n_count := wanted d\<rparr>) d = Some (x, s', d')"
  obtains k s1 d1 where "ostep X (dsys d) (take k (n_fds s1) @ X) (dsys d1)"
    "length (n_fds s1) = 8" "length (n_infos s1) = 8" "length (buf_bits s1) = 8" "n_count s1 = wanted d" "n_ctx s1 = None"
    "k \<le> nat (wanted d)" "drop k (n_fds s1) = drop k (n_fds s)" "wanted d1 = wanted d" "wanted d' = wanted d"
    "if int k < wanted d then x = -1 \<and> s' = s1\<lparr>n_fds := replicate k (-1) @ drop k (n_fds s1)\<rparr> \<and> d' = d1\<lparr>dsys := sys_close_all (take k (n_fds s1)) (dsys d1)\<rparr>
     else x = 0 \<and> s' = s1\<lparr>n_count := int k\<rparr> \<and> d' = d1"
proof -
  let ?s = "s\<lparr>n_w := a, n_h := b, n_count := wanted d\<rparr>" and ?k = "nat (wanted d)"
  have k8: "?k \<le> 8" by (auto simp: wanted_def)
  obtain k s1 d1 where cl: "collect_loop (?k * 4) ?k 0 ?s d = Some (k, s1, d1)"
    using r by (auto simp: collect_dmabufs_def Let_def split: option.splits)
  have "collected X (dsys d) d 0 ?s d" using h l by (simp add: collected_def ostep_refl)
  from collect_loop_effect [OF cl this k8]
  have E: "collected X (dsys d) d k s1 d1" "n_count s1 = wanted d" "n_ctx s1 = None" "k \<le> ?k" "drop k (n_fds s1) = drop k (n_fds s)"
    "wanted d1 = wanted d" using c(1) by (simp_all add: wanted_def)
  have e: "if int k < wanted d then x = -1 \<and> s' = s1\<lparr>n_fds := replicate k (-1) @ drop k (n_fds s1)\<rparr> \<and> d' = d1\<lparr>dsys := sys_close_all (take k (n_fds s1)) (dsys d1)\<rparr>
     else x = 0 \<and> s' = s1\<lparr>n_count := int k\<rparr> \<and> d' = d1"
    using r cl E(2) by (auto simp: collect_dmabufs_def Let_def)
  then have "wanted d' = wanted d" using E(6) by (auto simp: wanted_def split: if_splits)
  then show thesis using that [of k s1 d1] E e by (simp add: collected_def)
qed

lemma collect_succeeds_inv:
  assumes l: "length (n_fds s) = 8" "length (n_infos s) = 8" "length (buf_bits s) = 8" and h: "holds X (dsys d)" and c: "n_ctx s = None"
    and r: "collect_dmabufs (s\<lparr>n_w := a, n_h := b, n_count := wanted d\<rparr>) d = Some (0, s', d')"
  shows "app_inv X s' d' \<and> n_ctx s' = None \<and> wanted d' = wanted d \<and> ostep X (dsys d) (bufs s' d' @ X) (dsys d')"
proof -
  obtain k s1 where E: "ostep X (dsys d) (take k (n_fds s1) @ X) (dsys d')" "length (n_fds s1) = 8" "length (n_infos s1) = 8" "length (buf_bits s1) = 8"
    "n_count s1 = wanted d" "n_ctx s1 = None" "k \<le> nat (wanted d)" "wanted d' = wanted d" "s' = s1\<lparr>n_count := int k\<rparr>" "\<not> int k < wanted d"
    by (rule collect_loop_app [OF assms]) (auto split: if_splits)
  have k: "k = nat (wanted d)" using E(7,10) by simp
  have "\<forall>f \<in> set (take k (n_fds s1)). 0 \<le> f" using ostep_holds [OF E(1)] holds_nonneg by fastforce
  then have b: "bufs s' d' = take k (n_fds s1)" by (simp add: bufs_def E(8,9) k open_fds_def)
  have "n_count s' = wanted d \<or> n_count s' = 0 \<and> bufs s' d' = []" using k b by (auto simp: E(9))
  then show ?thesis using b E(1-8) ostep_holds [OF E(1)] by (simp add: app_inv_def) (simp add: E(9))
qed

lemma collect_app_step:
  assumes inv: "app_inv X s d" and c: "n_ctx s = None" "bufs s d = []"
    and r: "collect_dmabufs (s\<lparr>n_w := a, n_h := b, n_count := wanted d\<rparr>) d = Some (x, s', d')"
  shows "app_step X s d s' d' \<and> n_ctx s' = None \<and> (x = 0 \<or> x = -1)"
proof -
  let ?k = "nat (wanted d)"
  have l: "length (n_fds s) = 8" "length (n_infos s) = 8" "length (buf_bits s) = 8" and h: "holds X (dsys d)" and own: "app_owned s d = []"
    using inv c by (auto simp: app_inv_def app_owned_def)
  obtain k s1 d1 where E: "ostep X (dsys d) (take k (n_fds s1) @ X) (dsys d1)"
    "length (n_fds s1) = 8" "length (n_infos s1) = 8" "length (buf_bits s1) = 8" "n_count s1 = wanted d" "n_ctx s1 = None"
    "k \<le> ?k" "drop k (n_fds s1) = drop k (n_fds s)" "wanted d1 = wanted d" "wanted d' = wanted d"
    "if int k < wanted d then x = -1 \<and> s' = s1\<lparr>n_fds := replicate k (-1) @ drop k (n_fds s1)\<rparr> \<and> d' = d1\<lparr>dsys := sys_close_all (take k (n_fds s1)) (dsys d1)\<rparr>
     else x = 0 \<and> s' = s1\<lparr>n_count := int k\<rparr> \<and> d' = d1"
    by (rule collect_loop_app [OF l h c(1) r])
  show ?thesis
  proof (cases "x = 0")
    case True
    then show ?thesis using collect_succeeds_inv [OF l h c(1)] r own by (simp add: app_step_def app_owned_def ostep_def)
  next
    case False
    then have e: "x = -1" "s' = s1\<lparr>n_fds := replicate k (-1) @ drop k (n_fds s1)\<rparr>" "d' = d1\<lparr>dsys := sys_close_all (take k (n_fds s1)) (dsys d1)\<rparr>"
      using E(11) by (auto split: if_splits)
    have "take (?k - k) (drop k (n_fds s)) = drop k (take ?k (n_fds s))" by (simp add: drop_take)
    moreover have "open_fds (drop k (take ?k (n_fds s))) = []"
      using c(2) by (simp add: bufs_def open_fds_def drop_map [symmetric]) (metis filter_False filter_empty_conv in_set_dropD)
    ultimately have b: "bufs s' d' = []" using E(2,7,8) l by (simp add: bufs_def E(10)) (simp add: e open_fds_def)
    have "ostep X (dsys d) X (dsys d')" using ostep_trans [OF E(1) ostep_close_all [OF ostep_holds [OF E(1)]]] by (simp add: e)
    moreover have "k \<le> 8" using E(7) by (auto simp: wanted_def)
    ultimately show ?thesis using b l E own by (simp add: app_step_def app_inv_def app_owned_def ostep_def) (auto simp: e)
  qed
qed

lemma connect_collected_step:
  assumes inv: "app_inv X s d" and n: "n_ctx s = None" and r: "connect_collected path s d = Some (x, s', d')"
  shows "app_step X s d s' d'"
proof -
  let ?B = "bufs s d @ X"
  have h: "holds ?B (dsys d)" using inv by (simp add: app_inv_def)
  obtain ctx w where cn: "consumer_connect_to_deamon path (dsys d) = Some (ctx, w)"
    using r by (auto simp: connect_collected_def Option.bind_eq_Some_conv)
  note N = consumer_connect_step [OF h cn]
  have bw: "bufs (s\<lparr>n_ctx := c\<rparr>) (d\<lparr>dsys := v\<rparr>) = bufs s d" "bufs s (d\<lparr>dsys := v\<rparr>) = bufs s d" "wanted (d\<lparr>dsys := v\<rparr>) = wanted d" for c v
    by (simp_all add: bufs_def wanted_def)
  show ?thesis
  proof (cases ctx)
    case None
    then have e: "s' = s" "d' = d\<lparr>dsys := w\<rparr>" using r cn by (auto simp: connect_collected_def)
    show ?thesis using N None inv n by (simp add: e app_step_def app_inv_def app_owned_def bw ostep_def)
  next
    case (Some c)
    then obtain x1 c1 w1 x2 c2 w2 where st: "set_screen_info c \<lparr>si_width = of_int (n_w s), si_height = of_int (n_h s), si_format = PIXEL_FORMAT_RGBA_8888, si_refresh = 0\<rparr> w = Some (x1, c1, w1)"
        "push_dmabufs c1 (n_fds s) (n_infos s) (n_count s) w1 = Some (x2, c2, w2)"
      and e: "s' = s\<lparr>n_ctx := Some c2, need_reconnect := False, frame_counter := 0\<rparr>" "d' = d\<lparr>dsys := w2\<rparr>"
      using r cn by (auto simp: connect_collected_def Option.bind_eq_Some_conv)
    have ci: "cinv ?B c w" and co: "ostep ?B (dsys d) (cowned c @ ?B) w" using N Some by simp_all
    have nc: "nat (n_count s) \<le> 8" "length (n_fds s) = 8" "length (n_infos s) = 8" using inv by (auto simp: app_inv_def wanted_def)
    have c1: "cstep ?B c w c1 w1" by (rule set_screen_info_step [OF ci st(1)])
    have c2: "cstep ?B c w c2 w2"
      by (rule cstep_trans [OF c1 push_dmabufs_step [OF cstep_cinv [OF c1] _ _ st(2)]]) (use nc in auto)
    let ?s = "s\<lparr>n_ctx := Some c\<rparr>" and ?d = "d\<lparr>dsys := w\<rparr>"
    have A: "app_step X s d ?s ?d"
      using inv ci co n holds_drop(1) [of "cowned c" ?B w] by (simp add: app_step_def app_inv_def app_owned_def bw ostep_def cinv_def)
    have B: "app_step X ?s ?d (?s\<lparr>n_ctx := Some c2\<rparr>) (?d\<lparr>dsys := w2\<rparr>)"
      by (rule app_step_lib [OF app_stepD [OF A]]) (use c2 bw in simp_all)
    show ?thesis by (rule app_frame [OF _ _ _ _ _ _ _ app_step_trans [OF A B]]) (simp_all add: e)
  qed
qed

lemma do_connect_collects:
  assumes "do_connect s d = Some (x, s', d')"
    and "cleanup_dmabufs (s\<lparr>n_ctx := None\<rparr>) (d\<lparr>dsys := consumer_disconnect (n_ctx s) (dsys d)\<rparr>) = (s1, d1)"
  obtains y s2 d2 where "collect_dmabufs (s1\<lparr>n_w := win_w d1, n_h := win_h d1, n_count := wanted d1\<rparr>) d1 = Some (y, s2, d2)"
    and "if y < 0 then (x, s', d') = (-1, s2, d2) else connect_collected (take 107 (n_path s)) s2 d2 = Some (x, s', d')"
  using assms by (auto simp: do_connect_def Option.bind_eq_Some_conv Let_def wanted_def split: if_splits)

lemma do_connect_step:
  assumes inv: "app_inv X s d" and r: "do_connect s d = Some (x, s', d')"
  shows "app_step X s d s' d'"
proof -
  obtain s1 d1 where cl: "cleanup_dmabufs (s\<lparr>n_ctx := None\<rparr>) (d\<lparr>dsys := consumer_disconnect (n_ctx s) (dsys d)\<rparr>) = (s1, d1)" by fastforce
  note D = app_disconnect_step [OF inv]
  note C = cleanup_step [OF app_stepD [OF D] _ cl, simplified]
  have S1: "app_step X s d s1 d1" using app_step_trans [OF D] C by blast
  obtain y s2 d2 where co: "collect_dmabufs (s1\<lparr>n_w := win_w d1, n_h := win_h d1, n_count := wanted d1\<rparr>) d1 = Some (y, s2, d2)"
    "if y < 0 then (x, s', d') = (-1, s2, d2) else connect_collected (take 107 (n_path s)) s2 d2 = Some (x, s', d')"
    by (rule do_connect_collects [OF r cl])
  have E: "app_step X s1 d1 s2 d2" "n_ctx s2 = None" using collect_app_step [OF app_stepD [OF S1] _ _ co(1)] C by auto
  have S2: "app_step X s d s2 d2" by (rule app_step_trans [OF S1 E(1)])
  show ?thesis
  proof (cases "y < 0")
    case True
    then show ?thesis using co(2) S2 by simp
  next
    case False
    then show ?thesis using app_step_trans [OF S2 connect_collected_step [OF app_stepD [OF S2] E(2)]] co(2) by simp
  qed
qed

text \<open>The first connection, from a state that never collected any buffer: the slots still hold 0.\<close>

lemma first_connect_inv:
  assumes l: "length (n_fds s) = 8" "length (n_infos s) = 8" "length (buf_bits s) = 8" and h: "holds X (dsys d)"
    and n: "n_ctx s = None" "n_count s = 0" and r: "do_connect s d = Some (0, s', d')"
  shows "app_inv X s' d' \<and> lost (app_owned s' d' @ X) (dsys d') = lost X (dsys d) \<and>
    (\<exists>rs. reports (dsys d') = reports (dsys d) @ rs \<and> set rs \<subseteq> {Null_deref})"
proof -
  have cl: "cleanup_dmabufs (s\<lparr>n_ctx := None\<rparr>) (d\<lparr>dsys := consumer_disconnect (n_ctx s) (dsys d)\<rparr>) = (s\<lparr>n_ctx := None, n_count := 0\<rparr>, d)"
    using n by (simp add: cleanup_dmabufs_def consumer_disconnect_def)
  obtain y s2 d2 where co: "collect_dmabufs (s\<lparr>n_ctx := None, n_count := 0\<rparr>\<lparr>n_w := win_w d, n_h := win_h d, n_count := wanted d\<rparr>) d = Some (y, s2, d2)"
    "if y < 0 then (0 :: int, s', d') = (-1, s2, d2) else connect_collected (take 107 (n_path s)) s2 d2 = Some (0, s', d')"
    by (rule do_connect_collects [OF r cl])
  have y: "y = 0" using collect_dmabufs_step [OF h _ _ _ _ co(1)] co(2) l by (auto simp: wanted_def split: if_splits)
  have C: "app_inv X s2 d2" "n_ctx s2 = None" "ostep X (dsys d) (bufs s2 d2 @ X) (dsys d2)"
    using collect_succeeds_inv [OF _ _ _ h _ co(1) [unfolded y]] l by simp_all
  have "app_step X s2 d2 s' d'" using connect_collected_step [OF C(1,2)] co(2) y by simp
  moreover have "app_owned s2 d2 = bufs s2 d2" using C(2) by (simp add: app_owned_def)
  ultimately show ?thesis using C(3) by (simp add: app_step_def ostep_def)
qed

lemma send_input_step:
  assumes "app_inv X s d" and "send_input ev s d = Some (s', d')"
  shows "app_step X s d s' d'"
proof (cases "n_ctx s")
  case None
  then show ?thesis using assms app_step_refl by (simp add: send_input_def)
next
  case (Some c)
  then obtain x c' w where p: "push_input_event c ev (dsys d) = Some (x, c', w)" and e: "s' = lib_returned c c' s" "d' = d\<lparr>dsys := w\<rparr>"
    using assms(2) by (auto simp: send_input_def Option.bind_eq_Some_conv)
  have "cstep (bufs s d @ X) c (dsys d) c' w"
    using push_message_step p assms(1) Some unfolding push_input_event_def app_inv_def by blast
  from lib_returned_step [OF assms(1) Some this] show ?thesis by (simp add: e)
qed

lemma nativePoll_step:
  assumes "app_inv X s d" and "nativePollWindowEvent s d = Some (v, s', d')"
  shows "app_step X s d s' d'"
proof (cases "n_ctx s")
  case None
  then show ?thesis using assms app_step_refl by (simp add: nativePollWindowEvent_def)
next
  case (Some c)
  then obtain x ev c' w where p: "poll_window_event c (dsys d) = Some (x, ev, c', w)" and e: "s' = lib_returned c c' s" "d' = d\<lparr>dsys := w\<rparr>"
    using assms(2) by (auto simp: nativePollWindowEvent_def Option.bind_eq_Some_conv)
  have "cstep (bufs s d @ X) c (dsys d) c' w"
    using poll_window_event_step p assms(1) Some unfolding app_inv_def by blast
  from lib_returned_step [OF assms(1) Some this] show ?thesis by (simp add: e)
qed

lemma nativeCommand_step:
  assumes "app_inv X s d" and "nativeSendWindowCommand t wid s d = Some (v, s', d')"
  shows "app_step X s d s' d'"
proof (cases "n_ctx s")
  case None
  then show ?thesis using assms app_step_refl by (simp add: nativeSendWindowCommand_def)
next
  case (Some c)
  then obtain x c' w where p: "push_window_command c \<lparr>wc_type = t, wc_window_id = wid\<rparr> (dsys d) = Some (x, c', w)"
      and e: "s' = lib_returned c c' s" "d' = d\<lparr>dsys := w\<rparr>"
    using assms(2) by (auto simp: nativeSendWindowCommand_def Option.bind_eq_Some_conv)
  have "cstep (bufs s d @ X) c (dsys d) c' w"
    using push_message_step p assms(1) Some unfolding push_window_command_def app_inv_def by blast
  from lib_returned_step [OF assms(1) Some this] show ?thesis by (simp add: e)
qed

lemma show_frame_step:
  assumes inv: "app_inv X s d" and c: "n_ctx s = Some c" and r: "show_frame c i s d = Some (ok, s', d')"
  shows "app_step X s d s' d'"
proof -
  obtain x c1 w1 where s: "select_dmabuf c (int i) (dsys d) = Some (x, c1, w1)" using r by (auto simp: show_frame_def Option.bind_eq_Some_conv)
  let ?s = "lib_returned c c1 s" and ?d = "d\<lparr>dsys := w1\<rparr>"
  have ci: "cinv (bufs s d @ X) c (dsys d)" using inv c by (simp add: app_inv_def)
  note A = lib_returned_step [OF inv c select_dmabuf_step [OF ci s], of c]
  show ?thesis
  proof (cases "x < 0")
    case True
    then show ?thesis using A r s by (simp add: show_frame_def)
  next
    case False
    then obtain y c2 w2 where f: "refresh_done c1 w1 = Some (y, c2, w2)" and e: "s' = lib_returned c1 c2 ?s" "d' = d\<lparr>dsys := w2\<rparr>"
      using r s by (auto simp: show_frame_def Option.bind_eq_Some_conv)
    have "cstep (bufs ?s ?d @ X) c1 (dsys ?d) c2 w2"
      using refresh_done_step [OF _ f] app_stepD [OF A] by (simp add: app_inv_def)
    from app_step_trans [OF A lib_returned_step [OF app_stepD [OF A] _ this, of c1]] show ?thesis by (simp add: e)
  qed
qed

lemma render_connect_step:
  assumes "app_inv X s d" and "render_connect s d = Some (ok, s', d')"
  shows "app_step X s d s' d'"
proof (cases "need_reconnect s")
  case False
  then show ?thesis using assms app_step_refl by (simp add: render_connect_def)
next
  case True
  then obtain r s1 d1 where c: "do_connect s d = Some (r, s1, d1)"
      and e: "d' = d1" "s' = s1 \<or> s' = s1\<lparr>n_ctx := map_option (\<lambda>ctx. consumer_set_fallback_callback ctx True) (n_ctx s1)\<rparr>"
    using assms(2) by (auto simp: render_connect_def Option.bind_eq_Some_conv split: if_splits)
  note S = do_connect_step [OF assms(1) c]
  show ?thesis
  proof (cases "n_ctx s1")
    case None
    then show ?thesis using e by (intro app_frame [OF _ _ _ _ _ _ _ S]) auto
  next
    case (Some c)
    have "cstep (bufs s1 d1 @ X) c (dsys d1) (consumer_set_fallback_callback c True) (dsys d1)"
      using app_stepD [OF S] Some by (simp add: app_inv_def consumer_set_fallback_callback_def cstep_refl)
    from app_step_trans [OF S app_step_lib [OF app_stepD [OF S] Some this]] S show ?thesis using e Some by auto
  qed
qed

lemma render_locked_step:
  assumes inv: "app_inv X s d" and c: "n_ctx s = Some c" and r: "render_locked buf c s d = Some (s', d')"
  shows "app_step X s d s' d'"
proof (cases "buffer_index s (bits buf)")
  case None
  then show ?thesis using r by (intro app_frame [OF _ _ _ _ _ _ _ app_step_refl [OF inv]]) (auto simp: render_locked_def ANativeWindow_unlockAndPost_def)
next
  case (Some idx)
  let ?s = "s\<lparr>frame_counter := frame_counter s + 1\<rparr>"
  obtain ok s1 d1 where f: "show_frame c idx ?s d = Some (ok, s1, d1)" "s' = s1" "dsys d' = dsys d1" "min_undequeued d' = min_undequeued d1"
    using r Some by (auto simp: render_locked_def Let_def Option.bind_eq_Some_conv fill_test_buffer_def ANativeWindow_unlockAndPost_def split: if_splits)
  have A: "app_step X s d ?s d" by (rule app_frame [OF _ _ _ _ _ _ _ app_step_refl [OF inv]]) simp_all
  have "app_step X ?s d s1 d1" by (rule show_frame_step [OF app_stepD [OF A] _ f(1)]) (simp add: c)
  from app_frame [OF _ _ _ _ _ _ _ app_step_trans [OF A this]] show ?thesis using f by simp
qed

lemma render_round_step:
  assumes inv: "app_inv X s d" and r: "render_round s d = Some (s', d')"
  shows "app_step X s d s' d'"
proof -
  obtain ok s1 d1 where c: "render_connect s d = Some (ok, s1, d1)" using r by (auto simp: render_round_def Option.bind_eq_Some_conv)
  note S = render_connect_step [OF inv c]
  show ?thesis
  proof (cases "ok \<and> n_ctx s1 \<noteq> None")
    case False
    then have "s' = s1" "d' = d1" using r c by (auto simp: render_round_def split: if_splits)
    then show ?thesis using S by simp
  next
    case True
    then obtain ctx b d2 where l: "n_ctx s1 = Some ctx" "ANativeWindow_lock d1 = Some (b, d2)"
      using r c by (auto simp: Option.bind_eq_Some_conv render_round_def)
    have A: "app_step X s d s1 d2" by (rule app_frame [OF _ _ _ _ _ _ _ S]) (use lock_keeps [OF l(2)] in simp_all)
    show ?thesis
    proof (cases b)
      case None
      then have "s' = s1" "d' = d2" using r c True l by (auto simp: render_round_def)
      then show ?thesis using A by simp
    next
      case (Some buf)
      then have "render_locked buf ctx s1 d2 = Some (s', d')" using r c True l by (auto simp: Option.bind_eq_Some_conv render_round_def)
      from app_step_trans [OF A render_locked_step [OF app_stepD [OF A] l(1) this]] show ?thesis .
    qed
  qed
qed

lemma stop_session_step:
  assumes inv: "app_inv X s d" and r: "stop_session s d = (s', d')"
  shows "app_step X s d s' d' \<and> n_ctx s' = None \<and> bufs s' d' = []"
proof -
  let ?w = "if n_running s then wake_display_consumer (n_ctx s) (dsys d) else dsys d"
  let ?d = "d\<lparr>dsys := ?w\<rparr>"
  have k: "keeps (dsys d) ?w" using wake_keeps by (simp add: keeps_def)
  have A: "app_step X s d s ?d"
  proof (cases "n_ctx s")
    case None
    then have "?w = dsys d" by (simp add: wake_display_consumer_def)
    then show ?thesis using app_step_refl [OF inv] by simp
  next
    case (Some c)
    have "cstep (bufs s d @ X) c (dsys d) c ?w" using cstep_keeps [OF _ k] inv Some by (simp add: app_inv_def)
    from app_step_lib [OF inv Some this] show ?thesis by (rule app_frame [rotated 7]) (simp_all add: Some)
  qed
  have B: "app_step X s d (s\<lparr>n_running := False, n_ctx := None\<rparr>) (?d\<lparr>dsys := consumer_disconnect (n_ctx s) (dsys ?d)\<rparr>)"
    by (rule app_frame [OF _ _ _ _ _ _ _ app_step_trans [OF A app_disconnect_step [OF app_stepD [OF A]]]]) simp_all
  have "cleanup_dmabufs (s\<lparr>n_running := False, n_ctx := None\<rparr>) (?d\<lparr>dsys := consumer_disconnect (n_ctx s) (dsys ?d)\<rparr>) = (s', d')"
    using r by (simp add: stop_session_def Let_def split: if_splits)
  from cleanup_step [OF app_stepD [OF B] _ this] app_step_trans [OF B] show ?thesis by simp
qed

text \<open>
  What the app does once it was connected: rounds of the render thread, the JNI calls in any order,
  and anything else happening in the system.
\<close>

inductive app_reach :: "app \<Rightarrow> dev \<Rightarrow> app \<Rightarrow> dev \<Rightarrow> bool" for s0 d0 where
  start: "app_reach s0 d0 s0 d0"
| round: "app_reach s0 d0 s d \<Longrightarrow> render_round s d = Some (s', d') \<Longrightarrow> app_reach s0 d0 s' d'"
| touch: "app_reach s0 d0 s d \<Longrightarrow> nativeSendTouch a x y p s d = Some (s', d') \<Longrightarrow> app_reach s0 d0 s' d'"
| touch_frame: "app_reach s0 d0 s d \<Longrightarrow> nativeSendTouchFrame s d = Some (s', d') \<Longrightarrow> app_reach s0 d0 s' d'"
| key: "app_reach s0 d0 s d \<Longrightarrow> nativeSendKey a k s d = Some (s', d') \<Longrightarrow> app_reach s0 d0 s' d'"
| motion: "app_reach s0 d0 s d \<Longrightarrow> nativeSendMouseMotion fs x y dx dy s d = Some (s', d') \<Longrightarrow> app_reach s0 d0 s' d'"
| button: "app_reach s0 d0 s d \<Longrightarrow> nativeSendMouseButton b p s d = Some (s', d') \<Longrightarrow> app_reach s0 d0 s' d'"
| scroll: "app_reach s0 d0 s d \<Longrightarrow> nativeSendMouseScroll a v s d = Some (s', d') \<Longrightarrow> app_reach s0 d0 s' d'"
| poll: "app_reach s0 d0 s d \<Longrightarrow> nativePollWindowEvent s d = Some (e, s', d') \<Longrightarrow> app_reach s0 d0 s' d'"
| command: "app_reach s0 d0 s d \<Longrightarrow> nativeSendWindowCommand t i s d = Some (ok, s', d') \<Longrightarrow> app_reach s0 d0 s' d'"
| path: "app_reach s0 d0 s d \<Longrightarrow> app_reach s0 d0 (nativeSetSocketPath p s) d"
| restart: "app_reach s0 d0 s d \<Longrightarrow> nativeStart a1 a2 s d = (s', d') \<Longrightarrow> app_reach s0 d0 s' d'"
| stop: "app_reach s0 d0 s d \<Longrightarrow> nativeStop s d = (s', d') \<Longrightarrow> app_reach s0 d0 s' d'"

lemma app_step_then: "app_step X s0 d0 s d \<Longrightarrow> (app_inv X s d \<Longrightarrow> app_step X s d s' d') \<Longrightarrow> app_step X s0 d0 s' d'"
  using app_step_trans app_stepD by blast

lemma nativeStart_step:
  assumes inv: "app_inv X s d" and r: "nativeStart a1 a2 s d = (s', d')"
  shows "app_step X s d s' d'"
proof (cases "\<not> api_loaded s \<and> \<not> a1")
  case True
  then show ?thesis using r app_step_refl [OF inv] by (simp add: nativeStart_def)
next
  case False
  obtain s1 d1 where st: "stop_session (s\<lparr>api_loaded := True\<rparr>) d = (s1, d1)" by fastforce
  have A: "app_step X s d (s\<lparr>api_loaded := True\<rparr>) d" by (rule app_frame [OF _ _ _ _ _ _ _ app_step_refl [OF inv]]) simp_all
  note B = app_step_trans [OF A conjunct1 [OF stop_session_step [OF app_stepD [OF A] st]]]
  show ?thesis by (rule app_frame [OF _ _ _ _ _ _ _ B]) (use r st False in \<open>auto simp: nativeStart_def Let_def split: if_splits\<close>)
qed

lemma nativeStop_step:
  assumes inv: "app_inv X s d" and r: "nativeStop s d = (s', d')"
  shows "app_step X s d s' d' \<and> app_owned s' d' = []"
proof -
  obtain s1 d1 where st: "stop_session s d = (s1, d1)" by fastforce
  note B = stop_session_step [OF inv st]
  have e: "s' = s1\<lparr>n_window := False\<rparr>" "d' = d1" using r st by (simp_all add: nativeStop_def)
  have "app_step X s d s' d'" by (rule app_frame [OF _ _ _ _ _ _ _ conjunct1 [OF B]]) (simp_all add: e)
  then show ?thesis using B by (simp add: app_owned_def e bufs_def)
qed

lemma motion_step:
  assumes inv: "app_inv X s d" and r: "nativeSendMouseMotion fs x y dx dy s d = Some (s', d')"
  shows "app_step X s d s' d'"
proof (cases "n_ctx s = None")
  case True
  then show ?thesis using r app_step_refl [OF inv] by (simp add: nativeSendMouseMotion_def)
next
  case False
  let ?s = "s\<lparr>motion_last_x := x, motion_last_y := y, motion_has_last := True\<rparr>"
  have A: "app_step X s d ?s d" by (rule app_frame [OF _ _ _ _ _ _ _ app_step_refl [OF inv]]) simp_all
  obtain ev where "send_input ev ?s d = Some (s', d')"
    using r False by (auto simp: nativeSendMouseMotion_def Let_def split: if_splits)
  from app_step_trans [OF A send_input_step [OF app_stepD [OF A] this]] show ?thesis .
qed

lemma app_reach_step:
  assumes "app_reach s0 d0 s d" and "app_inv X s0 d0"
  shows "app_step X s0 d0 s d"
  using assms
proof (induction rule: app_reach.induct)
  case (path s d p)
  show ?case by (rule app_frame [OF _ _ _ _ _ _ _ path.IH]) (simp_all add: nativeSetSocketPath_def path)
qed (auto simp: nativeSendTouch_def nativeSendTouchFrame_def nativeSendKey_def nativeSendMouseButton_def nativeSendMouseScroll_def
    intro: app_step_refl app_step_then render_round_step send_input_step motion_step nativePoll_step nativeCommand_step nativeStart_step
      conjunct1 [OF nativeStop_step])




end
