(* ===== verification/Kiosk.thy ===== *)
theory Kiosk
  imports Prelude
begin

section \<open>The kiosk shell\<close>

text \<open>
  \<open>weston/kiosk-shell/kiosk-shell.c\<close>: one full-screen window tree per output, window identifiers and the
  events and commands that connect the windows with the app.  A shell surface, an output and a seat are
  numbers; a freed shell surface has no entry in \<open>surfs\<close>.  A \<open>wl_list\<close> is a list, first element first:
  \<open>trees h\<close> is the list whose head is the \<open>surface_tree_list\<close> of \<open>h\<close>, and \<open>surface_tree_link\<close> of a
  surface is its place in one of them; \<open>parent_listeners p\<close> are the surfaces whose
  \<open>parent_destroy_listener\<close> is on the \<open>parent_destroy_signal\<close> of \<open>p\<close>, in the order in which they were added;
  \<open>output_destroy_listener\<close> of a surface is registered exactly while its \<open>output\<close> is set.  The two layers
  hold views of windows and \<open>Foreign\<close> views that have no shell surface (popups).  Calls that only have
  an effect elsewhere are in the log \<open>klog\<close>, undefined behaviour in \<open>kreports\<close>: a call that
  would dereference NULL has no effect but the report, and its caller goes on.  Loops that follow \<open>parent\<close> need not end: \<open>None\<close> is a handler that
  never returns.
\<close>

type_synonym sid = nat
type_synonym oid = nat

definition WESTON_ANLAND_WINDOW_EVENT_OPENED :: u32 where "WESTON_ANLAND_WINDOW_EVENT_OPENED = 1"
definition WESTON_ANLAND_WINDOW_EVENT_CLOSED :: u32 where "WESTON_ANLAND_WINDOW_EVENT_CLOSED = 2"
definition WESTON_ANLAND_WINDOW_EVENT_MINIMIZED :: u32 where "WESTON_ANLAND_WINDOW_EVENT_MINIMIZED = 3"
definition WESTON_ANLAND_WINDOW_EVENT_RESTORED :: u32 where "WESTON_ANLAND_WINDOW_EVENT_RESTORED = 4"
definition WESTON_ANLAND_WINDOW_COMMAND_RESTORE :: u32 where "WESTON_ANLAND_WINDOW_COMMAND_RESTORE = 1"

datatype activate_flag = WESTON_ACTIVATE_FLAG_NONE | WESTON_ACTIVATE_FLAG_CONFIGURE | WESTON_ACTIVATE_FLAG_CLICKED

datatype kcall =
  Send_window_event u32 u32 u32 "string option" "string option"
| Activate_input sid nat activate_flag
| Set_activated sid bool
| Set_fullscreen sid bool
| Set_maximized sid bool
| Set_size sid int int
| Center_on_output sid oid
| Set_position_with_offset sid "int \<times> int" "int \<times> int"
| Move_by sid "int \<times> int"
| Update_transform sid
| Damage_all
| Post_no_memory
| View_destroy sid

datatype kreport = K_null_deref | K_freed_list | K_stale_focus | K_stale_surface | K_overread | K_list_reinit

datatype kview = Win sid | Foreign nat

text \<open>
  \<open>struct kiosk_shell_surface\<close>; the fields from \<open>ds_app_id\<close> on are what the shell reads of the window's
  \<open>weston_desktop_surface\<close>, \<open>weston_surface\<close> and \<open>weston_view\<close>.  The X11 names are those of an Xwayland
  window.
\<close>

record kiosk_shell_surface =
  ks_output :: "oid option"
  ks_parent :: "sid option"
  ks_focus_count :: int
  ks_last :: "int \<times> int"
  ks_xwayland :: "(int \<times> int) option"
  ks_appid_output_assigned :: bool
  ks_window_id :: u32
  ds_app_id :: "string option"
  ds_title :: "string option"
  ds_pid :: int
  ds_wm_name :: "string option"
  ds_wm_class :: "string option"
  ws_mapped :: bool
  ws_output :: "oid option"
  wv_output :: "oid option"

record kiosk_shell_output =
  ko_size :: "int \<times> int"
  ko_app_ids :: "string option"
  ko_x11_wm_name_app_ids :: "string option"
  ko_x11_wm_class_app_ids :: "string option"
  active_surface_tree :: "sid option"

text \<open>A seat of the compositor with the outputs of its focused views.\<close>

record wseat =
  seat_no :: nat
  touch_focus :: "oid option option"
  pointer_focus :: "oid option option"
  keyboard_focus :: "oid option option"

record kiosk_shell =
  surfs :: "sid \<Rightarrow> kiosk_shell_surface option"
  next_surf :: sid
  trees :: "sid \<Rightarrow> sid list"
  parent_listeners :: "sid \<Rightarrow> sid list"
  normal_layer :: "kview list"
  inactive_layer :: "kview list"
  kouts :: "oid \<Rightarrow> kiosk_shell_output option"
  output_list :: "oid list"
  comp_outputs :: "oid list"
  seat_list :: "wseat list"
  kseat :: "(nat \<times> sid option) option"
  window_api :: bool
  acglass_next_window_id :: u32
  klog :: "kcall list"
  kreports :: "kreport list"

definition kcalls :: "kcall list \<Rightarrow> kiosk_shell \<Rightarrow> kiosk_shell" where
  "kcalls cs s = s\<lparr>klog := klog s @ cs\<rparr>"

definition kreport :: "kreport \<Rightarrow> kiosk_shell \<Rightarrow> kiosk_shell" where
  "kreport r s = s\<lparr>kreports := kreports s @ [r]\<rparr>"

definition upd_surf :: "sid \<Rightarrow> (kiosk_shell_surface \<Rightarrow> kiosk_shell_surface) \<Rightarrow> kiosk_shell \<Rightarrow> kiosk_shell" where
  "upd_surf x f s = s\<lparr>surfs := (surfs s)(x := map_option f (surfs s x))\<rparr>"

definition surf_output :: "kiosk_shell \<Rightarrow> sid \<Rightarrow> oid option" where
  "surf_output s x = Option.bind (surfs s x) ks_output"

definition parent_of :: "kiosk_shell \<Rightarrow> sid \<Rightarrow> sid option" where
  "parent_of s x = Option.bind (surfs s x) ks_parent"

definition get_kiosk_shell_surface :: "kview \<Rightarrow> sid option" where
  "get_kiosk_shell_surface v = (case v of Win x \<Rightarrow> Some x | Foreign _ \<Rightarrow> None)"

definition get_kiosk_shell_first_seat :: "kiosk_shell \<Rightarrow> nat option" where
  "get_kiosk_shell_first_seat s = (case seat_list s of [] \<Rightarrow> None | st # _ \<Rightarrow> Some (seat_no st))"

definition get_kiosk_shell_seat :: "nat option \<Rightarrow> kiosk_shell \<Rightarrow> nat option" where
  "get_kiosk_shell_seat seat s =
     (case seat of None \<Rightarrow> None
      | Some n \<Rightarrow> (case kseat s of Some (m, _) \<Rightarrow> if m = n then Some n else None | None \<Rightarrow> None))"

definition focused_surface :: "kiosk_shell \<Rightarrow> sid option" where
  "focused_surface s = Option.bind (kseat s) snd"

definition set_focused :: "sid option \<Rightarrow> kiosk_shell \<Rightarrow> kiosk_shell" where
  "set_focused x s = s\<lparr>kseat := map_option (\<lambda>(n, _). (n, x)) (kseat s)\<rparr>"

subsection \<open>Views and layers\<close>

text \<open>
  \<open>weston_view_move_to_layer\<close> for the two layers of the shell, which are both on the compositor's
  layer list: the view leaves its layer and becomes the top of the new one.
\<close>

definition move_to_normal :: "sid \<Rightarrow> kiosk_shell \<Rightarrow> kiosk_shell" where
  "move_to_normal x s = s\<lparr>normal_layer := Win x # removeAll (Win x) (normal_layer s), inactive_layer := removeAll (Win x) (inactive_layer s)\<rparr>"

definition move_to_inactive :: "sid \<Rightarrow> kiosk_shell \<Rightarrow> kiosk_shell" where
  "move_to_inactive x s = s\<lparr>normal_layer := removeAll (Win x) (normal_layer s), inactive_layer := Win x # removeAll (Win x) (inactive_layer s)\<rparr>"

subsection \<open>Window events and identifiers\<close>

definition acglass_emit_window_event :: "sid \<Rightarrow> u32 \<Rightarrow> kiosk_shell \<Rightarrow> kiosk_shell" where
  "acglass_emit_window_event x type s =
     (case surfs s x of
        None \<Rightarrow> s
      | Some sh \<Rightarrow>
          if \<not> window_api s then s
          else kcalls [Send_window_event type (ks_window_id sh) (if 0 < ds_pid sh then word_of_int (ds_pid sh) else 0) (ds_app_id sh) (ds_title sh)] s)"

definition has_window_id :: "u32 \<Rightarrow> kiosk_shell \<Rightarrow> kview \<Rightarrow> bool" where
  "has_window_id wid s v =
     (case get_kiosk_shell_surface v of None \<Rightarrow> False
      | Some x \<Rightarrow> (case surfs s x of None \<Rightarrow> False | Some sh \<Rightarrow> ks_window_id sh = wid))"

definition acglass_find_window :: "kiosk_shell \<Rightarrow> u32 \<Rightarrow> sid option" where
  "acglass_find_window s wid =
     (case List.find (has_window_id wid s) (normal_layer s) of
        Some v \<Rightarrow> get_kiosk_shell_surface v
      | None \<Rightarrow>
          (case List.find (has_window_id wid s) (inactive_layer s) of
             Some v \<Rightarrow> get_kiosk_shell_surface v
           | None \<Rightarrow> None))"

definition acglass_new_window_id :: "kiosk_shell \<Rightarrow> u32 \<times> kiosk_shell" where
  "acglass_new_window_id s =
     (let wid = acglass_next_window_id s + 1; s = s\<lparr>acglass_next_window_id := wid\<rparr> in
      if wid = 0 then (acglass_next_window_id s + 1, s\<lparr>acglass_next_window_id := acglass_next_window_id s + 1\<rparr>)
      else (wid, s))"

subsection \<open>The window tree\<close>

partial_function (option) kiosk_shell_surface_get_parent_root :: "(sid \<Rightarrow> sid option) \<Rightarrow> sid \<Rightarrow> sid option" where
  "kiosk_shell_surface_get_parent_root par x = (case par x of None \<Rightarrow> Some x | Some p \<Rightarrow> kiosk_shell_surface_get_parent_root par p)"

partial_function (option) kiosk_shell_surface_is_descendant_of :: "(sid \<Rightarrow> sid option) \<Rightarrow> sid \<Rightarrow> sid \<Rightarrow> bool option" where
  "kiosk_shell_surface_is_descendant_of par ancestor x =
     (if x = ancestor then Some True
      else (case par x of None \<Rightarrow> Some False | Some p \<Rightarrow> kiosk_shell_surface_is_descendant_of par ancestor p))"

declare kiosk_shell_surface_get_parent_root.simps [code] kiosk_shell_surface_is_descendant_of.simps [code]

definition unlink_surface :: "sid \<Rightarrow> kiosk_shell \<Rightarrow> kiosk_shell" where
  "unlink_surface e s = s\<lparr>trees := (\<lambda>h. removeAll e (trees s h))\<rparr>"

definition active_surface_tree_move_element_to_top :: "sid \<Rightarrow> sid \<Rightarrow> kiosk_shell \<Rightarrow> kiosk_shell" where
  "active_surface_tree_move_element_to_top h e s =
     (let s = unlink_surface e s in s\<lparr>trees := (trees s)(h := e # trees s h)\<rparr>)"

definition kiosk_shell_surface_is_surface_in_tree :: "kiosk_shell \<Rightarrow> sid \<Rightarrow> sid \<Rightarrow> bool" where
  "kiosk_shell_surface_is_surface_in_tree s x shroot \<longleftrightarrow> x \<in> set (trees s shroot)"

text \<open>The list of a freed surface is still followed where a pointer to it is left.\<close>

definition check_list :: "sid \<Rightarrow> kiosk_shell \<Rightarrow> kiosk_shell" where
  "check_list h s = (if surfs s h = None then kreport K_freed_list s else s)"

definition kiosk_shell_output_set_active_surface_tree :: "oid option \<Rightarrow> sid option \<Rightarrow> kiosk_shell \<Rightarrow> kiosk_shell" where
  "kiosk_shell_output_set_active_surface_tree shoutput shroot s =
     (case Option.bind shoutput (kouts s) of
        None \<Rightarrow> kreport K_null_deref s
      | Some ko \<Rightarrow>
          (let s = (case active_surface_tree ko of
                      None \<Rightarrow> s
                    | Some h \<Rightarrow> (let s = check_list h s in fold move_to_inactive (rev (trees s h)) s));
               s = (case shroot of
                      None \<Rightarrow> s
                    | Some r \<Rightarrow> fold move_to_normal (rev (trees s r)) s)
           in s\<lparr>kouts := (kouts s)(the shoutput \<mapsto> ko\<lparr>active_surface_tree := shroot\<rparr>)\<rparr>))"

fun collect_subtree :: "sid \<Rightarrow> sid list \<Rightarrow> sid list \<Rightarrow> kiosk_shell \<Rightarrow> (sid list \<times> kiosk_shell) option" where
  "collect_subtree shroot [] tmp s = Some (tmp, s)"
| "collect_subtree shroot (x # xs) tmp s = do {
     d \<leftarrow> kiosk_shell_surface_is_descendant_of (parent_of s) shroot x;
     if d then collect_subtree shroot xs (x # tmp) (unlink_surface x s) else collect_subtree shroot xs tmp s
   }"

fun raise_collected :: "sid \<Rightarrow> sid list \<Rightarrow> kiosk_shell \<Rightarrow> kiosk_shell" where
  "raise_collected h [] s = s"
| "raise_collected h (x # xs) s = raise_collected h xs (active_surface_tree_move_element_to_top h x (move_to_normal x s))"

definition kiosk_shell_output_raise_surface_subtree :: "oid option \<Rightarrow> sid \<Rightarrow> kiosk_shell \<Rightarrow> kiosk_shell option" where
  "kiosk_shell_output_raise_surface_subtree shoutput shroot s =
     (case Option.bind shoutput (kouts s) of
        None \<Rightarrow> Some (kreport K_null_deref s)
      | Some ko \<Rightarrow>
          (case active_surface_tree ko of
             None \<Rightarrow> Some s
           | Some h \<Rightarrow> do {
               let s = check_list h s;
               (tmp, s) \<leftarrow> collect_subtree shroot (rev (trees s h)) [] s;
               Some (raise_collected h (rev tmp) s)
             }))"

subsection \<open>Choosing an output\<close>

text \<open>
  \<open>strstr\<close> from position \<open>i\<close> on: the first place where \<open>needle\<close> occurs.  The scan of the configured
  identifiers continues one byte after each occurrence that is not a whole item; \<open>None\<close> is a search that
  starts after the terminating NUL of the string.
\<close>

definition strstr_from :: "string \<Rightarrow> string \<Rightarrow> nat \<Rightarrow> nat option" where
  "strstr_from hay needle i = List.find (\<lambda>j. take (length needle) (drop j hay) = needle) [i..<Suc (length hay)]"

lemma find_Some_set: "List.find P xs = Some x \<Longrightarrow> P x \<and> x \<in> set xs"
  by (induction xs) (auto split: if_splits)

lemma strstr_from_bounds: "strstr_from hay needle i = Some j \<Longrightarrow> i \<le> j \<and> j \<le> length hay"
  using find_Some_set [of _ "[i..<Suc (length hay)]" j] by (fastforce simp: strstr_from_def simp del: upt_Suc)

function app_id_scan :: "string \<Rightarrow> string \<Rightarrow> nat \<Rightarrow> bool option" where
  "app_id_scan conf app_id i =
     (if length conf < i then None
      else (case strstr_from conf app_id i of
              None \<Rightarrow> Some False
            | Some j \<Rightarrow>
                if (j + length app_id = length conf \<or> conf ! (j + length app_id) = CHR '','') \<and> (j = 0 \<or> conf ! (j - 1) = CHR '','')
                then Some True
                else app_id_scan conf app_id (j + 1)))"
  by pat_completeness auto
termination
  by (relation "measure (\<lambda>(conf, app_id, i). Suc (length conf) - i)") (auto dest: strstr_from_bounds)

declare app_id_scan.simps [simp del]

definition kiosk_shell_output_has_app_id :: "string option \<Rightarrow> string \<Rightarrow> bool option" where
  "kiosk_shell_output_has_app_id config_app_ids app_id =
     (case config_app_ids of None \<Rightarrow> Some False | Some conf \<Rightarrow> app_id_scan conf app_id 0)"

text \<open>A test inside the loops over the outputs; reading on after the end of the string is a report.\<close>

definition output_has :: "(kiosk_shell_output \<Rightarrow> string option) \<Rightarrow> string \<Rightarrow> oid \<Rightarrow> kiosk_shell \<Rightarrow> bool \<times> kiosk_shell" where
  "output_has ids name o' s =
     (case kouts s o' of
        None \<Rightarrow> (False, s)
      | Some ko \<Rightarrow> (case kiosk_shell_output_has_app_id (ids ko) name of None \<Rightarrow> (False, kreport K_overread s) | Some b \<Rightarrow> (b, s)))"

fun find_output :: "(kiosk_shell_output \<Rightarrow> string option) \<Rightarrow> string \<Rightarrow> oid list \<Rightarrow> kiosk_shell \<Rightarrow> oid option \<times> kiosk_shell" where
  "find_output ids name [] s = (None, s)"
| "find_output ids name (o' # os) s =
     (let (b, s) = output_has ids name o' s in if b then (Some o', s) else find_output ids name os s)"

text \<open>The flags \<open>found_wm_name\<close> and \<open>found_wm_class\<close> stay set from one output to the next.\<close>

fun find_output_both :: "string \<Rightarrow> string \<Rightarrow> bool \<Rightarrow> bool \<Rightarrow> oid list \<Rightarrow> kiosk_shell \<Rightarrow> oid option \<times> kiosk_shell" where
  "find_output_both wm_name wm_class found_wm_name found_wm_class [] s = (None, s)"
| "find_output_both wm_name wm_class found_wm_name found_wm_class (o' # os) s =
     (let (b, s) = output_has ko_x11_wm_name_app_ids wm_name o' s;
          found_wm_name = (found_wm_name \<or> b);
          (b, s) = output_has ko_x11_wm_class_app_ids wm_class o' s;
          found_wm_class = (found_wm_class \<or> b)
      in if found_wm_name \<and> found_wm_class then (Some o', s)
         else find_output_both wm_name wm_class found_wm_name found_wm_class os s)"

definition assign_found :: "sid \<Rightarrow> oid option \<times> kiosk_shell \<Rightarrow> oid option \<times> kiosk_shell" where
  "assign_found x r = (case r of (None, s) \<Rightarrow> (None, s) | (Some o', s) \<Rightarrow> (Some o', upd_surf x (ks_appid_output_assigned_update (\<lambda>_. True)) s))"

text \<open>The searches one after the other, until one of them finds an output.\<close>

definition or_else :: "oid option \<times> kiosk_shell \<Rightarrow> (kiosk_shell \<Rightarrow> oid option \<times> kiosk_shell) \<Rightarrow> oid option \<times> kiosk_shell" where
  "or_else r f = (case r of (Some o', s) \<Rightarrow> (Some o', s) | (None, s) \<Rightarrow> f s)"

definition kiosk_shell_surface_find_best_output_for_xwayland :: "sid \<Rightarrow> kiosk_shell \<Rightarrow> oid option \<times> kiosk_shell" where
  "kiosk_shell_surface_find_best_output_for_xwayland x s =
     (let wm_name = Option.bind (surfs s x) ds_wm_name; wm_class = Option.bind (surfs s x) ds_wm_class
      in or_else (or_else
           (case (wm_name, wm_class) of
              (Some n, Some c) \<Rightarrow> assign_found x (find_output_both n c False False (output_list s) s)
            | _ \<Rightarrow> (None, s))
           (\<lambda>s. case wm_name of
                  None \<Rightarrow> (None, s)
                | Some n \<Rightarrow> assign_found x (find_output ko_x11_wm_name_app_ids n (output_list s) s)))
           (\<lambda>s. case wm_class of
                  None \<Rightarrow> (None, s)
                | Some c \<Rightarrow> assign_found x (find_output ko_x11_wm_class_app_ids c (output_list s) s)))"

fun weston_shell_utils_get_focused_output :: "wseat list \<Rightarrow> oid option" where
  "weston_shell_utils_get_focused_output [] = None"
| "weston_shell_utils_get_focused_output (st # sts) =
     (let out = (case touch_focus st of Some o' \<Rightarrow> o'
                 | None \<Rightarrow> (case pointer_focus st of Some o' \<Rightarrow> o'
                           | None \<Rightarrow> (case keyboard_focus st of Some o' \<Rightarrow> o' | None \<Rightarrow> None)))
      in case out of Some o' \<Rightarrow> Some o' | None \<Rightarrow> weston_shell_utils_get_focused_output sts)"

definition weston_shell_utils_get_default_output :: "kiosk_shell \<Rightarrow> oid option" where
  "weston_shell_utils_get_default_output s = (case comp_outputs s of [] \<Rightarrow> None | o' # _ \<Rightarrow> Some o')"

definition weston_output_get_shell_private :: "kiosk_shell \<Rightarrow> oid \<Rightarrow> oid option" where
  "weston_output_get_shell_private s o' = (if kouts s o' = None then None else Some o')"

definition kiosk_shell_surface_find_best_output :: "sid \<Rightarrow> kiosk_shell \<Rightarrow> (oid option \<times> kiosk_shell) option" where
  "kiosk_shell_surface_find_best_output x s =
     (if surf_output s x \<noteq> None then Some (surf_output s x, s)
      else (let (r, s) = or_else
                  (case Option.bind (surfs s x) ds_app_id of
                     None \<Rightarrow> (None, s)
                   | Some app_id \<Rightarrow> assign_found x (find_output ko_app_ids app_id (output_list s) s))
                  (kiosk_shell_surface_find_best_output_for_xwayland x)
            in if r \<noteq> None then Some (r, s)
               else do {
                 root \<leftarrow> kiosk_shell_surface_get_parent_root (parent_of s) x;
                 Some (if surf_output s root \<noteq> None then surf_output s root
                       else (case weston_shell_utils_get_focused_output (seat_list s) of
                               Some o' \<Rightarrow> weston_output_get_shell_private s o'
                             | None \<Rightarrow> (case weston_shell_utils_get_default_output s of
                                         Some o' \<Rightarrow> weston_output_get_shell_private s o'
                                       | None \<Rightarrow> None)), s)
               }))"

definition kiosk_shell_surface_set_output :: "sid \<Rightarrow> oid option \<Rightarrow> kiosk_shell \<Rightarrow> kiosk_shell" where
  "kiosk_shell_surface_set_output x shoutput s = upd_surf x (ks_output_update (\<lambda>_. shoutput)) s"

definition set_size_of_output :: "sid \<Rightarrow> kiosk_shell \<Rightarrow> kiosk_shell" where
  "set_size_of_output x s =
     (case Option.bind (surf_output s x) (kouts s) of
        None \<Rightarrow> s
      | Some ko \<Rightarrow> kcalls [Set_size x (fst (ko_size ko)) (snd (ko_size ko))] s)"

definition kiosk_shell_surface_set_fullscreen :: "sid \<Rightarrow> oid option \<Rightarrow> kiosk_shell \<Rightarrow> kiosk_shell option" where
  "kiosk_shell_surface_set_fullscreen x shoutput s = do {
     (shoutput, s) \<leftarrow> (if shoutput = None then kiosk_shell_surface_find_best_output x s else Some (shoutput, s));
     let s = kiosk_shell_surface_set_output x shoutput s;
     Some (set_size_of_output x (kcalls [Set_fullscreen x True] s))
   }"

definition kiosk_shell_surface_set_maximized :: "sid \<Rightarrow> kiosk_shell \<Rightarrow> kiosk_shell option" where
  "kiosk_shell_surface_set_maximized x s = do {
     (shoutput, s) \<leftarrow> kiosk_shell_surface_find_best_output x s;
     let s = kiosk_shell_surface_set_output x shoutput s;
     Some (set_size_of_output x (kcalls [Set_maximized x True] s))
   }"

definition kiosk_shell_surface_set_normal :: "sid \<Rightarrow> kiosk_shell \<Rightarrow> kiosk_shell option" where
  "kiosk_shell_surface_set_normal x s = do {
     s \<leftarrow> (if surf_output s x = None
           then do { (shoutput, s) \<leftarrow> kiosk_shell_surface_find_best_output x s; Some (kiosk_shell_surface_set_output x shoutput s) }
           else Some s);
     Some (kcalls [Set_fullscreen x False, Set_maximized x False, Set_size x 0 0] s)
   }"

subsection \<open>Parents\<close>

definition drop_parent_listener :: "sid \<Rightarrow> kiosk_shell \<Rightarrow> kiosk_shell" where
  "drop_parent_listener x s = s\<lparr>parent_listeners := (\<lambda>p. removeAll x (parent_listeners s p))\<rparr>"

definition add_parent_listener :: "sid \<Rightarrow> sid \<Rightarrow> kiosk_shell \<Rightarrow> kiosk_shell" where
  "add_parent_listener p x s = s\<lparr>parent_listeners := (parent_listeners s)(p := parent_listeners s p @ [x])\<rparr>"

fun relink_subtree :: "sid \<Rightarrow> sid list \<Rightarrow> kiosk_shell \<Rightarrow> kiosk_shell option" where
  "relink_subtree x [] s = Some s"
| "relink_subtree x (e # es) s = do {
     d \<leftarrow> kiosk_shell_surface_is_descendant_of (parent_of s) x e;
     relink_subtree x es (if d then active_surface_tree_move_element_to_top x e s else s)
   }"

text \<open>
  \<open>wl_list_init\<close> of a list head that still has elements leaves those elements linked to it on one side
  only; the model takes them out and reports it.
\<close>

definition reinit_tree :: "sid \<Rightarrow> kiosk_shell \<Rightarrow> kiosk_shell" where
  "reinit_tree x s = (if trees s x = [] then s else kreport K_list_reinit (s\<lparr>trees := (trees s)(x := [])\<rparr>))"

text \<open>The parent pointer and the listener on the parent's destruction.\<close>

definition set_links :: "sid \<Rightarrow> sid option \<Rightarrow> kiosk_shell \<Rightarrow> kiosk_shell" where
  "set_links x parent s =
     (let s = upd_surf x (ks_parent_update (\<lambda>_. parent)) (drop_parent_listener x s)
      in case parent of None \<Rightarrow> s | Some p \<Rightarrow> add_parent_listener p x s)"

definition kiosk_shell_surface_set_parent :: "sid \<Rightarrow> sid option \<Rightarrow> kiosk_shell \<Rightarrow> kiosk_shell option" where
  "kiosk_shell_surface_set_parent x parent s = do {
     let shoutput = surf_output s x;
     shroot \<leftarrow> kiosk_shell_surface_get_parent_root (parent_of s) (case parent of Some p \<Rightarrow> p | None \<Rightarrow> x);
     if parent = None \<and> x = shroot then Some s
     else do {
       let s = set_links x parent s;
       if parent \<noteq> None then do {
         let s = (if kiosk_shell_surface_is_surface_in_tree s x shroot then s else active_surface_tree_move_element_to_top shroot x s);
         kiosk_shell_surface_set_normal x (kiosk_shell_surface_set_output x None s)
       }
       else do {
         let s = reinit_tree x s;
         s \<leftarrow> relink_subtree x (rev (trees s shroot)) s;
         kiosk_shell_surface_set_fullscreen x (surf_output s x) (kiosk_shell_output_set_active_surface_tree shoutput (Some x) s)
       }
     }
   }"

definition kiosk_shell_surface_notify_parent_destroy :: "sid \<Rightarrow> kiosk_shell \<Rightarrow> kiosk_shell option" where
  "kiosk_shell_surface_notify_parent_destroy x s =
     (case parent_of s x of
        None \<Rightarrow> Some (kreport K_null_deref s)
      | Some p \<Rightarrow> kiosk_shell_surface_set_parent x (parent_of s p) s)"

definition kiosk_shell_surface_notify_output_destroy :: "sid \<Rightarrow> kiosk_shell \<Rightarrow> kiosk_shell" where
  "kiosk_shell_surface_notify_output_destroy x s = kiosk_shell_surface_set_output x None s"

definition kiosk_shell_surface_reconfigure_for_output :: "sid \<Rightarrow> bool \<Rightarrow> kiosk_shell \<Rightarrow> kiosk_shell" where
  "kiosk_shell_surface_reconfigure_for_output x maximized_or_fullscreen s =
     (case surf_output s x of
        None \<Rightarrow> s
      | Some o' \<Rightarrow>
          kcalls [Center_on_output x o', Update_transform x] (if maximized_or_fullscreen then set_size_of_output x s else s))"

subsection \<open>Creation, destruction and activation of shell surfaces\<close>

text \<open>
  The desktop surface is given by what the shell reads of it; \<open>view_ok\<close> and \<open>mem_ok\<close> are the results of
  \<open>weston_desktop_surface_create_view\<close> and of the allocation, \<open>has_client\<close> whether the surface has a client.
\<close>

record desktop_surface =
  dk_app_id :: "string option"
  dk_title :: "string option"
  dk_pid :: int
  dk_wm_name :: "string option"
  dk_wm_class :: "string option"
  dk_has_client :: bool

definition kiosk_shell_surface_create :: "bool \<Rightarrow> bool \<Rightarrow> desktop_surface \<Rightarrow> kiosk_shell \<Rightarrow> sid option \<times> kiosk_shell" where
  "kiosk_shell_surface_create view_ok mem_ok d s =
     (if \<not> view_ok then (None, s)
      else if \<not> mem_ok then (None, if dk_has_client d then kcalls [Post_no_memory] s else s)
      else (let (wid, s) = acglass_new_window_id s; x = next_surf s;
                sh = \<lparr>ks_output = None, ks_parent = None, ks_focus_count = 0, ks_last = (0, 0), ks_xwayland = None,
                      ks_appid_output_assigned = False, ks_window_id = wid, ds_app_id = dk_app_id d, ds_title = dk_title d,
                      ds_pid = dk_pid d, ds_wm_name = dk_wm_name d, ds_wm_class = dk_wm_class d, ws_mapped = False,
                      ws_output = None, wv_output = None\<rparr>
            in (Some x, s\<lparr>next_surf := Suc x, surfs := (surfs s)(x \<mapsto> sh), trees := (trees s)(x := [x]),
                          parent_listeners := (parent_listeners s)(x := [])\<rparr>)))"

definition kiosk_shell_surface_destroy :: "sid \<Rightarrow> kiosk_shell \<Rightarrow> kiosk_shell" where
  "kiosk_shell_surface_destroy x s =
     (let s = drop_parent_listener x (unlink_surface x s)
      in kcalls [View_destroy x]
           (s\<lparr>surfs := (surfs s)(x := None),
              normal_layer := removeAll (Win x) (normal_layer s), inactive_layer := removeAll (Win x) (inactive_layer s)\<rparr>))"

definition unfocus_current :: "kiosk_shell \<Rightarrow> kiosk_shell" where
  "unfocus_current s =
     (case focused_surface s of
        None \<Rightarrow> s
      | Some f \<Rightarrow>
          (case surfs s f of
             None \<Rightarrow> kreport K_stale_focus s
           | Some sh \<Rightarrow>
               (let s = upd_surf f (ks_focus_count_update (\<lambda>n. n - 1)) s
                in if ks_focus_count sh - 1 = 0 then kcalls [Set_activated f False] s else s)))"

definition focus_on :: "sid \<Rightarrow> kiosk_shell \<Rightarrow> kiosk_shell" where
  "focus_on x s =
     (let s = set_focused (Some x) s; n = (case surfs s x of None \<Rightarrow> 0 | Some sh \<Rightarrow> ks_focus_count sh);
          s = upd_surf x (ks_focus_count_update (\<lambda>n. n + 1)) s
      in if n = 0 then kcalls [Set_activated x True] s else s)"

definition kiosk_shell_surface_activate :: "sid \<Rightarrow> nat \<Rightarrow> activate_flag \<Rightarrow> kiosk_shell \<Rightarrow> kiosk_shell option" where
  "kiosk_shell_surface_activate x seat flags s =
     kiosk_shell_output_raise_surface_subtree (surf_output s x) x (focus_on x (unfocus_current (kcalls [Activate_input x seat flags] s)))"

subsection \<open>Commands from the app\<close>

definition acglass_restore_window :: "kiosk_shell \<Rightarrow> u32 \<Rightarrow> kiosk_shell option" where
  "acglass_restore_window s wid =
     (case acglass_find_window s wid of
        None \<Rightarrow> Some s
      | Some x \<Rightarrow> do {
          s \<leftarrow> (if surf_output s x = None
                then do { (shoutput, s) \<leftarrow> kiosk_shell_surface_find_best_output x s; Some (kiosk_shell_surface_set_output x shoutput s) }
                else Some s);
          if surf_output s x = None then Some s
          else do {
            let shoutput = surf_output s x;
            root \<leftarrow> kiosk_shell_surface_get_parent_root (parent_of s) x;
            let s = kiosk_shell_output_set_active_surface_tree shoutput (Some root) s;
            s \<leftarrow> kiosk_shell_output_raise_surface_subtree shoutput x s;
            s \<leftarrow> (case get_kiosk_shell_seat (get_kiosk_shell_first_seat s) s of
                    Some seat \<Rightarrow> kiosk_shell_surface_activate x seat WESTON_ACTIVATE_FLAG_CONFIGURE s
                  | None \<Rightarrow> Some s);
            Some (acglass_emit_window_event x WESTON_ANLAND_WINDOW_EVENT_RESTORED (kcalls [Damage_all] s))
          }
        })"

definition acglass_window_command_handler :: "u32 \<Rightarrow> u32 \<Rightarrow> kiosk_shell \<Rightarrow> kiosk_shell option" where
  "acglass_window_command_handler type wid s =
     (if type = WESTON_ANLAND_WINDOW_COMMAND_RESTORE then acglass_restore_window s wid else Some s)"

subsection \<open>Handlers of the desktop interface\<close>

definition desktop_surface_added :: "bool \<Rightarrow> bool \<Rightarrow> desktop_surface \<Rightarrow> kiosk_shell \<Rightarrow> kiosk_shell option" where
  "desktop_surface_added view_ok mem_ok d s =
     (case kiosk_shell_surface_create view_ok mem_ok d s of
        (None, s) \<Rightarrow> Some s
      | (Some x, s) \<Rightarrow> do {
          s \<leftarrow> kiosk_shell_surface_set_fullscreen x None s;
          Some (acglass_emit_window_event x WESTON_ANLAND_WINDOW_EVENT_OPENED s)
        })"

text \<open>
  The search for a successor goes through the layers from top to bottom; the \<open>break\<close> ends the loop over
  one layer only.
\<close>

fun successor_in_layer :: "kiosk_shell \<Rightarrow> sid \<Rightarrow> sid \<Rightarrow> kview list \<Rightarrow> kview option \<Rightarrow> kview option option" where
  "successor_in_layer s x parent_root [] top_view = Some top_view"
| "successor_in_layer s x parent_root (v # vs) top_view =
     (if v = Win x then successor_in_layer s x parent_root vs top_view
      else (case get_kiosk_shell_surface v of
              None \<Rightarrow> successor_in_layer s x parent_root vs top_view
            | Some y \<Rightarrow>
                if Option.bind (surfs s y) wv_output \<noteq> surf_output s x then successor_in_layer s x parent_root vs top_view
                else do {
                  let top_view = (if top_view = None then Some v else top_view);
                  root \<leftarrow> kiosk_shell_surface_get_parent_root (parent_of s) y;
                  if root = parent_root then Some (Some v) else successor_in_layer s x parent_root vs top_view
                }))"

definition find_focus_successor :: "sid \<Rightarrow> kiosk_shell \<Rightarrow> sid option option" where
  "find_focus_successor x s = do {
     parent_root \<leftarrow> kiosk_shell_surface_get_parent_root (parent_of s) x;
     if surf_output s x = None then Some None
     else do {
       top_view \<leftarrow> successor_in_layer s x parent_root (normal_layer s) None;
       top_view \<leftarrow> successor_in_layer s x parent_root (inactive_layer s) top_view;
       Some (Option.bind top_view get_kiosk_shell_surface)
     }
   }"

fun notify_parent_destroys :: "sid list \<Rightarrow> kiosk_shell \<Rightarrow> kiosk_shell option" where
  "notify_parent_destroys [] s = Some s"
| "notify_parent_destroys (c # cs) s = do { s \<leftarrow> kiosk_shell_surface_notify_parent_destroy c s; notify_parent_destroys cs s }"

text \<open>The part of \<open>desktop_surface_removed\<close> that passes the focus on.\<close>

definition pass_focus :: "sid \<Rightarrow> nat \<Rightarrow> kiosk_shell \<Rightarrow> kiosk_shell option" where
  "pass_focus x seat s = do {
     successor \<leftarrow> find_focus_successor x s;
     let shoutput = surf_output s x;
     case (shoutput, successor) of
       (Some _, Some y) \<Rightarrow> do {
         s \<leftarrow> (if Win y \<in> set (inactive_layer s)
               then do {
                 shroot \<leftarrow> kiosk_shell_surface_get_parent_root (parent_of s) y;
                 Some (kiosk_shell_output_set_active_surface_tree shoutput (Some shroot) s)
               }
               else Some s);
         kiosk_shell_surface_activate y seat WESTON_ACTIVATE_FLAG_NONE s
       }
     | _ \<Rightarrow>
         (let s = set_focused None s
          in Some (if shoutput = None then s else kiosk_shell_output_set_active_surface_tree shoutput None s))
   }"

definition surface_output :: "kiosk_shell \<Rightarrow> sid \<Rightarrow> oid option" where
  "surface_output s x = Option.bind (surfs s x) ws_output"

definition desktop_surface_removed :: "sid \<Rightarrow> kiosk_shell \<Rightarrow> kiosk_shell option" where
  "desktop_surface_removed x s =
     (if surfs s x = None then Some s
      else do {
        let s = acglass_emit_window_event x WESTON_ANLAND_WINDOW_EVENT_CLOSED s;
        let seat = get_kiosk_shell_seat (get_kiosk_shell_first_seat s) s;
        s \<leftarrow> notify_parent_destroys (parent_listeners s x) s;
        s \<leftarrow> (case (seat, focused_surface s) of
                (Some n, Some f) \<Rightarrow>
                  if f = x \<or> surface_output s x \<noteq> surface_output s f then pass_focus x n s else Some s
              | _ \<Rightarrow> Some s);
        Some (kiosk_shell_surface_destroy x s)
      })"

text \<open>
  \<open>desktop_surface_committed\<close>: \<open>w\<close> and \<open>h\<close> are the size of the surface, \<open>is_fullscreen\<close> whether the client has
  acknowledged a maximized or full-screen state, \<open>geom\<close> and \<open>buf_offset\<close> the window geometry and the buffer offset.
\<close>

definition commit_assign_output :: "sid \<Rightarrow> kiosk_shell \<Rightarrow> kiosk_shell option" where
  "commit_assign_output x s =
     (case surfs s x of
        None \<Rightarrow> Some s
      | Some sh \<Rightarrow>
          if ks_appid_output_assigned sh \<or> ds_app_id sh = None then Some s
          else do {
            (shoutput, s) \<leftarrow> kiosk_shell_surface_find_best_output x (kiosk_shell_surface_set_output x None s);
            let s = kiosk_shell_surface_set_output x shoutput s;
            let s = (if shoutput = None then kreport K_null_deref s else set_size_of_output x s);
            Some (upd_surf x (ks_appid_output_assigned_update (\<lambda>_. True)) s)
          })"

definition commit_place :: "sid \<Rightarrow> bool \<Rightarrow> bool \<Rightarrow> int \<times> int \<Rightarrow> kiosk_shell \<Rightarrow> kiosk_shell" where
  "commit_place x is_resized is_fullscreen geom s =
     (case surfs s x of
        None \<Rightarrow> s
      | Some sh \<Rightarrow>
          if ws_mapped sh \<and> \<not> (is_resized \<and> is_fullscreen) then s
          else (case (is_fullscreen, ks_xwayland sh) of
                  (False, Some pos) \<Rightarrow> kcalls [Set_position_with_offset x pos (- fst geom, - snd geom), Update_transform x] s
                | _ \<Rightarrow> (case ks_output sh of
                          None \<Rightarrow> kcalls [Update_transform x] (kreport K_null_deref s)
                        | Some o' \<Rightarrow> kcalls [Center_on_output x o', Update_transform x] s)))"

definition commit_map :: "sid \<Rightarrow> kiosk_shell \<Rightarrow> kiosk_shell option" where
  "commit_map x s =
     (case surfs s x of
        None \<Rightarrow> Some s
      | Some sh \<Rightarrow>
          if ws_mapped sh then Some s
          else do {
            let s = upd_surf x (\<lambda>sh. (if ks_output sh = None then sh else sh\<lparr>ws_output := ks_output sh, wv_output := ks_output sh\<rparr>)\<lparr>ws_mapped := True\<rparr>) s;
            let s = (if ks_parent sh = None then kiosk_shell_output_set_active_surface_tree (ks_output sh) (Some x) s else s);
            s \<leftarrow> (case get_kiosk_shell_seat (get_kiosk_shell_first_seat s) s of
                    Some seat \<Rightarrow> kiosk_shell_surface_activate x seat WESTON_ACTIVATE_FLAG_NONE s
                  | None \<Rightarrow> Some s);
            Some (kcalls [Damage_all] s)
          })"

definition desktop_surface_committed :: "sid \<Rightarrow> int \<Rightarrow> int \<Rightarrow> bool \<Rightarrow> int \<times> int \<Rightarrow> int \<times> int \<Rightarrow> kiosk_shell \<Rightarrow> kiosk_shell option" where
  "desktop_surface_committed x w h is_fullscreen geom buf_offset s =
     (case surfs s x of
        None \<Rightarrow> Some (kreport K_stale_surface s)
      | Some sh \<Rightarrow>
          if w = 0 then Some s
          else do {
            s \<leftarrow> commit_assign_output x s;
            let is_resized = ((w, h) \<noteq> ks_last sh);
            s \<leftarrow> commit_map x (commit_place x is_resized is_fullscreen geom s);
            let s = (if \<not> is_fullscreen \<and> buf_offset \<noteq> (0, 0) then kcalls [Move_by x buf_offset, Update_transform x] s else s);
            let s = upd_surf x (ks_last_update (\<lambda>_. (w, h))) s;
            Some (if is_resized then kcalls [Damage_all] s else s)
          })"

definition desktop_surface_set_parent :: "sid \<Rightarrow> sid option \<Rightarrow> kiosk_shell \<Rightarrow> kiosk_shell option" where
  "desktop_surface_set_parent x parent s = kiosk_shell_surface_set_parent x parent s"

definition desktop_surface_fullscreen_requested :: "sid \<Rightarrow> bool \<Rightarrow> oid option \<Rightarrow> kiosk_shell \<Rightarrow> kiosk_shell option" where
  "desktop_surface_fullscreen_requested x fullscreen output s =
     (let shoutput = Option.bind output (weston_output_get_shell_private s)
      in if parent_of s x = None \<or> fullscreen then kiosk_shell_surface_set_fullscreen x shoutput s
         else kiosk_shell_surface_set_normal x s)"

definition desktop_surface_maximized_requested :: "sid \<Rightarrow> bool \<Rightarrow> kiosk_shell \<Rightarrow> kiosk_shell option" where
  "desktop_surface_maximized_requested x maximized s =
     (if parent_of s x = None then kiosk_shell_surface_set_fullscreen x None s
      else if maximized then kiosk_shell_surface_set_maximized x s
      else kiosk_shell_surface_set_normal x s)"

definition desktop_surface_minimized_requested :: "sid \<Rightarrow> kiosk_shell \<Rightarrow> kiosk_shell option" where
  "desktop_surface_minimized_requested x s =
     (case surf_output s x of
        None \<Rightarrow> Some s
      | Some shoutput \<Rightarrow> do {
          shroot \<leftarrow> kiosk_shell_surface_get_parent_root (parent_of s) x;
          let s = (if Option.bind (kouts s shoutput) active_surface_tree = Some shroot
                   then kiosk_shell_output_set_active_surface_tree (Some shoutput) None s
                   else move_to_inactive x s);
          Some (acglass_emit_window_event x WESTON_ANLAND_WINDOW_EVENT_MINIMIZED (kcalls [Damage_all] s))
        })"

definition desktop_surface_set_xwayland_position :: "sid \<Rightarrow> int \<times> int \<Rightarrow> kiosk_shell \<Rightarrow> kiosk_shell" where
  "desktop_surface_set_xwayland_position x pos s = upd_surf x (ks_xwayland_update (\<lambda>_. Some pos)) s"

subsection \<open>Input bindings, seats and outputs\<close>

text \<open>\<open>main\<close> is the shell surface of the main surface of the clicked view; a grab suppresses both bindings.\<close>

definition kiosk_shell_activate_view :: "sid option \<Rightarrow> nat \<Rightarrow> activate_flag \<Rightarrow> kiosk_shell \<Rightarrow> kiosk_shell option" where
  "kiosk_shell_activate_view main seat flags s =
     (case (main, get_kiosk_shell_seat (Some seat) s) of
        (Some x, Some n) \<Rightarrow> kiosk_shell_surface_activate x n flags s
      | _ \<Rightarrow> Some s)"

definition kiosk_shell_click_to_activate_binding :: "bool \<Rightarrow> sid option option \<Rightarrow> nat \<Rightarrow> kiosk_shell \<Rightarrow> kiosk_shell option" where
  "kiosk_shell_click_to_activate_binding grabbed focus seat s =
     (if grabbed then Some s
      else (case focus of None \<Rightarrow> Some s | Some main \<Rightarrow> kiosk_shell_activate_view main seat WESTON_ACTIVATE_FLAG_CLICKED s))"

definition kiosk_shell_touch_to_activate_binding :: "bool \<Rightarrow> sid option option \<Rightarrow> nat \<Rightarrow> kiosk_shell \<Rightarrow> kiosk_shell option" where
  "kiosk_shell_touch_to_activate_binding grabbed focus seat s =
     (if grabbed then Some s
      else (case focus of None \<Rightarrow> Some s | Some main \<Rightarrow> kiosk_shell_activate_view main seat WESTON_ACTIVATE_FLAG_NONE s))"

definition kiosk_shell_seat_create :: "bool \<Rightarrow> nat \<Rightarrow> kiosk_shell \<Rightarrow> kiosk_shell" where
  "kiosk_shell_seat_create mem_ok seat s =
     (if kseat s \<noteq> None \<or> \<not> mem_ok then s else s\<lparr>kseat := Some (seat, None)\<rparr>)"

definition kiosk_shell_seat_handle_destroy :: "kiosk_shell \<Rightarrow> kiosk_shell" where
  "kiosk_shell_seat_handle_destroy s = s\<lparr>kseat := None\<rparr>"

definition kiosk_shell_notify_session :: "bool \<Rightarrow> kiosk_shell \<Rightarrow> kiosk_shell" where
  "kiosk_shell_notify_session session_active s =
     (case get_kiosk_shell_first_seat s of
        None \<Rightarrow> s
      | Some seat \<Rightarrow>
          if \<not> session_active then s
          else (case get_kiosk_shell_seat (Some seat) s of
                  None \<Rightarrow> kreport K_null_deref s
                | Some n \<Rightarrow>
                    (case focused_surface s of
                       None \<Rightarrow> s
                     | Some f \<Rightarrow> if surfs s f = None then kreport K_stale_focus s else kcalls [Activate_input f n WESTON_ACTIVATE_FLAG_NONE] s)))"

text \<open>A new output with what its configuration section says; the background curtain is not modelled.\<close>

definition kiosk_shell_output_create :: "bool \<Rightarrow> oid \<Rightarrow> kiosk_shell_output \<Rightarrow> kiosk_shell \<Rightarrow> kiosk_shell" where
  "kiosk_shell_output_create mem_ok o' ko s =
     (if \<not> mem_ok then s
      else s\<lparr>kouts := (kouts s)(o' \<mapsto> ko\<lparr>active_surface_tree := None\<rparr>), output_list := output_list s @ [o']\<rparr>)"

text \<open>
  The destroy signal of an output: the shell's output is freed, then every window that was on it forgets
  it, and so do the views.
\<close>

definition output_destroyed :: "oid \<Rightarrow> kiosk_shell \<Rightarrow> kiosk_shell" where
  "output_destroyed o' s =
     s\<lparr>kouts := (kouts s)(o' := None), output_list := removeAll o' (output_list s), comp_outputs := removeAll o' (comp_outputs s),
       surfs := (\<lambda>x. map_option (\<lambda>sh. sh\<lparr>ks_output := if ks_output sh = Some o' then None else ks_output sh,
                                        wv_output := if wv_output sh = Some o' then None else wv_output sh,
                                        ws_output := if ws_output sh = Some o' then None else ws_output sh\<rparr>) (surfs s x))\<rparr>"

text \<open>
  The signal that an output has a new size; \<open>fs\<close> are the windows whose clients have acknowledged a maximized or
  full-screen state.
\<close>

definition resize_view :: "oid \<Rightarrow> sid list \<Rightarrow> kview \<Rightarrow> kiosk_shell \<Rightarrow> kiosk_shell" where
  "resize_view o' fs v s =
     (case get_kiosk_shell_surface v of
        None \<Rightarrow> s
      | Some x \<Rightarrow>
          if Option.bind (surfs s x) wv_output \<noteq> Some o' then s
          else kiosk_shell_surface_reconfigure_for_output x (x \<in> set fs) s)"

definition kiosk_shell_handle_output_resized :: "oid \<Rightarrow> sid list \<Rightarrow> kiosk_shell \<Rightarrow> kiosk_shell" where
  "kiosk_shell_handle_output_resized o' fs s = fold (resize_view o' fs) (normal_layer s) s"

subsection \<open>Start, and everything that can happen\<close>

definition kiosk_empty :: "bool \<Rightarrow> kiosk_shell" where
  "kiosk_empty api =
     \<lparr>surfs = (\<lambda>_. None), next_surf = 0, trees = (\<lambda>_. []), parent_listeners = (\<lambda>_. []), normal_layer = [], inactive_layer = [],
      kouts = (\<lambda>_. None), output_list = [], comp_outputs = [], seat_list = [], kseat = None, window_api = api,
      acglass_next_window_id = 0, klog = [], kreports = []\<rparr>"

definition output_appears :: "bool \<Rightarrow> oid \<times> kiosk_shell_output \<Rightarrow> kiosk_shell \<Rightarrow> kiosk_shell" where
  "output_appears mem_ok oc s = kiosk_shell_output_create mem_ok (fst oc) (snd oc) (s\<lparr>comp_outputs := comp_outputs s @ [fst oc]\<rparr>)"

text \<open>
  \<open>wet_shell_init\<close> with the seats and the outputs that the compositor has by then; memory is not short.
\<close>

definition wet_shell_init :: "bool \<Rightarrow> wseat list \<Rightarrow> (oid \<times> kiosk_shell_output) list \<Rightarrow> kiosk_shell" where
  "wet_shell_init api seats outs =
     fold (output_appears True) outs (fold (\<lambda>st. kiosk_shell_seat_create True (seat_no st)) seats ((kiosk_empty api)\<lparr>seat_list := seats\<rparr>))"

datatype kiosk_op =
  Surface_added bool bool desktop_surface
| Surface_removed sid
| Surface_committed sid int int bool "int \<times> int" "int \<times> int"
| Set_parent sid "sid option"
| Fullscreen_requested sid bool "oid option"
| Maximized_requested sid bool
| Minimized_requested sid
| Xwayland_position sid "int \<times> int"
| Window_command u32 u32
| Clicked bool "sid option option" nat
| Touched bool "sid option option" nat
| Seat_created bool wseat
| Seat_destroyed nat
| Seat_focus wseat
| Output_created bool oid kiosk_shell_output
| Output_resized oid "int \<times> int" "sid list"
| Output_destroyed oid
| Session_changed bool
| Names_changed sid "string option" "string option"

fun kiosk_step :: "kiosk_op \<Rightarrow> kiosk_shell \<Rightarrow> kiosk_shell option" where
  "kiosk_step (Surface_added view_ok mem_ok d) s = desktop_surface_added view_ok mem_ok d s"
| "kiosk_step (Surface_removed x) s = desktop_surface_removed x s"
| "kiosk_step (Surface_committed x w h fs geom off) s = desktop_surface_committed x w h fs geom off s"
| "kiosk_step (Set_parent x p) s = desktop_surface_set_parent x p s"
| "kiosk_step (Fullscreen_requested x fs out) s = desktop_surface_fullscreen_requested x fs out s"
| "kiosk_step (Maximized_requested x m) s = desktop_surface_maximized_requested x m s"
| "kiosk_step (Minimized_requested x) s = desktop_surface_minimized_requested x s"
| "kiosk_step (Xwayland_position x pos) s = Some (desktop_surface_set_xwayland_position x pos s)"
| "kiosk_step (Window_command type wid) s = acglass_window_command_handler type wid s"
| "kiosk_step (Clicked grabbed focus seat) s = kiosk_shell_click_to_activate_binding grabbed focus seat s"
| "kiosk_step (Touched grabbed focus seat) s = kiosk_shell_touch_to_activate_binding grabbed focus seat s"
| "kiosk_step (Seat_created mem_ok st) s = Some (kiosk_shell_seat_create mem_ok (seat_no st) (s\<lparr>seat_list := seat_list s @ [st]\<rparr>))"
| "kiosk_step (Seat_destroyed n) s =
     Some (let s = (if get_kiosk_shell_seat (Some n) s = None then s else kiosk_shell_seat_handle_destroy s)
           in s\<lparr>seat_list := filter (\<lambda>st. seat_no st \<noteq> n) (seat_list s)\<rparr>)"
| "kiosk_step (Seat_focus st) s = Some (s\<lparr>seat_list := map (\<lambda>t. if seat_no t = seat_no st then st else t) (seat_list s)\<rparr>)"
| "kiosk_step (Output_created mem_ok o' ko) s = Some (output_appears mem_ok (o', ko) s)"
| "kiosk_step (Output_resized o' sz fs) s =
     Some (kiosk_shell_handle_output_resized o' fs (s\<lparr>kouts := (kouts s)(o' := map_option (ko_size_update (\<lambda>_. sz)) (kouts s o'))\<rparr>))"
| "kiosk_step (Output_destroyed o') s = Some (output_destroyed o' s)"
| "kiosk_step (Session_changed active) s = Some (kiosk_shell_notify_session active s)"
| "kiosk_step (Names_changed x a t) s = Some (upd_surf x (\<lambda>sh. sh\<lparr>ds_app_id := a, ds_title := t\<rparr>) s)"

text \<open>
  Requests are for windows that exist, and a seat is added when there is none: the shell does not support
  several, and says so when a second one appears.
\<close>

fun op_ok :: "kiosk_op \<Rightarrow> kiosk_shell \<Rightarrow> bool" where
  "op_ok (Set_parent x p) s \<longleftrightarrow> surfs s x \<noteq> None \<and> (case p of None \<Rightarrow> True | Some q \<Rightarrow> surfs s q \<noteq> None)"
| "op_ok (Clicked grabbed focus seat) s \<longleftrightarrow> (case focus of Some (Some x) \<Rightarrow> surfs s x \<noteq> None | _ \<Rightarrow> True)"
| "op_ok (Touched grabbed focus seat) s \<longleftrightarrow> (case focus of Some (Some x) \<Rightarrow> surfs s x \<noteq> None | _ \<Rightarrow> True)"
| "op_ok (Seat_created mem_ok st) s \<longleftrightarrow> seat_list s = []"
| "op_ok _ s \<longleftrightarrow> True"

inductive kiosk_reach :: "nat \<Rightarrow> kiosk_shell \<Rightarrow> bool" where
  start: "kiosk_reach 0 (wet_shell_init api seats outs)"
| step: "kiosk_reach n s \<Longrightarrow> op_ok op s \<Longrightarrow> kiosk_step op s = Some t \<Longrightarrow> kiosk_reach (Suc n) t"

end
