(* ===== verification/Kiosk_Spec.thy ===== *)
theory Kiosk_Spec
  imports Kiosk
begin

section \<open>Properties of the kiosk shell\<close>

subsection \<open>Configured application identifiers\<close>

text \<open>What the option means: the items between commas.\<close>

fun comma_items :: "string \<Rightarrow> string list" where
  "comma_items [] = [[]]"
| "comma_items (c # cs) = (if c = CHR '','' then [] # comma_items cs else (c # hd (comma_items cs)) # tl (comma_items cs))"

definition item_at :: "string \<Rightarrow> string \<Rightarrow> string \<Rightarrow> string \<Rightarrow> bool" where
  "item_at conf pre item post \<longleftrightarrow> conf = pre @ item @ post \<and> (pre = [] \<or> last pre = CHR '','') \<and> (post = [] \<or> hd post = CHR '','')"

lemma in_set_hd_tl: "xs \<noteq> [] \<Longrightarrow> x \<in> set xs \<longleftrightarrow> x = hd xs \<or> x \<in> set (tl xs)"
  by (cases xs) auto

lemma comma_items_nonempty [simp]: "comma_items cs \<noteq> []"
  by (cases cs) auto

lemma hd_comma_items: "hd (comma_items cs) = takeWhile (\<lambda>c. c \<noteq> CHR '','') cs"
  by (induction cs) auto

lemma comma_free_prefix:
  assumes "CHR '','' \<notin> set a"
  shows "takeWhile (\<lambda>c. c \<noteq> CHR '','') cs = a \<longleftrightarrow> (\<exists>post. cs = a @ post \<and> (post = [] \<or> hd post = CHR '',''))"
proof
  assume "takeWhile (\<lambda>c. c \<noteq> CHR '','') cs = a"
  then have "cs = a @ dropWhile (\<lambda>c. c \<noteq> CHR '','') cs" using takeWhile_dropWhile_id by metis
  then show "\<exists>post. cs = a @ post \<and> (post = [] \<or> hd post = CHR '','')"
    using hd_dropWhile [of "\<lambda>c. c \<noteq> CHR '',''" cs] by blast
next
  assume "\<exists>post. cs = a @ post \<and> (post = [] \<or> hd post = CHR '','')"
  then obtain post where "cs = a @ post" "post = [] \<or> hd post = CHR '',''" by blast
  then show "takeWhile (\<lambda>c. c \<noteq> CHR '','') cs = a" using assms by (cases post) (auto simp: takeWhile_append)
qed

lemma in_tl_comma_items:
  assumes "CHR '','' \<notin> set a"
  shows "a \<in> set (tl (comma_items conf)) \<longleftrightarrow> (\<exists>pre post. pre \<noteq> [] \<and> item_at conf pre a post)"
proof (induction conf)
  case Nil then show ?case by (simp add: item_at_def)
next
  case (Cons c cs)
  have split: "x \<in> set (comma_items cs) \<longleftrightarrow> x = hd (comma_items cs) \<or> x \<in> set (tl (comma_items cs))" for x
    by (rule in_set_hd_tl) simp
  have first: "a = hd (comma_items cs) \<longleftrightarrow> (\<exists>post. cs = a @ post \<and> (post = [] \<or> hd post = CHR '',''))"
    using comma_free_prefix [OF assms] hd_comma_items by metis
  have "(\<exists>pre post. pre \<noteq> [] \<and> item_at (c # cs) pre a post) \<longleftrightarrow>
      (c = CHR '','' \<and> (\<exists>post. cs = a @ post \<and> (post = [] \<or> hd post = CHR '',''))) \<or> (\<exists>pre post. pre \<noteq> [] \<and> item_at cs pre a post)"
    (is "?l \<longleftrightarrow> ?r1 \<or> ?r2")
  proof
    assume ?l
    then obtain pre post where p: "pre \<noteq> []" "item_at (c # cs) pre a post" by blast
    then obtain pre' where "pre = c # pre'" by (cases pre) (auto simp: item_at_def)
    with p show "?r1 \<or> ?r2" by (cases "pre' = []") (auto simp: item_at_def)
  next
    assume "?r1 \<or> ?r2"
    then show ?l
    proof
      assume ?r1
      then obtain post where "cs = a @ post" "post = [] \<or> hd post = CHR '',''" and "c = CHR '',''" by blast
      then have "item_at (c # cs) [c] a post" by (auto simp: item_at_def)
      then show ?l by blast
    next
      assume ?r2
      then obtain pre post where "pre \<noteq> []" "item_at cs pre a post" by blast
      then have "item_at (c # cs) (c # pre) a post" by (auto simp: item_at_def)
      then show ?l by blast
    qed
  qed
  then show ?case using Cons.IH split [of a] first by auto
qed

lemma in_comma_items:
  assumes "CHR '','' \<notin> set a"
  shows "a \<in> set (comma_items conf) \<longleftrightarrow> (\<exists>pre post. item_at conf pre a post)"
proof -
  have "hd (comma_items conf) = a \<longleftrightarrow> (\<exists>post. conf = a @ post \<and> (post = [] \<or> hd post = CHR '',''))"
    unfolding hd_comma_items by (rule comma_free_prefix [OF assms])
  moreover have "item_at conf [] a post \<longleftrightarrow> conf = a @ post \<and> (post = [] \<or> hd post = CHR '','')" for post by (simp add: item_at_def)
  ultimately have "hd (comma_items conf) = a \<longleftrightarrow> (\<exists>post. item_at conf [] a post)" by presburger
  moreover have "a \<in> set (comma_items conf) \<longleftrightarrow> hd (comma_items conf) = a \<or> a \<in> set (tl (comma_items conf))"
    using in_set_hd_tl [OF comma_items_nonempty, of a conf] eq_commute [of a "hd (comma_items conf)"] by argo
  moreover have "(\<exists>pre post. item_at conf pre a post) \<longleftrightarrow> (\<exists>post. item_at conf [] a post) \<or> (\<exists>pre post. pre \<noteq> [] \<and> item_at conf pre a post)"
    by metis
  ultimately show ?thesis using in_tl_comma_items [OF assms, of conf] by argo
qed

text \<open>What the scan tests at position \<open>j\<close>.\<close>

definition whole_item :: "string \<Rightarrow> string \<Rightarrow> nat \<Rightarrow> bool" where
  "whole_item conf a j \<longleftrightarrow> j \<le> length conf \<and> take (length a) (drop j conf) = a \<and>
     (j + length a = length conf \<or> conf ! (j + length a) = CHR '','') \<and> (j = 0 \<or> conf ! (j - 1) = CHR '','')"

lemma item_at_whole: "(\<exists>pre post. item_at conf pre a post) \<longleftrightarrow> (\<exists>j. whole_item conf a j)"
proof
  assume "\<exists>pre post. item_at conf pre a post"
  then obtain pre post where i: "item_at conf pre a post" by blast
  then have "whole_item conf a (length pre)"
    by (cases post; cases pre rule: rev_cases) (auto simp: item_at_def whole_item_def nth_append)
  then show "\<exists>j. whole_item conf a j" by blast
next
  assume "\<exists>j. whole_item conf a j"
  then obtain j where w: "whole_item conf a j" by blast
  let ?pre = "take j conf" and ?post = "drop (length a) (drop j conf)"
  have c: "conf = ?pre @ a @ ?post" using w append_take_drop_id [of "length a" "drop j conf"] append_take_drop_id [of j conf] by (simp add: whole_item_def)
  have "length a \<le> length (drop j conf)" using w by (metis whole_item_def length_take min.cobounded1)
  then have le: "j + length a \<le> length conf" using w by (auto simp: whole_item_def)
  have "last ?pre = conf ! (j - 1)" if "0 < j" using that w by (subst last_conv_nth) (auto simp: whole_item_def min_absorb2)
  then have "?pre = [] \<or> last ?pre = CHR '',''" using w by (cases j) (auto simp: whole_item_def)
  moreover have "?post = [] \<or> hd ?post = CHR '',''"
    using w le by (cases "j + length a = length conf") (auto simp: whole_item_def hd_drop_conv_nth add.commute)
  ultimately have "item_at conf ?pre a ?post" using c unfolding item_at_def by blast
  then show "\<exists>pre post. item_at conf pre a post" by blast
qed

lemma strstr_from_None: "strstr_from hay a i = None \<Longrightarrow> i \<le> j \<Longrightarrow> j \<le> length hay \<Longrightarrow> take (length a) (drop j hay) \<noteq> a"
  by (auto simp: strstr_from_def find_None_iff simp del: upt_Suc)

lemma strstr_from_Some:
  assumes "strstr_from hay a i = Some j"
  shows "take (length a) (drop j hay) = a" and "i \<le> k \<Longrightarrow> k < j \<Longrightarrow> take (length a) (drop k hay) \<noteq> a"
proof -
  let ?xs = "[i..<Suc (length hay)]"
  show "take (length a) (drop j hay) = a" using find_Some_set [of _ ?xs j] assms by (auto simp: strstr_from_def simp del: upt_Suc)
  obtain n where n: "n < length ?xs" "j = ?xs ! n" "\<forall>m < n. take (length a) (drop (?xs ! m) hay) \<noteq> a"
    using assms unfolding strstr_from_def find_Some_iff by blast
  then have j: "j = i + n" by (simp del: upt_Suc)
  assume k: "i \<le> k" "k < j"
  then have "k - i < n" "?xs ! (k - i) = k" using n(1) j by (simp_all del: upt_Suc)
  then show "take (length a) (drop k hay) \<noteq> a" using n(3) by metis
qed

lemma app_id_scan_spec:
  "app_id_scan conf a i =
     (if length conf < i then None else if \<exists>j \<ge> i. whole_item conf a j then Some True else if a = [] then None else Some False)"
proof (induction conf a i rule: app_id_scan.induct)
  case (1 conf a i)
  show ?case
  proof (cases "length conf < i")
    case True then show ?thesis by (simp add: app_id_scan.simps)
  next
    case le: False
    show ?thesis
    proof (cases "strstr_from conf a i")
      case None
      then have n: "\<not> (\<exists>j \<ge> i. whole_item conf a j)" using strstr_from_None [OF None] by (auto simp: whole_item_def)
      have "a \<noteq> []" using strstr_from_None [OF None, of i] le by auto
      then show ?thesis using None n le by (simp add: app_id_scan.simps)
    next
      case (Some j)
      note b = strstr_from_bounds [OF Some] and m = strstr_from_Some [OF Some]
      show ?thesis
      proof (cases "whole_item conf a j")
        case True
        then show ?thesis using Some le b by (subst app_id_scan.simps) (auto simp: whole_item_def)
      next
        case False
        then have g: "\<not> ((j + length a = length conf \<or> conf ! (j + length a) = CHR '','') \<and> (j = 0 \<or> conf ! (j - 1) = CHR '',''))"
          using b m(1) by (auto simp: whole_item_def)
        then have e: "app_id_scan conf a i = app_id_scan conf a (j + 1)" using Some le by (subst app_id_scan.simps) auto
        have ex: "(\<exists>k \<ge> i. whole_item conf a k) \<longleftrightarrow> (\<exists>k \<ge> j + 1. whole_item conf a k)"
        proof
          assume "\<exists>k \<ge> i. whole_item conf a k"
          then obtain k where k: "i \<le> k" "whole_item conf a k" by blast
          then have "\<not> k < j" using m(2) by (auto simp: whole_item_def)
          moreover have "k \<noteq> j" using k(2) False by blast
          ultimately show "\<exists>k \<ge> j + 1. whole_item conf a k" using k(2) by (intro exI [of _ k]) auto
        qed (use b in \<open>meson le_add1 order_trans\<close>)
        have IH: "app_id_scan conf a (j + 1) = (if length conf < j + 1 then None else if \<exists>k \<ge> j + 1. whole_item conf a k then Some True else if a = [] then None else Some False)"
          using "1.IH" [OF le Some] g by simp
        have "a = []" "\<not> (\<exists>k \<ge> j + 1. whole_item conf a k)" if "length conf < j + 1"
        proof -
          have "j = length conf" using that b by simp
          then show "a = []" using m(1) by simp
          show "\<not> (\<exists>k \<ge> j + 1. whole_item conf a k)" using that by (auto simp: whole_item_def)
        qed
        then show ?thesis using e IH ex le by auto
      qed
    qed
  qed
qed



subsection \<open>Following parents\<close>

lemma get_parent_root_induct [consumes 1, case_names top up]:
  assumes "kiosk_shell_surface_get_parent_root par x = Some r"
    and top: "\<And>x. par x = None \<Longrightarrow> P x x" and up: "\<And>x p r. par x = Some p \<Longrightarrow> P p r \<Longrightarrow> P x r"
  shows "P x r"
proof -
  have "(case (par, x) of (par', x) \<Rightarrow> \<lambda>r. par' = par \<longrightarrow> P x r) r"
  proof (rule kiosk_shell_surface_get_parent_root.raw_induct)
    show "(case (par, x) of (par', x) \<Rightarrow> kiosk_shell_surface_get_parent_root par' x) = Some r" using assms(1) by simp
  next
    fix f :: "(sid \<Rightarrow> sid option) \<Rightarrow> sid \<Rightarrow> sid option" and par' x r
    assume IH: "\<And>par' x r. f par' x = Some r \<Longrightarrow> par' = par \<longrightarrow> P x r" and b: "(case par' x of None \<Rightarrow> Some x | Some p \<Rightarrow> f par' p) = Some r"
    show "par' = par \<longrightarrow> P x r"
    proof (cases "par' x")
      case None then show ?thesis using b top by auto
    next
      case (Some p) then show ?thesis using b IH [of par' p r] up [of x p r] by auto
    qed
  qed
  then show ?thesis by simp
qed

lemma get_parent_root_SomeD: "kiosk_shell_surface_get_parent_root par x = Some r \<Longrightarrow> par r = None"
  by (induction rule: get_parent_root_induct) auto

lemma get_parent_root_step: "par x = Some p \<Longrightarrow> kiosk_shell_surface_get_parent_root par x = kiosk_shell_surface_get_parent_root par p"
  by (subst kiosk_shell_surface_get_parent_root.simps) simp

lemma get_parent_root_top: "par x = None \<Longrightarrow> kiosk_shell_surface_get_parent_root par x = Some x"
  by (subst kiosk_shell_surface_get_parent_root.simps) simp

text \<open>The loop does not end on a cycle.\<close>

lemma get_parent_root_cycle:
  assumes "x \<in> C" and "\<And>y. y \<in> C \<Longrightarrow> \<exists>p \<in> C. par y = Some p"
  shows "kiosk_shell_surface_get_parent_root par x = None"
proof (rule ccontr)
  assume "kiosk_shell_surface_get_parent_root par x \<noteq> None"
  then obtain r where "kiosk_shell_surface_get_parent_root par x = Some r" by auto
  then have "x \<notin> C" by (induction rule: get_parent_root_induct) (use assms(2) in force)+
  then show False using assms(1) by blast
qed

text \<open>On a chain that has a root, the question for an ancestor is answered.\<close>

definition descends :: "(sid \<Rightarrow> sid option) \<Rightarrow> sid \<Rightarrow> sid \<Rightarrow> bool" where
  "descends par a x \<longleftrightarrow> kiosk_shell_surface_is_descendant_of par a x = Some True"

lemma is_descendant_of_total:
  assumes "kiosk_shell_surface_get_parent_root par x = Some r"
  shows "kiosk_shell_surface_is_descendant_of par a x = Some (descends par a x)"
proof -
  have "\<exists>b. kiosk_shell_surface_is_descendant_of par a x = Some b"
    using assms by (induction rule: get_parent_root_induct) (subst kiosk_shell_surface_is_descendant_of.simps, auto)+
  then show ?thesis by (auto simp: descends_def)
qed

lemma descends_refl [simp]: "descends par x x"
  by (subst descends_def, subst kiosk_shell_surface_is_descendant_of.simps) simp

lemma descends_step: "par x = Some p \<Longrightarrow> x \<noteq> a \<Longrightarrow> descends par a x = descends par a p"
  by (simp add: descends_def kiosk_shell_surface_is_descendant_of.simps [of par a x])

subsection \<open>Moving views and list elements to the front\<close>

definition to_front :: "'a list \<Rightarrow> 'a list \<Rightarrow> 'a list" where
  "to_front ys xs = ys @ filter (\<lambda>x. x \<notin> set ys) xs"

lemma set_to_front [simp]: "set (to_front ys xs) = set ys \<union> set xs"
  by (auto simp: to_front_def)

lemma distinct_to_front: "distinct ys \<Longrightarrow> distinct xs \<Longrightarrow> distinct (to_front ys xs)"
  by (auto simp: to_front_def)

lemma removeAll_to_front: "removeAll y (filter (\<lambda>x. x \<notin> set ys) xs) = filter (\<lambda>x. x \<notin> set (y # ys)) xs"
  by (induction xs) auto

lemma filter_filter_notin: "filter (\<lambda>x. x \<notin> A) (filter (\<lambda>x. x \<noteq> y) xs) = filter (\<lambda>x. x \<notin> insert y A) xs"
  by (induction xs) auto

lemma removeAll_eq_filter: "removeAll y xs = filter (\<lambda>x. x \<noteq> y) xs"
  by (induction xs) auto

lemma fold_move_to_normal:
  assumes "distinct ys"
  shows "fold move_to_normal ys s = s\<lparr>normal_layer := to_front (map Win (rev ys)) (normal_layer s),
    inactive_layer := filter (\<lambda>v. v \<notin> Win ` set ys) (inactive_layer s)\<rparr>"
  using assms
proof (induction ys arbitrary: s)
  case (Cons y ys)
  then show ?case
    by (auto simp: move_to_normal_def to_front_def removeAll_eq_filter conj_commute intro!: filter_cong)
qed (simp add: to_front_def)

lemma fold_move_to_inactive:
  assumes "distinct ys"
  shows "fold move_to_inactive ys s = s\<lparr>normal_layer := filter (\<lambda>v. v \<notin> Win ` set ys) (normal_layer s),
    inactive_layer := to_front (map Win (rev ys)) (inactive_layer s)\<rparr>"
  using assms
proof (induction ys arbitrary: s)
  case (Cons y ys)
  then show ?case
    by (auto simp: move_to_inactive_def to_front_def removeAll_eq_filter conj_commute intro!: filter_cong)
qed (simp add: to_front_def)

lemma raise_collected_eq:
  assumes "distinct ys"
  shows "raise_collected h ys s = s\<lparr>trees := (\<lambda>k. if k = h then to_front (rev ys) (trees s h) else filter (\<lambda>e. e \<notin> set ys) (trees s k)),
    normal_layer := to_front (map Win (rev ys)) (normal_layer s), inactive_layer := filter (\<lambda>v. v \<notin> Win ` set ys) (inactive_layer s)\<rparr>"
  using assms
proof (induction ys arbitrary: s)
  case (Cons y ys)
  then show ?case
    by (auto simp: move_to_normal_def active_surface_tree_move_element_to_top_def unlink_surface_def to_front_def removeAll_eq_filter fun_eq_iff conj_commute intro!: filter_cong)
next
  case Nil
  have e: "(\<lambda>k. if k = h then to_front (rev []) (trees s h) else filter (\<lambda>e. e \<notin> set []) (trees s k)) = trees s" by (auto simp: to_front_def)
  show ?case unfolding e by (simp add: to_front_def)
qed

lemma collect_subtree_eq:
  assumes "\<And>y. y \<in> set xs \<Longrightarrow> kiosk_shell_surface_is_descendant_of (parent_of s) x y = Some (D y)"
  shows "collect_subtree x xs tmp s = Some (rev (filter D xs) @ tmp, s\<lparr>trees := (\<lambda>k. filter (\<lambda>e. e \<notin> set (filter D xs)) (trees s k))\<rparr>)"
  using assms
proof (induction xs arbitrary: tmp s)
  case (Cons y ys)
  have p: "parent_of (unlink_surface y s) = parent_of s" by (simp add: parent_of_def unlink_surface_def fun_eq_iff)
  have IH: "collect_subtree x ys tmp' s' = Some (rev (filter D ys) @ tmp', s'\<lparr>trees := (\<lambda>k. filter (\<lambda>e. e \<notin> set (filter D ys)) (trees s' k))\<rparr>)"
    if "parent_of s' = parent_of s" for tmp' s' using Cons.IH [of s' tmp'] Cons.prems that by simp
  show ?case using Cons.prems [of y] IH [OF p] IH [OF refl]
    by (auto simp: unlink_surface_def removeAll_eq_filter fun_eq_iff intro!: filter_cong)
qed simp

text \<open>
  What the shell relies on of a window tree: every window is once in one list, and the windows in the
  list of \<open>h\<close> have a chain of parents that ends.
\<close>

definition tree_ok :: "kiosk_shell \<Rightarrow> sid \<Rightarrow> bool" where
  "tree_ok s h \<longleftrightarrow> surfs s h \<noteq> None \<and> distinct (trees s h) \<and> (\<forall>k. k \<noteq> h \<longrightarrow> set (trees s k) \<inter> set (trees s h) = {}) \<and>
     (\<forall>y \<in> set (trees s h). kiosk_shell_surface_get_parent_root (parent_of s) y \<noteq> None)"

definition subtree_first :: "kiosk_shell \<Rightarrow> sid \<Rightarrow> sid list \<Rightarrow> sid list" where
  "subtree_first s x ys = filter (descends (parent_of s) x) ys @ filter (\<lambda>y. \<not> descends (parent_of s) x y) ys"

lemma set_subtree_first [simp]: "set (subtree_first s x ys) = set ys"
  by (auto simp: subtree_first_def)

lemma distinct_subtree_first: "distinct ys \<Longrightarrow> distinct (subtree_first s x ys)"
  by (auto simp: subtree_first_def)

lemma subtree_first_idem: "subtree_first s x (subtree_first s x ys) = subtree_first s x ys"
  by (simp add: subtree_first_def)

lemma raise_subtree_eq:
  fixes x :: sid
  assumes o: "kouts s o' = Some ko" and a: "active_surface_tree ko = Some h" and t: "tree_ok s h"
  defines "ds \<equiv> filter (descends (parent_of s) x) (trees s h)"
  shows "kiosk_shell_output_raise_surface_subtree (Some o') x s =
    Some (s\<lparr>trees := (trees s)(h := subtree_first s x (trees s h)), normal_layer := to_front (map Win ds) (normal_layer s),
            inactive_layer := filter (\<lambda>v. v \<notin> Win ` set ds) (inactive_layer s)\<rparr>)"
proof -
  let ?D = "descends (parent_of s) x" and ?T = "trees s h"
  have live: "check_list h s = s" using t by (auto simp: check_list_def tree_ok_def)
  have d: "kiosk_shell_surface_is_descendant_of (parent_of s) x y = Some (?D y)" if "y \<in> set (rev ?T)" for y
    using that t is_descendant_of_total by (force simp: tree_ok_def)
  have ds: "distinct (rev ds)" "set (filter ?D (rev ?T)) = set ds" "rev (filter ?D (rev ?T)) = ds" using t by (simp_all add: ds_def tree_ok_def rev_filter)
  have other: "filter (\<lambda>e. e \<notin> set ds) (trees s k) = trees s k" if "k \<noteq> h" for k
    using that t by (auto simp: tree_ok_def ds_def filter_id_conv)
  have "filter (\<lambda>e. e \<notin> set ds) ?T = filter (\<lambda>y. \<not> ?D y) ?T" by (auto simp: ds_def intro: filter_cong)
  then have tr: "(\<lambda>k. if k = h then to_front ds (filter (\<lambda>e. e \<notin> set ds) ?T) else filter (\<lambda>e. e \<notin> set (rev ds)) (filter (\<lambda>e. e \<notin> set ds) (trees s k))) =
      (trees s)(h := subtree_first s x ?T)"
    using other by (auto simp: fun_eq_iff to_front_def subtree_first_def ds_def intro!: filter_cong)
  define t where "t = s\<lparr>trees := \<lambda>k. filter (\<lambda>e. e \<notin> set ds) (trees s k)\<rparr>"
  have c: "collect_subtree x (rev ?T) [] s = Some (ds, t)"
    using collect_subtree_eq [of "rev ?T" s x ?D "[]", OF d] by (simp only: ds(2,3) append_Nil2 t_def)
  have tt: "trees t = (\<lambda>k. filter (\<lambda>e. e \<notin> set ds) (trees s k))" by (simp add: t_def)
  have F: "(\<lambda>k. if k = h then to_front (rev (rev ds)) (trees t h) else filter (\<lambda>e. e \<notin> set (rev ds)) (trees t k)) =
      (trees s)(h := subtree_first s x ?T)" unfolding tt rev_rev_ident by (rule tr)
  have r: "raise_collected h (rev ds) t = s\<lparr>trees := (trees s)(h := subtree_first s x ?T),
      normal_layer := to_front (map Win ds) (normal_layer s), inactive_layer := filter (\<lambda>v. v \<notin> Win ` set ds) (inactive_layer s)\<rparr>"
    unfolding raise_collected_eq [OF ds(1), of h t] F by (simp add: t_def)
  show ?thesis using o a live c r by (simp add: kiosk_shell_output_raise_surface_subtree_def)
qed

text \<open>
  C26. Raising a window: in the list of the active tree the window and its descendants come first, in their
  order, then the others in theirs; the views of the former are on top of the visible layer in that order,
  and no other view moves.
\<close>

theorem raise_keeps_order:
  assumes "kouts s o' = Some ko" and "active_surface_tree ko = Some h" and "tree_ok s h"
  shows "\<exists>s'. kiosk_shell_output_raise_surface_subtree (Some o') x s = Some s' \<and>
    trees s' h = filter (descends (parent_of s) x) (trees s h) @ filter (\<lambda>y. \<not> descends (parent_of s) x y) (trees s h) \<and>
    (\<forall>k. k \<noteq> h \<longrightarrow> trees s' k = trees s k) \<and>
    normal_layer s' = map Win (filter (descends (parent_of s) x) (trees s h)) @
      filter (\<lambda>v. v \<notin> Win ` {y \<in> set (trees s h). descends (parent_of s) x y}) (normal_layer s)"
  using raise_subtree_eq [OF assms, of x] by (auto simp: subtree_first_def to_front_def)

subsection \<open>Minimizing and restoring\<close>

text \<open>What giving the focus to a window leaves as it is.\<close>

lemma surfs_upd_surf: "surfs (upd_surf x f s) y = (if y = x then map_option f (surfs s x) else surfs s y)"
  by (simp add: upd_surf_def)

lemma upd_surf_frame [simp]:
  "trees (upd_surf x f s) = trees s" "parent_listeners (upd_surf x f s) = parent_listeners s" "normal_layer (upd_surf x f s) = normal_layer s"
  "inactive_layer (upd_surf x f s) = inactive_layer s" "kouts (upd_surf x f s) = kouts s" "output_list (upd_surf x f s) = output_list s"
  "seat_list (upd_surf x f s) = seat_list s" "kseat (upd_surf x f s) = kseat s" "next_surf (upd_surf x f s) = next_surf s"
  "window_api (upd_surf x f s) = window_api s" "acglass_next_window_id (upd_surf x f s) = acglass_next_window_id s"
  "klog (upd_surf x f s) = klog s" "kreports (upd_surf x f s) = kreports s" "comp_outputs (upd_surf x f s) = comp_outputs s"
  by (simp_all add: upd_surf_def)

definition no_count :: "kiosk_shell_surface \<Rightarrow> kiosk_shell_surface" where
  "no_count sh = sh\<lparr>ks_focus_count := 0\<rparr>"

lemma no_count_eqD:
  assumes "no_count a = no_count b"
  shows "ks_parent a = ks_parent b" "ks_output a = ks_output b" "ks_window_id a = ks_window_id b" "ds_app_id a = ds_app_id b"
    "ds_title a = ds_title b" "ds_pid a = ds_pid b"
  using arg_cong [OF assms, of ks_parent] arg_cong [OF assms, of ks_output] arg_cong [OF assms, of ks_window_id]
    arg_cong [OF assms, of ds_app_id] arg_cong [OF assms, of ds_title] arg_cong [OF assms, of ds_pid] by (simp_all add: no_count_def)

definition same_windows :: "kiosk_shell \<Rightarrow> kiosk_shell \<Rightarrow> bool" where
  "same_windows s t \<longleftrightarrow> trees t = trees s \<and> normal_layer t = normal_layer s \<and> inactive_layer t = inactive_layer s \<and> kouts t = kouts s \<and>
     seat_list t = seat_list s \<and> window_api t = window_api s \<and> map_option fst (kseat t) = map_option fst (kseat s) \<and>
     (\<forall>k. map_option no_count (surfs t k) = map_option no_count (surfs s k))"

lemma same_windows_refl: "same_windows s s"
  by (simp add: same_windows_def)

lemma same_windows_trans: "same_windows s t \<Longrightarrow> same_windows t u \<Longrightarrow> same_windows s u"
  by (simp add: same_windows_def)

lemma same_windows_kcalls: "same_windows s (kcalls cs s)"
  by (simp add: same_windows_def kcalls_def)

lemma same_windows_kreport: "same_windows s (kreport r s)"
  by (simp add: same_windows_def kreport_def)

lemma same_windows_count: "same_windows s (upd_surf x (ks_focus_count_update f) s)"
  by (auto simp: same_windows_def surfs_upd_surf no_count_def option.map_comp comp_def intro: option.map_cong)

lemma same_windows_set_focused: "same_windows s (set_focused y s)"
  using same_windows_refl [of s] by (cases "kseat s") (auto simp: same_windows_def set_focused_def)

lemma same_windows_focus: "same_windows s (focus_on x (unfocus_current (kcalls cs s)))"
proof -
  have u: "same_windows t (unfocus_current t)" for t
    unfolding unfocus_current_def Let_def
    by (auto split: option.split intro: same_windows_refl same_windows_kreport same_windows_count same_windows_trans [OF same_windows_count same_windows_kcalls])
  have f: "same_windows t (focus_on x t)" for t
    unfolding focus_on_def Let_def
    by (auto intro: same_windows_trans [OF same_windows_set_focused same_windows_count] same_windows_trans [OF same_windows_trans [OF same_windows_set_focused same_windows_count] same_windows_kcalls])
  show ?thesis using same_windows_trans [OF same_windows_trans [OF same_windows_kcalls u] f] .
qed

lemma same_windows_views:
  assumes "same_windows s t"
  shows "parent_of t = parent_of s" "surf_output t = surf_output s" "(surfs t k = None) = (surfs s k = None)"
    "get_kiosk_shell_first_seat t = get_kiosk_shell_first_seat s" "get_kiosk_shell_seat sn t = get_kiosk_shell_seat sn s"
proof -
  have r: "map_option no_count (surfs t k) = map_option no_count (surfs s k)" for k using assms by (simp add: same_windows_def)
  have p: "parent_of t k = parent_of s k \<and> surf_output t k = surf_output s k \<and> ((surfs t k = None) = (surfs s k = None))" for k
    using r [of k] by (cases "surfs s k"; cases "surfs t k") (auto simp: parent_of_def surf_output_def dest: no_count_eqD)
  then show "parent_of t = parent_of s" "surf_output t = surf_output s" "(surfs t k = None) = (surfs s k = None)" by auto
  show "get_kiosk_shell_first_seat t = get_kiosk_shell_first_seat s" using assms by (simp add: get_kiosk_shell_first_seat_def same_windows_def)
  show "get_kiosk_shell_seat sn t = get_kiosk_shell_seat sn s" using assms
    by (cases "kseat s"; cases "kseat t") (auto simp: get_kiosk_shell_seat_def same_windows_def split: option.split)
qed

definition tree_of :: "kiosk_shell \<Rightarrow> sid option \<Rightarrow> sid list" where
  "tree_of s h = (case h of None \<Rightarrow> [] | Some h \<Rightarrow> trees s h)"

lemma tree_of_simps [simp]: "tree_of s None = []" "tree_of s (Some h) = trees s h"
  by (simp_all add: tree_of_def)

lemma to_front_Nil [simp]: "to_front [] xs = xs"
  by (simp add: to_front_def)

lemma set_active_eq:
  assumes o: "kouts s o' = Some ko" and prev: "\<And>h. active_surface_tree ko = Some h \<Longrightarrow> surfs s h \<noteq> None \<and> distinct (trees s h)"
    and new: "distinct (tree_of s shroot)"
  shows "kiosk_shell_output_set_active_surface_tree (Some o') shroot s =
    s\<lparr>normal_layer := to_front (map Win (tree_of s shroot)) (filter (\<lambda>v. v \<notin> Win ` set (tree_of s (active_surface_tree ko))) (normal_layer s)),
      inactive_layer := filter (\<lambda>v. v \<notin> Win ` set (tree_of s shroot)) (to_front (map Win (tree_of s (active_surface_tree ko))) (inactive_layer s)),
      kouts := (kouts s)(o' \<mapsto> ko\<lparr>active_surface_tree := shroot\<rparr>)\<rparr>"
proof -
  define t where "t = (case active_surface_tree ko of None \<Rightarrow> s | Some h \<Rightarrow> (let s = check_list h s in fold move_to_inactive (rev (trees s h)) s))"
  have t: "t = s\<lparr>normal_layer := filter (\<lambda>v. v \<notin> Win ` set (tree_of s (active_surface_tree ko))) (normal_layer s),
      inactive_layer := to_front (map Win (tree_of s (active_surface_tree ko))) (inactive_layer s)\<rparr>"
    using prev by (cases "active_surface_tree ko") (auto simp: t_def check_list_def fold_move_to_inactive)
  have T: "trees t = trees s" by (simp add: t)
  have u: "(case shroot of None \<Rightarrow> t | Some r \<Rightarrow> fold move_to_normal (rev (trees t r)) t) =
      t\<lparr>normal_layer := to_front (map Win (tree_of s shroot)) (normal_layer t), inactive_layer := filter (\<lambda>v. v \<notin> Win ` set (tree_of s shroot)) (inactive_layer t)\<rparr>"
    using new by (cases shroot) (simp_all add: fold_move_to_normal T)
  have "kiosk_shell_output_set_active_surface_tree (Some o') shroot s =
      (let s = (case shroot of None \<Rightarrow> t | Some r \<Rightarrow> fold move_to_normal (rev (trees t r)) t) in s\<lparr>kouts := (kouts s)(o' \<mapsto> ko\<lparr>active_surface_tree := shroot\<rparr>)\<rparr>)"
    using o by (simp add: kiosk_shell_output_set_active_surface_tree_def t_def [symmetric])
  then show ?thesis unfolding u by (simp add: t)
qed

lemma front_of_front:
  assumes "set ds \<subseteq> set T"
  shows "to_front (map Win ds) (to_front (map Win T) vs) = map Win (ds @ filter (\<lambda>y. y \<notin> set ds) T) @ filter (\<lambda>v. v \<notin> Win ` set T) vs"
proof -
  have "filter (\<lambda>v. v \<notin> Win ` set ds) (map Win T) = map Win (filter (\<lambda>y. y \<notin> set ds) T)" by (induction T) auto
  moreover have "filter (\<lambda>v. v \<notin> Win ` set ds) (filter (\<lambda>v. v \<notin> Win ` set T) vs) = filter (\<lambda>v. v \<notin> Win ` set T) vs"
    using assms by (auto simp: filter_filter intro!: filter_cong)
  ultimately show ?thesis by (simp add: to_front_def)
qed

lemma front_subtree:
  assumes "T' = T \<or> T' = subtree_first s x T"
  shows "to_front (map Win (filter (descends (parent_of s) x) T')) (map Win T' @ filter (\<lambda>v. v \<notin> Win ` set T') vs) =
    map Win (subtree_first s x T) @ filter (\<lambda>v. v \<notin> Win ` set T) vs"
proof -
  have s: "set T' = set T" using assms by auto
  have "subtree_first s x T' = subtree_first s x T" using assms subtree_first_idem by metis
  moreover have "filter (\<lambda>y. y \<notin> set (filter (descends (parent_of s) x) T')) T' = filter (\<lambda>y. \<not> descends (parent_of s) x y) T'" by (auto intro: filter_cong)
  ultimately show ?thesis using front_of_front [of "filter (descends (parent_of s) x) T'" T' vs] s
    by (simp add: to_front_def subtree_first_def)
qed

text \<open>The two layers, the trees and the active tree once the window \<open>x\<close> has been raised in the tree of \<open>r\<close>.\<close>

definition shows_tree :: "kiosk_shell \<Rightarrow> sid \<Rightarrow> oid \<Rightarrow> sid \<Rightarrow> kview list \<Rightarrow> kview list \<Rightarrow> kiosk_shell \<Rightarrow> bool" where
  "shows_tree s x o' r vs ws t \<longleftrightarrow> trees t = (trees s)(r := subtree_first s x (trees s r)) \<and>
     normal_layer t = map Win (subtree_first s x (trees s r)) @ filter (\<lambda>v. v \<notin> Win ` set (trees s r)) vs \<and>
     inactive_layer t = filter (\<lambda>v. v \<notin> Win ` set (trees s r)) ws \<and>
     (\<exists>ko. kouts t o' = Some ko \<and> active_surface_tree ko = Some r)"

lemma raise_shows_tree:
  assumes T: "tree_ok s r" and t: "kouts t o' = Some ko" "active_surface_tree ko = Some r" "parent_of t = parent_of s" "surfs t r \<noteq> None"
    and tr: "trees t = (trees s)(r := T')" "T' = trees s r \<or> T' = subtree_first s x (trees s r)"
    and n: "normal_layer t = map Win T' @ filter (\<lambda>v. v \<notin> Win ` set T') vs" "inactive_layer t = filter (\<lambda>v. v \<notin> Win ` set T') ws"
  shows "\<exists>t'. kiosk_shell_output_raise_surface_subtree (Some o') x t = Some t' \<and> shows_tree s x o' r vs ws t' \<and>
    surfs t' = surfs t \<and> seat_list t' = seat_list t \<and> kseat t' = kseat t \<and> klog t' = klog t \<and> window_api t' = window_api t"
proof -
  have S: "set T' = set (trees s r)" using tr(2) by auto
  have P: "descends (parent_of t) x = descends (parent_of s) x" by (simp add: t(3))
  have ok: "tree_ok t r" using T t(3,4) tr S distinct_subtree_first unfolding tree_ok_def by auto
  have i: "filter (\<lambda>v. v \<notin> Win ` set (filter (descends (parent_of s) x) T')) (filter (\<lambda>v. v \<notin> Win ` set T') ws) = filter (\<lambda>v. v \<notin> Win ` set (trees s r)) ws"
    using S by (auto intro: filter_cong)
  have f: "subtree_first t x T' = subtree_first s x (trees s r)" using tr(2) subtree_first_idem P by (metis subtree_first_def)
  show ?thesis
    using raise_subtree_eq [OF t(1,2) ok, of x] front_subtree [OF tr(2), of vs] i f t(1,2) tr(1) n
    by (simp add: shows_tree_def P)
qed

lemma find_window_live:
  assumes "acglass_find_window s wid = Some x"
  shows "\<exists>sh. surfs s x = Some sh \<and> ks_window_id sh = wid" and "Win x \<in> set (normal_layer s) \<union> set (inactive_layer s)"
proof -
  obtain v where v: "has_window_id wid s v" "v \<in> set (normal_layer s) \<union> set (inactive_layer s)" "get_kiosk_shell_surface v = Some x"
    using assms find_Some_set [of "has_window_id wid s" "normal_layer s"] find_Some_set [of "has_window_id wid s" "inactive_layer s"]
    by (auto simp: acglass_find_window_def split: option.splits)
  then have "v = Win x" by (auto simp: get_kiosk_shell_surface_def split: kview.splits)
  then show "\<exists>sh. surfs s x = Some sh \<and> ks_window_id sh = wid" "Win x \<in> set (normal_layer s) \<union> set (inactive_layer s)"
    using v by (auto simp: has_window_id_def split: option.splits)
qed

lemma focus_on_focused: "kseat s \<noteq> None \<Longrightarrow> focused_surface (focus_on x s) = Some x"
  by (auto simp: focus_on_def Let_def focused_surface_def set_focused_def kcalls_def)

lemma kiosk_seat_some: "get_kiosk_shell_seat sn s = Some n \<Longrightarrow> kseat s \<noteq> None"
  by (auto simp: get_kiosk_shell_seat_def split: option.splits)

text \<open>The event that a window's shell surface gives rise to.\<close>

definition event_of :: "u32 \<Rightarrow> kiosk_shell_surface \<Rightarrow> kcall" where
  "event_of type sh = Send_window_event type (ks_window_id sh) (if 0 < ds_pid sh then word_of_int (ds_pid sh) else 0) (ds_app_id sh) (ds_title sh)"

lemma emit_window_event_eq:
  "surfs s x = Some sh \<Longrightarrow> window_api s \<Longrightarrow> acglass_emit_window_event x type s = kcalls [event_of type sh] s"
  by (simp add: acglass_emit_window_event_def event_of_def)

lemma emit_window_event_frame [simp]:
  "trees (acglass_emit_window_event x type s) = trees s" "normal_layer (acglass_emit_window_event x type s) = normal_layer s"
  "inactive_layer (acglass_emit_window_event x type s) = inactive_layer s" "kouts (acglass_emit_window_event x type s) = kouts s"
  "surfs (acglass_emit_window_event x type s) = surfs s" "kseat (acglass_emit_window_event x type s) = kseat s"
  "seat_list (acglass_emit_window_event x type s) = seat_list s" "window_api (acglass_emit_window_event x type s) = window_api s"
  "parent_listeners (acglass_emit_window_event x type s) = parent_listeners s" "next_surf (acglass_emit_window_event x type s) = next_surf s"
  "acglass_next_window_id (acglass_emit_window_event x type s) = acglass_next_window_id s" "kreports (acglass_emit_window_event x type s) = kreports s"
  by (auto simp: acglass_emit_window_event_def kcalls_def split: option.split)

lemma kcalls_frame [simp]:
  "trees (kcalls cs s) = trees s" "normal_layer (kcalls cs s) = normal_layer s" "inactive_layer (kcalls cs s) = inactive_layer s"
  "kouts (kcalls cs s) = kouts s" "surfs (kcalls cs s) = surfs s" "kseat (kcalls cs s) = kseat s" "seat_list (kcalls cs s) = seat_list s"
  "window_api (kcalls cs s) = window_api s" "klog (kcalls cs s) = klog s @ cs" "parent_listeners (kcalls cs s) = parent_listeners s"
  "next_surf (kcalls cs s) = next_surf s" "acglass_next_window_id (kcalls cs s) = acglass_next_window_id s" "kreports (kcalls cs s) = kreports s"
  by (simp_all add: kcalls_def)

lemma event_of_same: "no_count a = no_count b \<Longrightarrow> event_of type a = event_of type b"
  using no_count_eqD [of a b] by (simp add: event_of_def)

lemma same_windows_unfocus: "same_windows t (unfocus_current t)"
  unfolding unfocus_current_def Let_def
  by (auto split: option.split intro: same_windows_refl same_windows_kreport same_windows_count same_windows_trans [OF same_windows_count same_windows_kcalls])

lemma activate_shows_tree:
  assumes T: "tree_ok s r" and b: "shows_tree s x o' r vs ws b" "surfs b = surfs s" "surf_output s x = Some o'" "kseat b \<noteq> None"
  shows "\<exists>c. kiosk_shell_surface_activate x n fl b = Some c \<and> shows_tree s x o' r vs ws c \<and> focused_surface c = Some x \<and>
    window_api c = window_api b \<and> map_option no_count (surfs c x) = map_option no_count (surfs s x)"
proof -
  let ?f = "focus_on x (unfocus_current (kcalls [Activate_input x n fl] b))"
  note sw = same_windows_focus [of b x "[Activate_input x n fl]"]
  have bp: "parent_of b = parent_of s" "surf_output b = surf_output s" using b(2) by (simp_all add: parent_of_def surf_output_def fun_eq_iff)
  obtain ko where ko: "kouts b o' = Some ko" "active_surface_tree ko = Some r" using b(1) by (auto simp: shows_tree_def)
  have f: "kouts ?f o' = Some ko" "parent_of ?f = parent_of s" "surfs ?f r \<noteq> None" "trees ?f = trees b" "normal_layer ?f = normal_layer b" "inactive_layer ?f = inactive_layer b"
    using sw same_windows_views [OF sw] ko bp b(2) T by (auto simp: same_windows_def tree_ok_def)
  obtain c where c: "kiosk_shell_output_raise_surface_subtree (Some o') x ?f = Some c" "shows_tree s x o' r vs ws c" "surfs c = surfs ?f" "kseat c = kseat ?f" "window_api c = window_api ?f"
    using raise_shows_tree [OF T f(1) ko(2) f(2,3), of "subtree_first s x (trees s r)" x vs ws] f b(1) by (auto simp: shows_tree_def)
  have "kseat (unfocus_current (kcalls [Activate_input x n fl] b)) \<noteq> None"
    using same_windows_trans [OF same_windows_kcalls same_windows_unfocus, of b "[Activate_input x n fl]"] b(4) by (auto simp: same_windows_def)
  then have "focused_surface c = Some x" using focus_on_focused c(4) by (simp add: focused_surface_def)
  moreover have "map_option no_count (surfs c x) = map_option no_count (surfs s x)" "window_api c = window_api b"
    using sw b(2) c(3,5) by (simp_all add: same_windows_def)
  ultimately show ?thesis using c(1,2) bp(2) b(3) by (auto simp: kiosk_shell_surface_activate_def)
qed

lemma restore_shows:
  assumes find: "acglass_find_window s wid = Some x" and out: "surf_output s x = Some o'" "kouts s o' = Some ko"
    and root: "kiosk_shell_surface_get_parent_root (parent_of s) x = Some r" and T: "tree_ok s r"
    and prev: "\<And>h. active_surface_tree ko = Some h \<Longrightarrow> surfs s h \<noteq> None \<and> distinct (trees s h)"
    and seat: "get_kiosk_shell_seat (get_kiosk_shell_first_seat s) s = Some n"
    and api: "window_api s" and sh: "surfs s x = Some sh"
  defines "vs \<equiv> filter (\<lambda>v. v \<notin> Win ` set (tree_of s (active_surface_tree ko))) (normal_layer s)"
    and "ws \<equiv> to_front (map Win (tree_of s (active_surface_tree ko))) (inactive_layer s)"
  shows "\<exists>t cs. acglass_restore_window s wid = Some t \<and> shows_tree s x o' r vs ws t \<and> focused_surface t = Some x \<and>
    klog t = cs @ [Damage_all, event_of WESTON_ANLAND_WINDOW_EVENT_RESTORED sh]"
proof -
  let ?a = "kiosk_shell_output_set_active_surface_tree (Some o') (Some r) s"
  have a: "?a = s\<lparr>normal_layer := to_front (map Win (trees s r)) vs, inactive_layer := filter (\<lambda>v. v \<notin> Win ` set (trees s r)) ws,
      kouts := (kouts s)(o' \<mapsto> ko\<lparr>active_surface_tree := Some r\<rparr>)\<rparr>"
    using set_active_eq [of s o' ko "Some r"] out(2) prev T by (simp add: tree_ok_def vs_def ws_def)
  have ap: "parent_of ?a = parent_of s" by (simp add: a parent_of_def fun_eq_iff)
  have af: "to_front (map Win (trees s r)) vs = map Win (trees s r) @ filter (\<lambda>v. v \<notin> Win ` set (trees s r)) vs" by (simp add: to_front_def)
  obtain b where b: "kiosk_shell_output_raise_surface_subtree (Some o') x ?a = Some b" "shows_tree s x o' r vs ws b"
    "surfs b = surfs s" "seat_list b = seat_list s" "kseat b = kseat s" "window_api b = window_api s"
    using raise_shows_tree [OF T, of ?a o' "ko\<lparr>active_surface_tree := Some r\<rparr>" "trees s r" x vs ws] T ap af
    by (auto simp: a tree_ok_def)
  have ks: "kseat b \<noteq> None" using kiosk_seat_some [OF seat] b(5) by simp
  have seat': "get_kiosk_shell_seat (get_kiosk_shell_first_seat b) b = Some n"
    using seat unfolding get_kiosk_shell_seat_def get_kiosk_shell_first_seat_def b(4,5) .
  obtain c where c: "kiosk_shell_surface_activate x n WESTON_ACTIVATE_FLAG_CONFIGURE b = Some c" "shows_tree s x o' r vs ws c" "focused_surface c = Some x"
    "window_api c = window_api b" "map_option no_count (surfs c x) = map_option no_count (surfs s x)"
    using activate_shows_tree [OF T b(2,3) out(1) ks] by blast
  obtain sh' where sh': "surfs c x = Some sh'" "no_count sh' = no_count sh" using c(5) sh by (cases "surfs c x") auto
  let ?t = "acglass_emit_window_event x WESTON_ANLAND_WINDOW_EVENT_RESTORED (kcalls [Damage_all] c)"
  have "acglass_restore_window s wid = Some ?t" using find out(1) root b(1) seat' c(1) by (simp add: acglass_restore_window_def)
  moreover have "shows_tree s x o' r vs ws ?t" "focused_surface ?t = Some x" using c(2,3) by (simp_all add: shows_tree_def focused_surface_def)
  moreover have "klog ?t = klog c @ [Damage_all, event_of WESTON_ANLAND_WINDOW_EVENT_RESTORED sh]"
    using emit_window_event_eq [of "kcalls [Damage_all] c" x sh'] sh' b(6) c(4) api event_of_same [OF sh'(2)] by simp
  ultimately show ?thesis by blast
qed

lemma find_window_unique:
  assumes "surfs s x = Some sh" and "\<And>y sy. surfs s y = Some sy \<Longrightarrow> ks_window_id sy = ks_window_id sh \<Longrightarrow> y = x"
    and "Win x \<in> set (normal_layer s) \<union> set (inactive_layer s)"
  shows "acglass_find_window s (ks_window_id sh) = Some x"
proof -
  have p: "has_window_id (ks_window_id sh) s v \<longleftrightarrow> v = Win x" for v
  proof (cases v)
    case (Win y)
    have "(case surfs s y of None \<Rightarrow> False | Some sy \<Rightarrow> ks_window_id sy = ks_window_id sh) \<longleftrightarrow> y = x"
    proof (cases "surfs s y")
      case None then show ?thesis using assms(1) by auto
    next
      case (Some sy) then show ?thesis using assms(1) assms(2) [OF Some] by fastforce
    qed
    then show ?thesis using Win by (simp add: has_window_id_def get_kiosk_shell_surface_def)
  qed (simp add: has_window_id_def get_kiosk_shell_surface_def)
  have f: "List.find (has_window_id (ks_window_id sh) s) vs = (if Win x \<in> set vs then Some (Win x) else None)" for vs
    by (induction vs) (auto simp: p)
  show ?thesis using assms(3) by (auto simp: acglass_find_window_def f get_kiosk_shell_surface_def)
qed

lemma minimize_eq:
  assumes "surf_output s x = Some o'" and "kouts s o' = Some ko" and "kiosk_shell_surface_get_parent_root (parent_of s) x = Some r"
    and "active_surface_tree ko = Some r" and "tree_ok s r" and "window_api s" and "surfs s x = Some sh"
  shows "desktop_surface_minimized_requested x s =
    Some (s\<lparr>normal_layer := filter (\<lambda>v. v \<notin> Win ` set (trees s r)) (normal_layer s), inactive_layer := to_front (map Win (trees s r)) (inactive_layer s),
            kouts := (kouts s)(o' \<mapsto> ko\<lparr>active_surface_tree := None\<rparr>),
            klog := klog s @ [Damage_all, event_of WESTON_ANLAND_WINDOW_EVENT_MINIMIZED sh]\<rparr>)"
  using set_active_eq [of s o' ko None] assms
  by (simp add: desktop_surface_minimized_requested_def tree_ok_def acglass_emit_window_event_def event_of_def kcalls_def)

lemma minimize_restore:
  assumes out: "surf_output s x = Some o'" "kouts s o' = Some ko" and root: "kiosk_shell_surface_get_parent_root (parent_of s) x = Some r"
    and act: "active_surface_tree ko = Some r" and T: "tree_ok s r" "x \<in> set (trees s r)"
    and seat: "get_kiosk_shell_seat (get_kiosk_shell_first_seat s) s = Some n"
    and api: "window_api s" and sh: "surfs s x = Some sh"
    and uniq: "\<And>y sy. surfs s y = Some sy \<Longrightarrow> ks_window_id sy = ks_window_id sh \<Longrightarrow> y = x"
  shows "\<exists>s1 t cs. desktop_surface_minimized_requested x s = Some s1 \<and>
    Win ` set (trees s r) \<inter> set (normal_layer s1) = {} \<and> klog s1 = klog s @ [Damage_all, event_of WESTON_ANLAND_WINDOW_EVENT_MINIMIZED sh] \<and>
    acglass_window_command_handler WESTON_ANLAND_WINDOW_COMMAND_RESTORE (ks_window_id sh) s1 = Some t \<and>
    normal_layer t = map Win (subtree_first s x (trees s r)) @ filter (\<lambda>v. v \<notin> Win ` set (trees s r)) (normal_layer s) \<and>
    inactive_layer t = filter (\<lambda>v. v \<notin> Win ` set (trees s r)) (inactive_layer s) \<and>
    (\<exists>ko. kouts t o' = Some ko \<and> active_surface_tree ko = Some r) \<and> focused_surface t = Some x \<and>
    klog t = cs @ [Damage_all, event_of WESTON_ANLAND_WINDOW_EVENT_RESTORED sh]"
proof -
  define s1 where "s1 = s\<lparr>normal_layer := filter (\<lambda>v. v \<notin> Win ` set (trees s r)) (normal_layer s), inactive_layer := to_front (map Win (trees s r)) (inactive_layer s),
      kouts := (kouts s)(o' \<mapsto> ko\<lparr>active_surface_tree := None\<rparr>), klog := klog s @ [Damage_all, event_of WESTON_ANLAND_WINDOW_EVENT_MINIMIZED sh]\<rparr>"
  have m: "desktop_surface_minimized_requested x s = Some s1" unfolding s1_def by (rule minimize_eq [OF out root act T(1) api sh])
  have p: "parent_of s1 = parent_of s" "surf_output s1 = surf_output s" by (simp_all add: s1_def parent_of_def surf_output_def fun_eq_iff)
  have find: "acglass_find_window s1 (ks_window_id sh) = Some x"
  proof (rule find_window_unique)
    show "surfs s1 x = Some sh" using sh by (simp add: s1_def)
    show "y = x" if "surfs s1 y = Some sy" "ks_window_id sy = ks_window_id sh" for y sy using uniq [of y sy] that by (simp add: s1_def)
    show "Win x \<in> set (normal_layer s1) \<union> set (inactive_layer s1)" using T(2) by (simp add: s1_def)
  qed
  have ok: "tree_ok s1 r" using T(1) p(1) by (simp add: tree_ok_def s1_def)
  have ss: "seat_list s1 = seat_list s" "kseat s1 = kseat s" by (simp_all add: s1_def)
  have st: "get_kiosk_shell_seat (get_kiosk_shell_first_seat s1) s1 = Some n"
    using seat unfolding get_kiosk_shell_seat_def get_kiosk_shell_first_seat_def ss .
  have o1: "surf_output s1 x = Some o'" "kouts s1 o' = Some (ko\<lparr>active_surface_tree := None\<rparr>)" using out p by (simp_all add: s1_def)
  have r1: "kiosk_shell_surface_get_parent_root (parent_of s1) x = Some r" using root p by simp
  have a1: "window_api s1" "surfs s1 x = Some sh" "trees s1 = trees s" using api sh by (simp_all add: s1_def)
  have sf: "subtree_first s1 x ys = subtree_first s x ys" for ys by (simp add: subtree_first_def p(1))
  obtain t cs where t: "acglass_restore_window s1 (ks_window_id sh) = Some t" "shows_tree s1 x o' r (normal_layer s1) (inactive_layer s1) t"
    "focused_surface t = Some x" "klog t = cs @ [Damage_all, event_of WESTON_ANLAND_WINDOW_EVENT_RESTORED sh]"
    using restore_shows [OF find o1 r1 ok _ st a1(1,2)] by auto
  have "normal_layer t = map Win (subtree_first s x (trees s r)) @ filter (\<lambda>v. v \<notin> Win ` set (trees s r)) (normal_layer s)"
    using t(2) by (simp add: shows_tree_def a1(3) sf) (simp add: s1_def)
  moreover have "inactive_layer t = filter (\<lambda>v. v \<notin> Win ` set (trees s r)) (inactive_layer s)"
    using t(2) by (auto simp: shows_tree_def a1(3) s1_def to_front_def)
  moreover have "Win ` set (trees s r) \<inter> set (normal_layer s1) = {}" "klog s1 = klog s @ [Damage_all, event_of WESTON_ANLAND_WINDOW_EVENT_MINIMIZED sh]"
    by (auto simp: s1_def)
  moreover have "\<exists>ko. kouts t o' = Some ko \<and> active_surface_tree ko = Some r" using t(2) by (simp add: shows_tree_def)
  ultimately show ?thesis using m t(1,3,4) by (auto simp: acglass_window_command_handler_def)
qed

subsection \<open>A window that becomes its own parent\<close>

lemma find_output_unreserved:
  assumes "\<And>o' ko. kouts s o' = Some ko \<Longrightarrow> ids ko = None"
  shows "find_output ids name os s = (None, s)"
proof -
  have "output_has ids name o' s = (False, s)" for o' using assms [of o'] by (auto simp: output_has_def kiosk_shell_output_has_app_id_def split: option.split)
  then show ?thesis by (induction os) simp_all
qed

lemma find_output_both_unreserved:
  assumes "\<And>o' ko. kouts s o' = Some ko \<Longrightarrow> ko_x11_wm_name_app_ids ko = None \<and> ko_x11_wm_class_app_ids ko = None"
  shows "find_output_both n c False False os s = (None, s)"
proof -
  have "output_has ko_x11_wm_name_app_ids n o' s = (False, s)" "output_has ko_x11_wm_class_app_ids c o' s = (False, s)" for o'
    using assms [of o'] by (auto simp: output_has_def kiosk_shell_output_has_app_id_def split: option.split)
  then show ?thesis by (induction os) simp_all
qed

definition unreserved :: "kiosk_shell \<Rightarrow> bool" where
  "unreserved s \<longleftrightarrow> (\<forall>o' ko. kouts s o' = Some ko \<longrightarrow> ko_app_ids ko = None \<and> ko_x11_wm_name_app_ids ko = None \<and> ko_x11_wm_class_app_ids ko = None)"

lemma find_best_output_unreserved:
  assumes "unreserved s" and "surf_output s x = None" and "kiosk_shell_surface_get_parent_root (parent_of s) x = None"
  shows "kiosk_shell_surface_find_best_output x s = None"
proof -
  have "kiosk_shell_surface_find_best_output_for_xwayland x s = (None, s)"
    using assms(1) by (auto simp: kiosk_shell_surface_find_best_output_for_xwayland_def find_output_unreserved find_output_both_unreserved unreserved_def assign_found_def or_else_def Let_def split: option.split)
  moreover have "find_output ko_app_ids a os s = (None, s)" for a os using assms(1) by (simp add: find_output_unreserved unreserved_def)
  ultimately show ?thesis using assms(2,3) by (auto simp: kiosk_shell_surface_find_best_output_def assign_found_def or_else_def Let_def split: option.split)
qed

text \<open>
  C27. A client that names a window as its own parent stops the compositor: when no output is reserved for
  applications, the request never returns, because the search for the root of the window's tree follows the
  parents in a circle.
\<close>

theorem self_parent_never_returns:
  assumes "surfs s x = Some sh" and "unreserved s"
  shows "desktop_surface_set_parent x (Some x) s = None"
proof (cases "kiosk_shell_surface_get_parent_root (parent_of s) x")
  case None then show ?thesis by (simp add: desktop_surface_set_parent_def kiosk_shell_surface_set_parent_def)
next
  case (Some r)
  let ?s1 = "set_links x (Some x) s"
  let ?s2 = "if kiosk_shell_surface_is_surface_in_tree ?s1 x r then ?s1 else active_surface_tree_move_element_to_top r x ?s1"
  let ?s3 = "kiosk_shell_surface_set_output x None ?s2"
  have s3: "parent_of ?s3 x = Some x" "surf_output ?s3 x = None" "kouts ?s3 = kouts s"
    using assms(1) by (auto simp: kiosk_shell_surface_set_output_def parent_of_def surf_output_def surfs_upd_surf set_links_def add_parent_listener_def drop_parent_listener_def
        active_surface_tree_move_element_to_top_def unlink_surface_def Let_def)
  have "kiosk_shell_surface_get_parent_root (parent_of ?s3) x = None" by (rule get_parent_root_cycle [of x "{x}"]) (use s3(1) in auto)
  then have "kiosk_shell_surface_set_normal x ?s3 = None"
    using find_best_output_unreserved [of ?s3 x] s3(2,3) assms(2) by (simp add: kiosk_shell_surface_set_normal_def unreserved_def)
  then show ?thesis using Some by (simp add: desktop_surface_set_parent_def kiosk_shell_surface_set_parent_def Let_def)
qed

text \<open>A shell with one output and a window tree on it: a window with two children.\<close>

definition demo_output :: kiosk_shell_output where
  "demo_output = \<lparr>ko_size = (800, 600), ko_app_ids = None, ko_x11_wm_name_app_ids = None, ko_x11_wm_class_app_ids = None, active_surface_tree = Some 2\<rparr>"

definition demo_surface :: "sid option \<Rightarrow> kiosk_shell_surface" where
  "demo_surface p = \<lparr>ks_output = Some 0, ks_parent = p, ks_focus_count = 0, ks_last = (800, 600), ks_xwayland = None, ks_appid_output_assigned = True,
     ks_window_id = 1, ds_app_id = None, ds_title = None, ds_pid = 7, ds_wm_name = None, ds_wm_class = None, ws_mapped = True, ws_output = Some 0, wv_output = Some 0\<rparr>"

definition demo_kiosk :: kiosk_shell where
  "demo_kiosk = (kiosk_empty True)\<lparr>surfs := [2 \<mapsto> demo_surface None, 3 \<mapsto> demo_surface (Some 2), 4 \<mapsto> demo_surface (Some 2)],
     trees := (\<lambda>_. [])(2 := [4, 3, 2]), normal_layer := [Win 4, Win 3, Win 2], kouts := [0 \<mapsto> demo_output]\<rparr>"

theorem raise_keeps_order_witness:
  "\<exists>s'. kiosk_shell_output_raise_surface_subtree (Some 0) 3 demo_kiosk = Some s' \<and> trees s' 2 = [3, 4, 2] \<and> normal_layer s' = [Win 3, Win 4, Win 2]"
proof -
  have o: "kouts demo_kiosk 0 = Some demo_output" "active_surface_tree demo_output = Some 2" "trees demo_kiosk 2 = [4, 3, 2]"
    "normal_layer demo_kiosk = [Win 4, Win 3, Win 2]" by (simp_all add: demo_kiosk_def demo_output_def)
  have p: "parent_of demo_kiosk 2 = None" "parent_of demo_kiosk 3 = Some 2" "parent_of demo_kiosk 4 = Some 2"
    by (simp_all add: demo_kiosk_def parent_of_def demo_surface_def)
  have r: "kiosk_shell_surface_get_parent_root (parent_of demo_kiosk) y = Some 2" if "y \<in> {2, 3, 4}" for y
    using that p get_parent_root_top [of "parent_of demo_kiosk" 2] get_parent_root_step [of "parent_of demo_kiosk" 3 2] get_parent_root_step [of "parent_of demo_kiosk" 4 2] by auto
  have t: "tree_ok demo_kiosk 2" using r unfolding tree_ok_def o by (auto simp: demo_kiosk_def)
  have d: "descends (parent_of demo_kiosk) 3 3" "\<not> descends (parent_of demo_kiosk) 3 2" "\<not> descends (parent_of demo_kiosk) 3 4"
    using descends_step [of "parent_of demo_kiosk" 4 2 3] p by (simp_all add: descends_def kiosk_shell_surface_is_descendant_of.simps [of "parent_of demo_kiosk" 3 2]
        kiosk_shell_surface_is_descendant_of.simps [of "parent_of demo_kiosk" 3 3])
  then have e: "{y. (y = 4 \<or> y = 3 \<or> y = 2) \<and> descends (parent_of demo_kiosk) 3 y} = {3}" by auto
  show ?thesis using raise_keeps_order [OF o(1,2) t, of 3] d by (auto simp: o e)
qed

theorem self_parent_never_returns_witness:
  "desktop_surface_set_parent 2 (Some 2) demo_kiosk = None"
  by (rule self_parent_never_returns [of _ _ "demo_surface None"]) (auto simp: demo_kiosk_def unreserved_def demo_output_def split: if_splits)

subsection \<open>A window that the app cannot bring back\<close>

text \<open>
  C28. A window that is no longer in the list of its root -- which happens to the children of a window that gets
  a parent later, because only the window itself moves to the list of its new root -- and is off the screen:
  the restore command for it shows the tree of its root and reports the window restored, but the window
  stays off the screen.
\<close>

theorem left_behind_window_stays_hidden:
  assumes find: "acglass_find_window s wid = Some x" and out: "surf_output s x = Some o'" "kouts s o' = Some ko"
    and root: "kiosk_shell_surface_get_parent_root (parent_of s) x = Some r" and T: "tree_ok s r"
    and prev: "\<And>h. active_surface_tree ko = Some h \<Longrightarrow> surfs s h \<noteq> None \<and> distinct (trees s h)"
    and seat: "get_kiosk_shell_seat (get_kiosk_shell_first_seat s) s = Some n" and api: "window_api s" and sh: "surfs s x = Some sh"
    and behind: "x \<notin> set (trees s r)" "Win x \<notin> set (normal_layer s)"
  shows "\<exists>t cs. acglass_window_command_handler WESTON_ANLAND_WINDOW_COMMAND_RESTORE wid s = Some t \<and>
    klog t = cs @ [event_of WESTON_ANLAND_WINDOW_EVENT_RESTORED sh] \<and> focused_surface t = Some x \<and> Win x \<notin> set (normal_layer t)"
proof -
  obtain t cs where t: "acglass_restore_window s wid = Some t" "focused_surface t = Some x"
    "shows_tree s x o' r (filter (\<lambda>v. v \<notin> Win ` set (tree_of s (active_surface_tree ko))) (normal_layer s)) (to_front (map Win (tree_of s (active_surface_tree ko))) (inactive_layer s)) t"
    "klog t = cs @ [Damage_all, event_of WESTON_ANLAND_WINDOW_EVENT_RESTORED sh]"
    using restore_shows [OF find out root T prev seat api sh] by blast
  have "Win x \<notin> set (normal_layer t)" using t(3) behind by (auto simp: shows_tree_def)
  moreover have "klog t = (cs @ [Damage_all]) @ [event_of WESTON_ANLAND_WINDOW_EVENT_RESTORED sh]" using t(4) by simp
  ultimately show ?thesis using t(1,2) by (auto simp: acglass_window_command_handler_def)
qed

definition demo_behind :: kiosk_shell where
  "demo_behind = (kiosk_empty True)\<lparr>
     surfs := [2 \<mapsto> demo_surface None, 3 \<mapsto> (demo_surface (Some 2))\<lparr>ks_window_id := 2\<rparr>, 4 \<mapsto> (demo_surface (Some 3))\<lparr>ks_window_id := 3\<rparr>],
     trees := (\<lambda>_. [])(2 := [3, 2], 3 := [4]), normal_layer := [Win 3, Win 2], inactive_layer := [Win 4], kouts := [0 \<mapsto> demo_output],
     seat_list := [\<lparr>seat_no = 0, touch_focus = None, pointer_focus = None, keyboard_focus = None\<rparr>], kseat := Some (0, None)\<rparr>"

theorem left_behind_window_stays_hidden_witness:
  "\<exists>t. acglass_window_command_handler WESTON_ANLAND_WINDOW_COMMAND_RESTORE 3 demo_behind = Some t \<and> focused_surface t = Some 4 \<and> Win 4 \<notin> set (normal_layer t)"
proof -
  let ?sh = "(demo_surface (Some 3))\<lparr>ks_window_id := 3\<rparr>"
  have f: "surfs demo_behind 4 = Some ?sh" "surf_output demo_behind 4 = Some 0" "kouts demo_behind 0 = Some demo_output" "active_surface_tree demo_output = Some 2"
    "window_api demo_behind" "4 \<notin> set (trees demo_behind 2)" "Win 4 \<notin> set (normal_layer demo_behind)" "Win 4 \<in> set (inactive_layer demo_behind)"
    "surfs demo_behind 2 \<noteq> None" "distinct (trees demo_behind 2)" "trees demo_behind 2 = [3, 2]"
    by (simp_all add: demo_behind_def demo_output_def demo_surface_def surf_output_def kiosk_empty_def)
  have p: "parent_of demo_behind 2 = None" "parent_of demo_behind 3 = Some 2" "parent_of demo_behind 4 = Some 3"
    by (simp_all add: demo_behind_def parent_of_def demo_surface_def)
  have r: "kiosk_shell_surface_get_parent_root (parent_of demo_behind) y = Some 2" if "y \<in> {2, 3, 4}" for y
    using that p get_parent_root_top [of "parent_of demo_behind" 2] get_parent_root_step [of "parent_of demo_behind" 3 2] get_parent_root_step [of "parent_of demo_behind" 4 3] by auto
  have t: "tree_ok demo_behind 2" using r f(9,10) by (auto simp: tree_ok_def f(11)) (auto simp: demo_behind_def split: if_splits)
  have s: "get_kiosk_shell_seat (get_kiosk_shell_first_seat demo_behind) demo_behind = Some 0"
    by (simp add: demo_behind_def get_kiosk_shell_seat_def get_kiosk_shell_first_seat_def)
  have "acglass_find_window demo_behind (ks_window_id ?sh) = Some 4"
    by (rule find_window_unique [OF f(1)]) (use f(8) in \<open>auto simp: demo_behind_def demo_surface_def split: if_splits\<close>)
  then show ?thesis using left_behind_window_stays_hidden [OF _ f(2,3) r t _ s f(5,1,6,7)] f(4,9,10) by auto
qed

end
