(* ===== verification/Kiosk_Run.thy ===== *)
theory Kiosk_Run
  imports Kiosk_Spec
begin

section \<open>Runs of the kiosk shell\<close>

text \<open>
  Whatever clients, seats, outputs and the app do, one handler after the other: the pointers between shell
  surfaces, their lists, their views and the focus stay consistent, and the identifiers of windows stay
  different.
\<close>

subsection \<open>The invariant\<close>

definition live :: "kiosk_shell \<Rightarrow> sid \<Rightarrow> bool" where
  "live s x \<longleftrightarrow> surfs s x \<noteq> None"

definition trees_inv :: "kiosk_shell \<Rightarrow> bool" where
  "trees_inv s \<longleftrightarrow> (\<forall>h. distinct (trees s h) \<and> (\<forall>x \<in> set (trees s h). live s x)) \<and>
     (\<forall>h k x. x \<in> set (trees s h) \<longrightarrow> x \<in> set (trees s k) \<longrightarrow> h = k)"

definition views_inv :: "kiosk_shell \<Rightarrow> bool" where
  "views_inv s \<longleftrightarrow> distinct (normal_layer s) \<and> distinct (inactive_layer s) \<and> set (normal_layer s) \<inter> set (inactive_layer s) = {} \<and>
     (\<forall>x. Win x \<in> set (normal_layer s) \<union> set (inactive_layer s) \<longrightarrow> live s x)"

definition focus_inv :: "kiosk_shell \<Rightarrow> bool" where
  "focus_inv s \<longleftrightarrow> (\<forall>x. focused_surface s = Some x \<longrightarrow> live s x) \<and>
     (\<forall>m f. kseat s = Some (m, f) \<longrightarrow> get_kiosk_shell_first_seat s = Some m) \<and> K_stale_focus \<notin> set (kreports s)"

definition links_inv :: "kiosk_shell \<Rightarrow> bool" where
  "links_inv s \<longleftrightarrow> (\<forall>x p. parent_of s x = Some p \<longleftrightarrow> x \<in> set (parent_listeners s p)) \<and> (\<forall>p. distinct (parent_listeners s p)) \<and>
     (\<forall>x p. parent_of s x = Some p \<longrightarrow> live s p) \<and> (\<forall>x \<ge> next_surf s. \<not> live s x)"

definition kinv :: "kiosk_shell \<Rightarrow> bool" where
  "kinv s \<longleftrightarrow> trees_inv s \<and> views_inv s \<and> focus_inv s \<and> links_inv s"

lemmas kinv_defs = kinv_def trees_inv_def views_inv_def focus_inv_def links_inv_def

subsection \<open>Steps that keep windows and parents\<close>

definition same_ids :: "kiosk_shell \<Rightarrow> kiosk_shell \<Rightarrow> bool" where
  "same_ids s t \<longleftrightarrow> (\<forall>x. map_option ks_window_id (surfs t x) = map_option ks_window_id (surfs s x)) \<and>
     next_surf t = next_surf s \<and> acglass_next_window_id t = acglass_next_window_id s \<and> map_option fst (kseat t) = map_option fst (kseat s)"

definition quiet :: "kiosk_shell \<Rightarrow> kiosk_shell \<Rightarrow> bool" where
  "quiet s t \<longleftrightarrow> (kinv s \<longrightarrow> kinv t \<and> same_ids s t \<and> parent_of t = parent_of s \<and> parent_listeners t = parent_listeners s)"

lemma quiet_refl [simp, intro]: "quiet s s"
  by (simp add: quiet_def same_ids_def)

lemma same_ids_refl: "same_ids s s"
  by (simp add: same_ids_def)

lemma same_ids_trans: "same_ids s t \<Longrightarrow> same_ids t u \<Longrightarrow> same_ids s u"
  by (simp add: same_ids_def)

lemma quiet_trans [trans]: "quiet s t \<Longrightarrow> quiet t u \<Longrightarrow> quiet s u"
  using same_ids_trans by (auto simp: quiet_def)

lemma same_ids_live: "same_ids s t \<Longrightarrow> live t x = live s x"
  by (metis live_def option.map_disc_iff same_ids_def)

lemma quiet_live: "quiet s t \<Longrightarrow> kinv s \<Longrightarrow> live t x = live s x"
  by (auto simp: quiet_def dest: same_ids_live)

lemma quiet_kcalls [simp, intro]: "quiet s (kcalls cs s)"
  by (auto simp: quiet_def kinv_defs same_ids_def live_def parent_of_def kcalls_def focused_surface_def get_kiosk_shell_first_seat_def)

lemma quiet_kreport [simp, intro]: "r \<noteq> K_stale_focus \<Longrightarrow> quiet s (kreport r s)"
  by (auto simp: quiet_def kinv_defs same_ids_def live_def parent_of_def kreport_def focused_surface_def get_kiosk_shell_first_seat_def)

lemma live_upd_surf [simp]: "live (upd_surf x f s) = live s"
  by (auto simp: live_def surfs_upd_surf fun_eq_iff)

lemma parent_of_upd_surf: "(\<And>sh. ks_parent (f sh) = ks_parent sh) \<Longrightarrow> parent_of (upd_surf x f s) = parent_of s"
  by (cases "surfs s x") (auto simp: parent_of_def surfs_upd_surf fun_eq_iff)

lemma quiet_upd_surf:
  assumes "\<And>sh. ks_parent (f sh) = ks_parent sh" and "\<And>sh. ks_window_id (f sh) = ks_window_id sh"
  shows "quiet s (upd_surf x f s)"
proof -
  have "same_ids s (upd_surf x f s)" using assms(2) by (auto simp: same_ids_def surfs_upd_surf option.map_comp comp_def)
  then show ?thesis using parent_of_upd_surf [of f x s] assms(1)
    by (simp add: quiet_def kinv_defs focused_surface_def get_kiosk_shell_first_seat_def)
qed

lemma quiet_set_output [simp, intro]: "quiet s (kiosk_shell_surface_set_output x o' s)"
  unfolding kiosk_shell_surface_set_output_def by (rule quiet_upd_surf) simp_all

lemma quiet_to_normal: "live s x \<Longrightarrow> quiet s (move_to_normal x s)"
  by (auto simp: quiet_def kinv_defs same_ids_def live_def parent_of_def move_to_normal_def focused_surface_def get_kiosk_shell_first_seat_def removeAll_eq_filter)

lemma quiet_to_inactive: "live s x \<Longrightarrow> quiet s (move_to_inactive x s)"
  by (auto simp: quiet_def kinv_defs same_ids_def live_def parent_of_def move_to_inactive_def focused_surface_def get_kiosk_shell_first_seat_def removeAll_eq_filter)

lemma quiet_trees:
  assumes "trees_inv s \<Longrightarrow> trees_inv (s\<lparr>trees := f\<rparr>)"
  shows "quiet s (s\<lparr>trees := f\<rparr>)"
  using assms by (auto simp: quiet_def kinv_def views_inv_def focus_inv_def links_inv_def same_ids_def live_def parent_of_def focused_surface_def get_kiosk_shell_first_seat_def)

lemma quiet_unlink [simp, intro]: "quiet s (unlink_surface x s)"
  unfolding unlink_surface_def by (rule quiet_trees) (auto simp: trees_inv_def live_def removeAll_eq_filter)

lemma quiet_move_to_top: "live s x \<Longrightarrow> quiet s (active_surface_tree_move_element_to_top h x s)"
  unfolding active_surface_tree_move_element_to_top_def Let_def
  by (rule quiet_trans [OF quiet_unlink quiet_trees]) (auto simp: trees_inv_def live_def unlink_surface_def, metis)

lemma quiet_kouts [simp, intro]: "quiet s (s\<lparr>kouts := f\<rparr>)"
  by (auto simp: quiet_def kinv_defs same_ids_def live_def parent_of_def focused_surface_def get_kiosk_shell_first_seat_def)

lemma quiet_set_focused: "(\<And>x. y = Some x \<Longrightarrow> live s x) \<Longrightarrow> quiet s (set_focused y s)"
  by (cases "kseat s") (auto simp: quiet_def kinv_defs same_ids_def live_def parent_of_def focused_surface_def get_kiosk_shell_first_seat_def set_focused_def)

lemma quiet_emit [simp, intro]: "quiet s (acglass_emit_window_event x type s)"
  by (auto simp: acglass_emit_window_event_def split: option.split)

text \<open>Loops: every element is live, and stays so.\<close>

lemma quiet_fold:
  assumes "\<And>y s. live s y \<Longrightarrow> quiet s (f y s)" and "\<forall>y \<in> set ys. live s y"
  shows "quiet s (fold f ys s)"
  using assms(2)
proof (induction ys arbitrary: s)
  case (Cons y ys)
  show ?case
  proof (cases "kinv s")
    case True
    have q: "quiet s (f y s)" using assms(1) Cons.prems by simp
    then have "\<forall>z \<in> set ys. live (f y s) z" using quiet_live [OF q True] Cons.prems by simp
    then show ?thesis using quiet_trans [OF q] Cons.IH by simp
  qed (simp add: quiet_def)
qed simp

lemma quietI: "(kinv s \<Longrightarrow> quiet s t) \<Longrightarrow> quiet s t"
  by (auto simp: quiet_def)

lemma kinv_tree_live: "kinv s \<Longrightarrow> y \<in> set (trees s h) \<Longrightarrow> live s y"
  by (auto simp: kinv_def trees_inv_def)

lemma quiet_set_active [simp, intro]: "quiet s (kiosk_shell_output_set_active_surface_tree o' shroot s)"
proof -
  have a: "quiet t (case h of None \<Rightarrow> t | Some h \<Rightarrow> (let t = check_list h t in fold move_to_inactive (rev (trees t h)) t))" for t h
  proof (cases h)
    case (Some k)
    have c: "quiet t (check_list k t)" by (auto simp: check_list_def)
    have "quiet u (fold move_to_inactive (rev (trees u k)) u)" for u
      by (rule quietI, rule quiet_fold [OF quiet_to_inactive]) (auto dest: kinv_tree_live)
    then show ?thesis using Some quiet_trans [OF c] by (simp add: Let_def)
  qed simp
  have b: "quiet t (case h of None \<Rightarrow> t | Some h \<Rightarrow> fold move_to_normal (rev (trees t h)) t)" for t h
    by (cases h) (auto intro!: quietI [OF quiet_fold [OF quiet_to_normal]] dest: kinv_tree_live)
  show ?thesis
  proof (cases "Option.bind o' (kouts s)")
    case None then show ?thesis by (simp add: kiosk_shell_output_set_active_surface_tree_def quiet_kreport)
  next
    case (Some ko)
    define t where "t = (case active_surface_tree ko of None \<Rightarrow> s | Some h \<Rightarrow> (let t = check_list h s in fold move_to_inactive (rev (trees t h)) t))"
    define u where "u = (case shroot of None \<Rightarrow> t | Some h \<Rightarrow> fold move_to_normal (rev (trees t h)) t)"
    have "kiosk_shell_output_set_active_surface_tree o' shroot s = u\<lparr>kouts := (kouts u)(the o' \<mapsto> ko\<lparr>active_surface_tree := shroot\<rparr>)\<rparr>"
      by (simp only: kiosk_shell_output_set_active_surface_tree_def Some option.case Let_def t_def u_def)
    then show ?thesis using quiet_trans [OF quiet_trans [OF a b] quiet_kouts] unfolding t_def u_def by simp
  qed
qed

text \<open>For handlers that may not return, and for those that also give a value.\<close>

definition quiet_opt :: "kiosk_shell \<Rightarrow> kiosk_shell option \<Rightarrow> bool" where
  "quiet_opt s m \<longleftrightarrow> (\<forall>t. m = Some t \<longrightarrow> quiet s t)"

lemma quiet_optD: "quiet_opt s m \<Longrightarrow> m = Some t \<Longrightarrow> quiet s t"
  by (simp add: quiet_opt_def)

lemma quiet_opt_simps [simp]: "quiet_opt s None" "quiet_opt s (Some t) = quiet s t"
  by (simp_all add: quiet_opt_def)

lemma quiet_opt_bind: "(\<And>v. m = Some v \<Longrightarrow> quiet_opt s (f v)) \<Longrightarrow> quiet_opt s (Option.bind m f)"
  by (cases m) simp_all

lemma quiet_opt_trans: "quiet s t \<Longrightarrow> quiet_opt t m \<Longrightarrow> quiet_opt s m"
  using quiet_trans by (auto simp: quiet_opt_def)

lemma quiet_optI: "(kinv s \<Longrightarrow> quiet_opt s m) \<Longrightarrow> quiet_opt s m"
  by (auto simp: quiet_opt_def quiet_def)

lemma quiet_collect: "collect_subtree x xs tmp s = Some (tmp', t) \<Longrightarrow> quiet s t \<and> set tmp' \<subseteq> set xs \<union> set tmp"
proof (induction xs arbitrary: tmp s)
  case (Cons y ys)
  obtain d where d: "kiosk_shell_surface_is_descendant_of (parent_of s) x y = Some d"
    using Cons.prems by (cases "kiosk_shell_surface_is_descendant_of (parent_of s) x y") auto
  show ?case
  proof (cases d)
    case True
    then have "collect_subtree x ys (y # tmp) (unlink_surface y s) = Some (tmp', t)" using Cons.prems d by simp
    from Cons.IH [OF this] show ?thesis using quiet_trans [OF quiet_unlink] by auto
  next
    case False
    then have "collect_subtree x ys tmp s = Some (tmp', t)" using Cons.prems d by simp
    from Cons.IH [OF this] show ?thesis by auto
  qed
qed simp

lemma quiet_raise_collected: "\<forall>y \<in> set ys. live s y \<Longrightarrow> quiet s (raise_collected h ys s)"
proof -
  have f: "raise_collected h ys s = fold (\<lambda>y s. active_surface_tree_move_element_to_top h y (move_to_normal y s)) ys s"
    by (induction ys arbitrary: s) simp_all
  have q: "quiet s (active_surface_tree_move_element_to_top h y (move_to_normal y s))" if "live s y" for y s
  proof (rule quiet_trans [OF quiet_to_normal [OF that] quiet_move_to_top])
    show "live (move_to_normal y s) y" using that by (simp add: live_def move_to_normal_def)
  qed
  assume "\<forall>y \<in> set ys. live s y"
  then show ?thesis unfolding f by (rule quiet_fold [OF q, rotated]) auto
qed

lemma quiet_raise [simp, intro]: "quiet_opt s (kiosk_shell_output_raise_surface_subtree o' x s)"
proof (rule quiet_optI)
  assume k: "kinv s"
  have main: "quiet_opt s (do { (tmp, t) \<leftarrow> collect_subtree x (rev (trees u h)) [] u; Some (raise_collected h (rev tmp) t) })"
    if u: "quiet s u" for u h
  proof (cases "collect_subtree x (rev (trees u h)) [] u")
    case (Some r)
    obtain tmp t where r: "r = (tmp, t)" by (cases r)
    have c: "quiet u t" "set tmp \<subseteq> set (trees u h)" using quiet_collect [of x "rev (trees u h)" "[]" u tmp t] Some r by auto
    have "kinv u" using u k by (simp add: quiet_def)
    then have "\<forall>y \<in> set (rev tmp). live t y" using c quiet_live [OF c(1)] kinv_tree_live by auto
    then show ?thesis using Some r quiet_trans [OF quiet_trans [OF u c(1)] quiet_raise_collected] by simp
  qed simp
  have "quiet s (check_list h s)" for h by (auto simp: check_list_def)
  then show "quiet_opt s (kiosk_shell_output_raise_surface_subtree o' x s)"
    using main by (auto simp: kiosk_shell_output_raise_surface_subtree_def Let_def split: option.split)
qed

lemma quiet_count [simp, intro]: "quiet s (upd_surf x (ks_focus_count_update f) s)"
  by (rule quiet_upd_surf) simp_all

lemma quiet_unfocus [simp, intro]: "quiet s (unfocus_current s)"
proof (rule quietI)
  assume k: "kinv s"
  show "quiet s (unfocus_current s)"
  proof (cases "focused_surface s")
    case (Some f)
    then obtain sh where "surfs s f = Some sh" using k by (auto simp: kinv_def focus_inv_def live_def)
    then show ?thesis using Some by (auto simp: unfocus_current_def Let_def intro: quiet_trans [OF quiet_count quiet_kcalls])
  qed (simp add: unfocus_current_def)
qed

lemma quiet_focus_on:
  assumes "live s x"
  shows "quiet s (focus_on x s)"
proof -
  have "quiet s (set_focused (Some x) s)" using assms by (intro quiet_set_focused) simp
  then show ?thesis unfolding focus_on_def Let_def by (auto intro: quiet_trans [OF _ quiet_count] quiet_trans [OF quiet_trans [OF _ quiet_count] quiet_kcalls])
qed

lemma quiet_activate:
  assumes "live s x"
  shows "quiet_opt s (kiosk_shell_surface_activate x n fl s)"
proof (rule quiet_optI)
  assume k: "kinv s"
  have q: "quiet s (unfocus_current (kcalls [Activate_input x n fl] s))" by (rule quiet_trans [OF quiet_kcalls quiet_unfocus])
  then have "live (unfocus_current (kcalls [Activate_input x n fl] s)) x" using quiet_live [OF q k] assms by simp
  then show "quiet_opt s (kiosk_shell_surface_activate x n fl s)"
    unfolding kiosk_shell_surface_activate_def by (rule quiet_opt_trans [OF quiet_trans [OF q quiet_focus_on] quiet_raise])
qed

text \<open>Looking for an output only sets the flag of the window.\<close>

definition quiet_pair :: "kiosk_shell \<Rightarrow> ('a \<times> kiosk_shell) \<Rightarrow> bool" where
  "quiet_pair s r \<longleftrightarrow> quiet s (snd r)"

lemma quiet_output_has: "quiet s (snd (output_has ids name o' s))"
  by (auto simp: output_has_def split: option.split)

lemma quiet_find_output: "quiet s (snd (find_output ids name os s))"
proof (induction os arbitrary: s)
  case (Cons o' os)
  show ?case using quiet_output_has [of s ids name o'] quiet_trans [OF _ Cons.IH] by (auto simp: Let_def split: prod.split)
qed simp

lemma quiet_find_output_both: "quiet s (snd (find_output_both n c bn bc os s))"
proof (induction os arbitrary: s bn bc)
  case (Cons o' os)
  have "quiet s (snd (output_has ko_x11_wm_class_app_ids c o' (snd (output_has ko_x11_wm_name_app_ids n o' s))))"
    by (rule quiet_trans [OF quiet_output_has quiet_output_has])
  then show ?case using quiet_trans [OF _ Cons.IH] by (auto simp: Let_def split: prod.split)
qed simp

lemma quiet_assign_found: "quiet s (snd r) \<Longrightarrow> quiet s (snd (assign_found x r))"
  by (auto simp: assign_found_def split: prod.split option.split intro!: quiet_trans [OF _ quiet_upd_surf])

lemma quiet_or_else: "quiet s (snd r) \<Longrightarrow> (\<And>t. quiet t (snd (f t))) \<Longrightarrow> quiet s (snd (or_else r f))"
  by (auto simp: or_else_def split: prod.split option.split intro: quiet_trans)

lemma quiet_find_x11: "quiet s (snd (kiosk_shell_surface_find_best_output_for_xwayland x s))"
  unfolding kiosk_shell_surface_find_best_output_for_xwayland_def Let_def
  by (intro quiet_or_else) (auto split: option.split intro: quiet_assign_found quiet_find_output quiet_find_output_both)

lemma quiet_find_best_output:
  assumes "kiosk_shell_surface_find_best_output x s = Some (r, t)"
  shows "quiet s t"
proof -
  let ?r = "or_else (case Option.bind (surfs s x) ds_app_id of None \<Rightarrow> (None, s) | Some app_id \<Rightarrow> assign_found x (find_output ko_app_ids app_id (output_list s) s))
      (kiosk_shell_surface_find_best_output_for_xwayland x)"
  have "quiet s (snd ?r)"
    by (rule quiet_or_else [OF _ quiet_find_x11]) (auto split: option.split intro: quiet_assign_found quiet_find_output)
  then show ?thesis using assms
    by (auto simp: kiosk_shell_surface_find_best_output_def Let_def bind_eq_Some_conv split: if_splits prod.splits)
qed

lemma quiet_best_then: "kiosk_shell_surface_find_best_output x s = Some (r, t) \<Longrightarrow> quiet t u \<Longrightarrow> quiet s u"
  using quiet_trans [OF quiet_find_best_output] by blast

lemma quiet_set_size [simp, intro]: "quiet s (set_size_of_output x s)"
  by (auto simp: set_size_of_output_def split: option.split)

lemma quiet_sized: "quiet s (set_size_of_output x (kcalls cs (kiosk_shell_surface_set_output x o' s)))"
  by (rule quiet_trans [OF quiet_trans [OF quiet_set_output quiet_kcalls] quiet_set_size])

lemma quiet_set_fullscreen [simp, intro]: "quiet_opt s (kiosk_shell_surface_set_fullscreen x o' s)"
  unfolding kiosk_shell_surface_set_fullscreen_def Let_def
  by (auto intro!: quiet_opt_bind intro: quiet_sized quiet_best_then [OF _ quiet_sized])

lemma quiet_set_maximized [simp, intro]: "quiet_opt s (kiosk_shell_surface_set_maximized x s)"
  unfolding kiosk_shell_surface_set_maximized_def Let_def
  by (auto intro!: quiet_opt_bind intro: quiet_best_then [OF _ quiet_sized])

lemma quiet_best_output: "quiet_opt s (do { (o', t) \<leftarrow> kiosk_shell_surface_find_best_output x s; Some (kiosk_shell_surface_set_output x o' t) })"
  by (auto intro!: quiet_opt_bind intro: quiet_best_then [OF _ quiet_set_output])

lemma quiet_set_normal [simp, intro]: "quiet_opt s (kiosk_shell_surface_set_normal x s)"
  unfolding kiosk_shell_surface_set_normal_def Let_def
  by (auto intro!: quiet_opt_bind intro: quiet_trans [OF _ quiet_kcalls] quiet_best_then [OF _ quiet_trans [OF quiet_set_output quiet_kcalls]] simp: bind_eq_Some_conv)

subsection \<open>Changing parents\<close>

definition listeners_after :: "sid \<Rightarrow> sid option \<Rightarrow> kiosk_shell \<Rightarrow> sid \<Rightarrow> sid list" where
  "listeners_after x par s = (\<lambda>p. removeAll x (parent_listeners s p) @ (if par = Some p then [x] else []))"

definition reparented :: "sid \<Rightarrow> sid option \<Rightarrow> kiosk_shell \<Rightarrow> kiosk_shell \<Rightarrow> bool" where
  "reparented x par s t \<longleftrightarrow> kinv t \<and> same_ids s t \<and> parent_of t = (parent_of s)(x := par) \<and> parent_listeners t = listeners_after x par s"

lemma reparented_quiet: "reparented x par s t \<Longrightarrow> quiet t u \<Longrightarrow> reparented x par s u"
  using same_ids_trans by (auto simp: reparented_def quiet_def)

lemma set_links_fields:
  "trees (set_links x par s) = trees s" "normal_layer (set_links x par s) = normal_layer s" "inactive_layer (set_links x par s) = inactive_layer s"
  "kseat (set_links x par s) = kseat s" "seat_list (set_links x par s) = seat_list s" "kreports (set_links x par s) = kreports s"
  "next_surf (set_links x par s) = next_surf s" "acglass_next_window_id (set_links x par s) = acglass_next_window_id s"
  "surfs (set_links x par s) = (surfs s)(x := map_option (ks_parent_update (\<lambda>_. par)) (surfs s x))"
  "parent_listeners (set_links x par s) = listeners_after x par s"
  by (auto simp: set_links_def Let_def drop_parent_listener_def add_parent_listener_def upd_surf_def listeners_after_def fun_eq_iff split: option.split)

lemma set_links_reparented:
  assumes k: "kinv s" and x: "live s x" and p: "\<And>p. par = Some p \<Longrightarrow> live s p"
  shows "reparented x par s (set_links x par s)"
proof -
  have l: "live (set_links x par s) = live s" by (auto simp: live_def set_links_fields fun_eq_iff)
  have i: "same_ids s (set_links x par s)" by (auto simp: same_ids_def set_links_fields option.map_comp comp_def)
  have po: "parent_of (set_links x par s) = (parent_of s)(x := par)" using x by (auto simp: parent_of_def set_links_fields live_def fun_eq_iff)
  have "trees_inv (set_links x par s)" "views_inv (set_links x par s)" using k by (simp_all add: kinv_def trees_inv_def views_inv_def l set_links_fields)
  moreover have "focus_inv (set_links x par s)"
    using k by (simp add: kinv_def focus_inv_def l set_links_fields focused_surface_def get_kiosk_shell_first_seat_def)
  moreover have "links_inv (set_links x par s)"
  proof -
    have e: "parent_of s y = Some q \<longleftrightarrow> y \<in> set (parent_listeners s q)" for y q using k by (simp add: kinv_def links_inv_def)
    have m: "y \<in> set (listeners_after x par s q) \<longleftrightarrow> (if y = x then par = Some q else y \<in> set (parent_listeners s q))" for y q
      unfolding listeners_after_def by (cases "par = Some q") auto
    have "(if y = x then par else parent_of s y) = Some q \<longleftrightarrow> y \<in> set (listeners_after x par s q)" for y q
      unfolding m e [symmetric] by (rule if_distrib)
    moreover have "distinct (listeners_after x par s q)" for q
    proof -
      have "distinct (parent_listeners s q)" using k by (simp add: kinv_def links_inv_def)
      then show ?thesis unfolding listeners_after_def by (cases "par = Some q") (auto simp: distinct_removeAll)
    qed
    moreover have "live s q" if "(if y = x then par else parent_of s y) = Some q" for y q
      using k p [of q] that unfolding kinv_def links_inv_def by (cases "y = x") auto
    moreover have "\<forall>y \<ge> next_surf s. \<not> live s y" using k by (simp add: kinv_def links_inv_def)
    ultimately show ?thesis unfolding links_inv_def po l set_links_fields fun_upd_apply by blast
  qed
  ultimately show ?thesis by (simp add: reparented_def kinv_def i po set_links_fields)
qed

lemma quiet_relink: "\<forall>y \<in> set es. live s y \<Longrightarrow> quiet_opt s (relink_subtree x es s)"
proof (induction es arbitrary: s)
  case (Cons e es)
  show ?case
  proof (rule quiet_optI)
    assume k: "kinv s"
    have q: "quiet s (if d then active_surface_tree_move_element_to_top x e s else s)" for d using Cons.prems quiet_move_to_top by simp
    then have "\<forall>y \<in> set es. live (if d then active_surface_tree_move_element_to_top x e s else s) y" for d
      using quiet_live [OF q k] Cons.prems by (cases d) (simp_all, metis)
    then have "quiet_opt s (relink_subtree x es (if d then active_surface_tree_move_element_to_top x e s else s))" for d
      using quiet_opt_trans [OF q Cons.IH] by blast
    then show "quiet_opt s (relink_subtree x (e # es) s)" by (auto intro: quiet_opt_bind)
  qed
qed simp

lemma quiet_reinit [simp, intro]: "quiet s (reinit_tree x s)"
proof -
  have "quiet s (s\<lparr>trees := (trees s)(x := [])\<rparr>)" by (rule quiet_trees) (auto simp: trees_inv_def live_def)
  then show ?thesis by (auto simp: reinit_tree_def intro: quiet_trans)
qed

lemma set_parent_reparents:
  assumes k: "kinv s" and x: "live s x" and p: "\<And>p. par = Some p \<Longrightarrow> live s p" and r: "kiosk_shell_surface_set_parent x par s = Some t"
  shows "reparented x par s t"
proof -
  obtain root where root: "kiosk_shell_surface_get_parent_root (parent_of s) (case par of Some p \<Rightarrow> p | None \<Rightarrow> x) = Some root"
    using r by (auto simp: kiosk_shell_surface_set_parent_def bind_eq_Some_conv)
  note L = set_links_reparented [OF k x p]
  have ki: "kinv (set_links x par s)" and lx: "live (set_links x par s) x" using L x by (auto simp: reparented_def dest: same_ids_live)
  show ?thesis
  proof (cases "par = None \<and> x = root")
    case True
    then have "parent_of s x = None" using get_parent_root_SomeD [OF root] by simp
    then have "\<forall>q. x \<notin> set (parent_listeners s q)" using k unfolding kinv_def links_inv_def by (metis option.distinct(1))
    then have "listeners_after x par s = parent_listeners s" "(parent_of s)(x := par) = parent_of s"
      using True \<open>parent_of s x = None\<close> by (auto simp: listeners_after_def fun_eq_iff)
    moreover have "t = s" using r root True by (simp add: kiosk_shell_surface_set_parent_def)
    ultimately show ?thesis using k by (simp add: reparented_def same_ids_refl)
  next
    case no: False
    show ?thesis
    proof (cases par)
      case (Some q)
      define u where "u = (if kiosk_shell_surface_is_surface_in_tree (set_links x par s) x root then set_links x par s else active_surface_tree_move_element_to_top root x (set_links x par s))"
      have t: "kiosk_shell_surface_set_normal x (kiosk_shell_surface_set_output x None u) = Some t"
        using r root no Some by (auto simp: kiosk_shell_surface_set_parent_def Let_def u_def split: if_splits)
      have "quiet (set_links x par s) u" using quiet_move_to_top [OF lx] by (simp add: u_def)
      then show ?thesis using reparented_quiet [OF L] quiet_trans [OF _ quiet_trans [OF quiet_set_output quiet_optD [OF quiet_set_normal t]]] by blast
    next
      case None
      let ?u = "reinit_tree x (set_links x par s)"
      obtain v where v: "relink_subtree x (rev (trees ?u root)) ?u = Some v"
        "kiosk_shell_surface_set_fullscreen x (surf_output v x) (kiosk_shell_output_set_active_surface_tree (surf_output s x) (Some x) v) = Some t"
        using r root no None by (auto simp: kiosk_shell_surface_set_parent_def Let_def bind_eq_Some_conv)
      have qu: "quiet (set_links x par s) ?u" by simp
      then have "kinv ?u" using ki by (simp add: quiet_def)
      then have "quiet ?u v" using quiet_optD [OF quiet_relink v(1)] kinv_tree_live by auto
      then have "quiet ?u t" using quiet_trans [OF _ quiet_trans [OF quiet_set_active quiet_optD [OF quiet_set_fullscreen v(2)]]] by blast
      then show ?thesis using reparented_quiet [OF L quiet_trans [OF qu]] by blast
    qed
  qed
qed

subsection \<open>Removing a window\<close>

text \<open>Every child of a window that goes gets the window's parent, which is not the window itself.\<close>

lemma notify_parent_destroys_leaves:
  assumes "kinv s" and "live s x" and "cs = parent_listeners s x" and "notify_parent_destroys cs s = Some t"
  shows "kinv t \<and> same_ids s t \<and> parent_listeners t x = []"
  using assms
proof (induction cs arbitrary: s)
  case Nil then show ?case by (simp add: same_ids_refl)
next
  case (Cons c cs)
  have c: "parent_of s c = Some x" "c \<notin> set cs" using Cons.prems(1,3) by (metis kinv_def links_inv_def list.set_intros(1), metis distinct.simps(2) kinv_def links_inv_def)
  have lc: "live s c" using c(1) by (auto simp: parent_of_def live_def bind_eq_Some_conv)
  obtain u where u: "kiosk_shell_surface_set_parent c (parent_of s x) s = Some u" "notify_parent_destroys cs u = Some t"
    using Cons.prems(4) c(1) by (auto simp: kiosk_shell_surface_notify_parent_destroy_def bind_eq_Some_conv)
  have lp: "live s p" if "parent_of s x = Some p" for p using Cons.prems(1) that by (auto simp: kinv_def links_inv_def)
  have R: "reparented c (parent_of s x) s u" by (rule set_parent_reparents [OF Cons.prems(1) lc lp u(1)])
  have nx: "parent_of s x \<noteq> Some x"
  proof
    assume l: "parent_of s x = Some x"
    then have "kiosk_shell_surface_get_parent_root (parent_of s) x = None" by (intro get_parent_root_cycle [of x "{x}"]) auto
    then show False using u(1) l by (simp add: kiosk_shell_surface_set_parent_def)
  qed
  have "removeAll c (c # cs) = cs" using c(2) by simp
  then have "cs = parent_listeners u x" using R nx Cons.prems(3) by (simp add: reparented_def listeners_after_def)
  moreover have "live u x" using R Cons.prems(2) by (auto simp: reparented_def dest: same_ids_live)
  ultimately show ?case using Cons.IH [of u] R u(2) same_ids_trans by (auto simp: reparented_def)
qed

lemma successor_in_layer_from:
  assumes "successor_in_layer s x pr vs tv = Some r" and "r = Some v"
  shows "v \<in> set vs \<and> v \<noteq> Win x \<or> tv = Some v"
  using assms
proof (induction s x pr vs tv rule: successor_in_layer.induct)
  case (2 s x pr w vs tv)
  then show ?case
    by (auto simp: Let_def bind_eq_Some_conv split: if_splits option.splits)
qed simp

lemma find_focus_successor_live:
  assumes "find_focus_successor x s = Some (Some y)" and "kinv s"
  shows "y \<noteq> x" and "live s y"
proof -
  obtain pr t1 v where v: "successor_in_layer s x pr (normal_layer s) None = Some t1" "successor_in_layer s x pr (inactive_layer s) t1 = Some (Some v)"
    "get_kiosk_shell_surface v = Some y"
    using assms(1) by (auto simp: find_focus_successor_def bind_eq_Some_conv split: if_splits)
  have "v \<in> set (normal_layer s) \<union> set (inactive_layer s)" "v \<noteq> Win x"
    using successor_in_layer_from [OF v(2) refl] successor_in_layer_from [OF v(1)] by auto
  moreover have "v = Win y" using v(3) by (auto simp: get_kiosk_shell_surface_def split: kview.splits)
  ultimately show "y \<noteq> x" "live s y" using assms(2) by (auto simp: kinv_def views_inv_def)
qed

lemma focused_emit [simp]: "focused_surface (acglass_emit_window_event x type s) = focused_surface s"
  by (simp add: focused_surface_def)

text \<open>The focus: unchanged by what only moves views and lists.\<close>

lemma kseat_folds:
  "kseat (fold move_to_normal ys s) = kseat s" "kseat (fold move_to_inactive ys s) = kseat s" "kseat (raise_collected h ys s) = kseat s"
  by (induction ys arbitrary: s) (simp_all add: move_to_normal_def move_to_inactive_def active_surface_tree_move_element_to_top_def unlink_surface_def Let_def)

lemma kseat_check_list [simp]: "kseat (check_list h s) = kseat s"
  by (simp add: check_list_def kreport_def)

lemma kseat_set_active [simp]: "kseat (kiosk_shell_output_set_active_surface_tree o' r s) = kseat s"
  by (auto simp: kiosk_shell_output_set_active_surface_tree_def Let_def kseat_folds kreport_def split: option.split)

lemma kseat_collect: "collect_subtree x xs tmp s = Some (tmp', t) \<Longrightarrow> kseat t = kseat s"
  by (induction xs arbitrary: tmp s) (auto simp: bind_eq_Some_conv unlink_surface_def split: if_splits)

lemma kseat_raise: "kiosk_shell_output_raise_surface_subtree o' x s = Some t \<Longrightarrow> kseat t = kseat s"
  by (auto simp: kiosk_shell_output_raise_surface_subtree_def Let_def bind_eq_Some_conv kseat_folds kreport_def dest: kseat_collect split: option.splits)

lemma focused_activate:
  assumes "kiosk_shell_surface_activate x n fl s = Some t" and "kseat s \<noteq> None"
  shows "focused_surface t = Some x"
proof -
  have "kseat (unfocus_current (kcalls [Activate_input x n fl] s)) \<noteq> None"
    using same_windows_trans [OF same_windows_kcalls same_windows_unfocus, of s "[Activate_input x n fl]"] assms(2) by (auto simp: same_windows_def)
  then show ?thesis using focus_on_focused kseat_raise assms(1) by (simp add: kiosk_shell_surface_activate_def focused_surface_def)
qed

lemma pass_focus_quiet:
  assumes p: "pass_focus x n s = Some t" and k: "kinv s" and f: "kseat s \<noteq> None"
  shows "quiet s t" and "focused_surface t \<noteq> Some x"
proof -
  obtain sc where sc: "find_focus_successor x s = Some sc" using p by (auto simp: pass_focus_def bind_eq_Some_conv)
  have none: "quiet s (set_focused None s)" by (rule quiet_set_focused) simp
  have "quiet s t \<and> focused_surface t \<noteq> Some x"
  proof (cases "surf_output s x \<noteq> None \<and> sc \<noteq> None")
    case True
    then obtain o' y where oy: "surf_output s x = Some o'" "sc = Some y" by auto
    note y = find_focus_successor_live [OF sc [unfolded oy(2)] k]
    obtain u where u: "quiet s u" "kseat u = kseat s" "kiosk_shell_surface_activate y n WESTON_ACTIVATE_FLAG_NONE u = Some t"
      using p sc oy by (auto simp: pass_focus_def Let_def bind_eq_Some_conv split: if_splits intro: that [OF quiet_set_active kseat_set_active] that [OF quiet_refl refl])
    have "live u y" using quiet_live [OF u(1) k] y(2) by simp
    then show ?thesis using quiet_trans [OF u(1) quiet_optD [OF quiet_activate u(3)]] focused_activate [OF u(3)] u(2) f y(1) by simp
  next
    case False
    then have "t = set_focused None s \<or> t = kiosk_shell_output_set_active_surface_tree (surf_output s x) None (set_focused None s)"
      using p sc by (auto simp: pass_focus_def Let_def split: option.splits if_splits)
    moreover have "focused_surface (set_focused None s) = None" by (cases "kseat s") (auto simp: focused_surface_def set_focused_def)
    ultimately show ?thesis using none quiet_trans [OF none quiet_set_active] by (auto simp: focused_surface_def)
  qed
  then show "quiet s t" "focused_surface t \<noteq> Some x" by simp_all
qed

lemma destroy_keeps:
  assumes k: "kinv s" and l: "parent_listeners s x = []" and f: "focused_surface s \<noteq> Some x"
  shows "kinv (kiosk_shell_surface_destroy x s)"
proof -
  let ?t = "kiosk_shell_surface_destroy x s"
  have sf: "surfs ?t = (surfs s)(x := None)" "trees ?t = (\<lambda>h. removeAll x (trees s h))" "parent_listeners ?t = (\<lambda>p. removeAll x (parent_listeners s p))"
    "normal_layer ?t = removeAll (Win x) (normal_layer s)" "inactive_layer ?t = removeAll (Win x) (inactive_layer s)" "kseat ?t = kseat s" "seat_list ?t = seat_list s"
    "next_surf ?t = next_surf s" "kreports ?t = kreports s"
    by (simp_all add: kiosk_shell_surface_destroy_def Let_def drop_parent_listener_def unlink_surface_def kcalls_def)
  have lv: "live ?t y \<longleftrightarrow> y \<noteq> x \<and> live s y" for y by (simp add: live_def sf)
  have po: "parent_of ?t y = (if y = x then None else parent_of s y)" for y by (simp add: parent_of_def sf)
  have "parent_of s y \<noteq> Some x" for y using k l by (metis empty_iff kinv_def links_inv_def list.set(1))
  then have "links_inv ?t" using k by (auto simp: links_inv_def kinv_def sf lv po distinct_removeAll)
  moreover have "trees_inv ?t" using k by (auto simp: trees_inv_def kinv_def sf lv distinct_removeAll)
  moreover have "views_inv ?t" using k by (auto simp: views_inv_def kinv_def sf lv distinct_removeAll)
  moreover have "focus_inv ?t" using k f by (auto simp: focus_inv_def kinv_def sf lv focused_surface_def get_kiosk_shell_first_seat_def)
  ultimately show ?thesis by (simp add: kinv_def)
qed

definition ids_fixed :: "kiosk_shell \<Rightarrow> kiosk_shell \<Rightarrow> bool" where
  "ids_fixed s t \<longleftrightarrow> (\<forall>x. surfs t x = None \<or> map_option ks_window_id (surfs t x) = map_option ks_window_id (surfs s x)) \<and>
     acglass_next_window_id t = acglass_next_window_id s"

lemma ids_fixed_same: "same_ids s t \<Longrightarrow> ids_fixed s t"
  by (simp add: same_ids_def ids_fixed_def)

lemma removed_keeps:
  assumes k: "kinv s" and r: "desktop_surface_removed x s = Some t"
  shows "kinv t \<and> ids_fixed s t"
proof (cases "surfs s x")
  case None then show ?thesis using r k by (simp add: desktop_surface_removed_def ids_fixed_def)
next
  case (Some sh)
  define e where "e = acglass_emit_window_event x WESTON_ANLAND_WINDOW_EVENT_CLOSED s"
  define seat where "seat = get_kiosk_shell_seat (get_kiosk_shell_first_seat e) e"
  have e: "kinv e" "same_ids s e" using quiet_emit [of s x WESTON_ANLAND_WINDOW_EVENT_CLOSED] k by (auto simp: quiet_def e_def)
  have le: "live e x" using Some by (simp add: live_def e_def)
  obtain u where u: "notify_parent_destroys (parent_listeners e x) e = Some u"
    and t: "(case (seat, focused_surface u) of (Some n, Some f) \<Rightarrow>
        if f = x \<or> surface_output u x \<noteq> surface_output u f then pass_focus x n u else Some u | _ \<Rightarrow> Some u) \<bind> (\<lambda>v. Some (kiosk_shell_surface_destroy x v)) = Some t"
    using r Some by (auto simp: desktop_surface_removed_def e_def seat_def Let_def bind_eq_Some_conv)
  have U: "kinv u" "same_ids e u" "parent_listeners u x = []" using notify_parent_destroys_leaves [OF e(1) le refl u] by simp_all
  have st: "seat \<noteq> None" if "kseat u \<noteq> None"
  proof -
    have "kseat e \<noteq> None" using U(2) that unfolding same_ids_def by (metis option.map_disc_iff)
    then obtain m f where "kseat e = Some (m, f)" by auto
    then show ?thesis using e(1) by (auto simp: seat_def get_kiosk_shell_seat_def kinv_def focus_inv_def)
  qed
  obtain v where v: "quiet u v" "focused_surface v \<noteq> Some x" "t = kiosk_shell_surface_destroy x v"
  proof (cases "focused_surface u")
    case None then show ?thesis using t that [of u] by (auto split: option.splits)
  next
    case (Some f)
    then have ks: "kseat u \<noteq> None" by (cases "kseat u") (auto simp: focused_surface_def)
    then obtain n where n: "seat = Some n" using st by auto
    show ?thesis
    proof (cases "f = x \<or> surface_output u x \<noteq> surface_output u f")
      case True
      then obtain v where "pass_focus x n u = Some v" "t = kiosk_shell_surface_destroy x v" using t n Some by (auto simp: bind_eq_Some_conv)
      then show ?thesis using that pass_focus_quiet [OF _ U(1) ks] by blast
    next
      case False then show ?thesis using t n Some that [of u] by simp
    qed
  qed
  have V: "kinv v" "same_ids u v" "parent_listeners v x = []" using v(1) U by (simp_all add: quiet_def)
  have "same_ids s v" using same_ids_trans e(2) U(2) V(2) by blast
  then have "ids_fixed s t" unfolding v(3)
    by (auto simp: ids_fixed_def same_ids_def kiosk_shell_surface_destroy_def Let_def drop_parent_listener_def unlink_surface_def kcalls_def)
  then show ?thesis using destroy_keeps [OF V(1,3) v(2)] v(3) by simp
qed

subsection \<open>The other handlers\<close>

lemma ids_fixed_trans: "ids_fixed s t \<Longrightarrow> ids_fixed t u \<Longrightarrow> ids_fixed s u"
  by (auto simp: ids_fixed_def) (metis option.map_disc_iff)

definition keeps :: "kiosk_shell \<Rightarrow> kiosk_shell option \<Rightarrow> bool" where
  "keeps s m \<longleftrightarrow> (\<forall>t. m = Some t \<longrightarrow> kinv t \<and> ids_fixed s t)"

lemma keeps_quiet: "kinv s \<Longrightarrow> quiet_opt s m \<Longrightarrow> keeps s m"
  by (auto simp: keeps_def quiet_opt_def quiet_def ids_fixed_same)

lemma quiet_opt_then: "quiet_opt s m \<Longrightarrow> (\<And>t. quiet t (f t)) \<Longrightarrow> quiet_opt s (m \<bind> (\<lambda>t. Some (f t)))"
  by (cases m) (auto intro: quiet_trans)

lemma quiet_minimized [simp, intro]: "quiet_opt s (desktop_surface_minimized_requested x s)"
proof (cases "surf_output s x")
  case (Some o')
  have e: "quiet s (acglass_emit_window_event x WESTON_ANLAND_WINDOW_EVENT_MINIMIZED (kcalls [Damage_all] t))" if "quiet s t" for t
    by (rule quiet_trans [OF quiet_trans [OF that quiet_kcalls] quiet_emit])
  have "live s x" using Some by (auto simp: surf_output_def live_def bind_eq_Some_conv)
  then have "quiet s (if c then kiosk_shell_output_set_active_surface_tree (Some o') None s else move_to_inactive x s)" for c
    using quiet_set_active quiet_to_inactive by simp
  then show ?thesis unfolding desktop_surface_minimized_requested_def Some option.case Let_def
    by (intro quiet_opt_bind) (simp only: quiet_opt_simps e)
qed (simp add: desktop_surface_minimized_requested_def)

lemma quiet_restore [simp, intro]: "quiet_opt s (acglass_restore_window s wid)"
proof (rule quiet_optI)
  assume k: "kinv s"
  show "quiet_opt s (acglass_restore_window s wid)"
  proof (cases "acglass_find_window s wid")
    case (Some x)
    have lx: "live s x" using find_window_live(1) [OF Some] by (auto simp: live_def)
    have tail: "quiet_opt s (do {
        root \<leftarrow> kiosk_shell_surface_get_parent_root (parent_of t) x;
        t2 \<leftarrow> kiosk_shell_output_raise_surface_subtree (surf_output t x) x (kiosk_shell_output_set_active_surface_tree (surf_output t x) (Some root) t);
        t3 \<leftarrow> (case get_kiosk_shell_seat (get_kiosk_shell_first_seat t2) t2 of
                Some seat \<Rightarrow> kiosk_shell_surface_activate x seat WESTON_ACTIVATE_FLAG_CONFIGURE t2 | None \<Rightarrow> Some t2);
        Some (acglass_emit_window_event x WESTON_ANLAND_WINDOW_EVENT_RESTORED (kcalls [Damage_all] t3)) })" if t: "quiet s t" for t
    proof (intro quiet_opt_bind)
      fix root t2 t3
      assume t2: "kiosk_shell_output_raise_surface_subtree (surf_output t x) x (kiosk_shell_output_set_active_surface_tree (surf_output t x) (Some root) t) = Some t2"
        and t3: "(case get_kiosk_shell_seat (get_kiosk_shell_first_seat t2) t2 of Some seat \<Rightarrow> kiosk_shell_surface_activate x seat WESTON_ACTIVATE_FLAG_CONFIGURE t2 | None \<Rightarrow> Some t2) = Some t3"
      have q2: "quiet s t2" using quiet_trans [OF quiet_trans [OF t quiet_set_active] quiet_optD [OF quiet_raise t2]] .
      then have "live t2 x" using quiet_live [OF q2 k] lx by simp
      then have "quiet t2 t3" using t3 quiet_optD [OF quiet_activate] by (auto split: option.splits)
      then show "quiet_opt s (Some (acglass_emit_window_event x WESTON_ANLAND_WINDOW_EVENT_RESTORED (kcalls [Damage_all] t3)))"
        using quiet_trans [OF quiet_trans [OF quiet_trans [OF q2] quiet_kcalls] quiet_emit] by simp
    qed
    have "quiet_opt s (if surf_output s x = None then do { (o', t) \<leftarrow> kiosk_shell_surface_find_best_output x s; Some (kiosk_shell_surface_set_output x o' t) } else Some s)"
      using quiet_best_output by simp
    then show ?thesis unfolding acglass_restore_window_def Some option.case Let_def
      by (intro quiet_opt_bind) (use tail in \<open>auto simp: quiet_opt_def\<close>)
  qed (simp add: acglass_restore_window_def)
qed

lemma quiet_commit_assign: "quiet_opt s (commit_assign_output x s)"
proof -
  let ?a = "upd_surf x (ks_appid_output_assigned_update (\<lambda>_. True))"
  have a: "quiet t (?a t)" for t by (rule quiet_upd_surf) simp_all
  have n: "quiet t (?a (kreport K_null_deref (kiosk_shell_surface_set_output x None t)))" for t
    by (rule quiet_trans [OF quiet_trans [OF quiet_set_output quiet_kreport] a]) simp
  have s: "quiet t (?a (set_size_of_output x (kiosk_shell_surface_set_output x (Some o') t)))" for t o'
    by (rule quiet_trans [OF quiet_trans [OF quiet_set_output quiet_set_size] a])
  show ?thesis unfolding commit_assign_output_def Let_def
    by (auto split: option.split intro!: quiet_opt_bind intro: quiet_trans [OF quiet_set_output quiet_best_then [OF _ n]] quiet_trans [OF quiet_set_output quiet_best_then [OF _ s]])
qed

lemma quiet_commit_place: "quiet s (commit_place x is_resized is_fullscreen geom s)"
  by (auto simp: commit_place_def split: option.split bool.split intro: quiet_trans [OF quiet_kreport quiet_kcalls])

lemma quiet_commit_map: "quiet_opt s (commit_map x s)"
proof (rule quiet_optI)
  assume k: "kinv s"
  show "quiet_opt s (commit_map x s)"
  proof (cases "surfs s x")
    case (Some sh)
    let ?f = "\<lambda>sh. (if ks_output sh = None then sh else sh\<lparr>ws_output := ks_output sh, wv_output := ks_output sh\<rparr>)\<lparr>ws_mapped := True\<rparr>"
    define t where "t = (if ks_parent sh = None then kiosk_shell_output_set_active_surface_tree (ks_output sh) (Some x) (upd_surf x ?f s) else upd_surf x ?f s)"
    have "quiet s (upd_surf x ?f s)" by (rule quiet_upd_surf) simp_all
    then have t: "quiet s t" unfolding t_def by (auto intro: quiet_trans)
    then have "live t x" using quiet_live [OF t k] Some by (simp add: live_def)
    then have "quiet_opt t (case get_kiosk_shell_seat (get_kiosk_shell_first_seat t) t of Some seat \<Rightarrow> kiosk_shell_surface_activate x seat WESTON_ACTIVATE_FLAG_NONE t | None \<Rightarrow> Some t)"
      using quiet_activate by (simp split: option.split)
    then have "quiet_opt s ((case get_kiosk_shell_seat (get_kiosk_shell_first_seat t) t of Some seat \<Rightarrow> kiosk_shell_surface_activate x seat WESTON_ACTIVATE_FLAG_NONE t | None \<Rightarrow> Some t) \<bind> (\<lambda>t. Some (kcalls [Damage_all] t)))"
      using quiet_opt_trans [OF t] by (intro quiet_opt_then) auto
    then show ?thesis
    proof (cases "ws_mapped sh")
      case False
      show ?thesis using \<open>quiet_opt s (_ \<bind> _)\<close> by (simp only: commit_map_def Some option.case Let_def False if_False t_def)
    qed (simp add: commit_map_def Some)
  qed (simp add: commit_map_def)
qed

lemma quiet_committed: "quiet_opt s (desktop_surface_committed x w h is_fullscreen geom buf_offset s)"
proof (cases "surfs s x")
  case (Some sh)
  have last: "quiet t (upd_surf x (ks_last_update (\<lambda>_. (w, h))) t)" for t by (rule quiet_upd_surf) simp_all
  have tail: "quiet t (let t = (if c then kcalls cs t else t); t = upd_surf x (ks_last_update (\<lambda>_. (w, h))) t in if d then kcalls ds t else t)" for t c cs d ds
    by (auto simp: Let_def intro: last quiet_trans [OF last] quiet_trans [OF quiet_kcalls last] quiet_trans [OF quiet_trans [OF quiet_kcalls last] quiet_kcalls])
  have "quiet_opt s (do { t \<leftarrow> commit_assign_output x s; u \<leftarrow> commit_map x (commit_place x r is_fullscreen geom t);
      Some (let t = (if c then kcalls cs u else u); t = upd_surf x (ks_last_update (\<lambda>_. (w, h))) t in if d then kcalls ds t else t) })" for r c cs d ds
  proof (intro quiet_opt_bind)
    fix t u
    assume "commit_assign_output x s = Some t" "commit_map x (commit_place x r is_fullscreen geom t) = Some u"
    then have "quiet s u" using quiet_trans [OF quiet_trans [OF quiet_optD [OF quiet_commit_assign] quiet_commit_place] quiet_optD [OF quiet_commit_map]] by blast
    then show "quiet_opt s (Some (let t = (if c then kcalls cs u else u); t = upd_surf x (ks_last_update (\<lambda>_. (w, h))) t in if d then kcalls ds t else t))"
      using quiet_trans [OF _ tail] by simp
  qed
  then show ?thesis using Some by (simp add: desktop_surface_committed_def Let_def)
qed (simp add: desktop_surface_committed_def quiet_kreport)

subsection \<open>All runs\<close>

definition ids_ok :: "kiosk_shell \<Rightarrow> bool" where
  "ids_ok s \<longleftrightarrow> (\<forall>x a. surfs s x = Some a \<longrightarrow> 0 < unat (ks_window_id a) \<and> unat (ks_window_id a) \<le> unat (acglass_next_window_id s)) \<and>
     (\<forall>x y a b. surfs s x = Some a \<longrightarrow> surfs s y = Some b \<longrightarrow> ks_window_id a = ks_window_id b \<longrightarrow> x = y)"

lemma ids_fixed_ok:
  assumes "ids_fixed s t" and "ids_ok s"
  shows "ids_ok t \<and> acglass_next_window_id t = acglass_next_window_id s"
proof -
  have old: "\<exists>b. surfs s x = Some b \<and> ks_window_id b = ks_window_id a" if "surfs t x = Some a" for x a
    using assms(1) that unfolding ids_fixed_def by (cases "surfs s x") (auto dest!: spec [of _ x])
  have n: "acglass_next_window_id t = acglass_next_window_id s" using assms(1) by (simp add: ids_fixed_def)
  have "0 < unat (ks_window_id a) \<and> unat (ks_window_id a) \<le> unat (acglass_next_window_id t)" if t: "surfs t x = Some a" for x a
  proof -
    obtain b where "surfs s x = Some b" "ks_window_id b = ks_window_id a" using old [OF t] by blast
    then show ?thesis using assms(2) n unfolding ids_ok_def by metis
  qed
  moreover have "x = y" if t: "surfs t x = Some a" "surfs t y = Some b" "ks_window_id a = ks_window_id b" for x y a b
  proof -
    obtain a' b' where "surfs s x = Some a'" "surfs s y = Some b'" "ks_window_id a' = ks_window_id b'" using old [OF t(1)] old [OF t(2)] t(3) by metis
    then show ?thesis using assms(2) unfolding ids_ok_def by blast
  qed
  ultimately show ?thesis using n unfolding ids_ok_def by blast
qed

lemma new_window_id:
  assumes "acglass_next_window_id s \<noteq> -1"
  shows "acglass_new_window_id s = (acglass_next_window_id s + 1, s\<lparr>acglass_next_window_id := acglass_next_window_id s + 1\<rparr>)"
proof -
  have "acglass_next_window_id s + 1 \<noteq> 0" using assms by (metis add_eq_0_iff2)
  then show ?thesis by (simp add: acglass_new_window_id_def Let_def)
qed

lemma create_keeps:
  assumes k: "kinv s" and c: "kiosk_shell_surface_create view_ok mem_ok d s = (r, t)"
  shows "kinv t" and "acglass_next_window_id s \<noteq> -1 \<Longrightarrow> ids_ok s \<Longrightarrow> ids_ok t \<and> unat (acglass_next_window_id t) \<le> Suc (unat (acglass_next_window_id s))"
proof -
  have "kinv t \<and> (acglass_next_window_id s \<noteq> -1 \<longrightarrow> ids_ok s \<longrightarrow> ids_ok t \<and> unat (acglass_next_window_id t) \<le> Suc (unat (acglass_next_window_id s)))"
  proof (cases "view_ok \<and> mem_ok")
    case False
    then have "t = s \<or> t = kcalls [Post_no_memory] s" using c by (auto simp: kiosk_shell_surface_create_def split: if_splits)
    moreover have "kinv (kcalls [Post_no_memory] s)" using quiet_kcalls [of s] k by (simp add: quiet_def)
    ultimately show ?thesis using k by (auto simp: ids_ok_def)
  next
    case True
    let ?x = "next_surf s"
    obtain wid u where w: "acglass_new_window_id s = (wid, u)" by (rule prod.exhaust)
    have u: "u = s\<lparr>acglass_next_window_id := wid\<rparr>" using w by (auto simp: acglass_new_window_id_def Let_def split: if_splits)
    obtain sh where t: "t = u\<lparr>next_surf := Suc ?x, surfs := (surfs s)(?x \<mapsto> sh), trees := (trees s)(?x := [?x]), parent_listeners := (parent_listeners s)(?x := [])\<rparr>"
      and sh: "ks_parent sh = None" "ks_window_id sh = wid"
      using c w True u that by (auto simp: kiosk_shell_surface_create_def Let_def)
    have nl: "\<not> live s y" if "?x \<le> y" for y using k that by (simp add: kinv_def links_inv_def)
    then have fresh: "surfs s ?x = None" by (simp add: live_def)
    have lv: "live t y \<longleftrightarrow> y = ?x \<or> live s y" for y by (simp add: live_def t)
    have po: "parent_of t y = parent_of s y" for y using fresh by (simp add: parent_of_def t sh)
    have npar: "parent_of s y \<noteq> Some ?x" for y using k nl [of ?x] by (auto simp: kinv_def links_inv_def)
    have nt: "?x \<notin> set (trees s h)" for h using kinv_tree_live [OF k] nl by blast
    have tf: "trees t = (trees s)(?x := [?x])" "parent_listeners t = (parent_listeners s)(?x := [])" "next_surf t = Suc ?x" by (simp_all add: t)
    have sm: "normal_layer t = normal_layer s" "inactive_layer t = inactive_layer s" "kseat t = kseat s" "seat_list t = seat_list s" "kreports t = kreports s" by (simp_all add: t u)
    have "trees_inv t" using k nt by (auto simp: kinv_def trees_inv_def tf lv)
    moreover have "views_inv t" using k by (auto simp: kinv_def views_inv_def sm lv)
    moreover have "focus_inv t" using k by (auto simp: kinv_def focus_inv_def sm lv focused_surface_def get_kiosk_shell_first_seat_def)
    moreover have "links_inv t"
    proof -
      have e: "parent_of s y = Some q \<longleftrightarrow> y \<in> set (parent_listeners s q)" for y q using k by (simp add: kinv_def links_inv_def)
      have "parent_of t y = Some q \<longleftrightarrow> y \<in> set (parent_listeners t q)" for y q
        using npar [of y] e [of y q] by (cases "q = ?x") (simp_all add: po tf)
      moreover have "distinct (parent_listeners t q)" for q using k by (simp add: kinv_def links_inv_def tf)
      moreover have "live t q" if "parent_of t y = Some q" for y q using that k by (auto simp: po lv kinv_def links_inv_def)
      moreover have "\<not> live t y" if "next_surf t \<le> y" for y using that nl [of y] by (simp add: lv tf)
      ultimately show ?thesis by (simp add: links_inv_def)
    qed
    moreover have "ids_ok t \<and> unat (acglass_next_window_id t) \<le> Suc (unat (acglass_next_window_id s))" if nw: "acglass_next_window_id s \<noteq> -1" and ok: "ids_ok s"
    proof -
      have wid: "wid = acglass_next_window_id s + 1" using w new_window_id [OF nw] by simp
      have nz: "acglass_next_window_id s + 1 \<noteq> 0" using nw by (metis add_eq_0_iff2)
      have uw: "unat wid = Suc (unat (acglass_next_window_id s))" unfolding wid using nz by (simp add: unatSuc add.commute)
      have nt': "acglass_next_window_id t = wid" by (simp add: t u)
      have st: "surfs t y = Some a \<longleftrightarrow> (if y = ?x then a = sh else surfs s y = Some a)" for y a by (auto simp: t)
      have old: "0 < unat (ks_window_id a) \<and> unat (ks_window_id a) < unat wid" if "surfs s y = Some a" for y a
        using ok that uw by (auto simp: ids_ok_def less_Suc_eq_le)
      have "0 < unat (ks_window_id a) \<and> unat (ks_window_id a) \<le> unat wid" if "surfs t y = Some a" for y a
        using that old [of y a] uw sh(2) by (auto simp: st split: if_splits)
      moreover have "y = z" if "surfs t y = Some a" "surfs t z = Some b" "ks_window_id a = ks_window_id b" for y z a b
      proof (cases "y = ?x"; cases "z = ?x")
        assume "y \<noteq> ?x" "z \<noteq> ?x"
        then show ?thesis using that ok st [of y a] st [of z b] unfolding ids_ok_def by metis
      next
        assume "y = ?x" "z \<noteq> ?x"
        then have "ks_window_id b = wid" "surfs s z = Some b" using that st [of y a] st [of z b] sh(2) by simp_all
        then show ?thesis using old [of z b] by simp
      next
        assume "y \<noteq> ?x" "z = ?x"
        then have "ks_window_id a = wid" "surfs s y = Some a" using that st [of y a] st [of z b] sh(2) by simp_all
        then show ?thesis using old [of y a] by simp
      qed simp
      ultimately show ?thesis unfolding ids_ok_def nt' using uw by simp
    qed
    ultimately show ?thesis by (simp add: kinv_def)
  qed
  then show "kinv t" "acglass_next_window_id s \<noteq> -1 \<Longrightarrow> ids_ok s \<Longrightarrow> ids_ok t \<and> unat (acglass_next_window_id t) \<le> Suc (unat (acglass_next_window_id s))" by blast+
qed

definition new_ids_ok :: "kiosk_shell \<Rightarrow> kiosk_shell \<Rightarrow> bool" where
  "new_ids_ok s t \<longleftrightarrow> (acglass_next_window_id s \<noteq> -1 \<longrightarrow> ids_ok s \<longrightarrow> ids_ok t \<and> unat (acglass_next_window_id t) \<le> Suc (unat (acglass_next_window_id s)))"

definition good_step :: "kiosk_shell \<Rightarrow> kiosk_shell \<Rightarrow> bool" where
  "good_step s t \<longleftrightarrow> kinv t \<and> new_ids_ok s t"

lemma fixed_good: "kinv t \<Longrightarrow> ids_fixed s t \<Longrightarrow> good_step s t"
  using ids_fixed_ok [of s t] by (auto simp: good_step_def new_ids_ok_def)

lemma quiet_good: "kinv s \<Longrightarrow> quiet s t \<Longrightarrow> good_step s t"
  by (auto simp: quiet_def intro: fixed_good ids_fixed_same)

lemma quiet_opt_good: "kinv s \<Longrightarrow> quiet_opt s m \<Longrightarrow> m = Some t \<Longrightarrow> good_step s t"
  by (auto simp: quiet_opt_def intro: quiet_good)

lemma added_good:
  assumes k: "kinv s" and a: "desktop_surface_added view_ok mem_ok d s = Some t"
  shows "good_step s t"
proof -
  obtain r u where c: "kiosk_shell_surface_create view_ok mem_ok d s = (r, u)" by (rule prod.exhaust)
  note C = create_keeps [OF k c]
  have "quiet u t"
  proof (cases r)
    case None then show ?thesis using a c by (simp add: desktop_surface_added_def)
  next
    case (Some x)
    then show ?thesis using a c quiet_trans [OF quiet_optD [OF quiet_set_fullscreen] quiet_emit]
      by (auto simp: desktop_surface_added_def bind_eq_Some_conv)
  qed
  then have "kinv t" "ids_fixed u t" using C(1) by (auto simp: quiet_def intro: ids_fixed_same)
  then show ?thesis using C(2) ids_fixed_ok [OF \<open>ids_fixed u t\<close>] by (auto simp: good_step_def new_ids_ok_def)
qed

lemma set_parent_good:
  assumes "kinv s" and "op_ok (Set_parent x p) s" and "desktop_surface_set_parent x p s = Some t"
  shows "good_step s t"
proof -
  have "reparented x p s t" using assms by (intro set_parent_reparents) (auto simp: desktop_surface_set_parent_def live_def)
  then show ?thesis by (auto simp: reparented_def intro: fixed_good ids_fixed_same)
qed

lemma quiet_click:
  assumes "case focus of Some (Some x) \<Rightarrow> surfs s x \<noteq> None | _ \<Rightarrow> True"
  shows "quiet_opt s (kiosk_shell_click_to_activate_binding grabbed focus seat s)" "quiet_opt s (kiosk_shell_touch_to_activate_binding grabbed focus seat s)"
proof -
  have "quiet_opt s (kiosk_shell_activate_view m seat fl s)" if "focus = Some m" for m fl
    using that assms quiet_activate [of s] by (auto simp: kiosk_shell_activate_view_def live_def split: option.splits)
  then show "quiet_opt s (kiosk_shell_click_to_activate_binding grabbed focus seat s)" "quiet_opt s (kiosk_shell_touch_to_activate_binding grabbed focus seat s)"
    by (auto simp: kiosk_shell_click_to_activate_binding_def kiosk_shell_touch_to_activate_binding_def split: option.split)
qed

lemma quiet_session: "kinv s \<Longrightarrow> quiet s (kiosk_shell_notify_session active s)"
  by (auto simp: kiosk_shell_notify_session_def kinv_def focus_inv_def live_def split: option.split intro: quiet_kreport)

lemma quiet_output_appears: "quiet s (output_appears mem_ok oc s)"
  by (auto simp: output_appears_def kiosk_shell_output_create_def quiet_def kinv_defs same_ids_def live_def parent_of_def focused_surface_def get_kiosk_shell_first_seat_def)

lemma quiet_output_destroyed: "quiet s (output_destroyed o' s)"
proof -
  have l: "live (output_destroyed o' s) = live s" by (auto simp: live_def output_destroyed_def fun_eq_iff)
  have p: "parent_of (output_destroyed o' s) = parent_of s"
  proof
    fix y show "parent_of (output_destroyed o' s) y = parent_of s y" by (cases "surfs s y") (simp_all add: parent_of_def output_destroyed_def)
  qed
  have i: "same_ids s (output_destroyed o' s)" by (simp add: same_ids_def output_destroyed_def option.map_comp comp_def)
  have "kinv s \<Longrightarrow> kinv (output_destroyed o' s)"
    unfolding kinv_defs l p by (simp add: output_destroyed_def focused_surface_def get_kiosk_shell_first_seat_def)
  then show ?thesis using p i by (simp add: quiet_def output_destroyed_def)
qed

lemma quiet_output_resized: "quiet s (kiosk_shell_handle_output_resized o' fs s)"
proof -
  have r: "quiet t (kiosk_shell_surface_reconfigure_for_output x b t)" for t x b
    by (auto simp: kiosk_shell_surface_reconfigure_for_output_def split: option.split intro: quiet_trans [OF quiet_set_size quiet_kcalls])
  have v: "quiet t (resize_view o' fs v t)" for t v by (auto simp: resize_view_def r split: option.split)
  have "quiet t (fold (resize_view o' fs) vs t)" for t vs
  proof (induction vs arbitrary: t)
    case (Cons w vs)
    show ?case using quiet_trans [OF v Cons.IH] by simp
  qed simp
  then show ?thesis by (simp add: kiosk_shell_handle_output_resized_def)
qed

text \<open>Steps that only change the seats.\<close>

lemma seats_good:
  assumes "kinv s" and "t = s\<lparr>seat_list := sl, kseat := ks\<rparr>" and "\<And>m f. ks = Some (m, f) \<Longrightarrow> (\<exists>st sts. sl = st # sts \<and> seat_no st = m) \<and> (f = None \<or> f = focused_surface s)"
  shows "good_step s t"
proof -
  have l: "live t = live s" "parent_of t = parent_of s" by (simp_all add: live_def parent_of_def assms(2) fun_eq_iff)
  have "trees_inv t" "views_inv t" "links_inv t" using assms(1) by (simp_all add: kinv_def trees_inv_def views_inv_def links_inv_def l) (simp_all add: assms(2))
  moreover have "focus_inv t"
  proof -
    have f: "seat_list t = sl" "kseat t = ks" "kreports t = kreports s" by (simp_all add: assms(2))
    have "live s y" if y: "focused_surface t = Some y" for y
    proof -
      obtain m where "ks = Some (m, Some y)" using y f(2) by (cases ks) (auto simp: focused_surface_def)
      then show ?thesis using assms(1,3) by (auto simp: kinv_def focus_inv_def)
    qed
    moreover have "get_kiosk_shell_first_seat t = Some m" if "kseat t = Some (m, g)" for m g
      using assms(3) [of m g] that by (auto simp: get_kiosk_shell_first_seat_def f)
    ultimately show ?thesis using assms(1) by (auto simp: kinv_def focus_inv_def l f)
  qed
  ultimately show ?thesis using assms(2) by (intro fixed_good) (simp_all add: kinv_def ids_fixed_def)
qed

lemma kinv_kseat: "kinv s \<Longrightarrow> kseat s = Some (m, f) \<Longrightarrow> (\<exists>st sts. seat_list s = st # sts \<and> seat_no st = m) \<and> f = focused_surface s"
  by (auto simp: kinv_def focus_inv_def get_kiosk_shell_first_seat_def focused_surface_def split: list.splits)

lemma seat_created_good:
  assumes "kinv s" and "seat_list s = []"
  shows "good_step s (kiosk_shell_seat_create mem_ok (seat_no st) (s\<lparr>seat_list := seat_list s @ [st]\<rparr>))"
proof -
  have n: "kseat s = None" using kinv_kseat [OF assms(1)] assms(2) by (cases "kseat s") auto
  show ?thesis
    by (rule seats_good [OF assms(1), of _ "if mem_ok then Some (seat_no st, None) else None" "[st]"])
      (auto simp: kiosk_shell_seat_create_def n assms(2) split: if_splits)
qed

lemma seat_destroyed_good:
  assumes "kinv s"
  shows "good_step s (let s = (if get_kiosk_shell_seat (Some n) s = None then s else kiosk_shell_seat_handle_destroy s)
    in s\<lparr>seat_list := filter (\<lambda>st. seat_no st \<noteq> n) (seat_list s)\<rparr>)"
proof (cases "get_kiosk_shell_seat (Some n) s")
  case None
  then have "(\<exists>st sts. filter (\<lambda>st. seat_no st \<noteq> n) (seat_list s) = st # sts \<and> seat_no st = m) \<and> (f = None \<or> f = focused_surface s)"
    if "kseat s = Some (m, f)" for m f
    using kinv_kseat [OF assms that] that by (auto simp: get_kiosk_shell_seat_def split: if_splits)
  then show ?thesis using None by (intro seats_good [OF assms, of _ "kseat s" "filter (\<lambda>st. seat_no st \<noteq> n) (seat_list s)"]) simp_all
next
  case (Some m)
  then show ?thesis by (intro seats_good [OF assms, of _ None "filter (\<lambda>st. seat_no st \<noteq> n) (seat_list s)"]) (simp_all add: kiosk_shell_seat_handle_destroy_def)
qed

lemma seat_focus_good:
  assumes "kinv s"
  shows "good_step s (s\<lparr>seat_list := map (\<lambda>t. if seat_no t = seat_no st then st else t) (seat_list s)\<rparr>)"
proof (rule seats_good [OF assms, of _ "kseat s" "map (\<lambda>t. if seat_no t = seat_no st then st else t) (seat_list s)"])
  fix m f assume "kseat s = Some (m, f)"
  then show "(\<exists>st' sts. map (\<lambda>t. if seat_no t = seat_no st then st else t) (seat_list s) = st' # sts \<and> seat_no st' = m) \<and> (f = None \<or> f = focused_surface s)"
    using kinv_kseat [OF assms] by fastforce
qed simp

lemma kiosk_step_good:
  assumes k: "kinv s" and ok: "op_ok op s" and st: "kiosk_step op s = Some t"
  shows "good_step s t"
proof (cases op)
  case Surface_added then show ?thesis using st added_good [OF k] by simp
next
  case Surface_removed then show ?thesis using st removed_keeps [OF k] fixed_good by simp
next
  case Surface_committed then show ?thesis using st quiet_opt_good [OF k quiet_committed] by simp
next
  case Set_parent then show ?thesis using st ok set_parent_good [OF k] by simp
next
  case Fullscreen_requested then show ?thesis using st quiet_opt_good [OF k quiet_set_fullscreen] quiet_opt_good [OF k quiet_set_normal]
    by (auto simp: desktop_surface_fullscreen_requested_def Let_def split: if_splits)
next
  case Maximized_requested then show ?thesis using st quiet_opt_good [OF k quiet_set_fullscreen] quiet_opt_good [OF k quiet_set_normal] quiet_opt_good [OF k quiet_set_maximized]
    by (auto simp: desktop_surface_maximized_requested_def split: if_splits)
next
  case Minimized_requested then show ?thesis using st quiet_opt_good [OF k quiet_minimized] by simp
next
  case (Xwayland_position x pos)
  have "quiet s (upd_surf x (ks_xwayland_update (\<lambda>_. Some pos)) s)" by (rule quiet_upd_surf) simp_all
  then show ?thesis using st Xwayland_position quiet_good [OF k] by (auto simp: desktop_surface_set_xwayland_position_def)
next
  case Window_command then show ?thesis using st quiet_opt_good [OF k quiet_restore] quiet_good [OF k quiet_refl]
    by (auto simp: acglass_window_command_handler_def split: if_splits)
next
  case Clicked then show ?thesis using st ok quiet_opt_good [OF k quiet_click(1)] by simp
next
  case Touched then show ?thesis using st ok quiet_opt_good [OF k quiet_click(2)] by simp
next
  case Seat_created then show ?thesis using st ok seat_created_good [OF k] by auto
next
  case Seat_destroyed then show ?thesis using st seat_destroyed_good [OF k] by auto
next
  case Seat_focus then show ?thesis using st seat_focus_good [OF k] by auto
next
  case Output_created then show ?thesis using st quiet_good [OF k quiet_output_appears] by auto
next
  case Output_resized then show ?thesis using st quiet_good [OF k quiet_trans [OF quiet_kouts quiet_output_resized]] by auto
next
  case Output_destroyed then show ?thesis using st quiet_good [OF k quiet_output_destroyed] by auto
next
  case Session_changed then show ?thesis using st quiet_good [OF k quiet_session [OF k]] by auto
next
  case (Names_changed x a n)
  have "quiet s (upd_surf x (\<lambda>sh. sh\<lparr>ds_app_id := a, ds_title := n\<rparr>) s)" by (rule quiet_upd_surf) simp_all
  then show ?thesis using st Names_changed quiet_good [OF k] by auto
qed

lemma kiosk_start:
  "kinv (wet_shell_init api seats outs) \<and> ids_ok (wet_shell_init api seats outs) \<and> acglass_next_window_id (wet_shell_init api seats outs) = 0"
proof -
  let ?c = "\<lambda>st. kiosk_shell_seat_create True (seat_no st)"
  have some: "fold ?c sts s = s" if "kseat s \<noteq> None" for sts s using that by (induction sts) (simp_all add: kiosk_shell_seat_create_def)
  define e where "e = (kiosk_empty api)\<lparr>seat_list := seats\<rparr>"
  have "fold ?c seats e = e\<lparr>kseat := (case seats of [] \<Rightarrow> None | st # _ \<Rightarrow> Some (seat_no st, None))\<rparr>"
    by (cases seats) (simp_all add: some e_def kiosk_empty_def kiosk_shell_seat_create_def)
  then have k: "kinv (fold ?c seats e)" "ids_ok (fold ?c seats e)" "acglass_next_window_id (fold ?c seats e) = 0"
    by (auto simp: kinv_defs e_def kiosk_empty_def live_def parent_of_def focused_surface_def get_kiosk_shell_first_seat_def ids_ok_def split: list.split)
  have "quiet s (fold (output_appears True) outs s)" for s
  proof (induction outs arbitrary: s)
    case (Cons a outs)
    show ?case using quiet_trans [OF quiet_output_appears Cons.IH] by simp
  qed simp
  then have "kinv (wet_shell_init api seats outs)" "same_ids (fold ?c seats e) (wet_shell_init api seats outs)"
    using k(1) by (auto simp: quiet_def wet_shell_init_def e_def)
  then show ?thesis using k(2,3) ids_fixed_ok [OF ids_fixed_same] by metis
qed

lemma kiosk_reach_inv: "kiosk_reach n s \<Longrightarrow> kinv s \<and> (n < 2 ^ 32 \<longrightarrow> ids_ok s \<and> unat (acglass_next_window_id s) \<le> n)"
proof (induction rule: kiosk_reach.induct)
  case (start api seats outs) then show ?case using kiosk_start [of api seats outs] by simp
next
  case (step n s op t)
  have g: "good_step s t" using kiosk_step_good step by blast
  moreover have "acglass_next_window_id s \<noteq> -1" if "Suc n < 2 ^ 32"
  proof
    assume "acglass_next_window_id s = -1"
    then have "unat (acglass_next_window_id s) = 2 ^ 32 - 1" by (simp add: unsigned_minus_1_eq_mask mask_eq_exp_minus_1)
    then show False using step that by simp
  qed
  ultimately show ?case using step.IH by (auto simp: good_step_def new_ids_ok_def)
qed

subsection \<open>What holds in every run\<close>


text \<open>
  C13. As long as fewer than \<open>2 ^ 32\<close> requests were handled, no window has the identifier 0 and different
  windows have different identifiers, so that a command of the app names at most one window.
\<close>

theorem window_ids_differ:
  assumes "kiosk_reach n s" and "n < 2 ^ 32" and "surfs s x = Some a" and "surfs s y = Some b"
  shows "ks_window_id a \<noteq> 0 \<and> (ks_window_id a = ks_window_id b \<longrightarrow> x = y)"
proof -
  have "ids_ok s" using kiosk_reach_inv [OF assms(1)] assms(2) by blast
  then show ?thesis using assms(3,4) unfolding ids_ok_def by (metis unat_0 less_irrefl)
qed

lemma root_live:
  assumes "kiosk_shell_surface_get_parent_root (parent_of s) x = Some r" and "kinv s" and "live s x"
  shows "live s r"
  using assms(1,3) by (induction rule: get_parent_root_induct) (use assms(2) in \<open>auto simp: kinv_def links_inv_def\<close>)

text \<open>
  The window \<open>x\<close> and its tree of root \<open>r\<close>, which were somewhere in \<open>s\<close>, are on top of the screen in \<open>t\<close>, the window
  and its descendants first and otherwise in the old order; \<open>x\<close> has the focus and is reported restored,
  and the views of other windows are where they were.
\<close>

definition back_on_top :: "kiosk_shell \<Rightarrow> sid \<Rightarrow> oid \<Rightarrow> sid \<Rightarrow> kiosk_shell_surface \<Rightarrow> kiosk_shell \<Rightarrow> bool" where
  "back_on_top s x o' r sh t \<longleftrightarrow>
     normal_layer t = map Win (subtree_first s x (trees s r)) @ filter (\<lambda>v. v \<notin> Win ` set (trees s r)) (normal_layer s) \<and>
     inactive_layer t = filter (\<lambda>v. v \<notin> Win ` set (trees s r)) (inactive_layer s) \<and>
     (\<exists>ko. kouts t o' = Some ko \<and> active_surface_tree ko = Some r) \<and> focused_surface t = Some x \<and>
     (\<exists>cs. klog t = cs @ [Damage_all, event_of WESTON_ANLAND_WINDOW_EVENT_RESTORED sh])"

text \<open>The window \<open>x\<close> is in the tree of root \<open>r\<close> that the output shows, and there is a seat and the app's interface.\<close>

definition window_shown :: "kiosk_shell \<Rightarrow> sid \<Rightarrow> oid \<Rightarrow> sid \<Rightarrow> bool" where
  "window_shown s x o' r \<longleftrightarrow> surf_output s x = Some o' \<and> (\<exists>ko. kouts s o' = Some ko \<and> active_surface_tree ko = Some r) \<and>
     kiosk_shell_surface_get_parent_root (parent_of s) x = Some r \<and> x \<in> set (trees s r) \<and>
     (\<forall>y \<in> set (trees s r). kiosk_shell_surface_get_parent_root (parent_of s) y \<noteq> None) \<and>
     get_kiosk_shell_seat (get_kiosk_shell_first_seat s) s \<noteq> None \<and> window_api s"

lemma minimize_restore_run:
  assumes run: "kiosk_reach k s" "k < 2 ^ 32" and win: "surfs s x = Some sh" "window_shown s x o' r"
  shows "\<exists>s1 t. desktop_surface_minimized_requested x s = Some s1 \<and>
    Win ` set (trees s r) \<inter> set (normal_layer s1) = {} \<and> klog s1 = klog s @ [Damage_all, event_of WESTON_ANLAND_WINDOW_EVENT_MINIMIZED sh] \<and>
    acglass_window_command_handler WESTON_ANLAND_WINDOW_COMMAND_RESTORE (ks_window_id sh) s1 = Some t \<and> back_on_top s x o' r sh t"
proof -
  obtain ko n where w: "surf_output s x = Some o'" "kouts s o' = Some ko" "active_surface_tree ko = Some r"
    "kiosk_shell_surface_get_parent_root (parent_of s) x = Some r" "x \<in> set (trees s r)"
    "get_kiosk_shell_seat (get_kiosk_shell_first_seat s) s = Some n" "window_api s" using win(2) by (auto simp: window_shown_def)
  have k: "kinv s" "ids_ok s" using kiosk_reach_inv [OF run(1)] run(2) by auto
  have "live s r" using root_live [OF w(4) k(1)] win(1) by (simp add: live_def)
  then have t: "tree_ok s r" using k(1) win(2) by (auto simp: window_shown_def tree_ok_def kinv_def trees_inv_def live_def)
  have u: "y = x" if "surfs s y = Some sy" "ks_window_id sy = ks_window_id sh" for y sy using k(2) that win(1) unfolding ids_ok_def by blast
  from minimize_restore [OF w(1,2,4,3) t w(5,6,7) win(1) u] show ?thesis by (auto simp: back_on_top_def)
qed


text \<open>A run: a seat and an output at the start, a window is opened and drawn.\<close>

definition demo_window :: desktop_surface where
  "demo_window = \<lparr>dk_app_id = Some ''foot'', dk_title = None, dk_pid = 7, dk_wm_name = None, dk_wm_class = None, dk_has_client = True\<rparr>"

definition demo_start :: kiosk_shell where
  "demo_start = wet_shell_init True [\<lparr>seat_no = 0, touch_focus = None, pointer_focus = None, keyboard_focus = None\<rparr>] [(0, demo_output)]"

definition demo_opened :: kiosk_shell where
  "demo_opened = the (kiosk_step (Surface_added True True demo_window) demo_start)"

definition demo_mapped :: kiosk_shell where
  "demo_mapped = the (kiosk_step (Surface_committed 0 800 600 True (0, 0) (0, 0)) demo_opened)"

lemma demo_run: "kiosk_reach 1 demo_opened" "kiosk_reach 2 demo_mapped"
proof -
  have n: "\<not> Option.is_none (kiosk_step (Surface_added True True demo_window) demo_start)"
    "\<not> Option.is_none (kiosk_step (Surface_committed 0 800 600 True (0, 0) (0, 0)) demo_opened)" by code_simp+
  then have s: "kiosk_step (Surface_added True True demo_window) demo_start = Some demo_opened"
    "kiosk_step (Surface_committed 0 800 600 True (0, 0) (0, 0)) demo_opened = Some demo_mapped"
    unfolding demo_opened_def demo_mapped_def by (auto simp: Option.is_none_def)
  show o: "kiosk_reach 1 demo_opened" using kiosk_reach.step [OF kiosk_reach.start _ s(1) [unfolded demo_start_def]] by simp
  show "kiosk_reach 2 demo_mapped" using kiosk_reach.step [OF o _ s(2)] by (simp add: numeral_2_eq_2)
qed

lemma demo_mapped_facts:
  "surf_output demo_mapped 0 = Some 0" "Option.bind (kouts demo_mapped 0) active_surface_tree = Some 0" "trees demo_mapped 0 = [0]"
  "kiosk_shell_surface_get_parent_root (parent_of demo_mapped) 0 = Some 0" "map_option ks_window_id (surfs demo_mapped 0) = Some 1"
  "get_kiosk_shell_seat (get_kiosk_shell_first_seat demo_mapped) demo_mapped = Some 0" "window_api demo_mapped" "normal_layer demo_mapped = [Win 0]"
  by code_simp+


theorem window_ids_differ_witness: "\<exists>a. surfs demo_mapped 0 = Some a \<and> ks_window_id a \<noteq> 0"
proof -
  obtain a where "surfs demo_mapped 0 = Some a" using demo_mapped_facts(5) by auto
  then show ?thesis using window_ids_differ [OF demo_run(2), of 0 a 0 a] by simp
qed

lemma demo_mapped_shown: "window_shown demo_mapped 0 0 0"
  using demo_mapped_facts(1-7) by (auto simp: window_shown_def bind_eq_Some_conv)


end
