(* ===== verification/Hash_Spec.thy ===== *)
theory Hash_Spec
  imports Hash
begin

section \<open>Correctness of the hash table\<close>

subsection \<open>The probe sequence\<close>

definition slots :: "hash_table \<Rightarrow> nat" where
  "slots ht = unat (ht_size ht)"

definition stride :: "hash_table \<Rightarrow> u32 \<Rightarrow> nat" where
  "stride ht h = 1 + unat h mod unat (ht_rehash ht)"

definition probe :: "hash_table \<Rightarrow> u32 \<Rightarrow> nat \<Rightarrow> nat" where
  "probe ht h i = (unat h + i * stride ht h) mod slots ht"

text \<open>The sizes of the table are those of its row.\<close>

definition row_of :: "hash_table \<Rightarrow> bool" where
  "row_of ht \<longleftrightarrow> unat (ht_size_index ht) \<le> MAX_ROW \<and>
     hash_sizes ! unat (ht_size_index ht) = (ht_max_entries ht, ht_size ht, ht_rehash ht)"

lemma length_hash_sizes: "length hash_sizes = 31"
  by (simp add: hash_sizes_def)

lemma row_facts:
  assumes "row_of ht"
  shows "0 < unat (ht_rehash ht)" "unat (ht_rehash ht) < slots ht" "unat (ht_max_entries ht) < slots ht" "slots ht < 2 ^ 31"
    and "0 < d \<Longrightarrow> d < slots ht \<Longrightarrow> coprime d (slots ht)"
proof -
  have len: "unat (ht_size_index ht) < length (take (Suc MAX_ROW) hash_sizes)" using assms by (simp add: row_of_def length_hash_sizes)
  then have "hash_sizes ! unat (ht_size_index ht) \<in> set (take (Suc MAX_ROW) hash_sizes)"
    using nth_mem [OF len] by simp
  then have r: "row_ok (ht_max_entries ht, ht_size ht, ht_rehash ht)" using assms rows_ok by (auto simp: row_of_def list_all_iff)
  then show "0 < unat (ht_rehash ht)" "unat (ht_rehash ht) < slots ht" "unat (ht_max_entries ht) < slots ht" "slots ht < 2 ^ 31"
    by (auto simp: row_ok_def slots_def word_less_nat_alt)
  have oi: "odd (int (slots ht))" and tr: "trial 3 (int (slots ht))" using r by (simp_all add: row_ok_def slots_def)
  have o: "odd (slots ht)" using oi even_of_nat by blast
  show "0 < d \<Longrightarrow> d < slots ht \<Longrightarrow> coprime d (slots ht)" by (rule trial_coprime [OF tr o])
qed

lemma stride_bounds:
  assumes "row_of ht"
  shows "0 < stride ht h" "stride ht h < slots ht"
proof -
  have "unat h mod unat (ht_rehash ht) < unat (ht_rehash ht)" using row_facts(1) [OF assms] by simp
  then show "0 < stride ht h" "stride ht h < slots ht" unfolding stride_def using row_facts(2) [OF assms] by linarith+
qed

lemma probe_less: "row_of ht \<Longrightarrow> probe ht h i < slots ht"
  using row_facts(2) [of ht] by (simp add: probe_def)

lemma probe_inj:
  assumes r: "row_of ht" and "i < slots ht" "j < slots ht" and "probe ht h i = probe ht h j"
  shows "i = j"
proof -
  have *: "i = j" if "i \<le> j" "j < slots ht" "probe ht h i = probe ht h j" for i j
  proof -
    have "unat h + i * stride ht h \<le> unat h + j * stride ht h" using that(1) by simp
    then have "slots ht dvd (unat h + j * stride ht h) - (unat h + i * stride ht h)"
      using mod_eq_dvd_iff_nat that(3) unfolding probe_def by metis
    then have "slots ht dvd (j - i) * stride ht h" by (simp add: diff_mult_distrib)
    then have "slots ht dvd j - i"
      using row_facts(5) [OF r stride_bounds [OF r], of h] by (simp add: coprime_commute coprime_dvd_mult_left_iff)
    then have "\<not> 0 < j - i" using that(2) dvd_imp_le [of "slots ht" "j - i"] by linarith
    then show ?thesis using that(1) by simp
  qed
  show ?thesis using * [of i j] * [of j i] assms by (cases "i \<le> j") auto
qed

text \<open>Every slot is on the sequence.\<close>

lemma probe_surj:
  assumes r: "row_of ht" and a: "a < slots ht"
  shows "\<exists>i < slots ht. probe ht h i = a"
proof -
  have "inj_on (probe ht h) {..<slots ht}" by (rule inj_onI) (use probe_inj [OF r] in auto)
  then have "card (probe ht h ` {..<slots ht}) = slots ht" by (simp add: card_image)
  moreover have "probe ht h ` {..<slots ht} \<subseteq> {..<slots ht}" using probe_less [OF r] by auto
  ultimately have "probe ht h ` {..<slots ht} = {..<slots ht}" by (metis card_lessThan card_subset_eq finite_lessThan)
  then show ?thesis using a by (metis imageE lessThan_iff)
qed

text \<open>The step of the code follows it, without overflow.\<close>

lemma probe_first: "unat (h mod ht_size ht) = probe ht h 0"
  by (simp add: probe_def slots_def unat_mod_distrib)

lemma probe_step:
  assumes r: "row_of ht" and a: "unat a = probe ht h i"
  shows "unat ((a + (1 + h mod ht_rehash ht)) mod ht_size ht) = probe ht h (Suc i)"
proof -
  have st: "unat (1 + h mod ht_rehash ht) = stride ht h"
  proof -
    have "stride ht h < 2 ^ LENGTH(32)" using stride_bounds(2) [OF r, of h] row_facts(4) [OF r] by simp
    then have "unat (1 :: u32) + unat (h mod ht_rehash ht) < 2 ^ LENGTH(32)" by (simp add: stride_def unat_mod_distrib)
    then show ?thesis by (simp add: unat_add_lem [THEN iffD1] stride_def unat_mod_distrib)
  qed
  have "unat a + stride ht h < 2 * 2 ^ 31"
    using a probe_less [OF r, of h i] stride_bounds(2) [OF r, of h] row_facts(4) [OF r] by linarith
  then have "unat a + unat (1 + h mod ht_rehash ht) < 2 ^ LENGTH(32)" by (simp add: st)
  then have "unat (a + (1 + h mod ht_rehash ht)) = unat a + stride ht h"
    using unat_add_lem [THEN iffD1] st by metis
  then show ?thesis by (simp add: unat_mod_distrib a probe_def slots_def [symmetric] mod_add_right_eq ac_simps)
qed

lemma probe_last: "row_of ht \<Longrightarrow> i < slots ht \<Longrightarrow> (probe ht h (Suc i) = probe ht h 0) = (Suc i = slots ht)"
  using probe_inj [of ht "Suc i" 0 h] row_facts(2) [of ht]
  by (cases "Suc i = slots ht") (auto simp: probe_def)

subsection \<open>The loops\<close>

abbreviation at :: "hash_table \<Rightarrow> u32 \<Rightarrow> nat \<Rightarrow> hash_entry" where
  "at ht h i \<equiv> ht_table ht ! probe ht h i"

definition matches :: "hash_table \<Rightarrow> u32 \<Rightarrow> nat \<Rightarrow> bool" where
  "matches ht h i \<longleftrightarrow> entry_is_present (at ht h i) \<and> e_hash (at ht h i) = h"

lemma present_not_free: "entry_is_present e \<Longrightarrow> \<not> entry_is_free e"
  by (simp add: entry_is_present_def entry_is_free_def)

lemma search_loop_spec:
  assumes "row_of ht" and "i < slots ht" and "unat a = probe ht h i" and "slots ht - i \<le> n"
    and "\<forall>k < i. \<not> entry_is_free (at ht h k) \<and> \<not> matches ht h k"
  shows "\<exists>r. search_loop n ht h a = Some r \<and>
    (case r of None \<Rightarrow> \<forall>k < slots ht. matches ht h k \<longrightarrow> (\<exists>j < k. entry_is_free (at ht h j))
     | Some b \<Rightarrow> \<exists>j < slots ht. unat b = probe ht h j \<and> matches ht h j)"
  using assms
proof (induction n arbitrary: i a)
  case (Suc n)
  let ?a = "(a + (1 + h mod ht_rehash ht)) mod ht_size ht"
  note r = Suc.prems(1) and a = Suc.prems(3) and before = Suc.prems(5)
  consider (free) "entry_is_free (at ht h i)" | (hit) "\<not> entry_is_free (at ht h i)" "matches ht h i"
    | (pass) "\<not> entry_is_free (at ht h i)" "\<not> matches ht h i" by blast
  then show ?case
  proof cases
    case free
    have "\<exists>j < k. entry_is_free (at ht h j)" if "matches ht h k" for k
      using that before free present_not_free unfolding matches_def by (metis nat_neq_iff)
    then show ?thesis using free a by simp
  next
    case hit
    then show ?thesis using a Suc.prems(2) by (auto simp: matches_def)
  next
    case pass
    note st = probe_step [OF r a]
    have l: "search_loop (Suc n) ht h a = (if ?a \<noteq> h mod ht_size ht then search_loop n ht h ?a else Some None)"
      using pass a by (auto simp: matches_def Let_def)
    have e: "?a = h mod ht_size ht \<longleftrightarrow> Suc i = slots ht"
      using probe_last [OF r Suc.prems(2), of h] st probe_first [of h ht] by (metis word_unat_eq_iff)
    have b: "\<forall>k < Suc i. \<not> entry_is_free (at ht h k) \<and> \<not> matches ht h k" using before pass by (auto simp: less_Suc_eq)
    show ?thesis
    proof (cases "Suc i = slots ht")
      case True
      then show ?thesis using l e b by auto
    next
      case False
      then have "\<exists>r. search_loop n ht h ?a = Some r \<and>
        (case r of None \<Rightarrow> \<forall>k < slots ht. matches ht h k \<longrightarrow> (\<exists>j < k. entry_is_free (at ht h j))
         | Some b \<Rightarrow> \<exists>j < slots ht. unat b = probe ht h j \<and> matches ht h j)"
        by (intro Suc.IH [OF r _ st _ b]) (use Suc.prems(2,4) in simp_all)
      then show ?thesis using l e False by simp
    qed
  qed
qed simp

text \<open>The slot at \<open>a\<close>, which is not present, is filled.\<close>

definition put :: "hash_table \<Rightarrow> nat \<Rightarrow> u32 \<Rightarrow> hdata \<Rightarrow> hash_table" where
  "put ht a h d = ht\<lparr>ht_table := (ht_table ht)[a := \<lparr>e_hash = h, e_data = d\<rparr>], ht_entries := ht_entries ht + 1,
     ht_deleted_entries := ht_deleted_entries ht - (if entry_is_deleted (ht_table ht ! a) then 1 else 0)\<rparr>"

lemma insert_loop_spec:
  assumes "row_of ht" and "i < slots ht" and "unat a = probe ht h i" and "slots ht - i \<le> n" and "\<forall>k < i. entry_is_present (at ht h k)"
  shows "(\<exists>j < slots ht. \<not> entry_is_present (at ht h j) \<and> (\<forall>k < j. entry_is_present (at ht h k)) \<and>
       insert_loop n ht h d a = Some (0, put ht (probe ht h j) h d)) \<or>
     (\<forall>k < slots ht. entry_is_present (at ht h k)) \<and> insert_loop n ht h d a = Some (-1, ht)"
  using assms
proof (induction n arbitrary: i a)
  case (Suc n)
  let ?a = "(a + (1 + h mod ht_rehash ht)) mod ht_size ht"
  note r = Suc.prems(1) and a = Suc.prems(3) and before = Suc.prems(5)
  show ?case
  proof (cases "entry_is_present (at ht h i)")
    case False
    then have "insert_loop (Suc n) ht h d a = Some (0, put ht (probe ht h i) h d)" using a by (simp add: put_def Let_def)
    then show ?thesis using False before Suc.prems(2) by blast
  next
    case True
    note st = probe_step [OF r a]
    have l: "insert_loop (Suc n) ht h d a = (if ?a \<noteq> h mod ht_size ht then insert_loop n ht h d ?a else Some (-1, ht))"
      using True a by (simp add: Let_def)
    have e: "?a = h mod ht_size ht \<longleftrightarrow> Suc i = slots ht"
      using probe_last [OF r Suc.prems(2), of h] st probe_first [of h ht] by (metis word_unat_eq_iff)
    have b: "\<forall>k < Suc i. entry_is_present (at ht h k)" using before True by (auto simp: less_Suc_eq)
    show ?thesis
    proof (cases "Suc i = slots ht")
      case True
      then show ?thesis using l e b by auto
    next
      case False
      then show ?thesis using Suc.IH [OF r _ st _ b] l e Suc.prems(2,4) by simp
    qed
  qed
qed simp

subsection \<open>The invariant\<close>

definition contents :: "hash_table \<Rightarrow> (u32 \<times> hdata) multiset" where
  "contents ht = image_mset (\<lambda>e. (e_hash e, e_data e)) (filter_mset entry_is_present (mset (ht_table ht)))"

definition marks :: "hash_table \<Rightarrow> nat" where
  "marks ht = size (filter_mset entry_is_deleted (mset (ht_table ht)))"

text \<open>Every present entry is reached on the probe sequence of its hash before any free slot.\<close>

definition reachable :: "hash_table \<Rightarrow> nat \<Rightarrow> bool" where
  "reachable ht a \<longleftrightarrow> (\<exists>i < slots ht. probe ht (e_hash (ht_table ht ! a)) i = a \<and>
     (\<forall>j < i. \<not> entry_is_free (at ht (e_hash (ht_table ht ! a)) j)))"

definition ht_ok :: "hash_table \<Rightarrow> bool" where
  "ht_ok ht \<longleftrightarrow> row_of ht \<and> length (ht_table ht) = slots ht \<and> unat (ht_entries ht) = size (contents ht) \<and>
     unat (ht_deleted_entries ht) = marks ht \<and> (\<forall>a < slots ht. entry_is_present (ht_table ht ! a) \<longrightarrow> reachable ht a)"

lemma ht_okD:
  assumes "ht_ok ht"
  shows "row_of ht" "length (ht_table ht) = slots ht" "unat (ht_entries ht) = size (contents ht)" "unat (ht_deleted_entries ht) = marks ht"
    "size (contents ht) + marks ht \<le> slots ht"
proof -
  show "row_of ht" and l: "length (ht_table ht) = slots ht" and "unat (ht_entries ht) = size (contents ht)" "unat (ht_deleted_entries ht) = marks ht"
    using assms by (simp_all add: ht_ok_def)
  have "size (filter_mset entry_is_present M) + size (filter_mset entry_is_deleted M) \<le> size M" for M
    by (induction M) (auto simp: entry_is_present_def entry_is_deleted_def)
  from this [of "mset (ht_table ht)"] l show "size (contents ht) + marks ht \<le> slots ht" by (simp add: contents_def marks_def)
qed


text \<open>The fields that the sizes and the probe sequence depend on.\<close>

lemma same_shape:
  assumes "ht_size ht' = ht_size ht" "ht_rehash ht' = ht_rehash ht" "ht_max_entries ht' = ht_max_entries ht" "ht_size_index ht' = ht_size_index ht"
  shows "slots ht' = slots ht" "probe ht' = probe ht" "row_of ht' = row_of ht"
  using assms by (simp_all add: slots_def stride_def probe_def row_of_def fun_eq_iff)

text \<open>Writing an entry that is not free keeps every other one reachable.\<close>

lemma reachable_update:
  assumes "probe ht' = probe ht" "slots ht' = slots ht" "ht_table ht' = (ht_table ht)[a := e]" and "a < length (ht_table ht)"
    and "\<not> entry_is_free e" and "reachable ht b" and "b \<noteq> a"
  shows "reachable ht' b"
proof -
  have "\<not> entry_is_free (ht_table ht ! p) \<Longrightarrow> \<not> entry_is_free (ht_table ht' ! p)" for p
    using assms(3-5) by (cases "p = a") simp_all
  then show ?thesis using assms unfolding reachable_def by fastforce
qed

lemma filter_update:
  assumes "a < length xs"
  shows "filter_mset P (mset (xs[a := e])) + (if P (xs ! a) then {#xs ! a#} else {#}) = filter_mset P (mset xs) + (if P e then {#e#} else {#})"
proof -
  have "mset (xs[a := e]) + {#xs ! a#} = mset xs + {#e#}" using assms by (simp add: mset_update nth_mem_mset insert_DiffM)
  from arg_cong [OF this, of "filter_mset P"] show ?thesis by (simp split: if_splits)
qed

lemma put_ok:
  assumes ok: "ht_ok ht" and j: "j < slots ht" "\<not> entry_is_present (at ht h j)" "\<forall>k < j. entry_is_present (at ht h k)"
  shows "ht_ok (put ht (probe ht h j) h (Ptr p))" "contents (put ht (probe ht h j) h (Ptr p)) = add_mset (h, Ptr p) (contents ht)"
    "marks (put ht (probe ht h j) h (Ptr p)) \<le> marks ht"
proof -
  let ?a = "probe ht h j" and ?e = "\<lparr>e_hash = h, e_data = Ptr p\<rparr>" and ?t = "put ht (probe ht h j) h (Ptr p)"
  note F = ht_okD [OF ok]
  have a: "?a < length (ht_table ht)" using probe_less [OF F(1)] F(2) by simp
  have tab: "ht_table ?t = (ht_table ht)[?a := ?e]" by (simp add: put_def)
  have sh: "slots ?t = slots ht" "probe ?t = probe ht" "row_of ?t = row_of ht" by (rule same_shape; simp add: put_def)+
  have e: "entry_is_present ?e" "\<not> entry_is_deleted ?e" "\<not> entry_is_free ?e" by (simp_all add: entry_is_present_def entry_is_deleted_def entry_is_free_def)
  show c: "contents ?t = add_mset (h, Ptr p) (contents ht)"
    using filter_update [OF a, of entry_is_present ?e] j(2) e by (simp add: contents_def tab)
  have m: "marks ?t + (if entry_is_deleted (ht_table ht ! ?a) then 1 else 0) = marks ht"
    using arg_cong [OF filter_update [OF a, of entry_is_deleted ?e], of size] e by (simp add: marks_def tab split: if_splits)
  then show "marks ?t \<le> marks ht" by (simp split: if_splits)
  have full: "size (contents ht) < slots ht"
  proof (rule ccontr)
    assume "\<not> size (contents ht) < slots ht"
    then have "size (contents ht) = length (ht_table ht)" using F(2,5) by simp
    then have "filter_mset entry_is_present (mset (ht_table ht)) = mset (ht_table ht)"
      by (simp add: contents_def) (metis multiset_filter_subset size_mset subset_mset.less_le mset_subset_size less_irrefl)
    then show False using j(2) a by (metis filter_mset_eq_conv nth_mem_mset)
  qed
  have en: "unat (ht_entries ht + 1) = Suc (unat (ht_entries ht))"
    using full F(3) row_facts(4) [OF F(1)] by (simp add: unat_add_lem [THEN iffD1])
  have de: "unat (ht_deleted_entries ?t) = marks ?t"
  proof (cases "entry_is_deleted (ht_table ht ! ?a)")
    case True
    then have "1 \<le> unat (ht_deleted_entries ht)" using m F(4) by simp
    then have "(1 :: u32) \<le> ht_deleted_entries ht" by (simp add: word_le_nat_alt)
    then show ?thesis using True m F(4) by (simp add: put_def unat_sub)
  next
    case False
    then show ?thesis using m F(4) by (simp add: put_def)
  qed
  have "reachable ?t b" if "b < slots ht" "entry_is_present (ht_table ?t ! b)" for b
  proof (cases "b = ?a")
    case True
    have "\<not> entry_is_free (ht_table ?t ! probe ht h k)" if "k < j" for k
      using that j(3) present_not_free e(3) a by (cases "probe ht h k = ?a") (auto simp: tab)
    then show ?thesis using True a j(1) unfolding reachable_def by (auto simp: tab sh)
  next
    case False
    then have "reachable ht b" using that ok by (auto simp: ht_ok_def tab)
    then show ?thesis by (rule reachable_update [OF sh(2,1) tab a e(3) _ False])
  qed
  then show "ht_ok ?t" using F en de c by (simp add: ht_ok_def sh) (simp add: put_def)
qed


subsection \<open>Searching, removing, visiting\<close>

lemma in_contents:
  assumes "ht_ok ht" and "(h, v) \<in># contents ht"
  shows "\<exists>i < slots ht. matches ht h i \<and> e_data (at ht h i) = v \<and> (\<forall>j < i. \<not> entry_is_free (at ht h j))"
proof -
  obtain a where a: "a < slots ht" "entry_is_present (ht_table ht ! a)" "e_hash (ht_table ht ! a) = h" "e_data (ht_table ht ! a) = v"
    using assms ht_okD(2) [OF assms(1)] by (auto simp: contents_def in_set_conv_nth)
  then have "reachable ht a" using assms(1) by (simp add: ht_ok_def)
  then show ?thesis using a by (auto simp: reachable_def matches_def)
qed

lemma matches_contents: "ht_ok ht \<Longrightarrow> matches ht h i \<Longrightarrow> (h, e_data (at ht h i)) \<in># contents ht"
  using probe_less [OF ht_okD(1), of ht h i] ht_okD(2) [of ht] by (force simp: contents_def matches_def)

lemma search_spec:
  assumes ok: "ht_ok ht"
  shows "\<exists>r. hash_table_search ht h = Some r \<and>
    (case r of None \<Rightarrow> \<forall>v. (h, v) \<notin># contents ht | Some b \<Rightarrow> \<exists>j < slots ht. unat b = probe ht h j \<and> matches ht h j)"
proof -
  have r: "row_of ht" by (rule ht_okD [OF ok])
  obtain x where x: "search_loop (slots ht) ht h (h mod ht_size ht) = Some x"
    "case x of None \<Rightarrow> \<forall>k < slots ht. matches ht h k \<longrightarrow> (\<exists>j < k. entry_is_free (at ht h j))
     | Some b \<Rightarrow> \<exists>j < slots ht. unat b = probe ht h j \<and> matches ht h j"
    using search_loop_spec [OF r _ probe_first, of "slots ht" h] row_facts(2) [OF r] by auto
  then show ?thesis using in_contents [OF ok, of h] by (cases x) (fastforce simp: hash_table_search_def slots_def)+
qed

lemma lookup_spec:
  assumes ok: "ht_ok ht"
  shows "\<exists>v. hash_table_lookup ht h = Some v \<and> (if v = NULL_data then \<forall>u. (h, u) \<notin># contents ht else (h, v) \<in># contents ht)"
proof -
  obtain r where r: "hash_table_search ht h = Some r"
    "case r of None \<Rightarrow> \<forall>v. (h, v) \<notin># contents ht | Some b \<Rightarrow> \<exists>j < slots ht. unat b = probe ht h j \<and> matches ht h j"
    using search_spec [OF ok] by blast
  show ?thesis
  proof (cases r)
    case None
    then show ?thesis using r by (simp add: hash_table_lookup_def)
  next
    case (Some b)
    then obtain j where j: "unat b = probe ht h j" "matches ht h j" using r by auto
    then have "e_data (at ht h j) \<noteq> NULL_data" by (simp add: matches_def entry_is_present_def)
    then show ?thesis using matches_contents [OF ok j(2)] r Some j by (simp add: hash_table_lookup_def)
  qed
qed

lemma remove_spec:
  assumes ok: "ht_ok ht"
  shows "\<exists>ht' v. hash_table_remove ht h = Some ht' \<and> hash_table_lookup ht h = Some v \<and> ht_ok ht' \<and>
    contents ht' = contents ht - {#(h, v)#} \<and> ht_size_index ht' = ht_size_index ht"
proof -
  note F = ht_okD [OF ok]
  obtain r where r: "hash_table_search ht h = Some r"
    "case r of None \<Rightarrow> \<forall>v. (h, v) \<notin># contents ht | Some b \<Rightarrow> \<exists>j < slots ht. unat b = probe ht h j \<and> matches ht h j"
    using search_spec [OF ok] by blast
  show ?thesis
  proof (cases r)
    case None
    then show ?thesis using r ok by (auto simp: hash_table_remove_def hash_table_lookup_def)
  next
    case (Some b)
    then obtain j where j: "unat b = probe ht h j" "matches ht h j" using r by auto
    let ?a = "probe ht h j" and ?e = "(at ht h j)\<lparr>e_data := deleted_data\<rparr>"
    let ?t = "ht\<lparr>ht_table := (ht_table ht)[?a := ?e], ht_entries := ht_entries ht - 1, ht_deleted_entries := ht_deleted_entries ht + 1\<rparr>"
    have a: "?a < length (ht_table ht)" using probe_less [OF F(1)] F(2) by simp
    have sh: "slots ?t = slots ht" "probe ?t = probe ht" "row_of ?t = row_of ht" by (rule same_shape; simp)+
    have e: "\<not> entry_is_present ?e" "entry_is_deleted ?e" "\<not> entry_is_free ?e" by (simp_all add: entry_is_present_def entry_is_deleted_def entry_is_free_def)
    have p: "entry_is_present (at ht h j)" "\<not> entry_is_deleted (at ht h j)" "e_hash (at ht h j) = h"
      using j(2) by (simp_all add: matches_def entry_is_present_def entry_is_deleted_def)
    have "filter_mset entry_is_present (mset (ht_table ?t)) + {#at ht h j#} = filter_mset entry_is_present (mset (ht_table ht))"
      using filter_update [OF a, of entry_is_present ?e] e p by simp
    from arg_cong [OF this, of "image_mset (\<lambda>e. (e_hash e, e_data e))"] have c1: "contents ?t + {#(h, e_data (at ht h j))#} = contents ht"
      by (simp add: contents_def p)
    then have c: "contents ?t = contents ht - {#(h, e_data (at ht h j))#}" by (metis add_diff_cancel_right')
    have m: "marks ?t = Suc (marks ht)"
      using arg_cong [OF filter_update [OF a, of entry_is_deleted ?e], of size] e p by (simp add: marks_def)
    have n: "size (contents ht) = Suc (size (contents ?t))" using arg_cong [OF c1, of size] by simp
    have "unat (ht_entries ht - 1) = size (contents ?t)"
      using n F(3) unat_sub [of 1 "ht_entries ht"] by (simp add: word_le_nat_alt)
    moreover have "unat (ht_deleted_entries ht + 1) = marks ?t"
      using m n F(4,5) row_facts(4) [OF F(1)] by (simp add: unat_add_lem [THEN iffD1])
    moreover have "reachable ?t b" if "b < slots ht" "entry_is_present (ht_table ?t ! b)" for b
    proof -
      have ba: "b \<noteq> ?a" using that e(1) a by auto
      then have "reachable ht b" using that ok by (simp add: ht_ok_def)
      then show ?thesis by (rule reachable_update [OF sh(2,1) _ a e(3) _ ba, rotated]) simp
    qed
    ultimately have "ht_ok ?t" using F by (simp add: ht_ok_def sh)
    then show ?thesis using r Some j c by (auto simp: hash_table_remove_def hash_table_lookup_def)
  qed
qed

subsection \<open>Inserting\<close>

text \<open>An insertion is good when it stores the pair and keeps the table well formed.\<close>

definition inserted :: "(int \<times> hash_table \<times> bool list) option \<Rightarrow> hash_table \<Rightarrow> u32 \<Rightarrow> nat \<Rightarrow> bool" where
  "inserted res ht h p \<longleftrightarrow> (\<exists>r ht' mem'. res = Some (r, ht', mem') \<and> ht_ok ht' \<and> ht_size_index ht \<le> ht_size_index ht' \<and>
     (if r = 0 then contents ht' = add_mset (h, Ptr p) (contents ht)
      else r = -1 \<and> contents ht' = contents ht \<and> size (contents ht) = slots ht'))"

lemma all_present_full:
  assumes "ht_ok ht" and "\<forall>k < slots ht. entry_is_present (at ht h k)"
  shows "size (contents ht) = slots ht"
proof -
  note F = ht_okD [OF assms(1)]
  have "entry_is_present e" if "e \<in># mset (ht_table ht)" for e
    using that assms(2) probe_surj [OF F(1)] F(2) by (metis in_multiset_in_set in_set_conv_nth)
  then have "filter_mset entry_is_present (mset (ht_table ht)) = filter_mset (\<lambda>_. True) (mset (ht_table ht))"
    by (intro filter_mset_cong0) simp
  then show ?thesis using F(2) by (simp add: contents_def)
qed

lemma insert_into:
  assumes ok: "ht_ok ht" and i: "ht_size_index ht0 \<le> ht_size_index ht" and c: "contents ht0 = contents ht"
  shows "inserted (case insert_loop (unat (ht_size ht)) ht h (Ptr p) (h mod ht_size ht) of None \<Rightarrow> None | Some (r, ht) \<Rightarrow> Some (r, ht, mem)) ht0 h p"
proof -
  note F = ht_okD [OF ok]
  have s: "0 < slots ht" using row_facts(2) [OF F(1)] by simp
  consider j where "j < slots ht" "\<not> entry_is_present (at ht h j)" "\<forall>k < j. entry_is_present (at ht h k)"
      "insert_loop (slots ht) ht h (Ptr p) (h mod ht_size ht) = Some (0, put ht (probe ht h j) h (Ptr p))"
    | "\<forall>k < slots ht. entry_is_present (at ht h k)" "insert_loop (slots ht) ht h (Ptr p) (h mod ht_size ht) = Some (-1, ht)"
    using insert_loop_spec [OF F(1) s probe_first, of "slots ht" h "Ptr p"] by auto
  then show ?thesis
  proof cases
    case 1
    then show ?thesis using put_ok [OF ok 1(1-3)] i c by (simp add: inserted_def slots_def [symmetric]) (simp add: put_def)
  next
    case 2
    have "size (contents ht) = slots ht" by (rule all_present_full [OF ok 2(1)])
    then show ?thesis using 2 ok i c by (simp add: inserted_def slots_def [symmetric])
  qed
qed


text \<open>With room, the pair is stored at once.\<close>

lemma direct_insert:
  assumes ok: "ht_ok ht" and room: "size (contents ht) + marks ht < unat (ht_max_entries ht)"
  shows "\<exists>ht'. hash_table_insert (Suc n) mem ht h (Ptr p) = Some (0, ht', mem) \<and> ht_ok ht' \<and>
    contents ht' = add_mset (h, Ptr p) (contents ht) \<and> marks ht' \<le> marks ht \<and>
    ht_size_index ht' = ht_size_index ht \<and> ht_max_entries ht' = ht_max_entries ht"
proof -
  note F = ht_okD [OF ok]
  have s: "0 < slots ht" using row_facts(2) [OF F(1)] by simp
  have sum: "unat (ht_deleted_entries ht + ht_entries ht) = marks ht + size (contents ht)"
    using F(3,4,5) row_facts(4) [OF F(1)] by (simp add: unat_add_lem [THEN iffD1])
  have "\<not> ht_entries ht \<ge> ht_max_entries ht" "\<not> ht_deleted_entries ht + ht_entries ht \<ge> ht_max_entries ht"
    using room F(3) sum by (simp_all add: word_le_nat_alt)
  then have e: "hash_table_insert (Suc n) mem ht h (Ptr p) =
      (case insert_loop (slots ht) ht h (Ptr p) (h mod ht_size ht) of None \<Rightarrow> None | Some (r, ht) \<Rightarrow> Some (r, ht, mem))"
    by (simp add: slots_def)
  have "\<not> (\<forall>k < slots ht. entry_is_present (at ht h k))"
  proof
    assume all: "\<forall>k < slots ht. entry_is_present (at ht h k)"
    have "size (contents ht) = slots ht" by (rule all_present_full [OF ok all])
    then show False using room row_facts(3) [OF F(1)] by simp
  qed
  then obtain j where j: "j < slots ht" "\<not> entry_is_present (at ht h j)" "\<forall>k < j. entry_is_present (at ht h k)"
      "insert_loop (slots ht) ht h (Ptr p) (h mod ht_size ht) = Some (0, put ht (probe ht h j) h (Ptr p))"
    using insert_loop_spec [OF F(1) s probe_first, of "slots ht" h "Ptr p"] by auto
  then show ?thesis using put_ok [OF ok j(1-3), of p] e by (auto simp: put_def)
qed

lemma present_Ptr: "entry_is_present e \<Longrightarrow> \<exists>p. e_data e = Ptr p"
  by (cases "e_data e") (simp_all add: entry_is_present_def)

lemma reinsert_spec:
  assumes step: "\<And>k ht mem h p. k < N \<Longrightarrow> I k ht \<Longrightarrow>
      \<exists>ht' mem'. ins mem ht h (Ptr p) = Some (0, ht', mem') \<and> I (Suc k) ht' \<and> contents ht' = add_mset (h, Ptr p) (contents ht)"
    and "I k ht" and "k + length (filter entry_is_present es) \<le> N"
  shows "\<exists>ht' mem'. reinsert ins es ht mem = Some (ht', mem') \<and> I (k + length (filter entry_is_present es)) ht' \<and>
    contents ht' = contents ht + image_mset (\<lambda>e. (e_hash e, e_data e)) (filter_mset entry_is_present (mset es))"
  using assms(2,3)
proof (induction es arbitrary: k ht mem)
  case (Cons e es)
  show ?case
  proof (cases "entry_is_present e")
    case False
    then show ?thesis using Cons.IH [OF Cons.prems(1)] Cons.prems(2) by simp
  next
    case True
    then obtain p where p: "e_data e = Ptr p" using present_Ptr by blast
    obtain ht1 mem1 where i: "ins mem ht (e_hash e) (Ptr p) = Some (0, ht1, mem1)" "I (Suc k) ht1"
      "contents ht1 = add_mset (e_hash e, Ptr p) (contents ht)" using step [of k ht mem "e_hash e" p] Cons.prems True by auto
    show ?thesis using Cons.IH [OF i(2), of mem1] Cons.prems(2) True i(1,3) p by auto
  qed
qed simp

lemma rehash_spec:
  assumes step: "\<And>k ht mem h p. k < size (contents ht0) \<Longrightarrow> I k ht \<Longrightarrow>
      \<exists>ht' mem'. ins mem ht h (Ptr p) = Some (0, ht', mem') \<and> I (Suc k) ht' \<and> contents ht' = add_mset (h, Ptr p) (contents ht)"
    and "I 0 (empty_table idx)" and "contents (empty_table idx) = {#}" and "unat idx \<le> MAX_ROW"
  shows "\<exists>ht' mem'. hash_table_rehash ins mem ht0 idx = Some (ht', mem') \<and>
    (ht' = ht0 \<or> I (size (contents ht0)) ht' \<and> contents ht' = contents ht0)"
proof (cases "mem = [] \<or> \<not> hd mem")
  case True
  then show ?thesis by (cases mem) (simp_all add: hash_table_rehash_def)
next
  case False
  have c: "size (contents ht0) = length (filter entry_is_present (ht_table ht0))" by (simp add: contents_def flip: mset_filter)
  have "\<not> of_nat (length hash_sizes) \<le> idx" using assms(4) by (simp add: length_hash_sizes word_le_nat_alt)
  then have "hash_table_rehash ins mem ht0 idx = reinsert ins (ht_table ht0) (empty_table idx) (tl mem)"
    using False by (cases mem) (simp_all add: hash_table_rehash_def)
  moreover obtain ht' mem' where "reinsert ins (ht_table ht0) (empty_table idx) (tl mem) = Some (ht', mem')" "I (size (contents ht0)) ht'"
      "contents ht' = contents ht0"
    using reinsert_spec [of "size (contents ht0)" I ins 0 "empty_table idx" "ht_table ht0" "tl mem"] step assms(2,3) c by (auto simp: contents_def)
  ultimately show ?thesis by simp
qed


text \<open>The rows: the first has 5 slots, the last modelled 2097152 entries, and each but the first fits twice into the next.\<close>

lemma rows_grow: "list_all (\<lambda>i. fst (snd (hash_sizes ! i)) \<le> fst (hash_sizes ! Suc i)) [1..<MAX_ROW]"
  by code_simp

lemma row_values: "hash_sizes ! 0 = (2, 5, 3)" "hash_sizes ! 1 = (4, 7, 5)" "hash_sizes ! MAX_ROW = (2097152, 2307163, 2307161)"
  by (simp_all add: hash_sizes_def)

lemma empty_table_ok:
  assumes "unat idx \<le> MAX_ROW"
  shows "ht_ok (empty_table idx)" "contents (empty_table idx) = {#}" "marks (empty_table idx) = 0" "ht_size_index (empty_table idx) = idx"
    "ht_max_entries (empty_table idx) = fst (hash_sizes ! unat idx)"
proof -
  obtain m sz re where r: "hash_sizes ! unat idx = (m, sz, re)" by (metis prod_cases3)
  let ?e = "\<lparr>e_hash = 0, e_data = NULL_data\<rparr> :: hash_entry"
  have e: "empty_table idx = \<lparr>ht_table = replicate (unat sz) ?e, ht_size = sz, ht_rehash = re,
      ht_max_entries = m, ht_size_index = idx, ht_entries = 0, ht_deleted_entries = 0\<rparr>" by (simp add: empty_table_def r)
  have n: "\<not> entry_is_present ?e" "\<not> entry_is_deleted ?e" by (simp_all add: entry_is_present_def entry_is_deleted_def)
  show c: "contents (empty_table idx) = {#}" and m: "marks (empty_table idx) = 0" using n by (simp_all add: contents_def marks_def e)
  show "ht_size_index (empty_table idx) = idx" "ht_max_entries (empty_table idx) = fst (hash_sizes ! unat idx)" by (simp_all add: e r)
  have "row_of (empty_table idx)" using assms by (simp add: row_of_def e r)
  then show "ht_ok (empty_table idx)" using c m n by (simp add: ht_ok_def) (simp add: e slots_def)
qed

text \<open>The decision to rebuild: to the next row when the entries fill this one, to the same row when only the marks do.\<close>

lemma insert_cases:
  assumes ok: "ht_ok ht" and small: "size (contents ht) < 2 ^ 21"
  obtains (direct) "size (contents ht) + marks ht < unat (ht_max_entries ht)"
    | (rebuild) idx where "unat idx \<le> MAX_ROW" "ht_size_index ht \<le> idx"
        "hash_table_insert (Suc n) mem ht h d =
          (case hash_table_rehash (hash_table_insert n) mem ht idx of
             None \<Rightarrow> None
           | Some (ht, mem) \<Rightarrow>
               (case insert_loop (unat (ht_size ht)) ht h d (h mod ht_size ht) of None \<Rightarrow> None | Some (r, ht) \<Rightarrow> Some (r, ht, mem)))"
        "size (contents ht) < unat (fst (hash_sizes ! unat idx)) \<or> unat idx = Suc (unat (ht_size_index ht))"
proof -
  note F = ht_okD [OF ok]
  have ix: "unat (ht_size_index ht) \<le> MAX_ROW" and row: "fst (hash_sizes ! unat (ht_size_index ht)) = ht_max_entries ht"
    using F(1) by (simp_all add: row_of_def)
  have sum: "unat (ht_deleted_entries ht + ht_entries ht) = marks ht + size (contents ht)"
    using F(3,4,5) row_facts(4) [OF F(1)] by (simp add: unat_add_lem [THEN iffD1])
  show thesis
  proof (cases "ht_entries ht \<ge> ht_max_entries ht")
    case True
    then have "unat (ht_max_entries ht) < 2 ^ 21" using F(3) small by (simp add: word_le_nat_alt)
    then have "unat (ht_size_index ht) \<noteq> MAX_ROW" using row row_values(3) by auto
    then have i: "unat (ht_size_index ht + 1) = Suc (unat (ht_size_index ht))" "Suc (unat (ht_size_index ht)) \<le> MAX_ROW"
      using ix by (simp_all add: unat_add_lem [THEN iffD1])
    then show thesis using True by (intro rebuild [of "ht_size_index ht + 1"]) (simp_all add: word_le_nat_alt)
  next
    case lt: False
    show thesis
    proof (cases "ht_deleted_entries ht + ht_entries ht \<ge> ht_max_entries ht")
      case True
      then show thesis using lt ix row F(3) by (intro rebuild [of "ht_size_index ht"]) (simp_all add: word_le_nat_alt)
    next
      case False
      then show thesis using direct sum by (simp add: word_le_nat_alt)
    qed
  qed
qed


lemma insert_rebuilt:
  assumes r: "hash_table_insert (Suc n) mem ht h (Ptr p) =
      (case hash_table_rehash (hash_table_insert n) mem ht idx of
         None \<Rightarrow> None
       | Some (ht, mem) \<Rightarrow>
           (case insert_loop (unat (ht_size ht)) ht h (Ptr p) (h mod ht_size ht) of None \<Rightarrow> None | Some (r, ht) \<Rightarrow> Some (r, ht, mem)))"
    and "hash_table_rehash (hash_table_insert n) mem ht idx = Some (ht', mem')"
    and "ht_ok ht'" "ht_size_index ht \<le> ht_size_index ht'" "contents ht' = contents ht"
  shows "inserted (hash_table_insert (Suc n) mem ht h (Ptr p)) ht h p"
  unfolding r assms(2) option.case prod.case by (rule insert_into) (use assms in simp_all)

lemma inserted_direct:
  assumes "ht_ok ht" and "size (contents ht) + marks ht < unat (ht_max_entries ht)"
  shows "inserted (hash_table_insert (Suc n) mem ht h (Ptr p)) ht h p"
  using direct_insert [OF assms, of n mem h p] by (auto simp: inserted_def)

lemma insert_level2:
  assumes ok: "ht_ok ht" and small: "size (contents ht) < 2 ^ 21" and fits: "0 < unat (ht_size_index ht) \<or> size (contents ht) \<le> 4"
  shows "inserted (hash_table_insert (Suc (Suc n)) mem ht h (Ptr p)) ht h p"
  using ok small
proof (cases rule: insert_cases [where n = "Suc n" and mem = mem and h = h and d = "Ptr p"])
  case direct
  then show ?thesis by (rule inserted_direct [OF ok])
next
  case (rebuild idx)
  note F = ht_okD [OF ok] and E = empty_table_ok [OF rebuild(1)]
  have N: "size (contents ht) \<le> unat (fst (hash_sizes ! unat idx))"
  proof (cases "unat idx = Suc (unat (ht_size_index ht))")
    case True
    show ?thesis
    proof (cases "unat (ht_size_index ht) = 0")
      case z: True
      then have "size (contents ht) \<le> 4" using fits by simp
      then show ?thesis using True z row_values(2) by simp
    next
      case False
      then have "unat (ht_size_index ht) \<in> set [1..<MAX_ROW]" using True rebuild(1) by simp
      then have "fst (snd (hash_sizes ! unat (ht_size_index ht))) \<le> fst (hash_sizes ! unat idx)" using rows_grow True by (simp add: list_all_iff)
      then have "ht_size ht \<le> fst (hash_sizes ! unat idx)" using F(1) by (simp add: row_of_def)
      then show ?thesis using F(5) by (simp add: slots_def word_le_nat_alt)
    qed
  next
    case False
    then show ?thesis using rebuild(4) by simp
  qed
  define I where "I = (\<lambda>k t. ht_ok t \<and> size (contents t) = k \<and> marks t = 0 \<and> ht_size_index t = idx \<and> ht_max_entries t = fst (hash_sizes ! unat idx))"
  have step: "\<exists>t' mem'. hash_table_insert (Suc n) mem t h (Ptr p) = Some (0, t', mem') \<and> I (Suc k) t' \<and> contents t' = add_mset (h, Ptr p) (contents t)"
    if "k < size (contents ht)" "I k t" for k t mem h p
    using direct_insert [of t n mem h p] that N by (fastforce simp: I_def)
  have "I 0 (empty_table idx)" using E by (simp add: I_def)
  from rehash_spec [where ?I = I and ins = "hash_table_insert (Suc n)" and mem = mem and ?ht0.0 = ht, OF step this E(2) rebuild(1)] obtain ht' mem' where
    rh: "hash_table_rehash (hash_table_insert (Suc n)) mem ht idx = Some (ht', mem')" "ht' = ht \<or> I (size (contents ht)) ht' \<and> contents ht' = contents ht"
    by blast
  show ?thesis by (rule insert_rebuilt [OF rebuild(3) rh(1)]) (use rh(2) rebuild(2) ok in \<open>auto simp: I_def intro: order_trans\<close>)
qed

lemma insert_level3:
  assumes ok: "ht_ok ht" and small: "size (contents ht) < 2 ^ 21"
  shows "inserted (hash_table_insert (Suc (Suc (Suc n))) mem ht h (Ptr p)) ht h p"
proof (cases "0 < unat (ht_size_index ht) \<or> size (contents ht) \<le> 4")
  case True
  then show ?thesis by (rule insert_level2 [OF ok small])
next
  case False
  then have i0: "unat (ht_size_index ht) = 0" and big: "4 < size (contents ht)" by auto
  note F = ht_okD [OF ok]
  have "(ht_max_entries ht, ht_size ht, ht_rehash ht) = (2, 5, 3)" using F(1) i0 row_values(1) by (simp add: row_of_def)
  then have mx: "unat (ht_max_entries ht) = 2" and s5: "slots ht = 5" by (simp_all add: slots_def)
  show ?thesis
    using ok small
  proof (cases rule: insert_cases [where n = "Suc (Suc n)" and mem = mem and h = h and d = "Ptr p"])
    case direct
    then show ?thesis by (rule inserted_direct [OF ok])
  next
    case (rebuild idx)
    have i1: "0 < unat idx" using rebuild(4) i0 big row_values(1) by (cases "unat idx") auto
    note E = empty_table_ok [OF rebuild(1)]
    define I where "I = (\<lambda>k t. ht_ok t \<and> size (contents t) = k \<and> idx \<le> ht_size_index t)"
    have step: "\<exists>t' mem'. hash_table_insert (Suc (Suc n)) mem t h (Ptr p) = Some (0, t', mem') \<and> I (Suc k) t' \<and> contents t' = add_mset (h, Ptr p) (contents t)"
      if k: "k < size (contents ht)" and I: "I k t" for k t mem h p
    proof -
      have "0 < unat (ht_size_index t)" using I i1 by (auto simp: I_def word_le_nat_alt)
      then have "inserted (hash_table_insert (Suc (Suc n)) mem t h (Ptr p)) t h p"
        using I k F(5) s5 by (intro insert_level2) (auto simp: I_def)
      then obtain r t' mem' where t': "hash_table_insert (Suc (Suc n)) mem t h (Ptr p) = Some (r, t', mem')" "ht_ok t'"
          "ht_size_index t \<le> ht_size_index t'" "if r = 0 then contents t' = add_mset (h, Ptr p) (contents t)
            else r = -1 \<and> contents t' = contents t \<and> size (contents t) = slots t'" unfolding inserted_def by blast
      have "slots t' \<ge> 5"
      proof -
        have "unat (ht_size_index t') \<le> MAX_ROW" "fst (snd (hash_sizes ! unat (ht_size_index t'))) = ht_size t'"
          using ht_okD(1) [OF t'(2)] by (simp_all add: row_of_def)
        moreover have "list_all (\<lambda>i. 5 \<le> fst (snd (hash_sizes ! i))) [0..<Suc MAX_ROW]" by code_simp
        ultimately have "5 \<le> ht_size t'" by (metis (no_types, lifting) list_all_iff atLeastLessThan_iff set_upt le_imp_less_Suc zero_le)
        then show ?thesis by (simp add: slots_def word_le_nat_alt)
      qed
      then have "r = 0" using t'(4) k I F(5) s5 by (auto simp: I_def split: if_splits)
      then show ?thesis using t' I by (auto simp: I_def)
    qed
    have "I 0 (empty_table idx)" using E by (simp add: I_def)
    from rehash_spec [where ?I = I and ins = "hash_table_insert (Suc (Suc n))" and mem = mem and ?ht0.0 = ht, OF step this E(2) rebuild(1)] obtain ht' mem' where
      rh: "hash_table_rehash (hash_table_insert (Suc (Suc n))) mem ht idx = Some (ht', mem')" "ht' = ht \<or> I (size (contents ht)) ht' \<and> contents ht' = contents ht"
      by blast
    show ?thesis by (rule insert_rebuilt [OF rebuild(3) rh(1)]) (use rh(2) rebuild(2) ok in \<open>auto simp: I_def intro: order_trans\<close>)
  qed
qed


subsection \<open>The table as a map\<close>

text \<open>
  What a user of the table relies on: a well-formedness predicate, the pairs it holds, and that the
  operations change them as they should.  A user that keeps keys apart sees a map.
\<close>

locale id_table =
  fixes ok :: "'t \<Rightarrow> bool" and pairs :: "'t \<Rightarrow> ('k \<times> 'v) multiset"
    and lookup :: "'t \<Rightarrow> 'k \<Rightarrow> 'v option" and add :: "'t \<Rightarrow> 'k \<Rightarrow> 'v \<Rightarrow> 't \<Rightarrow> bool" and remove :: "'t \<Rightarrow> 'k \<Rightarrow> 't"
  assumes lookup_law: "ok t \<Longrightarrow> case lookup t k of None \<Rightarrow> \<forall>v. (k, v) \<notin># pairs t | Some v \<Rightarrow> (k, v) \<in># pairs t"
    and add_law: "ok t \<Longrightarrow> add t k v t' \<Longrightarrow> ok t' \<and> pairs t' = add_mset (k, v) (pairs t)"
    and remove_law: "ok t \<Longrightarrow> ok (remove t k) \<and> pairs (remove t k) = (case lookup t k of None \<Rightarrow> pairs t | Some v \<Rightarrow> pairs t - {#(k, v)#})"
begin

text \<open>Each key at most once.\<close>

definition unique :: "'t \<Rightarrow> bool" where
  "unique t \<longleftrightarrow> (\<forall>k. size (filter_mset (\<lambda>x. fst x = k) (pairs t)) \<le> 1)"

lemma uniqueD:
  assumes "unique t" and "(k, v) \<in># pairs t" and "(k, u) \<in># pairs t"
  shows "u = v"
proof (rule ccontr)
  let ?M = "filter_mset (\<lambda>x. fst x = k) (pairs t)"
  assume "u \<noteq> v"
  then have "{#(k, v), (k, u)#} \<subseteq># ?M" using assms(2,3) by (simp add: insert_subset_eq_iff in_diff_count)
  from size_mset_mono [OF this] have "2 \<le> size ?M" by simp
  moreover have "size ?M \<le> 1" using assms(1) by (simp add: unique_def)
  ultimately show False by linarith
qed

lemma lookup_eq:
  assumes "ok t" and "unique t"
  shows "lookup t k = Some v \<longleftrightarrow> (k, v) \<in># pairs t"
  using lookup_law [OF assms(1), of k] uniqueD [OF assms(2)] by (auto split: option.splits)

lemma add_map:
  assumes "ok t" and "unique t" and "lookup t k = None" and "add t k v t'"
  shows "ok t' \<and> unique t' \<and> lookup t' = (lookup t)(k \<mapsto> v)"
proof -
  have t': "ok t'" "pairs t' = add_mset (k, v) (pairs t)" using add_law [OF assms(1,4)] by simp_all
  have "\<forall>u. (k, u) \<notin># pairs t" using lookup_law [OF assms(1), of k] assms(3) by simp
  then have "filter_mset (\<lambda>x. fst x = k) (pairs t) = {#}" by (auto simp: filter_mset_eq_conv intro!: multiset_eqI)
  then have u: "unique t'" using assms(2) by (auto simp: unique_def t' split: if_splits)
  have "lookup t' x = ((lookup t)(k \<mapsto> v)) x" for x
  proof (cases "x = k")
    case True
    then show ?thesis using lookup_eq [OF t'(1) u, of k v] t'(2) by simp
  next
    case False
    then have "lookup t' x = Some y \<longleftrightarrow> lookup t x = Some y" for y using lookup_eq [OF t'(1) u] lookup_eq [OF assms(1,2)] t'(2) by simp
    then show ?thesis using False by (cases "lookup t x"; cases "lookup t' x") auto
  qed
  then show ?thesis using t'(1) u by (simp add: fun_eq_iff)
qed

lemma remove_map:
  assumes "ok t" and "unique t"
  shows "ok (remove t k) \<and> unique (remove t k) \<and> lookup (remove t k) = (lookup t)(k := None)"
proof -
  let ?t = "remove t k"
  have t': "ok ?t" "pairs ?t = (case lookup t k of None \<Rightarrow> pairs t | Some v \<Rightarrow> pairs t - {#(k, v)#})" using remove_law [OF assms(1)] by simp_all
  then have sub: "pairs ?t \<subseteq># pairs t" by (simp split: option.splits)
  have u: "unique ?t" unfolding unique_def
    using assms(2) size_mset_mono [OF multiset_filter_mono [OF sub]] unfolding unique_def by (meson order_trans)
  have "lookup ?t x = ((lookup t)(k := None)) x" for x
  proof (cases "x = k")
    case True
    have "(k, v) \<notin># pairs ?t" for v
    proof
      assume v: "(k, v) \<in># pairs ?t"
      then have p: "(k, v) \<in># pairs t" using sub by (meson mset_subset_eqD)
      then have "lookup t k = Some v" using lookup_eq [OF assms] by simp
      then have "2 \<le> count (pairs t) (k, v)" using v t'(2) by (simp add: in_diff_count)
      also have "\<dots> \<le> size (filter_mset (\<lambda>x. fst x = k) (pairs t))" using count_le_size [of "filter_mset (\<lambda>x. fst x = k) (pairs t)" "(k, v)"] by simp
      finally show False using assms(2) by (auto simp: unique_def not_le dest: spec [of _ k])
    qed
    then show ?thesis using True lookup_law [OF t'(1), of k] by (auto split: option.splits)
  next
    case False
    have "lookup ?t x = Some y \<longleftrightarrow> lookup t x = Some y" for y
      using lookup_eq [OF t'(1) u] lookup_eq [OF assms] False t'(2) by (auto simp: in_diff_count split: option.splits)
    then show ?thesis using False by (cases "lookup t x"; cases "lookup ?t x") auto
  qed
  then show ?thesis using t'(1) u by (simp add: fun_eq_iff)
qed

end

text \<open>The hash table: looking up gives \<open>NULL\<close> for an absent key; adding is an insertion that returns 0.\<close>

definition ht_find :: "hash_table \<Rightarrow> u32 \<Rightarrow> hdata option" where
  "ht_find ht h = (case hash_table_lookup ht h of None \<Rightarrow> None | Some v \<Rightarrow> if v = NULL_data then None else Some v)"

definition ht_adds :: "hash_table \<Rightarrow> u32 \<Rightarrow> hdata \<Rightarrow> hash_table \<Rightarrow> bool" where
  "ht_adds ht h v ht' \<longleftrightarrow> size (contents ht) < 2 ^ 21 \<and>
     (\<exists>p mem mem'. v = Ptr p \<and> hash_table_insert 3 mem ht h v = Some (0, ht', mem'))"

definition ht_removed :: "hash_table \<Rightarrow> u32 \<Rightarrow> hash_table" where
  "ht_removed ht h = the (hash_table_remove ht h)"

lemma insert3: "ht_ok ht \<Longrightarrow> size (contents ht) < 2 ^ 21 \<Longrightarrow> inserted (hash_table_insert 3 mem ht h (Ptr p)) ht h p"
  using insert_level3 [of ht 0 mem h p] by (simp add: numeral_3_eq_3)

lemma no_NULL: "(h, NULL_data) \<notin># contents ht"
  by (auto simp: contents_def entry_is_present_def)

interpretation ht: id_table ht_ok contents ht_find ht_adds ht_removed
proof (unfold_locales, goal_cases)
  case (1 t k)
  then show ?case using lookup_spec [of t k] by (auto simp: ht_find_def split: if_splits)
next
  case (2 t k v t')
  then obtain p mem mem' where a: "v = Ptr p" "hash_table_insert 3 mem t k (Ptr p) = Some (0, t', mem')" "size (contents t) < 2 ^ 21"
    by (auto simp: ht_adds_def)
  show ?case using insert3 [OF 2(1) a(3), of mem k p] a by (auto simp: inserted_def)
next
  case (3 t k)
  then show ?case using remove_spec [of t k] no_NULL [of k t] by (auto simp: ht_removed_def ht_find_def)
qed


subsection \<open>Properties\<close>

text \<open>
  C20. Inserting a pointer into a well-formed table of fewer than 2097152 entries ends -- with nested calls at
  most three deep, whatever \<open>calloc\<close> answers and however full the table is -- and keeps the table
  well formed (the counters are right and every entry is reached on its probe sequence before a free
  slot): it returns 0 and the pair is added to what the table holds, rebuilding included, or it returns
  -1, nothing is changed, and every slot of the table is taken.
\<close>

theorem hash_insert_keeps_table:
  assumes "ht_ok ht" and "size (contents ht) < 2 ^ 21"
  shows "\<exists>r ht' mem'. hash_table_insert 3 mem ht h (Ptr p) = Some (r, ht', mem') \<and> ht_ok ht' \<and>
     (if r = 0 then contents ht' = add_mset (h, Ptr p) (contents ht)
      else r = -1 \<and> contents ht' = contents ht \<and> size (contents ht) = slots ht')"
  using insert3 [OF assms, of mem h p] unfolding inserted_def by blast

theorem hash_insert_keeps_table_witness:
  "\<exists>r ht' mem'. hash_table_insert 3 [] (empty_table 0) 7 (Ptr 1) = Some (r, ht', mem') \<and> ht_ok ht' \<and> contents ht' = {#(7, Ptr 1)#}"
proof -
  have e: "ht_ok (empty_table 0)" "contents (empty_table 0) = {#}" using empty_table_ok [of 0] by simp_all
  have s: "slots t \<noteq> 0" if "ht_ok t" for t using row_facts(2) [OF ht_okD(1) [OF that]] by simp
  obtain r ht' mem' where "hash_table_insert 3 [] (empty_table 0) 7 (Ptr 1) = Some (r, ht', mem')" "ht_ok ht'"
    "if r = 0 then contents ht' = add_mset (7, Ptr 1) {#} else r = -1 \<and> contents ht' = {#} \<and> size ({#} :: (u32 \<times> hdata) multiset) = slots ht'"
    using hash_insert_keeps_table [OF e(1), of "[]" 7 1] unfolding e(2) by auto
  then show ?thesis using s [of ht'] by (auto split: if_splits)
qed

text \<open>
  C19. For a user that inserts a key only while it is absent the table is a map: looking up always ends and
  gives the value of the key or \<open>NULL\<close>, an insertion that returns 0 is the update of the map at
  that key, and removing a key deletes it and nothing else, whatever collides on the probe sequences
  and however often the table was rebuilt.
\<close>

theorem hash_table_is_map:
  assumes "ht_ok ht" and "\<forall>h. size (filter_mset (\<lambda>x. fst x = h) (contents ht)) \<le> 1" and "size (contents ht) < 2 ^ 21"
  shows "hash_table_lookup ht h \<noteq> None \<and>
    (ht_find ht h = None \<and> hash_table_insert 3 mem ht h (Ptr p) = Some (0, ht1, mem') \<longrightarrow>
       ht_find ht1 = (ht_find ht)(h \<mapsto> Ptr p) \<and> (\<forall>h. size (filter_mset (\<lambda>x. fst x = h) (contents ht1)) \<le> 1)) \<and>
    (hash_table_remove ht h = Some ht2 \<longrightarrow>
       ht_find ht2 = (ht_find ht)(h := None) \<and> (\<forall>h. size (filter_mset (\<lambda>x. fst x = h) (contents ht2)) \<le> 1))"
proof (intro conjI impI)
  have u: "ht.unique ht" using assms(2) by (simp add: ht.unique_def)
  show "hash_table_lookup ht h \<noteq> None" using lookup_spec [OF assms(1), of h] by auto
  assume a: "ht_find ht h = None \<and> hash_table_insert 3 mem ht h (Ptr p) = Some (0, ht1, mem')"
  then have "ht_adds ht h (Ptr p) ht1" using assms(3) by (auto simp: ht_adds_def)
  from ht.add_map [OF assms(1) u _ this] a
  show "ht_find ht1 = (ht_find ht)(h \<mapsto> Ptr p)" "\<forall>h. size (filter_mset (\<lambda>x. fst x = h) (contents ht1)) \<le> 1"
    by (simp_all add: ht.unique_def)
next
  have u: "ht.unique ht" using assms(2) by (simp add: ht.unique_def)
  assume "hash_table_remove ht h = Some ht2"
  then have "ht_removed ht h = ht2" by (simp add: ht_removed_def)
  with ht.remove_map [OF assms(1) u, of h]
  show "ht_find ht2 = (ht_find ht)(h := None)" "\<forall>h. size (filter_mset (\<lambda>x. fst x = h) (contents ht2)) \<le> 1"
    by (simp_all add: ht.unique_def)
qed

theorem hash_table_is_map_witness:
  "\<exists>ht' mem'. hash_table_insert 3 [] (empty_table 0) 7 (Ptr 1) = Some (0, ht', mem') \<and> ht_find ht' 7 = Some (Ptr 1) \<and> ht_find ht' 2 = None"
proof -
  have e: "ht_ok (empty_table 0)" "contents (empty_table 0) = {#}" using empty_table_ok [of 0] by simp_all
  have n: "ht_find (empty_table 0) x = None" for x using ht.lookup_law [OF e(1), of x] e(2) by (auto split: option.splits)
  have "case hash_table_insert 3 [] (empty_table 0) 7 (Ptr 1) of Some (r, _) \<Rightarrow> r = 0 | None \<Rightarrow> False" by code_simp
  then obtain ht' mem' where i: "hash_table_insert 3 [] (empty_table 0) 7 (Ptr 1) = Some (0, ht', mem')" by (auto split: option.splits)
  show ?thesis using hash_table_is_map [OF e(1), of 7 "[]" 1 ht' mem' ht'] e(2) i n by auto
qed

text \<open>
  \<open>hash_table_for_each\<close> calls the function once for the data of each entry the table holds, and for
  nothing else.
\<close>

theorem hash_for_each_visits_all:
  "\<exists>ds. mset ds = image_mset snd (contents ht) \<and> (\<forall>(func :: hdata \<Rightarrow> 'a \<Rightarrow> 'a) data. hash_table_for_each ht func data = fold func ds data)"
proof -
  let ?ds = "map e_data (filter entry_is_present (ht_table ht))"
  have "fold (\<lambda>entry data. if entry_is_present entry then func (e_data entry) data else data) es data = fold func (map e_data (filter entry_is_present es)) data"
    for es and func :: "hdata \<Rightarrow> 'a \<Rightarrow> 'a" and data by (induction es arbitrary: data) simp_all
  moreover have "mset ?ds = image_mset snd (contents ht)" by (simp add: contents_def image_mset.compositionality comp_def)
  ultimately show ?thesis unfolding hash_table_for_each_def by blast
qed

text \<open>
  In the largest row of the size table the probe sequence overflows \<open>uint32_t\<close>: there are slots and
  hashes for which the next slot computed is not the sum modulo the size.
\<close>

theorem last_row_probe_overflows:
  assumes "hash_sizes ! 30 = (m, sz, re)"
  shows "\<exists>a h. a < sz \<and> unat ((a + (1 + h mod re)) mod sz) \<noteq> (unat a + (1 + unat h mod unat re)) mod unat sz"
proof -
  have e: "sz = 2362232233" "re = 2362232231" using assms by (simp_all add: hash_sizes_def)
  show ?thesis unfolding e by (intro exI [of _ 2362232232] exI [of _ 2362232230]) simp
qed

theorem last_row_probe_overflows_witness:
  "\<exists>a h. a < (2362232233 :: u32) \<and> unat ((a + (1 + h mod 2362232231)) mod 2362232233) \<noteq> (unat a + (1 + unat h mod unat (2362232231 :: u32))) mod unat (2362232233 :: u32)"
  by (rule last_row_probe_overflows [of 2147483648]) (simp add: hash_sizes_def)

end
