(* ===== verification/C_Strings.thy ===== *)
theory C_Strings
  imports Prelude
begin

section \<open>Strings and numbers of the C library\<close>

text \<open>
  What weston's parsers use of the C library: \<open>isspace\<close>, \<open>strtol\<close> and \<open>strtoul\<close> in the C locale
  with a 64-bit \<open>long\<close>, and \<open>safe_strtoint\<close> of \<open>shared/string-helpers.h\<close> on top of them.  A
  string is the list of its characters without the final NUL; a pointer into it is the rest of the
  string from there, so that two pointers into one string are equal when the rests are.
\<close>

datatype errno = ENOENT | EINVAL | ERANGE

definition isspace :: "char \<Rightarrow> bool" where
  "isspace c \<longleftrightarrow> c = CHR '' '' \<or> (9 \<le> (of_char c :: nat) \<and> (of_char c :: nat) \<le> 13)"

text \<open>The value of a digit, or 36 for any other character.\<close>

definition digit_val :: "char \<Rightarrow> nat" where
  "digit_val c =
     (let n = of_char c :: nat in
      if 48 \<le> n \<and> n \<le> 57 then n - 48 else if 65 \<le> n \<and> n \<le> 90 then n - 55 else if 97 \<le> n \<and> n \<le> 122 then n - 87 else 36)"

definition is_digit :: "nat \<Rightarrow> char \<Rightarrow> bool" where
  "is_digit base c \<longleftrightarrow> digit_val c < base"

definition digits_val :: "nat \<Rightarrow> string \<Rightarrow> nat" where
  "digits_val base ds = foldl (\<lambda>n c. n * base + digit_val c) 0 ds"

definition strip_sign :: "string \<Rightarrow> bool \<times> string" where
  "strip_sign s = (case s of [] \<Rightarrow> (False, s) | c # r \<Rightarrow> if c = CHR ''-'' then (True, r) else if c = CHR ''+'' then (False, r) else (False, s))"

text \<open>Base and digits: a prefix \<open>0x\<close> counts when a hexadecimal digit follows it.\<close>

definition strip_base :: "nat \<Rightarrow> string \<Rightarrow> nat \<times> string" where
  "strip_base base s =
     (if (base = 0 \<or> base = 16) \<and> length s \<ge> 3 \<and> s ! 0 = CHR ''0'' \<and> (s ! 1 = CHR ''x'' \<or> s ! 1 = CHR ''X'') \<and> is_digit 16 (s ! 2)
      then (16, drop 2 s)
      else (if base \<noteq> 0 then base else if s \<noteq> [] \<and> hd s = CHR ''0'' then 8 else 10, s))"

text \<open>Sign, absolute value and the rest; \<open>None\<close> when there are no digits.\<close>

definition scan_number :: "nat \<Rightarrow> string \<Rightarrow> (bool \<times> nat \<times> string) option" where
  "scan_number base s =
     (let (neg, s) = strip_sign (dropWhile isspace s);
          (base, s) = strip_base base s;
          ds = takeWhile (is_digit base) s
      in if ds = [] then None else Some (neg, digits_val base ds, dropWhile (is_digit base) s))"

abbreviation (input) LONG_MAX :: int where "LONG_MAX \<equiv> 9223372036854775807"
abbreviation (input) LONG_MIN :: int where "LONG_MIN \<equiv> -9223372036854775808"
abbreviation (input) ULONG_MAX :: int where "ULONG_MAX \<equiv> 18446744073709551615"

text \<open>The value, the end pointer and whether \<open>errno\<close> was set to \<open>ERANGE\<close>.\<close>

definition strtol :: "string \<Rightarrow> nat \<Rightarrow> int \<times> string \<times> bool" where
  "strtol s base =
     (case scan_number base s of
        None \<Rightarrow> (0, s, False)
      | Some (neg, n, r) \<Rightarrow>
          (let v = (if neg then - int n else int n)
           in if v > LONG_MAX then (LONG_MAX, r, True) else if v < LONG_MIN then (LONG_MIN, r, True) else (v, r, False)))"

definition strtoul :: "string \<Rightarrow> nat \<Rightarrow> int \<times> string \<times> bool" where
  "strtoul s base =
     (case scan_number base s of
        None \<Rightarrow> (0, s, False)
      | Some (neg, n, r) \<Rightarrow>
          if int n > ULONG_MAX then (ULONG_MAX, r, True)
          else ((if neg then (- int n) mod 2 ^ 64 else int n), r, False))"

definition safe_strtoint :: "string \<Rightarrow> errno + int" where
  "safe_strtoint str =
     (let (ret, e, range) = strtol str 10 in
      if range then Inl ERANGE
      else if e = str \<or> e \<noteq> [] then Inl EINVAL
      else if (if ret mod 2 ^ 32 \<ge> 2 ^ 31 then ret mod 2 ^ 32 - 2 ^ 32 else ret mod 2 ^ 32) \<noteq> ret then Inl ERANGE
      else Inr ret)"

subsection \<open>Decimal numerals\<close>

definition digit_char :: "nat \<Rightarrow> char" where
  "digit_char d = char_of (48 + d)"

fun dec :: "nat \<Rightarrow> string" where
  "dec n = (if n < 10 then [digit_char n] else dec (n div 10) @ [digit_char (n mod 10)])"

definition dec_int :: "int \<Rightarrow> string" where
  "dec_int i = (if i < 0 then CHR ''-'' # dec (nat (- i)) else dec (nat i))"

declare dec.simps [simp del]

lemma digit_char_props: "d < 10 \<Longrightarrow> digit_val (digit_char d) = d \<and> \<not> isspace (digit_char d) \<and> digit_char d \<noteq> CHR ''-'' \<and> digit_char d \<noteq> CHR ''+''"
proof -
  assume "d < 10"
  moreover have "list_all (\<lambda>d. digit_val (digit_char d) = d \<and> \<not> isspace (digit_char d) \<and> digit_char d \<noteq> CHR ''-'' \<and> digit_char d \<noteq> CHR ''+'') [0..<10]"
    by code_simp
  ultimately show ?thesis by (simp add: list_all_iff)
qed

lemma dec_digits: "c \<in> set (dec n) \<Longrightarrow> \<exists>d < 10. c = digit_char d"
proof (induction n rule: dec.induct)
  case (1 n)
  have "\<exists>d < 10. digit_char (n mod 10) = digit_char d" by (rule exI [of _ "n mod 10"]) simp
  then show ?case using "1" by (cases "n < 10") (auto simp: dec.simps [of n])
qed

lemma dec_nonempty: "dec n \<noteq> []"
  by (subst dec.simps) simp

lemma digits_val_snoc: "digits_val b (ds @ [c]) = digits_val b ds * b + digit_val c"
  by (simp add: digits_val_def)

lemma digits_val_dec: "digits_val 10 (dec n) = n"
proof (induction n rule: dec.induct)
  case (1 n)
  show ?case
  proof (cases "n < 10")
    case True
    then show ?thesis by (simp add: dec.simps [of n] digits_val_def digit_char_props)
  next
    case False
    then show ?thesis using "1" by (simp add: dec.simps [of n] digits_val_snoc digit_char_props)
  qed
qed

lemma dec_first: "\<exists>c cs. dec n = c # cs \<and> \<not> isspace c \<and> c \<noteq> CHR ''-'' \<and> c \<noteq> CHR ''+''"
proof -
  obtain c cs where c: "dec n = c # cs" using dec_nonempty by (cases "dec n") auto
  then show ?thesis using dec_digits [of c n] digit_char_props by auto
qed

lemma scan_dec: "scan_number 10 (dec n) = Some (False, n, [])" "scan_number 10 (CHR ''-'' # dec n) = Some (True, n, [])"
proof -
  have d: "\<forall>c \<in> set (dec n). is_digit 10 c" using dec_digits digit_char_props by (fastforce simp: is_digit_def)
  then have t: "takeWhile (is_digit 10) (dec n) = dec n" "dropWhile (is_digit 10) (dec n) = []" by simp_all
  obtain c cs where c: "dec n = c # cs" "\<not> isspace c" "c \<noteq> CHR ''-''" "c \<noteq> CHR ''+''" using dec_first by blast
  have "strip_sign (dropWhile isspace (dec n)) = (False, dec n)" using c by (simp add: strip_sign_def)
  then show "scan_number 10 (dec n) = Some (False, n, [])" using dec_nonempty by (simp add: scan_number_def strip_base_def digits_val_dec t Let_def)
  have "strip_sign (dropWhile isspace (CHR ''-'' # dec n)) = (True, dec n)" by (simp add: strip_sign_def isspace_def)
  then show "scan_number 10 (CHR ''-'' # dec n) = Some (True, n, [])" using dec_nonempty by (simp add: scan_number_def strip_base_def digits_val_dec t Let_def)
qed

lemma scan_dec_int: "\<exists>neg n. scan_number 10 (dec_int i) = Some (neg, n, []) \<and> (if neg then - int n else int n) = i"
  using scan_dec [of "nat i"] scan_dec [of "nat (- i)"] by (cases "i < 0") (auto simp: dec_int_def)

lemma dec_int_nonempty: "dec_int i \<noteq> []"
  using dec_nonempty by (simp add: dec_int_def)

text \<open>A decimal numeral is read back exactly when it fits into 32 bits.\<close>

lemma safe_strtoint_dec: "safe_strtoint (dec_int i) = (if -(2 ^ 31) \<le> i \<and> i < 2 ^ 31 then Inr i else Inl ERANGE)"
proof -
  obtain neg n where s: "scan_number 10 (dec_int i) = Some (neg, n, [])" "(if neg then - int n else int n) = i" using scan_dec_int by blast
  have l: "strtol (dec_int i) 10 = (if i > LONG_MAX then (LONG_MAX, [], True) else if i < LONG_MIN then (LONG_MIN, [], True) else (i, [], False))"
    using s by (simp add: strtol_def)
  have m: "((if i mod 2 ^ 32 \<ge> 2 ^ 31 then i mod 2 ^ 32 - 2 ^ 32 else i mod 2 ^ 32) = i) = (-(2 ^ 31) \<le> i \<and> i < 2 ^ 31)"
  proof
    assume "(if i mod 2 ^ 32 \<ge> 2 ^ 31 then i mod 2 ^ 32 - 2 ^ 32 else i mod 2 ^ 32) = i"
    moreover have "0 \<le> i mod 2 ^ 32" "i mod 2 ^ 32 < 2 ^ 32" by simp_all
    ultimately show "-(2 ^ 31) \<le> i \<and> i < 2 ^ 31" by (simp split: if_splits)
  next
    assume r: "-(2 ^ 31) \<le> i \<and> i < 2 ^ 31"
    show "(if i mod 2 ^ 32 \<ge> 2 ^ 31 then i mod 2 ^ 32 - 2 ^ 32 else i mod 2 ^ 32) = i"
    proof (cases "0 \<le> i")
      case True
      then show ?thesis using r by (simp add: mod_pos_pos_trivial)
    next
      case False
      have "i mod 2 ^ 32 = (i + 2 ^ 32) mod 2 ^ 32" by simp
      also have "\<dots> = i + 2 ^ 32" using r False by (intro mod_pos_pos_trivial) simp_all
      finally show ?thesis using r by simp
    qed
  qed
  show ?thesis using l m dec_int_nonempty [of i] by (auto simp: safe_strtoint_def)
qed

end
