(* ===== verification/Config_Parser.thy ===== *)
theory Config_Parser
  imports C_Strings
begin

section \<open>The configuration file (\<open>shared/config-parser.c\<close>)\<close>

text \<open>
  An ini file is read line by line with \<open>fgets\<close> into a buffer of 512 bytes; sections and their
  entries are kept in the order of the file.  The lists of \<open>wl_list\<close> links are lists, a pointer to
  a section is its position in the list.  Each call that allocates consumes one boolean of a list:
  whether its allocations succeeded (a call that fails gives back what it had allocated); with the
  list empty memory suffices.  The environment and the file system are what \<open>getenv\<close> and \<open>open\<close>
  answer.  Messages on \<open>stderr\<close> are not modelled, nor is the memory that \<open>weston_config_destroy\<close>
  frees.
\<close>

subsection \<open>Data\<close>

record weston_config_entry =
  ce_key :: string
  ce_value :: string

record weston_config_section =
  cs_name :: string
  cs_entries :: "weston_config_entry list"

record weston_config =
  wc_sections :: "weston_config_section list"
  wc_path :: string

datatype config_file = Regular string | Other_file

record env =
  XDG_CONFIG_HOME :: "string option"
  HOME :: "string option"
  XDG_CONFIG_DIRS :: "string option"
  WESTON_CONFIG_FILE :: "string option"
  files :: "string \<Rightarrow> config_file option"  \<comment> \<open>what can be opened for reading\<close>

definition take_mem :: "bool list \<Rightarrow> bool \<times> bool list" where
  "take_mem mem = (case mem of [] \<Rightarrow> (True, []) | ok # mem \<Rightarrow> (ok, mem))"

subsection \<open>Finding the file\<close>

text \<open>\<open>snprintf\<close> into the path buffer of \<open>PATH_MAX\<close> bytes.\<close>

definition path_buf :: "string \<Rightarrow> string" where
  "path_buf s = take 4095 s"

text \<open>The paths tried for \<open>$XDG_CONFIG_DIRS\<close>.\<close>

function config_dirs_paths :: "string \<Rightarrow> string \<Rightarrow> string list" where
  "config_dirs_paths p name =
     (if p = [] then []
      else (let dir = takeWhile (\<lambda>c. c \<noteq> CHR '':'') p;
                rest = dropWhile (\<lambda>c. c \<noteq> CHR '':'') p
            in path_buf (dir @ ''/weston/'' @ name) # config_dirs_paths (if rest \<noteq> [] then tl rest else rest) name))"
  by auto
termination
proof (relation "measure (\<lambda>(p, name). length p)")
  fix p :: string and name :: string and dir rest
  assume a: "p \<noteq> []" "rest = dropWhile (\<lambda>c. c \<noteq> CHR '':'') p"
  have "length rest \<le> length p" using a(2) by (simp add: length_dropWhile_le)
  then show "((if rest \<noteq> [] then tl rest else rest, name), (p, name)) \<in> measure (\<lambda>(p, name). length p)"
    using a(1) by (cases rest) auto
qed simp

declare config_dirs_paths.simps [simp del]

definition config_paths :: "env \<Rightarrow> string \<Rightarrow> string list" where
  "config_paths e name =
     (case XDG_CONFIG_HOME e of None \<Rightarrow> [] | Some d \<Rightarrow> [path_buf (d @ ''/'' @ name)]) @
     (case HOME e of None \<Rightarrow> [] | Some d \<Rightarrow> [path_buf (d @ ''/.config/'' @ name)]) @
     config_dirs_paths (case XDG_CONFIG_DIRS e of None \<Rightarrow> ''/etc/xdg'' | Some d \<Rightarrow> d) name"

text \<open>The path kept in the configuration and the file opened.\<close>

definition open_config_file :: "env \<Rightarrow> string \<Rightarrow> (string \<times> config_file) option" where
  "open_config_file e name =
     (if name \<noteq> [] \<and> hd name = CHR ''/'' then map_option (\<lambda>f. (path_buf name, f)) (files e name)
      else (case List.find (\<lambda>p. files e p \<noteq> None) (config_paths e name) of
              None \<Rightarrow> None
            | Some p \<Rightarrow> map_option (\<lambda>f. (p, f)) (files e p)))"

definition weston_config_get_name_from_env :: "env \<Rightarrow> string" where
  "weston_config_get_name_from_env e = (case WESTON_CONFIG_FILE e of Some name \<Rightarrow> name | None \<Rightarrow> ''weston.ini'')"

subsection \<open>Reading values\<close>

definition config_section_get_entry :: "weston_config_section option \<Rightarrow> string \<Rightarrow> weston_config_entry option" where
  "config_section_get_entry section key =
     (case section of None \<Rightarrow> None | Some s \<Rightarrow> List.find (\<lambda>e. ce_key e = key) (cs_entries s))"

text \<open>With a key, its value has to be given as well.\<close>

definition weston_config_get_section :: "weston_config option \<Rightarrow> string \<Rightarrow> (string \<times> string) option \<Rightarrow> weston_config_section option" where
  "weston_config_get_section config section kv =
     (case config of
        None \<Rightarrow> None
      | Some c \<Rightarrow>
          List.find (\<lambda>s. cs_name s = section \<and>
              (case kv of
                 None \<Rightarrow> True
               | Some (key, v) \<Rightarrow> (case config_section_get_entry (Some s) key of None \<Rightarrow> False | Some e \<Rightarrow> ce_value e = v)))
            (wc_sections c))"

text \<open>The getters: the result, the value stored and what \<open>errno\<close> is set to.\<close>

definition weston_config_section_get_int :: "weston_config_section option \<Rightarrow> string \<Rightarrow> int \<Rightarrow> int \<times> int \<times> errno option" where
  "weston_config_section_get_int section key default_value =
     (case config_section_get_entry section key of
        None \<Rightarrow> (-1, default_value, Some ENOENT)
      | Some entry \<Rightarrow>
          (case safe_strtoint (ce_value entry) of
             Inl e \<Rightarrow> (-1, default_value, Some e)
           | Inr v \<Rightarrow> (0, v, None)))"

definition weston_config_section_get_uint :: "weston_config_section option \<Rightarrow> string \<Rightarrow> u32 \<Rightarrow> int \<times> u32 \<times> errno option" where
  "weston_config_section_get_uint section key default_value =
     (case config_section_get_entry section key of
        None \<Rightarrow> (-1, default_value, Some ENOENT)
      | Some entry \<Rightarrow>
          (let (ret, e, range) = strtol (ce_value entry) 0 in
           if range \<or> e = ce_value entry \<or> e \<noteq> [] then (-1, default_value, Some EINVAL)
           else if ret < 0 \<or> ret > 2147483647 then (-1, default_value, Some ERANGE)
           else (0, of_int ret, None)))"

definition weston_config_section_get_color :: "weston_config_section option \<Rightarrow> string \<Rightarrow> u32 \<Rightarrow> int \<times> u32 \<times> errno option" where
  "weston_config_section_get_color section key default_color =
     (case config_section_get_entry section key of
        None \<Rightarrow> (-1, default_color, Some ENOENT)
      | Some entry \<Rightarrow>
          (let len = length (ce_value entry) in
           if len = 1 \<and> hd (ce_value entry) = CHR ''0'' then (0, 0, None)
           else if len \<noteq> 8 \<and> len \<noteq> 10 then (-1, default_color, Some EINVAL)
           else (let (ret, e, range) = strtoul (ce_value entry) 16 in
                 if range \<or> e = ce_value entry \<or> e \<noteq> [] then (-1, default_color, Some EINVAL)
                 else (0, of_int ret, None))))"

text \<open>\<open>strtod\<close>, given as a parameter, gives a value and the end pointer.\<close>

definition weston_config_section_get_double ::
    "(string \<Rightarrow> 'd \<times> string) \<Rightarrow> weston_config_section option \<Rightarrow> string \<Rightarrow> 'd \<Rightarrow> int \<times> 'd \<times> errno option" where
  "weston_config_section_get_double strtod section key default_value =
     (case config_section_get_entry section key of
        None \<Rightarrow> (-1, default_value, Some ENOENT)
      | Some entry \<Rightarrow> (let (v, e) = strtod (ce_value entry) in if e \<noteq> [] then (-1, default_value, Some EINVAL) else (0, v, None)))"

definition weston_config_section_get_string ::
    "weston_config_section option \<Rightarrow> string \<Rightarrow> string option \<Rightarrow> int \<times> string option \<times> errno option" where
  "weston_config_section_get_string section key default_value =
     (case config_section_get_entry section key of
        None \<Rightarrow> (-1, default_value, Some ENOENT)
      | Some entry \<Rightarrow> (0, Some (ce_value entry), None))"

definition weston_config_section_get_bool :: "weston_config_section option \<Rightarrow> string \<Rightarrow> bool \<Rightarrow> int \<times> bool \<times> errno option" where
  "weston_config_section_get_bool section key default_value =
     (case config_section_get_entry section key of
        None \<Rightarrow> (-1, default_value, Some ENOENT)
      | Some entry \<Rightarrow>
          if ce_value entry = ''false'' then (0, False, None)
          else if ce_value entry = ''true'' then (0, True, None)
          else (-1, default_value, Some EINVAL))"

subsection \<open>Parsing\<close>

text \<open>The section list, the current section and the memory.\<close>

record parse_state =
  ps_sections :: "weston_config_section list"
  ps_section :: "nat option"
  ps_mem :: "bool list"

definition config_add_section :: "string \<Rightarrow> parse_state \<Rightarrow> parse_state" where
  "config_add_section name ps =
     (let (ok, mem) = take_mem (ps_mem ps) in
      if ok then ps\<lparr>ps_sections := ps_sections ps @ [\<lparr>cs_name = name, cs_entries = []\<rparr>], ps_section := Some (length (ps_sections ps)), ps_mem := mem\<rparr>
      else ps\<lparr>ps_section := None, ps_mem := mem\<rparr>)"

definition section_add_entry :: "nat \<Rightarrow> string \<Rightarrow> string \<Rightarrow> parse_state \<Rightarrow> parse_state" where
  "section_add_entry i key v ps =
     (let (ok, mem) = take_mem (ps_mem ps) in
      if ok then ps\<lparr>ps_sections := (ps_sections ps)[i := (ps_sections ps ! i)\<lparr>cs_entries := cs_entries (ps_sections ps ! i) @ [\<lparr>ce_key = key, ce_value = v\<rparr>]\<rparr>],
          ps_mem := mem\<rparr>
      else ps\<lparr>ps_mem := mem\<rparr>)"

text \<open>\<open>fgets\<close>: up to and including a newline, at most 511 characters.\<close>

fun fgets :: "nat \<Rightarrow> string \<Rightarrow> string \<times> string" where
  "fgets 0 s = ([], s)"
| "fgets (Suc n) [] = ([], [])"
| "fgets (Suc n) (c # s) = (if c = CHR 0x0A then ([c], s) else (let (l, r) = fgets n s in (c # l, r)))"

lemma fgets_append: "fgets n s = (l, r) \<Longrightarrow> s = l @ r"
  by (induction n s arbitrary: l r rule: fgets.induct) (auto split: if_splits prod.splits)

lemma fgets_progress: "0 < n \<Longrightarrow> s \<noteq> [] \<Longrightarrow> fst (fgets n s) \<noteq> []"
  by (cases n; cases s) (auto split: prod.splits)

text \<open>The C string in the buffer.\<close>

definition cstr :: "string \<Rightarrow> string" where
  "cstr s = takeWhile (\<lambda>c. c \<noteq> CHR 0x00) s"

definition trim_end :: "string \<Rightarrow> string" where
  "trim_end s = rev (dropWhile isspace (rev s))"

text \<open>One line; \<open>None\<close> when it is malformed.\<close>

definition parse_line :: "string \<Rightarrow> parse_state \<Rightarrow> parse_state option" where
  "parse_line line ps =
     (if line \<noteq> [] \<and> (hd line = CHR ''#'' \<or> hd line = CHR 0x0A) then Some ps
      else if line \<noteq> [] \<and> hd line = CHR ''['' then
        (let name = takeWhile (\<lambda>c. c \<noteq> CHR '']'') (tl line);
             p = dropWhile (\<lambda>c. c \<noteq> CHR '']'') (tl line)
         in if length p < 2 \<or> p ! 1 \<noteq> CHR 0x0A then None else Some (config_add_section name ps))
      else
        (let key = takeWhile (\<lambda>c. c \<noteq> CHR ''='') line;
             p = dropWhile (\<lambda>c. c \<noteq> CHR ''='') line
         in (case ps_section ps of
               None \<Rightarrow> None
             | Some i \<Rightarrow>
                 if p = [] \<or> key = [] then None
                 else Some (section_add_entry i key (trim_end (dropWhile isspace (tl p))) ps))))"

function parse_lines :: "string \<Rightarrow> parse_state \<Rightarrow> parse_state option" where
  "parse_lines s ps =
     (if s = [] then Some ps
      else (let (l, r) = fgets 511 s in case parse_line (cstr l) ps of None \<Rightarrow> None | Some ps \<Rightarrow> parse_lines r ps))"
  by auto
termination
proof (relation "measure (\<lambda>(s, ps). length s)")
  fix s :: string and ps ps' :: parse_state and x l r
  assume a: "s \<noteq> []" "x = fgets 511 s" "(l, r) = x"
  then have "s = l @ r" "l \<noteq> []" using fgets_append [of 511 s l r] fgets_progress [of 511 s] by (auto dest: sym)
  then show "((r, ps'), (s, ps)) \<in> measure (\<lambda>(s, ps). length s)" by auto
qed simp

declare parse_lines.simps [simp del]

definition weston_config_parse_internal :: "string \<Rightarrow> bool list \<Rightarrow> weston_config_section list option" where
  "weston_config_parse_internal content mem =
     map_option ps_sections (parse_lines content \<lparr>ps_sections = [], ps_section = None, ps_mem = mem\<rparr>)"

definition weston_config_parse_fp :: "bool \<Rightarrow> string \<Rightarrow> bool list \<Rightarrow> weston_config option" where
  "weston_config_parse_fp zalloc_ok content mem =
     (if \<not> zalloc_ok then None
      else map_option (\<lambda>ss. \<lparr>wc_sections = ss, wc_path = []\<rparr>) (weston_config_parse_internal content mem))"

definition weston_config_parse :: "env \<Rightarrow> bool \<Rightarrow> bool \<Rightarrow> string \<Rightarrow> bool list \<Rightarrow> weston_config option" where
  "weston_config_parse e zalloc_ok fdopen_ok name mem =
     (if \<not> zalloc_ok then None
      else (case open_config_file e name of
              None \<Rightarrow> None
            | Some (path, Other_file) \<Rightarrow> None
            | Some (path, Regular content) \<Rightarrow>
                if \<not> fdopen_ok then None
                else map_option (\<lambda>ss. \<lparr>wc_sections = ss, wc_path = path\<rparr>) (weston_config_parse_internal content mem)))"

definition weston_config_get_full_path :: "weston_config option \<Rightarrow> string option" where
  "weston_config_get_full_path config = map_option wc_path config"

text \<open>The result, the section stored through the pointer -- \<open>None\<close> for the list head -- and the name.\<close>

definition weston_config_next_section :: "weston_config option \<Rightarrow> nat option \<Rightarrow> int \<times> nat option \<times> string option" where
  "weston_config_next_section config section =
     (case config of
        None \<Rightarrow> (0, section, None)
      | Some c \<Rightarrow>
          (let i = (case section of None \<Rightarrow> 0 | Some i \<Rightarrow> Suc i)
           in if i \<ge> length (wc_sections c) then (0, None, None) else (1, Some i, Some (cs_name (wc_sections c ! i)))))"

abbreviation (input) MODIFIER_CTRL :: u32 where "MODIFIER_CTRL \<equiv> 1"
abbreviation (input) MODIFIER_ALT :: u32 where "MODIFIER_ALT \<equiv> 2"
abbreviation (input) MODIFIER_SUPER :: u32 where "MODIFIER_SUPER \<equiv> 4"
abbreviation (input) MODIFIER_SHIFT :: u32 where "MODIFIER_SHIFT \<equiv> 8"

definition weston_config_get_binding_modifier :: "weston_config option \<Rightarrow> u32 \<Rightarrow> u32" where
  "weston_config_get_binding_modifier config default_mod =
     (let shell_section = (if config \<noteq> None then weston_config_get_section config ''shell'' None else None);
          mod_string = (if shell_section \<noteq> None
                        then fst (snd (weston_config_section_get_string shell_section ''binding-modifier'' (Some ''super''))) else None)
      in (case mod_string of
            None \<Rightarrow> default_mod
          | Some m \<Rightarrow>
              if m = ''super'' then MODIFIER_SUPER else if m = ''alt'' then MODIFIER_ALT else if m = ''ctrl'' then MODIFIER_CTRL
              else if m = ''shift'' then MODIFIER_SHIFT else if m = ''none'' then 0 else default_mod))"

subsection \<open>What is written is read back\<close>

abbreviation newline :: char where "newline \<equiv> CHR 0x0A"

definition plain :: "string \<Rightarrow> bool" where
  "plain l \<longleftrightarrow> newline \<notin> set l \<and> CHR 0x00 \<notin> set l"

definition comment :: "string \<Rightarrow> bool" where
  "comment l \<longleftrightarrow> l = [] \<or> hd l = CHR ''#''"

definition unlines :: "string list \<Rightarrow> string" where
  "unlines ls = concat (map (\<lambda>l. l @ [newline]) ls)"

definition header_line :: "string \<Rightarrow> string" where
  "header_line name = ''['' @ name @ '']''"

definition entry_line :: "weston_config_entry \<Rightarrow> string" where
  "entry_line e = ce_key e @ ''='' @ ce_value e"

definition section_lines :: "weston_config_section \<Rightarrow> string list" where
  "section_lines s = header_line (cs_name s) # map entry_line (cs_entries s)"

definition entry_ok :: "weston_config_entry \<Rightarrow> bool" where
  "entry_ok e \<longleftrightarrow> ce_key e \<noteq> [] \<and> CHR ''='' \<notin> set (ce_key e) \<and> hd (ce_key e) \<notin> {CHR ''#'', CHR ''['', newline} \<and>
     (ce_value e \<noteq> [] \<longrightarrow> \<not> isspace (hd (ce_value e)) \<and> \<not> isspace (last (ce_value e)))"

definition section_ok :: "weston_config_section \<Rightarrow> bool" where
  "section_ok s \<longleftrightarrow> CHR '']'' \<notin> set (cs_name s) \<and> list_all entry_ok (cs_entries s)"

fun plines :: "string list \<Rightarrow> parse_state \<Rightarrow> parse_state option" where
  "plines [] ps = Some ps"
| "plines (l # ls) ps = (case parse_line (l @ [newline]) ps of None \<Rightarrow> None | Some ps \<Rightarrow> plines ls ps)"

lemma fgets_line: "newline \<notin> set l \<Longrightarrow> length l < n \<Longrightarrow> fgets n (l @ newline # r) = (l @ [newline], r)"
proof (induction l arbitrary: n)
  case Nil
  then show ?case by (cases n) auto
next
  case (Cons c l)
  then show ?case by (cases n) auto
qed

lemma cstr_plain: "plain l \<Longrightarrow> cstr (l @ [newline]) = l @ [newline]"
  unfolding cstr_def plain_def by (subst takeWhile_append2) auto

lemma parse_unlines: "list_all (\<lambda>l. plain l \<and> length l \<le> 510) ls \<Longrightarrow> parse_lines (unlines ls) ps = plines ls ps"
proof (induction ls arbitrary: ps)
  case Nil
  then show ?case by (simp add: unlines_def parse_lines.simps [of "[]"])
next
  case (Cons l ls)
  have u: "unlines (l # ls) = l @ newline # unlines ls" by (simp add: unlines_def)
  have "fgets 511 (l @ newline # unlines ls) = (l @ [newline], unlines ls)" using Cons.prems by (intro fgets_line) (simp_all add: plain_def)
  then show ?case using Cons.prems cstr_plain [of l] by (simp add: u parse_lines.simps [of "l @ newline # unlines ls"] Cons.IH split: option.split)
qed

lemma plines_comments: "plines ls ps = plines (filter (\<lambda>l. \<not> comment l) ls) ps"
proof (induction ls arbitrary: ps)
  case (Cons l ls)
  show ?case
  proof (cases "comment l")
    case True
    then have "parse_line (l @ [newline]) ps = Some ps" by (cases l) (auto simp: parse_line_def comment_def)
    then show ?thesis using True Cons by simp
  next
    case False
    then show ?thesis using Cons by (simp split: option.split)
  qed
qed simp

lemma plines_append: "plines (ls @ ms) ps = (case plines ls ps of None \<Rightarrow> None | Some ps \<Rightarrow> plines ms ps)"
  by (induction ls arbitrary: ps) (simp_all split: option.split)

lemma strchr_append:
  assumes "c \<notin> set s"
  shows "takeWhile (\<lambda>x. x \<noteq> c) (s @ c # r) = s" "dropWhile (\<lambda>x. x \<noteq> c) (s @ c # r) = c # r"
  using assms by (induction s) auto

lemma parse_header:
  assumes "CHR '']'' \<notin> set name"
  shows "parse_line (header_line name @ [newline]) ps = Some (config_add_section name ps)"
  using assms by (simp add: parse_line_def header_line_def strchr_append Let_def)

lemma trim_value:
  assumes "v \<noteq> [] \<longrightarrow> \<not> isspace (hd v) \<and> \<not> isspace (last v)"
  shows "trim_end (dropWhile isspace (v @ [newline])) = v"
proof (cases v rule: rev_cases)
  case Nil
  then show ?thesis by (simp add: trim_end_def isspace_def)
next
  case (snoc u c)
  then have "\<not> isspace (hd v)" "v \<noteq> []" using assms by auto
  then have "dropWhile isspace (v @ [newline]) = v @ [newline]" by (cases v) auto
  moreover have "isspace newline" by (simp add: isspace_def)
  ultimately show ?thesis using snoc assms by (simp add: trim_end_def)
qed

lemma parse_entry:
  assumes "entry_ok e" and "ps_section ps = Some i"
  shows "parse_line (entry_line e @ [newline]) ps = Some (section_add_entry i (ce_key e) (ce_value e) ps)"
proof -
  have k: "ce_key e \<noteq> []" "CHR ''='' \<notin> set (ce_key e)" "hd (ce_key e) \<notin> {CHR ''#'', CHR ''['', newline}" using assms(1) by (simp_all add: entry_ok_def)
  have t: "takeWhile (\<lambda>c. c \<noteq> CHR ''='') (entry_line e @ [newline]) = ce_key e"
    "dropWhile (\<lambda>c. c \<noteq> CHR ''='') (entry_line e @ [newline]) = CHR ''='' # ce_value e @ [newline]"
    using k(2) by (simp_all add: entry_line_def strchr_append)
  have h: "hd (entry_line e @ [newline]) = hd (ce_key e)" using k(1) by (simp add: entry_line_def)
  show ?thesis using k h assms trim_value [of "ce_value e"] unfolding parse_line_def t by (auto simp: entry_ok_def)
qed

lemma plines_entries:
  assumes "list_all entry_ok es" and "ps = \<lparr>ps_sections = S @ [\<lparr>cs_name = n, cs_entries = es0\<rparr>], ps_section = Some (length S), ps_mem = []\<rparr>"
  shows "plines (map entry_line es) ps = Some \<lparr>ps_sections = S @ [\<lparr>cs_name = n, cs_entries = es0 @ es\<rparr>], ps_section = Some (length S), ps_mem = []\<rparr>"
  using assms
proof (induction es arbitrary: ps es0)
  case (Cons e es)
  have "section_add_entry (length S) (ce_key e) (ce_value e) ps =
      \<lparr>ps_sections = S @ [\<lparr>cs_name = n, cs_entries = es0 @ [e]\<rparr>], ps_section = Some (length S), ps_mem = []\<rparr>"
    by (simp add: Cons.prems(2) section_add_entry_def take_mem_def)
  then show ?case using Cons.prems parse_entry [of e ps "length S"] Cons.IH [OF _ refl, of "es0 @ [e]"] by simp
qed simp

lemma plines_sections:
  assumes "list_all section_ok ss" and "ps_mem ps = []"
  shows "\<exists>cur. plines (concat (map section_lines ss)) ps = Some \<lparr>ps_sections = ps_sections ps @ ss, ps_section = cur, ps_mem = []\<rparr>"
  using assms
proof (induction ss arbitrary: ps)
  case Nil
  then show ?case by (cases ps) simp
next
  case (Cons s ss)
  have ok: "CHR '']'' \<notin> set (cs_name s)" "list_all entry_ok (cs_entries s)" using Cons.prems by (simp_all add: section_ok_def)
  let ?ps = "\<lparr>ps_sections = ps_sections ps @ [\<lparr>cs_name = cs_name s, cs_entries = []\<rparr>], ps_section = Some (length (ps_sections ps)), ps_mem = []\<rparr>"
  have "config_add_section (cs_name s) ps = ?ps" using Cons.prems(2) by (cases ps) (simp add: config_add_section_def take_mem_def)
  then have "plines (section_lines s) ps =
      Some \<lparr>ps_sections = ps_sections ps @ [s], ps_section = Some (length (ps_sections ps)), ps_mem = []\<rparr>"
    using parse_header [OF ok(1), of ps] plines_entries [OF ok(2) refl, of "ps_sections ps" "cs_name s" "[]"] by (simp add: section_lines_def)
  then show ?case using Cons.IH [of "\<lparr>ps_sections = ps_sections ps @ [s], ps_section = Some (length (ps_sections ps)), ps_mem = []\<rparr>"] Cons.prems(1)
    by (simp add: plines_append)
qed

text \<open>
  C21. A configuration that is written out line by line -- headers, entries, and comment and empty lines anywhere
  between them -- is read back as it was: the sections in order, with all their entries in order, keys
  and values unchanged, when no line exceeds the buffer, names and keys do not contain what ends them,
  and values do not begin or end with white space.
\<close>

theorem config_roundtrip:
  assumes "list_all section_ok ss" and "filter (\<lambda>l. \<not> comment l) ls = concat (map section_lines ss)"
    and "list_all (\<lambda>l. plain l \<and> length l \<le> 510) ls"
  shows "weston_config_parse_internal (unlines ls) [] = Some ss"
  using plines_sections [OF assms(1), of "\<lparr>ps_sections = [], ps_section = None, ps_mem = []\<rparr>"]
    parse_unlines [OF assms(3)] plines_comments [of ls] assms(2) by (auto simp: weston_config_parse_internal_def)

theorem config_roundtrip_witness:
  "weston_config_parse_internal (unlines [''# the shell'', ''[shell]'', [], ''panel=none'', ''[core]'']) [] =
     Some [\<lparr>cs_name = ''shell'', cs_entries = [\<lparr>ce_key = ''panel'', ce_value = ''none''\<rparr>]\<rparr>, \<lparr>cs_name = ''core'', cs_entries = []\<rparr>]"
  by (rule config_roundtrip) code_simp+

subsection \<open>Properties of the getters\<close>

lemma dec_head:
  assumes "0 < n"
  shows "hd (dec n) \<noteq> CHR ''0''"
  using assms
proof (induction n rule: dec.induct)
  case (1 n)
  have z: "digit_char d \<noteq> CHR ''0''" if "0 < d" "d < 10" for d
  proof
    assume "digit_char d = CHR ''0''"
    then have "digit_val (digit_char d) = digit_val CHR ''0''" by simp
    moreover have "digit_val CHR ''0'' = 0" by code_simp
    ultimately show False using digit_char_props [OF that(2)] that(1) by simp
  qed
  show ?case
  proof (cases "n < 10")
    case True
    then show ?thesis using z "1.prems" by (simp add: dec.simps [of n])
  next
    case False
    then show ?thesis using "1.IH" dec_nonempty [of "n div 10"] by (simp add: dec.simps [of n])
  qed
qed

lemma strtol_dec: "int n \<le> LONG_MAX \<Longrightarrow> strtol (dec n) 0 = (int n, [], False)"
proof -
  assume n: "int n \<le> LONG_MAX"
  show ?thesis
  proof (cases "n = 0")
    case True
    have "strtol (dec 0) 0 = (0, [], False)" by code_simp
    then show ?thesis using True by simp
  next
    case False
    have h: "hd (dec n) \<noteq> CHR ''0''" using dec_head False by simp
    then have "strip_base 0 (dec n) = strip_base 10 (dec n)" by (cases "dec n") (simp_all add: strip_base_def)
    moreover have "strip_sign (dropWhile isspace (dec n)) = (False, dec n)"
      using dec_first [of n] by (auto simp: strip_sign_def)
    ultimately have "scan_number 0 (dec n) = scan_number 10 (dec n)" by (simp add: scan_number_def)
    then show ?thesis using n by (simp add: strtol_def scan_dec)
  qed
qed

text \<open>
  Integers: a signed value written in decimal is read back exactly when it fits into 32 bits, and an unsigned
  one when it is at most \<open>INT_MAX\<close>, although the result is a \<open>uint32_t\<close>: the upper half of the
  type cannot be configured and gives the default with \<open>ERANGE\<close>.
\<close>

theorem config_numbers:
  assumes "config_section_get_entry section key = Some e"
  shows "(ce_value e = dec_int i \<longrightarrow>
       weston_config_section_get_int section key d = (if -(2 ^ 31) \<le> i \<and> i < 2 ^ 31 then (0, i, None) else (-1, d, Some ERANGE))) \<and>
     (ce_value e = dec n \<and> n < 2 ^ 63 \<longrightarrow>
       weston_config_section_get_uint section key u = (if n < 2 ^ 31 then (0, of_nat n, None) else (-1, u, Some ERANGE)))"
proof (intro conjI impI)
  assume "ce_value e = dec_int i"
  then show "weston_config_section_get_int section key d = (if -(2 ^ 31) \<le> i \<and> i < 2 ^ 31 then (0, i, None) else (-1, d, Some ERANGE))"
    using assms safe_strtoint_dec [of i] by (simp add: weston_config_section_get_int_def)
next
  assume "ce_value e = dec n \<and> n < 2 ^ 63"
  then have v: "ce_value e = dec n" and n: "int n \<le> LONG_MAX" by simp_all
  then show "weston_config_section_get_uint section key u = (if n < 2 ^ 31 then (0, of_nat n, None) else (-1, u, Some ERANGE))"
    using assms strtol_dec [OF n] dec_nonempty [of n] by (auto simp: weston_config_section_get_uint_def)
qed

theorem config_numbers_witness:
  "weston_config_section_get_int (Some \<lparr>cs_name = ''s'', cs_entries = [\<lparr>ce_key = ''k'', ce_value = ''-7''\<rparr>]\<rparr>) ''k'' 5 = (0, -7, None)"
proof -
  have "config_section_get_entry (Some \<lparr>cs_name = ''s'', cs_entries = [\<lparr>ce_key = ''k'', ce_value = ''-7''\<rparr>]\<rparr>) ''k'' = Some \<lparr>ce_key = ''k'', ce_value = ''-7''\<rparr>"
    by (simp add: config_section_get_entry_def)
  moreover have "dec_int (-7) = ''-7''" by code_simp
  ultimately show ?thesis using config_numbers [of _ "''k''" _ "-7" 5] by simp
qed

text \<open>
  Whatever the value of an entry is, a getter that does not return 0 stores the default and says why in
  \<open>errno\<close>, and one that returns 0 stores a value of its range: \<open>ENOENT\<close> is used only when there is no
  such entry.
\<close>

theorem config_getters_default:
  "(case weston_config_section_get_int section key d of
      (r, v, err) \<Rightarrow> if r = 0 then err = None \<and> -(2 ^ 31) \<le> v \<and> v < 2 ^ 31
        else r = -1 \<and> v = d \<and> (err = Some ENOENT) = (config_section_get_entry section key = None) \<and> err \<noteq> None) \<and>
   (case weston_config_section_get_uint section key u of
      (r, v, err) \<Rightarrow> if r = 0 then err = None \<and> v < 2 ^ 31
        else r = -1 \<and> v = u \<and> (err = Some ENOENT) = (config_section_get_entry section key = None) \<and> err \<noteq> None) \<and>
   (case weston_config_section_get_bool section key b of
      (r, v, err) \<Rightarrow> if r = 0 then err = None
        else r = -1 \<and> v = b \<and> (err = Some ENOENT) = (config_section_get_entry section key = None) \<and> err \<noteq> None)"
proof (intro conjI)
  have s: "case safe_strtoint x of Inl e \<Rightarrow> e \<noteq> ENOENT | Inr v \<Rightarrow> -(2 ^ 31) \<le> v \<and> v < 2 ^ 31" for x
  proof -
    obtain v e r where l: "strtol x 10 = (v, e, r)" by (metis prod_cases3)
    have "0 \<le> v mod 2 ^ 32" "v mod 2 ^ 32 < 2 ^ 32" by simp_all
    then show ?thesis using l by (auto simp: safe_strtoint_def split: if_splits)
  qed
  show "case weston_config_section_get_int section key d of
      (r, v, err) \<Rightarrow> if r = 0 then err = None \<and> -(2 ^ 31) \<le> v \<and> v < 2 ^ 31
        else r = -1 \<and> v = d \<and> (err = Some ENOENT) = (config_section_get_entry section key = None) \<and> err \<noteq> None"
  proof (cases "config_section_get_entry section key")
    case (Some e)
    then show ?thesis using s [of "ce_value e"] by (simp add: weston_config_section_get_int_def split: sum.splits)
  qed (simp add: weston_config_section_get_int_def)
  show "case weston_config_section_get_uint section key u of
      (r, v, err) \<Rightarrow> if r = 0 then err = None \<and> v < 2 ^ 31
        else r = -1 \<and> v = u \<and> (err = Some ENOENT) = (config_section_get_entry section key = None) \<and> err \<noteq> None"
  proof (cases "config_section_get_entry section key")
    case (Some e)
    obtain v x r where l: "strtol (ce_value e) 0 = (v, x, r)" by (metis prod_cases3)
    have "word_of_int v < (2 ^ 31 :: u32)" if "0 \<le> v" "v \<le> 2147483647"
    proof -
      have "uint (word_of_int v :: u32) = v" using that by (simp add: uint_word_of_int_eq take_bit_int_eq_self)
      then show ?thesis using that by (simp add: word_less_def)
    qed
    then show ?thesis using Some l by (auto simp: weston_config_section_get_uint_def)
  qed (simp add: weston_config_section_get_uint_def)
  show "case weston_config_section_get_bool section key b of
      (r, v, err) \<Rightarrow> if r = 0 then err = None
        else r = -1 \<and> v = b \<and> (err = Some ENOENT) = (config_section_get_entry section key = None) \<and> err \<noteq> None"
    by (auto simp: weston_config_section_get_bool_def split: option.splits)
qed

text \<open>
  An empty value is not a number for \<open>weston_config_section_get_int\<close> but is one for
  \<open>weston_config_section_get_double\<close>, which looks only at the end pointer: where \<open>strtod\<close> converts
  nothing, and so gives zero and the start of the string, the value zero is returned as if it were configured.
\<close>

theorem empty_double_accepted:
  assumes "config_section_get_entry section key = Some e" and "ce_value e = []" and "strtod [] = (zero, [])"
  shows "weston_config_section_get_double strtod section key d = (0, zero, None) \<and>
    weston_config_section_get_int section key i = (-1, i, Some EINVAL)"
proof -
  have "safe_strtoint [] = Inl EINVAL" by code_simp
  then show ?thesis using assms by (simp add: weston_config_section_get_double_def weston_config_section_get_int_def)
qed

theorem empty_double_accepted_witness:
  "weston_config_section_get_double (\<lambda>s. (0 :: int, s)) (Some \<lparr>cs_name = ''s'', cs_entries = [\<lparr>ce_key = ''k'', ce_value = []\<rparr>]\<rparr>) ''k'' 7 = (0, 0, None)"
  using empty_double_accepted [of "Some \<lparr>cs_name = ''s'', cs_entries = [\<lparr>ce_key = ''k'', ce_value = []\<rparr>]\<rparr>" "''k''" "\<lparr>ce_key = ''k'', ce_value = []\<rparr>" "\<lambda>s. (0 :: int, s)" 0 7]
  by (simp add: config_section_get_entry_def)

text \<open>
  Finding the file: the first path that opens is used, in the order \<open>$XDG_CONFIG_HOME\<close>, \<open>$HOME/.config\<close>,
  each directory of \<open>$XDG_CONFIG_DIRS\<close> (or \<open>/etc/xdg\<close>); a name that starts with a slash is opened as
  it is; and the path that the configuration reports is the one that was read.
\<close>

theorem config_file_precedence:
  assumes "weston_config_parse e zok fok name mem = Some c"
  shows "\<exists>content path. weston_config_parse_internal content mem = Some (wc_sections c) \<and> wc_path c = path_buf path \<and> files e path = Some (Regular content) \<and>
    (if name \<noteq> [] \<and> hd name = CHR ''/'' then path = name
     else \<exists>before after. config_paths e name = before @ path # after \<and> (\<forall>p \<in> set before. files e p = None))"
proof -
  obtain path content where o: "open_config_file e name = Some (path, Regular content)" "weston_config_parse_internal content mem = Some (wc_sections c)"
    "wc_path c = path" using assms by (auto simp: weston_config_parse_def split: option.splits if_splits config_file.splits)
  show ?thesis
  proof (cases "name \<noteq> [] \<and> hd name = CHR ''/''")
    case True
    then show ?thesis using o by (auto simp: open_config_file_def)
  next
    case False
    have dirs: "\<forall>q \<in> set (config_dirs_paths ds name). path_buf q = q" for ds
      by (induction ds name rule: config_dirs_paths.induct) (subst config_dirs_paths.simps, auto simp: path_buf_def Let_def)
    then have pb: "\<forall>q \<in> set (config_paths e name). path_buf q = q"
      unfolding config_paths_def by (auto simp: path_buf_def split: option.splits)
    have f: "List.find (\<lambda>p. files e p \<noteq> None) (config_paths e name) = Some path" "files e path = Some (Regular content)"
      using o(1) False by (auto simp: open_config_file_def split: option.splits if_splits)
    then obtain i where i: "i < length (config_paths e name)" "config_paths e name ! i = path" "\<forall>j < i. files e (config_paths e name ! j) = None"
      by (auto simp: find_Some_iff)
    have "config_paths e name = take i (config_paths e name) @ path # drop (Suc i) (config_paths e name)" using i id_take_nth_drop by blast
    moreover have "\<forall>p \<in> set (take i (config_paths e name)). files e p = None" using i by (auto simp: in_set_conv_nth)
    moreover have "path_buf path = path" using pb i nth_mem by blast
    ultimately show ?thesis using f(2) o False by metis
  qed
qed

theorem config_file_precedence_witness:
  "\<exists>c. weston_config_parse \<lparr>XDG_CONFIG_HOME = Some ''/x'', HOME = None, XDG_CONFIG_DIRS = None, WESTON_CONFIG_FILE = None,
      files = (\<lambda>p. if p = ''/etc/xdg/weston/w.ini'' then Some (Regular []) else None)\<rparr> True True ''w.ini'' [] = Some c \<and> wc_path c = ''/etc/xdg/weston/w.ini''"
proof -
  let ?e = "\<lparr>XDG_CONFIG_HOME = Some ''/x'', HOME = None, XDG_CONFIG_DIRS = None, WESTON_CONFIG_FILE = None,
      files = (\<lambda>p. if p = ''/etc/xdg/weston/w.ini'' then Some (Regular []) else None)\<rparr>"
  have "weston_config_parse ?e True True ''w.ini'' [] \<noteq> None" by code_simp
  then obtain c where c: "weston_config_parse ?e True True ''w.ini'' [] = Some c" by auto
  from config_file_precedence [OF this] obtain path where "wc_path c = path_buf path" "path = ''/etc/xdg/weston/w.ini''" by (auto split: if_splits)
  then show ?thesis using c by (simp add: path_buf_def)
qed

end
