(* ===== verification/Option_Parser.thy ===== *)
theory Option_Parser
  imports C_Strings "HOL-Library.Sublist"
begin

section \<open>Command-line options (\<open>shared/option-parser.c\<close>)\<close>

text \<open>
  \<open>parse_options\<close> takes the options it knows out of \<open>argv\<close>.  An option stores its value through its
  \<open>data\<close> pointer: a store maps each such address to a value.  A failed \<open>assert\<close> is the result \<open>None\<close>.
  \<open>long\<close> has 64 bits.  \<open>strdup\<close> and the array functions are assumed to find memory:
  \<open>weston_parse_space_separated_list\<close> aborts otherwise.
\<close>

subsection \<open>Data\<close>

datatype weston_option_type = WESTON_OPTION_INTEGER | WESTON_OPTION_UNSIGNED_INTEGER | WESTON_OPTION_STRING | WESTON_OPTION_BOOLEAN

record weston_option =
  o_type :: weston_option_type
  o_name :: "string option"
  o_short :: "char option"  \<comment> \<open>\<open>None\<close> is the character 0\<close>
  o_data :: nat

datatype optval = VInt int | VUint u32 | VStr string | VBool bool

type_synonym optstore = "nat \<Rightarrow> optval option"

subsection \<open>Single options\<close>

definition handle_option :: "weston_option \<Rightarrow> string \<Rightarrow> optstore \<Rightarrow> (bool \<times> optstore) option" where
  "handle_option opt v st =
     (case o_type opt of
        WESTON_OPTION_INTEGER \<Rightarrow>
          (case safe_strtoint v of Inl e \<Rightarrow> Some (False, st) | Inr n \<Rightarrow> Some (True, st(o_data opt \<mapsto> VInt n)))
      | WESTON_OPTION_UNSIGNED_INTEGER \<Rightarrow>
          (let (n, p, range) = strtoul v 10
           in Some (\<not> (range \<or> p = v \<or> p \<noteq> []), st(o_data opt \<mapsto> VUint (of_int n))))
      | WESTON_OPTION_STRING \<Rightarrow> Some (True, st(o_data opt \<mapsto> VStr v))
      | WESTON_OPTION_BOOLEAN \<Rightarrow> None)"

text \<open>Whether the name is a prefix of what follows the two dashes: \<open>strncmp (name, arg + 2, len) == 0\<close>.\<close>

definition name_matches :: "weston_option \<Rightarrow> string \<Rightarrow> bool" where
  "name_matches opt arg \<longleftrightarrow> (case o_name opt of None \<Rightarrow> False | Some n \<Rightarrow> prefix n (drop 2 arg))"

fun long_option :: "weston_option list \<Rightarrow> string \<Rightarrow> optstore \<Rightarrow> (bool \<times> optstore) option" where
  "long_option [] arg st = Some (False, st)"
| "long_option (opt # opts) arg st =
     (if \<not> name_matches opt arg then long_option opts arg st
      else (let rest = drop (length (the (o_name opt)) + 2) arg in
            if o_type opt = WESTON_OPTION_BOOLEAN then
              (if rest = [] then Some (True, st(o_data opt \<mapsto> VBool True)) else long_option opts arg st)
            else if rest \<noteq> [] \<and> hd rest = CHR ''='' then handle_option opt (tl rest) st
            else long_option opts arg st))"

fun long_option_with_arg :: "weston_option list \<Rightarrow> string \<Rightarrow> string \<Rightarrow> optstore \<Rightarrow> (bool \<times> optstore) option" where
  "long_option_with_arg [] arg param st = Some (False, st)"
| "long_option_with_arg (opt # opts) arg param st =
     (if \<not> name_matches opt arg then long_option_with_arg opts arg param st
      else if o_type opt = WESTON_OPTION_BOOLEAN then None
      else handle_option opt param st)"

fun short_loop :: "weston_option list \<Rightarrow> string \<Rightarrow> optstore \<Rightarrow> (bool \<times> optstore) option" where
  "short_loop [] arg st = Some (False, st)"
| "short_loop (opt # opts) arg st =
     (if o_short opt \<noteq> Some (arg ! 1) then short_loop opts arg st
      else if o_type opt = WESTON_OPTION_BOOLEAN then
        (if length arg = 2 then Some (True, st(o_data opt \<mapsto> VBool True)) else short_loop opts arg st)
      else if length arg > 2 then handle_option opt (drop 2 arg) st
      else Some (False, st))"

definition short_option :: "weston_option list \<Rightarrow> string \<Rightarrow> optstore \<Rightarrow> (bool \<times> optstore) option" where
  "short_option opts arg st = (if length arg < 2 then Some (False, st) else short_loop opts arg st)"

fun short_arg_loop :: "weston_option list \<Rightarrow> string \<Rightarrow> string \<Rightarrow> optstore \<Rightarrow> (bool \<times> optstore) option" where
  "short_arg_loop [] arg param st = Some (False, st)"
| "short_arg_loop (opt # opts) arg param st =
     (if o_short opt \<noteq> Some (arg ! 1) \<or> o_type opt = WESTON_OPTION_BOOLEAN then short_arg_loop opts arg param st
      else handle_option opt param st)"

definition short_option_with_arg :: "weston_option list \<Rightarrow> string \<Rightarrow> string \<Rightarrow> optstore \<Rightarrow> (bool \<times> optstore) option" where
  "short_option_with_arg opts arg param st = (if length arg < 2 then Some (False, st) else short_arg_loop opts arg param st)"

subsection \<open>The argument vector\<close>

definition is_long :: "string \<Rightarrow> bool" where
  "is_long arg \<longleftrightarrow> length arg \<ge> 2 \<and> arg ! 1 = CHR ''-''"

text \<open>
  The loop on the arguments from \<open>argv[i]\<close> on; \<open>kept\<close> is \<open>argv[1]\<close> to \<open>argv[j - 1]\<close>.  On \<open>--\<close> the same
  argument is visited again with \<open>ignore_options\<close> set.
\<close>

function options_loop :: "weston_option list \<Rightarrow> bool \<Rightarrow> string list \<Rightarrow> string list \<Rightarrow> optstore \<Rightarrow> (string list \<times> optstore) option" where
  "options_loop opts ignore [] kept st = Some (kept, st)"
| "options_loop opts ignore (arg # args) kept st =
     (if arg \<noteq> [] \<and> hd arg = CHR ''-'' \<and> \<not> ignore then
        (if is_long arg \<and> length arg = 2 then options_loop opts True (arg # args) kept st
         else
           (case (if is_long arg then long_option opts arg st else short_option opts arg st) of
              None \<Rightarrow> None
            | Some (True, st) \<Rightarrow> options_loop opts ignore args kept st
            | Some (False, st) \<Rightarrow>
                (case args of
                   [] \<Rightarrow> options_loop opts ignore args (kept @ [arg]) st
                 | param # rest \<Rightarrow>
                     (case (if is_long arg then long_option_with_arg opts arg param st else short_option_with_arg opts arg param st) of
                        None \<Rightarrow> None
                      | Some (True, st) \<Rightarrow> options_loop opts ignore rest kept st
                      | Some (False, st) \<Rightarrow> options_loop opts ignore args (kept @ [arg]) st))))
      else options_loop opts ignore args (kept @ [arg]) st)"
  by pat_completeness auto
termination
  by (relation "measures [\<lambda>(opts, ignore, args, kept, st). length args, \<lambda>(opts, ignore, args, kept, st). if ignore then 0 else 1]") auto

text \<open>The arguments that are left, \<open>argv[0]\<close> included, and their number.\<close>

definition parse_options :: "weston_option list \<Rightarrow> string list \<Rightarrow> optstore \<Rightarrow> (int \<times> string list \<times> optstore) option" where
  "parse_options opts argv st =
     (case options_loop opts False (tl argv) [] st of
        None \<Rightarrow> None
      | Some (kept, st) \<Rightarrow> Some (int (length kept) + 1, take 1 argv @ kept, st))"

subsection \<open>Splitting at white space\<close>

definition is_space_for_split :: "char \<Rightarrow> bool" where
  "is_space_for_split c \<longleftrightarrow> c = CHR '' '' \<or> c = CHR 0x09 \<or> c = CHR 0x0A \<or> c = CHR 0x0D"

function weston_parse_space_separated_list :: "string \<Rightarrow> string list" where
  "weston_parse_space_separated_list p =
     (if p = [] then []
      else (let item = takeWhile (\<lambda>c. \<not> is_space_for_split c) p;
                rest = dropWhile is_space_for_split (dropWhile (\<lambda>c. \<not> is_space_for_split c) p)
            in (if item \<noteq> [] then [item] else []) @ weston_parse_space_separated_list rest))"
  by auto
termination
proof (relation "measure length")
  fix p :: string and item rest
  assume "p \<noteq> []" "rest = dropWhile is_space_for_split (dropWhile (\<lambda>c. \<not> is_space_for_split c) p)"
  moreover have "length (dropWhile is_space_for_split (dropWhile (\<lambda>c. \<not> is_space_for_split c) (c # s))) < length (c # s)" for c s
    using length_dropWhile_le [of is_space_for_split "dropWhile (\<lambda>c. \<not> is_space_for_split c) s"]
      length_dropWhile_le [of "\<lambda>c. \<not> is_space_for_split c" s] length_dropWhile_le [of is_space_for_split s] by auto
  ultimately show "(rest, p) \<in> measure length" by (cases p) auto
qed simp

declare weston_parse_space_separated_list.simps [simp del]

subsection \<open>Properties\<close>

lemma options_loop_subseq:
  "options_loop opts ignore args kept st = Some (kept', st') \<Longrightarrow> \<exists>sub. kept' = kept @ sub \<and> subseq sub args"
proof (induction opts ignore args kept st rule: options_loop.induct)
  case (2 opts ignore arg args kept st)
  have keep: "\<exists>sub. kept' = kept @ sub \<and> subseq sub (arg # args)" if "\<exists>sub. kept' = (kept @ [arg]) @ sub \<and> subseq sub args"
    using that by (metis append.assoc append_Cons append_Nil subseq_Cons2)
  have skip: "\<exists>sub. kept' = kept @ sub \<and> subseq sub (arg # args)" if "\<exists>sub. kept' = kept @ sub \<and> subseq sub args"
    using that by (auto intro: list_emb_Cons)
  have skip2: "\<exists>sub. kept' = kept @ sub \<and> subseq sub (arg # param # rest)" if "\<exists>sub. kept' = kept @ sub \<and> subseq sub rest" for param rest
    using that by (auto intro: list_emb_Cons)
  show ?case
  proof (cases "arg \<noteq> [] \<and> hd arg = CHR ''-'' \<and> \<not> ignore")
    case False
    then have "options_loop opts ignore args (kept @ [arg]) st = Some (kept', st')" using "2.prems" by (subst (asm) options_loop.simps(2)) (simp only: if_False)
    then show ?thesis using "2.IH"(6) False keep by blast
  next
    case dash: True
    show ?thesis
    proof (cases "is_long arg \<and> length arg = 2")
      case True
      then show ?thesis using "2.IH"(1) dash "2.prems" by simp
    next
      case opt: False
      let ?o = "if is_long arg then long_option opts arg st else short_option opts arg st"
      obtain b st1 where o: "?o = Some (b, st1)" using "2.prems" dash opt by (auto split: option.splits)
      show ?thesis
      proof (cases b)
        case True
        then have "options_loop opts ignore args kept st1 = Some (kept', st')" using "2.prems" dash opt o by simp
        then show ?thesis using "2.IH" dash opt o True skip by metis
      next
        case nb: False
        show ?thesis
        proof (cases args)
          case Nil
          then have "options_loop opts ignore [] (kept @ [arg]) st1 = Some (kept', st')" using "2.prems" dash opt o nb by simp
          then show ?thesis by (auto simp: Nil intro: exI [of _ "[arg]"])
        next
          case (Cons param rest)
          let ?w = "if is_long arg then long_option_with_arg opts arg param st1 else short_option_with_arg opts arg param st1"
          obtain b2 st2 where w: "?w = Some (b2, st2)" using "2.prems" dash opt o nb Cons by (auto split: option.splits)
          show ?thesis
          proof (cases b2)
            case True
            then have "options_loop opts ignore rest kept st2 = Some (kept', st')" using "2.prems" dash opt o nb Cons w by simp
            then show ?thesis using "2.IH"(4) dash opt o nb Cons w True skip2 by auto
          next
            case False
            then have "options_loop opts ignore args (kept @ [arg]) st2 = Some (kept', st')" using "2.prems" dash opt o nb Cons w by simp
            then show ?thesis using "2.IH"(5) dash opt o nb Cons w False keep by auto
          qed
        qed
      qed
    qed
  qed
qed simp

text \<open>
  C22. \<open>parse_options\<close> only takes arguments out: what it leaves is \<open>argv[0]\<close> and a subsequence of the other
  arguments, in their order and unchanged, and the number it returns is their count.
\<close>

theorem parse_options_only_removes:
  assumes "parse_options opts (prog # args) st = Some (n, argv', st')"
  shows "n = int (length argv') \<and> subseq argv' (prog # args) \<and> hd argv' = prog"
proof -
  obtain kept where k: "options_loop opts False args [] st = Some (kept, st')" "n = int (length kept) + 1" "argv' = prog # kept"
    using assms by (auto simp: parse_options_def split: option.splits)
  then show ?thesis using options_loop_subseq [OF k(1)] by (auto simp: subseq_Cons2)
qed

definition demo_opts :: "weston_option list" where
  "demo_opts = [\<lparr>o_type = WESTON_OPTION_BOOLEAN, o_name = Some ''fullscreen'', o_short = None, o_data = 1\<rparr>,
     \<lparr>o_type = WESTON_OPTION_INTEGER, o_name = Some ''width'', o_short = Some CHR ''w'', o_data = 2\<rparr>]"

theorem parse_options_only_removes_witness:
  "\<exists>argv' st'. parse_options demo_opts [''weston'', ''--width=5'', ''x''] (\<lambda>_. None) = Some (2, argv', st') \<and> subseq argv' [''weston'', ''--width=5'', ''x'']"
proof -
  have "case parse_options demo_opts [''weston'', ''--width=5'', ''x''] (\<lambda>_. None) of Some (n, _) \<Rightarrow> n = 2 | None \<Rightarrow> False" by code_simp
  then obtain argv' st' where p: "parse_options demo_opts [''weston'', ''--width=5'', ''x''] (\<lambda>_. None) = Some (2, argv', st')"
    by (auto split: option.splits)
  show ?thesis using parse_options_only_removes [OF p] p by auto
qed

lemma options_loop_ignored: "options_loop opts True args kept st = Some (kept @ args, st)"
  by (induction args arbitrary: kept) auto

text \<open>
  Nothing from \<open>--\<close> on is interpreted: when the arguments before it are no options, all arguments, the
  \<open>--\<close> included, are left in place and no option value is written.
\<close>

theorem double_dash_ends_options:
  assumes "list_all (\<lambda>a. a = [] \<or> hd a \<noteq> CHR ''-'') pre"
  shows "parse_options opts (prog # pre @ ''--'' # post) st = Some (int (length pre + length post) + 2, prog # pre @ ''--'' # post, st)"
proof -
  have "options_loop opts False (pre @ ''--'' # post) kept st = Some (kept @ pre @ ''--'' # post, st)" for kept
    using assms
  proof (induction pre arbitrary: kept)
    case Nil
    then show ?case using options_loop_ignored [of opts "''--'' # post" kept st] by (simp add: is_long_def)
  qed auto
  then show ?thesis by (simp add: parse_options_def)
qed

theorem double_dash_ends_options_witness:
  "parse_options demo_opts [''weston'', ''x'', ''--'', ''--width=5''] (\<lambda>_. None) = Some (4, [''weston'', ''x'', ''--'', ''--width=5''], \<lambda>_. None)"
  using double_dash_ends_options [of "[''x'']" demo_opts "''weston''" "[''--width=5'']" "\<lambda>_. None"] by simp

text \<open>
  A mistyped flag aborts the program: an argument that extends the name of a boolean option, followed by
  any other argument, reaches the assertion that the comment in \<open>long_option_with_arg\<close> calls
  unreachable.
\<close>

theorem extended_flag_aborts:
  assumes "o_type opt = WESTON_OPTION_BOOLEAN" and "o_name opt = Some name" and "name \<noteq> []" and "ext \<noteq> []"
  shows "parse_options [opt] (prog # (''--'' @ name @ ext) # param # args) st = None"
proof -
  let ?a = "''--'' @ name @ ext"
  have m: "name_matches opt ?a" using assms(2) by (simp add: name_matches_def)
  have l: "is_long ?a" "length ?a \<noteq> 2" "hd ?a = CHR ''-''" using assms(3) by (simp_all add: is_long_def)
  have "long_option [opt] ?a st = Some (False, st)" using m assms by simp
  moreover have "long_option_with_arg [opt] ?a param st = None" using m assms(1) by simp
  ultimately have "options_loop [opt] False (?a # param # args) [] st = None" using l assms(3) by (subst options_loop.simps(2)) (simp del: long_option.simps long_option_with_arg.simps)
  then show ?thesis by (simp add: parse_options_def)
qed

theorem extended_flag_aborts_witness:
  "parse_options [\<lparr>o_type = WESTON_OPTION_BOOLEAN, o_name = Some ''fullscreen'', o_short = None, o_data = 1\<rparr>] [''weston'', ''--fullscreens'', ''x''] (\<lambda>_. None) = None"
  using extended_flag_aborts [of "\<lparr>o_type = WESTON_OPTION_BOOLEAN, o_name = Some ''fullscreen'', o_short = None, o_data = 1\<rparr>" "''fullscreen''" "''s''" "''weston''" "''x''" "[]" "\<lambda>_. None"]
  by simp

text \<open>
  Unsigned options are reduced modulo \<open>2 ^ 32\<close> without an error: any decimal number below \<open>2 ^ 64\<close> is
  accepted.
\<close>

theorem unsigned_option_wraps:
  assumes "o_type opt = WESTON_OPTION_UNSIGNED_INTEGER" and "n < 2 ^ 64"
  shows "handle_option opt (dec n) st = Some (True, st(o_data opt \<mapsto> VUint (of_nat (n mod 2 ^ 32))))"
proof -
  have "strtoul (dec n) 10 = (int n, [], False)" using assms(2) by (simp add: strtoul_def scan_dec)
  moreover have "(of_nat (n mod 2 ^ 32) :: u32) = of_nat n" by (rule word_of_nat_eq_iff [THEN iffD2]) (simp add: take_bit_eq_mod)
  ultimately show ?thesis using assms(1) dec_nonempty [of n] by (simp add: handle_option_def)
qed

theorem unsigned_option_wraps_witness:
  "handle_option \<lparr>o_type = WESTON_OPTION_UNSIGNED_INTEGER, o_name = None, o_short = None, o_data = 1\<rparr> (dec 4294967301) (\<lambda>_. None) = Some (True, [1 \<mapsto> VUint 5])"
  using unsigned_option_wraps [of "\<lparr>o_type = WESTON_OPTION_UNSIGNED_INTEGER, o_name = None, o_short = None, o_data = 1\<rparr>" 4294967301 "\<lambda>_. None"] by simp

definition word_ok :: "string \<Rightarrow> bool" where
  "word_ok i \<longleftrightarrow> i \<noteq> [] \<and> list_all (\<lambda>c. \<not> is_space_for_split c) i"

lemma split_item:
  assumes "word_ok i" and "list_all is_space_for_split sep" and "r = [] \<or> \<not> is_space_for_split (hd r)" and "sep = [] \<longrightarrow> r = []"
  shows "weston_parse_space_separated_list (i @ sep @ r) = i # weston_parse_space_separated_list r"
proof -
  have i: "\<forall>c \<in> set i. \<not> is_space_for_split c" "i \<noteq> []" using assms(1) by (simp_all add: word_ok_def list_all_iff)
  have s: "\<forall>c \<in> set sep. is_space_for_split c" using assms(2) by (simp add: list_all_iff)
  have t: "takeWhile (\<lambda>c. \<not> is_space_for_split c) (sep @ r) = []" "dropWhile (\<lambda>c. \<not> is_space_for_split c) (sep @ r) = sep @ r"
    using s assms(4) by (cases sep; simp)+
  have d: "dropWhile is_space_for_split (sep @ r) = r" using s assms(3) by (cases r) auto
  have "takeWhile (\<lambda>c. \<not> is_space_for_split c) (i @ sep @ r) = i" using i t by simp
  moreover have "dropWhile is_space_for_split (dropWhile (\<lambda>c. \<not> is_space_for_split c) (i @ sep @ r)) = r" using i t d by simp
  ultimately show ?thesis using i(2) by (subst weston_parse_space_separated_list.simps) simp
qed

text \<open>
  Splitting a list at white space: whatever runs of spaces, tabs and line ends separate, precede or follow
  the items, exactly the items come back, in order.
\<close>

theorem split_gives_items:
  assumes "list_all is_space_for_split lead" and "list_all (\<lambda>(i, sep). word_ok i \<and> sep \<noteq> [] \<and> list_all is_space_for_split sep) ps"
  shows "weston_parse_space_separated_list (lead @ concat (map (\<lambda>(i, sep). i @ sep) ps)) = map fst ps"
proof -
  let ?t = "\<lambda>ps. concat (map (\<lambda>(i, sep). i @ sep) ps)"
  have hd: "?t ps = [] \<or> \<not> is_space_for_split (hd (?t ps))" if "list_all (\<lambda>(i, sep). word_ok i \<and> sep \<noteq> [] \<and> list_all is_space_for_split sep) ps" for ps
    using that by (cases ps) (auto simp: word_ok_def neq_Nil_conv)
  have body: "weston_parse_space_separated_list (?t ps) = map fst ps" using assms(2)
  proof (induction ps)
    case Nil
    then show ?case by (simp add: weston_parse_space_separated_list.simps)
  next
    case (Cons p ps)
    obtain i sep where p: "p = (i, sep)" by fastforce
    show ?case using Cons split_item [of i sep "?t ps"] hd [of ps] by (simp add: p)
  qed
  show ?thesis
  proof (cases lead)
    case Nil
    then show ?thesis using body by simp
  next
    case (Cons c cs)
    have l: "\<forall>c \<in> set lead. is_space_for_split c" using assms(1) by (simp add: list_all_iff)
    have d: "dropWhile is_space_for_split x = x" if "x = [] \<or> \<not> is_space_for_split (hd x)" for x using that by (cases x) auto
    have "dropWhile is_space_for_split (lead @ ?t ps) = ?t ps" using l d [OF hd [OF assms(2)]] by simp
    moreover have "dropWhile (\<lambda>c. \<not> is_space_for_split c) (lead @ ?t ps) = lead @ ?t ps" "takeWhile (\<lambda>c. \<not> is_space_for_split c) (lead @ ?t ps) = []"
      using l Cons by simp_all
    ultimately show ?thesis using body Cons by (subst weston_parse_space_separated_list.simps) simp
  qed
qed

theorem split_gives_items_witness:
  "weston_parse_space_separated_list '' ab  c '' = [''ab'', ''c'']"
  using split_gives_items [of "'' ''" "[(''ab'', ''  ''), (''c'', '' '')]"] by (simp add: word_ok_def is_space_for_split_def)

end
