(* ===== verification/Id_Allocator.thy ===== *)
theory Id_Allocator
  imports Prelude
begin

section \<open>The compositor's id allocator and the color profiles that use it\<close>

text \<open>
  Models \<open>weston/libweston/id-number-allocator.c\<close> (all functions; the allocator keeps one bit per id
  in an array of 32-bit buckets) and, from \<open>weston/libweston/color.c\<close>, the part of a color
  profile's life that takes and returns ids (\<open>weston_color_profile_init\<close>, \<open>_ref\<close> and \<open>_unref\<close>).
  A failed assertion aborts the program and is the result \<open>Assert_failed\<close>; an access outside the
  bucket array, which C would not detect, is \<open>Out_of_bounds\<close>, and an object that is used after it was
  destroyed is \<open>Used_after_free\<close>. Memory allocation does not fail: the code allocates with \<open>xzalloc\<close>
  and \<open>xrealloc\<close>, which end the program when memory is exhausted.
\<close>

subsection \<open>The allocator\<close>

datatype ida_error = Assert_failed | Out_of_bounds | Used_after_free

record weston_idalloc =
  buckets :: "u32 list"
  num_buckets :: u32
  lowest_free_bucket :: u32

definition weston_idalloc_create :: weston_idalloc where
  "weston_idalloc_create =
     \<lparr> buckets = (replicate 2 0)[0 := 1], num_buckets = 2, lowest_free_bucket = 0 \<rparr>"

definition bucket_at :: "weston_idalloc \<Rightarrow> u32 \<Rightarrow> ida_error + u32" where
  "bucket_at ida i =
     (if unat i < length (buckets ida) then Inr (buckets ida ! unat i) else Inl Out_of_bounds)"

definition weston_idalloc_destroy :: "weston_idalloc \<Rightarrow> ida_error + unit" where
  "weston_idalloc_destroy ida =
     (case bucket_at ida 0 of
        Inl e \<Rightarrow> Inl e
      | Inr b \<Rightarrow> if b AND 1 \<noteq> 0 then Inr () else Inl Assert_failed)"

lemma unat_next:
  assumes "i < (n :: u32)"
  shows "unat (i + 1) = Suc (unat i)"
proof -
  from assms have "Suc (unat i) < 2 ^ 32"
    using unat_word_less [of n] by (simp add: word_less_nat_alt)
  then show ?thesis by (simp add: unat_word_ariths(1))
qed

function find_bucket :: "weston_idalloc \<Rightarrow> u32 \<Rightarrow> ida_error + u32 option" where
  "find_bucket ida i =
     (if i < num_buckets ida then
        (case bucket_at ida i of
           Inl e \<Rightarrow> Inl e
         | Inr b \<Rightarrow> if b = 0xffffffff then find_bucket ida (i + 1) else Inr (Some i))
      else Inr None)"
  by pat_completeness auto
termination
  by (relation "measure (\<lambda>(ida, i). unat (num_buckets ida) - unat i)")
    (auto simp: unat_next word_less_nat_alt intro!: diff_less_mono2)

declare find_bucket.simps [simp del]

definition add_buckets :: "weston_idalloc \<Rightarrow> ida_error + weston_idalloc" where
  "add_buckets ida =
     (let next_num = num_buckets ida * 2 in
      if next_num > num_buckets ida then
        Inr (ida\<lparr> buckets := buckets ida @ replicate (unat (next_num - num_buckets ida)) 0,
                  lowest_free_bucket := num_buckets ida,
                  num_buckets := next_num \<rparr>)
      else Inl Assert_failed)"

definition update_lowest_free_bucket :: "weston_idalloc \<Rightarrow> ida_error + weston_idalloc" where
  "update_lowest_free_bucket ida =
     (case find_bucket ida (lowest_free_bucket ida) of
        Inl e \<Rightarrow> Inl e
      | Inr (Some i) \<Rightarrow> Inr (ida\<lparr> lowest_free_bucket := i \<rparr>)
      | Inr None \<Rightarrow> add_buckets ida)"

function free_bit :: "u32 \<Rightarrow> nat \<Rightarrow> nat option" where
  "free_bit b i =
     (if i < 32 then if drop_bit i b AND 1 \<noteq> 0 then free_bit b (Suc i) else Some i else None)"
  by pat_completeness auto
termination
  by (relation "measure (\<lambda>(b, i). 32 - i)") auto

declare free_bit.simps [simp del]

definition take_id :: "weston_idalloc \<Rightarrow> u32 \<Rightarrow> nat \<Rightarrow> ida_error + (u32 \<times> weston_idalloc)" where
  "take_id ida b i =
     (let b' = b OR push_bit i 1;
          ida' = ida\<lparr> buckets := (buckets ida)[unat (lowest_free_bucket ida) := b'] \<rparr>;
          ident = 32 * lowest_free_bucket ida + of_nat i
      in if b' = 0xffffffff
         then (case update_lowest_free_bucket ida' of Inl e \<Rightarrow> Inl e | Inr ida'' \<Rightarrow> Inr (ident, ida''))
         else Inr (ident, ida'))"

definition weston_idalloc_get_id :: "weston_idalloc \<Rightarrow> ida_error + (u32 \<times> weston_idalloc)" where
  "weston_idalloc_get_id ida =
     (case bucket_at ida (lowest_free_bucket ida) of
        Inl e \<Rightarrow> Inl e
      | Inr b \<Rightarrow>
          if b = 0xffffffff then Inl Assert_failed
          else (case free_bit b 0 of None \<Rightarrow> Inl Assert_failed | Some i \<Rightarrow> take_id ida b i))"

definition weston_idalloc_put_id :: "weston_idalloc \<Rightarrow> u32 \<Rightarrow> ida_error + weston_idalloc" where
  "weston_idalloc_put_id ida ident =
     (let bucket_index = ident div 32;
          id_index_on_bucket = unat (ident mod 32)
      in if ident = 0 then Inl Assert_failed
         else if \<not> bucket_index < num_buckets ida then Inl Assert_failed
         else (case bucket_at ida bucket_index of
                 Inl e \<Rightarrow> Inl e
               | Inr b \<Rightarrow>
                   if drop_bit id_index_on_bucket b AND 1 = 0 then Inl Assert_failed
                   else let ida' = (if bucket_index < lowest_free_bucket ida
                                    then ida\<lparr> lowest_free_bucket := bucket_index \<rparr> else ida)
                        in Inr (ida'\<lparr> buckets := (buckets ida')[unat bucket_index :=
                                                    b AND NOT (push_bit id_index_on_bucket 1)] \<rparr>)))"

subsection \<open>What the array stands for\<close>

text \<open>
  The set of the ids that are taken, and the well-formedness of the allocator: the array has
  \<open>num_buckets\<close> entries, a power of two of them, the buckets before \<open>lowest_free_bucket\<close> are full and
  that one is not, and id 0 is taken. At most \<open>2 ^ 27\<close> buckets: more would hold ids of more than 32
  bits.
\<close>

definition taken :: "weston_idalloc \<Rightarrow> nat set" where
  "taken ida = {n. n div 32 < length (buckets ida) \<and> bit (buckets ida ! (n div 32)) (n mod 32)}"

definition idalloc_inv :: "weston_idalloc \<Rightarrow> bool" where
  "idalloc_inv ida \<longleftrightarrow>
     (\<exists>k \<le> 27. length (buckets ida) = 2 ^ k) \<and>
     unat (num_buckets ida) = length (buckets ida) \<and>
     unat (lowest_free_bucket ida) < length (buckets ida) \<and>
     buckets ida ! unat (lowest_free_bucket ida) \<noteq> 0xffffffff \<and>
     (\<forall>i < unat (lowest_free_bucket ida). buckets ida ! i = 0xffffffff) \<and>
     0 \<in> taken ida"

lemma full_bucket_iff: "b = (0xffffffff :: u32) \<longleftrightarrow> (\<forall>i < 32. bit b i)"
proof
  have m: "(0xffffffff :: u32) = - 1" by simp
  show "b = 0xffffffff \<Longrightarrow> \<forall>i<32. bit b i" by (simp add: m)
  show "\<forall>i<32. bit b i \<Longrightarrow> b = 0xffffffff"
    unfolding m by (rule bit_word_eqI) simp
qed

lemma tested_bit: "drop_bit i (b :: u32) AND 1 = 0 \<longleftrightarrow> \<not> bit b i"
  by (simp add: bit_iff_odd_drop_bit and_one_eq even_iff_mod_2_eq_zero)

lemma free_bit_Some:
  assumes "free_bit b i = Some j"
  shows "i \<le> j \<and> j < 32 \<and> \<not> bit b j \<and> (\<forall>k. i \<le> k \<and> k < j \<longrightarrow> bit b k)"
  using assms
proof (induction b i rule: free_bit.induct)
  case (1 b i)
  show ?case
  proof (cases "i < 32 \<and> bit b i")
    case True
    then have "free_bit b (Suc i) = Some j"
      using 1(2) by (subst (asm) free_bit.simps) (simp add: tested_bit)
    then have "Suc i \<le> j \<and> j < 32 \<and> \<not> bit b j \<and> (\<forall>k. Suc i \<le> k \<and> k < j \<longrightarrow> bit b k)"
      using 1(1) True by (simp add: tested_bit)
    with True show ?thesis by (metis Suc_leD Suc_leI le_neq_implies_less)
  next
    case False
    with 1(2) show ?thesis
      by (subst (asm) free_bit.simps) (auto simp: tested_bit split: if_splits)
  qed
qed

lemma free_bit_None:
  assumes "free_bit b i = None" "i \<le> k" "k < 32"
  shows "bit b k"
  using assms
proof (induction b i rule: free_bit.induct)
  case (1 b i)
  have bit: "i < 32" "bit b i" and rest: "free_bit b (Suc i) = None"
    using 1(2-4) by (subst (asm) free_bit.simps; auto simp: tested_bit split: if_splits)+
  show ?case
  proof (cases "k = i")
    case False
    with 1 bit rest show ?thesis by (simp add: tested_bit)
  qed (use bit in simp)
qed

definition idalloc_pre :: "weston_idalloc \<Rightarrow> bool" where
  "idalloc_pre ida \<longleftrightarrow>
     (\<exists>k \<le> 27. length (buckets ida) = 2 ^ k) \<and>
     unat (num_buckets ida) = length (buckets ida) \<and>
     unat (lowest_free_bucket ida) < length (buckets ida) \<and>
     (\<forall>i < unat (lowest_free_bucket ida). buckets ida ! i = 0xffffffff) \<and>
     0 \<in> taken ida"

lemma idalloc_inv_iff:
  "idalloc_inv ida \<longleftrightarrow>
     idalloc_pre ida \<and> buckets ida ! unat (lowest_free_bucket ida) \<noteq> 0xffffffff"
  by (auto simp: idalloc_inv_def idalloc_pre_def)

lemma taken_iff [simp]:
  "n \<in> taken ida \<longleftrightarrow> n div 32 < length (buckets ida) \<and> bit (buckets ida ! (n div 32)) (n mod 32)"
  by (simp add: taken_def)

lemma finite_taken: "finite (taken ida)"
proof (rule finite_subset)
  show "taken ida \<subseteq> {..< 32 * length (buckets ida)}" by (auto simp: less_mult_imp_div_less div_less_iff_less_mult)
qed simp

lemma full_bucket_bit [simp]: "bit (0xffffffff :: u32) (n mod 32)"
  using full_bucket_iff [of "0xffffffff"] by simp

lemma find_bucket_spec:
  assumes "unat (num_buckets ida) = length (buckets ida)"
  shows "find_bucket ida i = Inr None \<and>
           (\<forall>j. unat i \<le> j \<and> j < length (buckets ida) \<longrightarrow> buckets ida ! j = 0xffffffff) \<or>
         (\<exists>j. find_bucket ida i = Inr (Some j) \<and> i \<le> j \<and> unat j < length (buckets ida) \<and>
           buckets ida ! unat j \<noteq> 0xffffffff \<and>
           (\<forall>l. unat i \<le> l \<and> l < unat j \<longrightarrow> buckets ida ! l = 0xffffffff))"
  using assms
proof (induction ida i rule: find_bucket.induct)
  case (1 ida i)
  let ?b = "buckets ida ! unat i"
  show ?case
  proof (cases "i < num_buckets ida")
    case False
    with 1(2) show ?thesis by (subst find_bucket.simps) (auto simp: word_less_nat_alt)
  next
    case lt: True
    then have b: "bucket_at ida i = Inr ?b"
      using 1(2) by (simp add: bucket_at_def word_less_nat_alt)
    show ?thesis
    proof (cases "?b = 0xffffffff")
      case True
      have step: "find_bucket ida i = find_bucket ida (i + 1)"
        using lt b True by (subst find_bucket.simps) simp
      have next_i: "l = unat i \<or> unat (i + 1) \<le> l" if "unat i \<le> l" for l
        using that unat_next [OF lt] by auto
      have le: "i \<le> j" if "i + 1 \<le> j" for j
        using that unat_next [OF lt] by (simp add: word_le_nat_alt)
      from 1(1) [OF lt b True 1(2)] consider
          (none) "find_bucket ida (i + 1) = Inr None"
            "\<forall>j. unat (i + 1) \<le> j \<and> j < length (buckets ida) \<longrightarrow> buckets ida ! j = 0xffffffff"
        | (found) j where "find_bucket ida (i + 1) = Inr (Some j)" "i + 1 \<le> j"
            "unat j < length (buckets ida)" "buckets ida ! unat j \<noteq> 0xffffffff"
            "\<forall>l. unat (i + 1) \<le> l \<and> l < unat j \<longrightarrow> buckets ida ! l = 0xffffffff"
        by blast
      then show ?thesis
      proof cases
        case none
        have "\<forall>j. unat i \<le> j \<and> j < length (buckets ida) \<longrightarrow> buckets ida ! j = 0xffffffff"
          using none(2) next_i True by blast
        with none(1) show ?thesis unfolding step by blast
      next
        case found
        have "\<forall>l. unat i \<le> l \<and> l < unat j \<longrightarrow> buckets ida ! l = 0xffffffff"
          using found(5) next_i True by blast
        with found(1,3,4) le [OF found(2)] show ?thesis unfolding step by blast
      qed
    next
      case False
      have "find_bucket ida i = Inr (Some i)"
        using lt b False by (subst find_bucket.simps) simp
      with lt 1(2) False show ?thesis by (auto simp: word_less_nat_alt)
    qed
  qed
qed

lemma taken_all_full:
  assumes "\<forall>j < length (buckets ida). buckets ida ! j = 0xffffffff"
  shows "taken ida = {..< 32 * length (buckets ida)}"
proof -
  have "bit (buckets ida ! (n div 32)) (n mod 32)" if "n div 32 < length (buckets ida)" for n
    using assms that full_bucket_iff by simp
  then show ?thesis by (auto simp: div_less_iff_less_mult mult.commute)
qed

lemma taken_add_zeros:
  "taken (ida\<lparr> buckets := buckets ida @ replicate m 0, lowest_free_bucket := l, num_buckets := n \<rparr>)
     = taken ida"
  by (auto simp: nth_append split: if_splits)

lemma add_buckets_ok:
  assumes pre: "idalloc_pre ida" and room: "card (taken ida) < 2 ^ 32"
    and full: "\<forall>j < length (buckets ida). buckets ida ! j = 0xffffffff"
  shows "\<exists>ida'. add_buckets ida = Inr ida' \<and> taken ida' = taken ida \<and> idalloc_inv ida'"
proof -
  obtain k where k: "k \<le> 27" "length (buckets ida) = 2 ^ k"
    and num: "unat (num_buckets ida) = 2 ^ k" and z: "0 \<in> taken ida"
    using pre by (auto simp: idalloc_pre_def)
  have "(32::nat) * 2 ^ k < 2 ^ 32"
    using room k by (simp add: taken_all_full [OF full])
  then have "(2::nat) ^ k < 2 ^ 27" by simp
  then have "k < 27" by (rule power_less_imp_less_exp [rotated]) simp
  then have "(2::nat) ^ k \<le> 2 ^ 26" by (intro power_increasing) simp_all
  then have twice: "unat (num_buckets ida * 2) = 2 * 2 ^ k"
    using num by (simp add: unat_word_ariths(2))
  then have gt: "num_buckets ida < num_buckets ida * 2"
    using num by (simp add: word_less_nat_alt)
  then have diff: "unat (num_buckets ida * 2 - num_buckets ida) = 2 ^ k"
    using num twice by (simp add: unat_sub word_le_nat_alt word_less_nat_alt)
  let ?s = "ida\<lparr> buckets := buckets ida @ replicate (2 ^ k) 0,
                 lowest_free_bucket := num_buckets ida, num_buckets := num_buckets ida * 2 \<rparr>"
  have "add_buckets ida = Inr ?s"
    using gt diff num by (simp add: add_buckets_def Let_def)
  moreover have tk: "taken ?s = taken ida" by (rule taken_add_zeros)
  moreover have "idalloc_inv ?s"
    unfolding idalloc_inv_def tk
    using k \<open>k < 27\<close> num twice full z
    by (auto simp: nth_append intro!: exI [of _ "Suc k"])
  ultimately show ?thesis by blast
qed

lemma update_lowest_ok:
  assumes pre: "idalloc_pre ida" and room: "card (taken ida) < 2 ^ 32"
  shows "\<exists>ida'. update_lowest_free_bucket ida = Inr ida' \<and> taken ida' = taken ida \<and> idalloc_inv ida'"
proof -
  have len: "unat (num_buckets ida) = length (buckets ida)"
    and below: "\<forall>i < unat (lowest_free_bucket ida). buckets ida ! i = 0xffffffff"
    using pre by (simp_all add: idalloc_pre_def)
  consider (none) "find_bucket ida (lowest_free_bucket ida) = Inr None"
      "\<forall>j. unat (lowest_free_bucket ida) \<le> j \<and> j < length (buckets ida) \<longrightarrow> buckets ida ! j = 0xffffffff"
    | (found) j where "find_bucket ida (lowest_free_bucket ida) = Inr (Some j)"
      "unat j < length (buckets ida)" "buckets ida ! unat j \<noteq> 0xffffffff"
      "\<forall>l. unat (lowest_free_bucket ida) \<le> l \<and> l < unat j \<longrightarrow> buckets ida ! l = 0xffffffff"
    using find_bucket_spec [OF len] by blast
  then show ?thesis
  proof cases
    case none
    with below have "\<forall>j < length (buckets ida). buckets ida ! j = 0xffffffff"
      by (metis not_le)
    from add_buckets_ok [OF pre room this] none(1) show ?thesis
      by (simp add: update_lowest_free_bucket_def)
  next
    case found
    have "\<forall>l < unat j. buckets ida ! l = 0xffffffff"
      using found(4) below by (metis not_le)
    with pre found show ?thesis
      by (auto simp: update_lowest_free_bucket_def idalloc_inv_def idalloc_pre_def)
  qed
qed


subsection \<open>Taking an id\<close>

lemma bucket_with_bit: "bit ((b :: u32) OR 2 ^ i) j \<longleftrightarrow> bit b j \<or> (j = i \<and> i < 32)"
  by (auto simp: bit_simps)

lemma bucket_without_bit:
  "j < 32 \<Longrightarrow> bit ((b :: u32) AND NOT (2 ^ i)) j \<longleftrightarrow> bit b j \<and> j \<noteq> i"
  by (auto simp: bit_simps)

lemma div_mod_32: "i < 32 \<Longrightarrow> n div 32 = q \<and> n mod 32 = i \<longleftrightarrow> n = 32 * q + (i :: nat)"
  by auto

lemma taken_set_bit:
  assumes "q < length (buckets ida)" "i < 32"
  shows "taken (ida\<lparr> buckets := (buckets ida)[q := buckets ida ! q OR push_bit i 1] \<rparr>)
           = insert (32 * q + i) (taken ida)"
  using assms div_mod_32 [OF assms(2)]
  by (auto simp: nth_list_update bucket_with_bit split: if_splits)

lemma taken_clear_bit:
  assumes "q < length (buckets ida)" "i < 32"
  shows "taken (ida\<lparr> buckets := (buckets ida)[q := buckets ida ! q AND NOT (push_bit i 1)] \<rparr>)
           = taken ida - {32 * q + i}"
  using assms div_mod_32 [OF assms(2)]
  by (auto simp: nth_list_update bucket_without_bit split: if_splits)

lemma take_id_ok:
  assumes inv: "idalloc_inv ida" and room: "card (taken ida) + 1 < 2 ^ 32"
    and b: "b = buckets ida ! unat (lowest_free_bucket ida)" and i: "i < 32"
  shows "\<exists>ident ida'. take_id ida b i = Inr (ident, ida') \<and>
           unat ident = 32 * unat (lowest_free_bucket ida) + i \<and>
           taken ida' = insert (unat ident) (taken ida) \<and> idalloc_inv ida'"
proof -
  let ?q = "unat (lowest_free_bucket ida)"
  let ?s = "ida\<lparr> buckets := (buckets ida)[?q := b OR push_bit i 1] \<rparr>"
  let ?id = "32 * lowest_free_bucket ida + of_nat i :: u32"
  obtain k where k: "k \<le> 27" "length (buckets ida) = 2 ^ k" and q: "?q < 2 ^ k"
    using inv by (auto simp: idalloc_inv_def)
  have "(2::nat) ^ k \<le> 2 ^ 27" using k by (intro power_increasing) simp_all
  with q have "32 * ?q + i < 2 ^ 32" using i by simp
  then have ident: "unat ?id = 32 * ?q + i"
    using i by (simp add: unat_word_ariths unat_of_nat)
  have tk: "taken ?s = insert (unat ?id) (taken ida)"
    unfolding ident b using k q i by (intro taken_set_bit) simp_all
  then have card: "card (taken ?s) < 2 ^ 32"
    using room finite_taken [of ida] by (simp add: card_insert_if)
  have pre: "idalloc_pre ?s"
    using inv tk unfolding idalloc_inv_def idalloc_pre_def
    by (simp add: nth_list_update del: taken_iff)
  show ?thesis
  proof (cases "b OR push_bit i 1 = 0xffffffff")
    case True
    from update_lowest_ok [OF pre card] obtain ida' where
      "update_lowest_free_bucket ?s = Inr ida'" "taken ida' = taken ?s" "idalloc_inv ida'" by blast
    then have "take_id ida b i = Inr (?id, ida') \<and> unat ?id = 32 * ?q + i \<and>
        taken ida' = insert (unat ?id) (taken ida) \<and> idalloc_inv ida'"
      using True ident tk by (simp add: take_id_def Let_def)
    then show ?thesis by blast
  next
    case False
    then have "take_id ida b i = Inr (?id, ?s) \<and> unat ?id = 32 * ?q + i \<and>
        taken ?s = insert (unat ?id) (taken ida) \<and> idalloc_inv ?s"
      using ident tk pre q k by (simp add: take_id_def Let_def idalloc_inv_iff)
    then show ?thesis by blast
  qed
qed

lemma lowest_free_id:
  assumes inv: "idalloc_inv ida"
    and i: "free_bit (buckets ida ! unat (lowest_free_bucket ida)) 0 = Some i"
  shows "(LEAST n. n \<notin> taken ida) = 32 * unat (lowest_free_bucket ida) + i"
proof (rule Least_equality)
  let ?q = "unat (lowest_free_bucket ida)"
  have i32: "i < 32" and bits: "\<not> bit (buckets ida ! ?q) i" "\<forall>j < i. bit (buckets ida ! ?q) j"
    using free_bit_Some [OF i] by auto
  have q: "?q < length (buckets ida)" "\<forall>j < ?q. buckets ida ! j = 0xffffffff"
    using inv by (auto simp: idalloc_inv_def)
  show "32 * ?q + i \<notin> taken ida" using i32 bits q by simp
  fix n assume n: "n \<notin> taken ida"
  show "32 * ?q + i \<le> n"
  proof (rule ccontr)
    assume "\<not> 32 * ?q + i \<le> n"
    then have "n div 32 < ?q \<or> n div 32 = ?q \<and> n mod 32 < i"
      using div_mult_mod_eq [of n 32] i32 by linarith
    then show False
    proof
      assume "n div 32 < ?q"
      moreover from this have "bit (buckets ida ! (n div 32)) (n mod 32)"
        using q full_bucket_iff by simp
      ultimately show False using n q by simp
    next
      assume "n div 32 = ?q \<and> n mod 32 < i"
      with n q bits show False by simp
    qed
  qed
qed

text \<open>
  Taking an id returns the smallest id that is free, marks exactly that id and
  keeps the allocator well formed, as long as fewer than \<open>2 ^ 32 - 1\<close> ids are taken.
\<close>
lemma get_id_takes_least:
  assumes inv: "idalloc_inv ida" and room: "card (taken ida) + 1 < 2 ^ 32"
  shows "\<exists>ident ida'. weston_idalloc_get_id ida = Inr (ident, ida') \<and>
           unat ident = (LEAST n. n \<notin> taken ida) \<and>
           taken ida' = insert (unat ident) (taken ida) \<and> idalloc_inv ida'"
proof -
  let ?b = "buckets ida ! unat (lowest_free_bucket ida)"
  have b: "bucket_at ida (lowest_free_bucket ida) = Inr ?b" and nf: "?b \<noteq> 0xffffffff"
    using inv by (auto simp: bucket_at_def idalloc_inv_def)
  obtain i where i: "free_bit ?b 0 = Some i"
    using nf free_bit_None [of ?b 0] full_bucket_iff by (cases "free_bit ?b 0") auto
  then have "i < 32" using free_bit_Some by blast
  from take_id_ok [OF inv room refl this] lowest_free_id [OF inv i] i b nf
  show ?thesis by (simp add: weston_idalloc_get_id_def)
qed

subsection \<open>Returning an id\<close>

lemma put_id_releases:
  assumes inv: "idalloc_inv ida" and ident: "unat ident \<in> taken ida" "ident \<noteq> 0"
  shows "\<exists>ida'. weston_idalloc_put_id ida ident = Inr ida' \<and>
           taken ida' = taken ida - {unat ident} \<and> idalloc_inv ida'"
proof -
  let ?q = "unat (ident div 32)" and ?i = "unat (ident mod 32)"
  let ?b = "buckets ida ! ?q"
  have qi: "?q = unat ident div 32" "?i = unat ident mod 32"
    by (simp_all add: unat_div unat_mod_distrib)
  have len: "?q < length (buckets ida)" and set: "bit ?b ?i"
    using ident(1) by (simp_all add: qi)
  have num: "ident div 32 < num_buckets ida"
    using len inv by (simp add: word_less_nat_alt idalloc_inv_def)
  let ?l = "if ident div 32 < lowest_free_bucket ida then ident div 32 else lowest_free_bucket ida"
  let ?s = "ida\<lparr> buckets := (buckets ida)[?q := ?b AND NOT (push_bit ?i 1)],
                 lowest_free_bucket := ?l \<rparr>"
  have "weston_idalloc_put_id ida ident = Inr ?s"
    using ident(2) num len set
    by (simp add: weston_idalloc_put_id_def bucket_at_def tested_bit Let_def)
  moreover have tk: "taken ?s = taken ida - {unat ident}"
  proof -
    have "taken ?s = taken (ida\<lparr> buckets := (buckets ida)[?q := ?b AND NOT (push_bit ?i 1)] \<rparr>)"
      by (simp add: taken_def)
    also have "\<dots> = taken ida - {32 * ?q + ?i}"
      using len by (intro taken_clear_bit) (simp_all add: qi)
    finally show ?thesis by (simp add: qi)
  qed
  moreover have "idalloc_inv ?s"
  proof -
    have nf: "?b AND NOT (push_bit ?i 1) \<noteq> 0xffffffff"
      by (auto simp: full_bucket_iff bucket_without_bit qi intro!: exI [of _ ?i])
    have "0 \<in> taken ?s"
      using inv ident(2) unfolding tk by (auto simp: idalloc_inv_def unat_eq_zero simp del: taken_iff)
    with inv len nf show ?thesis
      unfolding idalloc_inv_def
      by (auto simp: nth_list_update word_less_nat_alt simp del: taken_iff)
  qed
  ultimately show ?thesis by blast
qed

lemma put_id_errors:
  assumes inv: "idalloc_inv ida" and ident: "ident = 0 \<or> unat ident \<notin> taken ida"
  shows "weston_idalloc_put_id ida ident = Inl Assert_failed"
  using assms
  by (auto simp: weston_idalloc_put_id_def bucket_at_def tested_bit Let_def unat_div
      unat_mod_distrib word_less_nat_alt idalloc_inv_def)

lemma create_inv: "idalloc_inv weston_idalloc_create" "taken weston_idalloc_create = {0}"
proof -
  have b: "buckets weston_idalloc_create = [1, 0]"
    by (simp add: weston_idalloc_create_def numeral_2_eq_2)
  have one: "n div 32 < length [1, 0 :: u32] \<and> bit ([1, 0 :: u32] ! (n div 32)) (n mod 32) \<longleftrightarrow> n = 0" for n :: nat
  proof (cases "n div 32")
    case 0
    then show ?thesis by (auto simp: bit_1_iff)
  next
    case (Suc m)
    then show ?thesis by (cases m) auto
  qed
  show "taken weston_idalloc_create = {0}"
    unfolding taken_def b by (simp only: one) simp
  moreover have "length (buckets weston_idalloc_create) = 2 ^ 1"
    "num_buckets weston_idalloc_create = 2" "lowest_free_bucket weston_idalloc_create = 0"
    by (simp_all add: weston_idalloc_create_def)
  ultimately show "idalloc_inv weston_idalloc_create"
    unfolding idalloc_inv_def by (auto simp: b intro: exI [of _ 1])
qed

lemma destroy_ok: "idalloc_inv ida \<Longrightarrow> weston_idalloc_destroy ida = Inr ()"
  by (auto simp: idalloc_inv_def weston_idalloc_destroy_def bucket_at_def and_one_eq bit_0 odd_iff_mod_2_eq_one)


subsection \<open>When the ids run out\<close>

lemma all_taken_full:
  assumes "\<forall>n < 32 * length (buckets ida). n \<in> taken ida"
  shows "\<forall>j < length (buckets ida). buckets ida ! j = 0xffffffff"
proof (intro allI impI)
  fix j assume j: "j < length (buckets ida)"
  have "bit (buckets ida ! j) i" if "i < 32" for i
  proof -
    have "32 * j + i < 32 * length (buckets ida)" using j that by linarith
    with assms have "32 * j + i \<in> taken ida" by blast
    then show ?thesis using that by simp
  qed
  then show "buckets ida ! j = 0xffffffff" by (simp add: full_bucket_iff)
qed

lemma full_allocator_grows:
  assumes len: "length (buckets ida) = 2 ^ 27" and num: "unat (num_buckets ida) = length (buckets ida)"
    and full: "\<forall>j < length (buckets ida). buckets ida ! j = 0xffffffff"
  shows "\<exists>ida'. update_lowest_free_bucket ida = Inr ida' \<and> lowest_free_bucket ida' = 2 ^ 27 \<and>
           buckets ida' = buckets ida @ replicate (2 ^ 27) 0"
proof -
  have "find_bucket ida (lowest_free_bucket ida) = Inr None"
    using find_bucket_spec [OF num, of "lowest_free_bucket ida"] full by auto
  moreover have n: "num_buckets ida = 2 ^ 27"
    using num len by (simp add: word_unat_eq_iff)
  ultimately show ?thesis
    by (simp add: update_lowest_free_bucket_def add_buckets_def)
qed

text \<open>
  Past \<open>2 ^ 32 - 1\<close> taken ids the allocator hands out id 0, the id that is reserved for errors: the
  assertion that guards the growth of the bucket array compares bucket counts, which wrap much
  later than the ids do.
\<close>
lemma ids_wrap_to_zero:
  assumes inv: "idalloc_inv ida" and all: "card (taken ida) = 2 ^ 32 - 1"
  shows "\<exists>ident ida' ida''. weston_idalloc_get_id ida = Inr (ident, ida') \<and>
           weston_idalloc_get_id ida' = Inr (0, ida'')"
proof -
  let ?q = "unat (lowest_free_bucket ida)" and ?b = "buckets ida ! unat (lowest_free_bucket ida)"
  obtain k where k: "k \<le> 27" "length (buckets ida) = 2 ^ k" and q: "?q < 2 ^ k"
    and num: "unat (num_buckets ida) = length (buckets ida)"
    using inv by (auto simp: idalloc_inv_def)
  have sub: "taken ida \<subseteq> {..< 32 * 2 ^ k}"
    using k by (auto simp: div_less_iff_less_mult mult.commute)
  then have "2 ^ 32 - 1 \<le> (32 :: nat) * 2 ^ k"
    using card_mono [OF _ sub] all by simp
  moreover have "(2 :: nat) ^ k \<le> 2 ^ 26" if "k < 27"
    using that by (intro power_increasing) simp_all
  ultimately have k27: "k = 27" using k(1) by (cases "k < 27") auto
  obtain i where i: "free_bit ?b 0 = Some i" and nf: "?b \<noteq> 0xffffffff"
    using inv free_bit_None [of ?b 0] full_bucket_iff
    by (cases "free_bit ?b 0") (auto simp: idalloc_inv_def)
  have i32: "i < 32" and bi: "\<not> bit ?b i" using free_bit_Some [OF i] by auto
  let ?s = "ida\<lparr> buckets := (buckets ida)[?q := ?b OR push_bit i 1] \<rparr>"
  have tk: "taken ?s = insert (32 * ?q + i) (taken ida)"
    using k q i32 by (intro taken_set_bit) simp_all
  have "taken ?s \<subseteq> {..< 2 ^ 32}"
    unfolding tk using sub k27 q i32 by auto
  moreover have "card (taken ?s) = 2 ^ 32"
    using tk all finite_taken [of ida] bi i32 by (simp add: card_insert_if)
  ultimately have "taken ?s = {..< 2 ^ 32}"
    by (intro card_subset_eq) simp_all
  then have "\<forall>n < 32 * length (buckets ?s). n \<in> taken ?s"
    using k k27 by simp
  then have full: "\<forall>j < length (buckets ?s). buckets ?s ! j = 0xffffffff"
    by (rule all_taken_full)
  then have bfull: "?b OR push_bit i 1 = 0xffffffff" using q k by auto
  obtain t where t: "update_lowest_free_bucket ?s = Inr t" "lowest_free_bucket t = 2 ^ 27"
      "buckets t = buckets ?s @ replicate (2 ^ 27) 0"
    using full_allocator_grows [of ?s] full k k27 num by auto
  have "weston_idalloc_get_id ida = Inr (32 * lowest_free_bucket ida + of_nat i, t)"
    using q k i nf bfull t(1)
    by (simp add: weston_idalloc_get_id_def bucket_at_def take_id_def Let_def)
  moreover have "bucket_at t (lowest_free_bucket t) = Inr 0"
    using t(2,3) k k27 by (simp add: bucket_at_def nth_append)
  then have "\<exists>u. weston_idalloc_get_id t = Inr (0, u)"
    using t(2) by (simp add: weston_idalloc_get_id_def take_id_def Let_def free_bit.simps)
  ultimately show ?thesis by blast
qed


subsection \<open>The interface: a source of ids\<close>

text \<open>
  What the users of the allocator rely on. \<open>live\<close> is the set of the ids handed out, \<open>reserved\<close> the id
  that is never handed out and \<open>cap\<close> the number of ids that can be out at the same time. The client
  keeps a table \<open>owner\<close> of the objects that own an id.
\<close>

locale id_source =
  fixes get :: "'s \<Rightarrow> 'e + ('i \<times> 's)" and put :: "'s \<Rightarrow> 'i \<Rightarrow> 'e + 's"
    and live :: "'s \<Rightarrow> 'i set" and valid :: "'s \<Rightarrow> bool" and reserved :: 'i and cap :: nat
  assumes get_fresh: "valid s \<Longrightarrow> card (live s) < cap \<Longrightarrow>
      \<exists>i s'. get s = Inr (i, s') \<and> i \<notin> live s \<and> i \<noteq> reserved \<and> live s' = insert i (live s) \<and> valid s'"
    and put_back: "valid s \<Longrightarrow> i \<in> live s \<Longrightarrow>
      \<exists>s'. put s i = Inr s' \<and> live s' = live s - {i} \<and> valid s'"
    and not_reserved: "valid s \<Longrightarrow> reserved \<notin> live s"
begin

definition owners_ok :: "'s \<Rightarrow> ('p \<rightharpoonup> 'i) \<Rightarrow> bool" where
  "owners_ok s owner \<longleftrightarrow> valid s \<and> finite (dom owner) \<and> inj_on owner (dom owner) \<and> ran owner = live s"

lemma owned_card:
  assumes "owners_ok s owner"
  shows "card (live s) = card (dom owner)"
proof -
  have "Some ` ran owner = owner ` dom owner"
    by (force simp: ran_def dom_def image_iff)
  then have "card (ran owner) = card (owner ` dom owner)"
    by (metis card_image inj_Some inj_on_subset subset_UNIV)
  with assms show ?thesis by (simp add: owners_ok_def card_image)
qed

lemma owned_get:
  assumes own: "owners_ok s owner" and p: "p \<notin> dom owner" and room: "card (dom owner) < cap"
  shows "\<exists>i s'. get s = Inr (i, s') \<and> i \<notin> ran owner \<and> i \<noteq> reserved \<and> owners_ok s' (owner(p \<mapsto> i))"
proof -
  have v: "valid s" and ran: "ran owner = live s" using own by (simp_all add: owners_ok_def)
  obtain i s' where g: "get s = Inr (i, s')" "i \<notin> live s" "i \<noteq> reserved"
      "live s' = insert i (live s)" "valid s'"
    using get_fresh [OF v] room owned_card [OF own] by auto
  have "inj_on (owner(p \<mapsto> i)) (dom (owner(p \<mapsto> i)))"
    using own p g(2) ran by (auto simp: owners_ok_def inj_on_def ran_def dom_def; metis)
  moreover have "ran (owner(p \<mapsto> i)) = insert i (ran owner)"
    using p by (intro ran_map_upd) auto
  ultimately have "owners_ok s' (owner(p \<mapsto> i))"
    using g own ran by (simp add: owners_ok_def)
  with g ran show ?thesis by blast
qed

lemma owned_put:
  assumes own: "owners_ok s owner" and p: "owner p = Some i"
  shows "\<exists>s'. put s i = Inr s' \<and> owners_ok s' (owner(p := None))"
proof -
  have v: "valid s" and ran: "ran owner = live s" and inj: "inj_on owner (dom owner)"
    using own by (simp_all add: owners_ok_def)
  have "i \<in> live s" using p ran by (auto simp: ran_def)
  then obtain s' where s': "put s i = Inr s'" "live s' = live s - {i}" "valid s'"
    using put_back [OF v] by blast
  have only: "q = p" if "owner q = Some i" for q
    using that p inj by (auto simp: inj_on_def dom_def)
  have "ran (owner(p := None)) = ran owner - {i}"
  proof
    show "ran (owner(p := None)) \<subseteq> ran owner - {i}"
      using p by (auto simp: ran_def dest: only split: if_splits)
    show "ran owner - {i} \<subseteq> ran (owner(p := None))"
    proof
      fix x assume "x \<in> ran owner - {i}"
      then obtain q where q: "owner q = Some x" "x \<noteq> i" by (auto simp: ran_def)
      with p have "q \<noteq> p" by auto
      with q show "x \<in> ran (owner(p := None))" by (auto simp: ran_def)
    qed
  qed
  moreover have "inj_on (owner(p := None)) (dom (owner(p := None)))"
    using inj by (auto simp: inj_on_def dom_def split: if_splits)
  ultimately have "owners_ok s' (owner(p := None))"
    using s' own ran by (simp add: owners_ok_def)
  with s'(1) show ?thesis by blast
qed

lemma owned_distinct:
  assumes "owners_ok s owner" "owner p = Some i" "owner q = Some j" "p \<noteq> q"
  shows "i \<noteq> j"
  using assms by (auto simp: owners_ok_def inj_on_def dom_def)

lemma owned_not_reserved:
  assumes "owners_ok s owner" "owner p = Some i"
  shows "i \<noteq> reserved"
  using assms not_reserved [of s] by (auto simp: owners_ok_def ran_def)

end

definition ids_out :: "weston_idalloc \<Rightarrow> u32 set" where
  "ids_out ida = {i. i \<noteq> 0 \<and> unat i \<in> taken ida}"

lemma taken_bound:
  assumes "idalloc_inv ida" "n \<in> taken ida"
  shows "n < 2 ^ 32"
proof -
  obtain k where k: "k \<le> 27" "length (buckets ida) = 2 ^ k"
    using assms(1) by (auto simp: idalloc_inv_def)
  then have "(2 :: nat) ^ k \<le> 2 ^ 27" by (intro power_increasing) simp_all
  with assms(2) k have "n div 32 < 2 ^ 27" by simp
  then show ?thesis by (simp add: div_less_iff_less_mult)
qed

lemma taken_ids_out: 
  assumes "idalloc_inv ida"
  shows "taken ida = insert 0 (unat ` ids_out ida)"
proof -
  have "n \<in> unat ` ids_out ida" if "n \<in> taken ida" "n \<noteq> 0" for n
  proof -
    have n: "unat (of_nat n :: u32) = n"
      using taken_bound [OF assms that(1)] by (simp add: unat_of_nat)
    then have "(of_nat n :: u32) \<in> ids_out ida"
      using that by (auto simp: ids_out_def simp del: taken_iff)
    with n show ?thesis by (metis imageI)
  qed
  moreover have "0 \<in> taken ida" using assms by (simp add: idalloc_inv_def)
  ultimately show ?thesis by (auto simp: ids_out_def simp del: taken_iff)
qed

lemma card_taken:
  assumes "idalloc_inv ida"
  shows "card (taken ida) = Suc (card (ids_out ida))"
proof -
  have "0 \<notin> unat ` ids_out ida" by (auto simp: ids_out_def unat_eq_zero)
  moreover have "card (unat ` ids_out ida) = card (ids_out ida)"
    by (intro card_image inj_onI) (simp add: word_unat_eq_iff)
  moreover have "finite (unat ` ids_out ida)"
    using finite_taken [of ida] by (simp add: taken_ids_out [OF assms])
  ultimately show ?thesis by (simp add: taken_ids_out [OF assms])
qed

lemma least_free_fresh: 
  assumes "idalloc_inv ida"
  shows "(LEAST n. n \<notin> taken ida) \<notin> taken ida"
proof -
  have "\<exists>n. n \<notin> taken ida" using taken_bound [OF assms, of "2 ^ 32"] by blast
  then show ?thesis by (rule LeastI_ex)
qed

interpretation idalloc: id_source weston_idalloc_get_id weston_idalloc_put_id ids_out idalloc_inv 0 "2 ^ 32 - 2"
proof unfold_locales
  fix ida :: weston_idalloc assume inv: "idalloc_inv ida"
  show "0 \<notin> ids_out ida" by (simp add: ids_out_def)
  { assume "card (ids_out ida) < 2 ^ 32 - 2"
    then obtain ident ida' where g: "weston_idalloc_get_id ida = Inr (ident, ida')"
        "unat ident = (LEAST n. n \<notin> taken ida)"
        "taken ida' = insert (unat ident) (taken ida)" "idalloc_inv ida'"
      using get_id_takes_least [OF inv] card_taken [OF inv] by auto
    have fresh: "unat ident \<notin> taken ida" unfolding g(2) by (rule least_free_fresh [OF inv])
    moreover have "0 \<in> taken ida" using inv by (simp add: idalloc_inv_def)
    ultimately have "ident \<noteq> 0" by auto
    with g fresh show "\<exists>i s'. weston_idalloc_get_id ida = Inr (i, s') \<and> i \<notin> ids_out ida \<and> i \<noteq> 0 \<and>
        ids_out s' = insert i (ids_out ida) \<and> idalloc_inv s'"
      by (intro exI [of _ ident] exI [of _ ida'])
        (auto simp: ids_out_def word_unat_eq_iff simp del: taken_iff) }
  { fix i assume "i \<in> ids_out ida"
    then have i: "unat i \<in> taken ida" "i \<noteq> 0" by (simp_all add: ids_out_def)
    from put_id_releases [OF inv this] show "\<exists>s'. weston_idalloc_put_id ida i = Inr s' \<and>
        ids_out s' = ids_out ida - {i} \<and> idalloc_inv s'"
      by (auto simp: ids_out_def word_unat_eq_iff simp del: taken_iff) }
qed


subsection \<open>Color profiles\<close>

text \<open>
  The compositor's color profiles at their addresses, and the generator of their ids. A profile
  leaves the table when the color manager destroys it (its \<open>destroy_color_profile\<close> hook, called
  after the reference count fell to zero).
\<close>

record weston_color_profile =
  ref_count :: i32
  profile_id :: u32

record color_state =
  color_profile_id_generator :: weston_idalloc
  profiles :: "nat \<rightharpoonup> weston_color_profile"

definition color_start :: color_state where
  "color_start = \<lparr> color_profile_id_generator = weston_idalloc_create, profiles = Map.empty \<rparr>"

definition weston_color_profile_init :: "nat \<Rightarrow> color_state \<Rightarrow> ida_error + color_state" where
  "weston_color_profile_init cprof st =
     (case weston_idalloc_get_id (color_profile_id_generator st) of
        Inl e \<Rightarrow> Inl e
      | Inr (ident, ida) \<Rightarrow>
          Inr \<lparr> color_profile_id_generator = ida,
                profiles = (profiles st)(cprof \<mapsto> \<lparr> ref_count = 1, profile_id = ident \<rparr>) \<rparr>)"

definition weston_color_profile_ref :: "nat option \<Rightarrow> color_state \<Rightarrow> ida_error + (nat option \<times> color_state)" where
  "weston_color_profile_ref cprof st =
     (case cprof of
        None \<Rightarrow> Inr (None, st)
      | Some p \<Rightarrow>
          (case profiles st p of
             None \<Rightarrow> Inl Used_after_free
           | Some cp \<Rightarrow>
               if sint (ref_count cp) > 0
               then Inr (Some p, st\<lparr> profiles := (profiles st)(p \<mapsto> cp\<lparr> ref_count := ref_count cp + 1 \<rparr>) \<rparr>)
               else Inl Assert_failed))"

definition weston_color_profile_unref :: "nat option \<Rightarrow> color_state \<Rightarrow> ida_error + color_state" where
  "weston_color_profile_unref cprof st =
     (case cprof of
        None \<Rightarrow> Inr st
      | Some p \<Rightarrow>
          (case profiles st p of
             None \<Rightarrow> Inl Used_after_free
           | Some cp \<Rightarrow>
               if \<not> sint (ref_count cp) > 0 then Inl Assert_failed
               else if sint (ref_count cp - 1) > 0
               then Inr (st\<lparr> profiles := (profiles st)(p \<mapsto> cp\<lparr> ref_count := ref_count cp - 1 \<rparr>) \<rparr>)
               else (case weston_idalloc_put_id (color_profile_id_generator st) (profile_id cp) of
                       Inl e \<Rightarrow> Inl e
                     | Inr ida \<Rightarrow> Inr \<lparr> color_profile_id_generator = ida,
                                        profiles = (profiles st)(p := None) \<rparr>)))"

text \<open>
  A run of the users of profiles. \<open>color_op_ok\<close> is what the users must keep to: a profile is
  initialised in fresh memory and the compositor has fewer than \<open>2 ^ 32 - 2\<close> profiles, only a profile
  that still exists is referenced or released, and a reference count stays in range.
\<close>

datatype color_op = Init_profile nat | Ref_profile "nat option" | Unref_profile "nat option"

definition color_step :: "color_op \<Rightarrow> color_state \<Rightarrow> ida_error + color_state" where
  "color_step act st =
     (case act of
        Init_profile p \<Rightarrow> weston_color_profile_init p st
      | Ref_profile p \<Rightarrow> map_sum id snd (weston_color_profile_ref p st)
      | Unref_profile p \<Rightarrow> weston_color_profile_unref p st)"

definition color_op_ok :: "color_op \<Rightarrow> color_state \<Rightarrow> bool" where
  "color_op_ok act st =
     (case act of
        Init_profile p \<Rightarrow> profiles st p = None \<and> card (dom (profiles st)) < 2 ^ 32 - 2
      | Ref_profile None \<Rightarrow> True
      | Ref_profile (Some p) \<Rightarrow>
          (case profiles st p of None \<Rightarrow> False | Some cp \<Rightarrow> sint (ref_count cp) < 2 ^ 31 - 1)
      | Unref_profile None \<Rightarrow> True
      | Unref_profile (Some p) \<Rightarrow> profiles st p \<noteq> None)"

fun color_run :: "color_op list \<Rightarrow> color_state \<Rightarrow> ida_error + color_state" where
  "color_run [] st = Inr st"
| "color_run (act # acts) st =
     (case color_step act st of Inl e \<Rightarrow> Inl e | Inr st' \<Rightarrow> color_run acts st')"

fun color_run_ok :: "color_op list \<Rightarrow> color_state \<Rightarrow> bool" where
  "color_run_ok [] st = True"
| "color_run_ok (act # acts) st =
     (color_op_ok act st \<and> (case color_step act st of Inl e \<Rightarrow> True | Inr st' \<Rightarrow> color_run_ok acts st'))"

definition color_inv :: "color_state \<Rightarrow> bool" where
  "color_inv st \<longleftrightarrow>
     idalloc.owners_ok (color_profile_id_generator st) (map_option profile_id \<circ> profiles st) \<and>
     (\<forall>p cp. profiles st p = Some cp \<longrightarrow> sint (ref_count cp) > 0)"

lemma dom_ids: "dom (map_option f \<circ> m) = dom m"
  by (auto simp: dom_def)

lemma ids_upd: "map_option f \<circ> m(p \<mapsto> x) = (map_option f \<circ> m)(p \<mapsto> f x)"
  "map_option f \<circ> m(p := None) = (map_option f \<circ> m)(p := None)"
  by auto

lemma ids_same: "m p = Some x \<Longrightarrow> (map_option f \<circ> m)(p \<mapsto> f x) = map_option f \<circ> m"
  by auto

lemma sint_dec_inc:
  fixes w :: i32
  shows "sint w > 0 \<Longrightarrow> sint (w - 1) = sint w - 1"
    and "sint w < 2 ^ 31 - 1 \<Longrightarrow> sint (w + 1) = sint w + 1"
  using sint_range_size [of w] by (simp_all add: sint_word_ariths signed_take_bit_int_eq_self_iff word_size
    signed_take_bit_int_eq_self)

lemma color_step_ok:
  assumes inv: "color_inv st" and ok: "color_op_ok act st"
  shows "\<exists>st'. color_step act st = Inr st' \<and> color_inv st'"
proof (cases act)
  case (Init_profile p)
  have own: "idalloc.owners_ok (color_profile_id_generator st) (map_option profile_id \<circ> profiles st)"
    using inv by (simp add: color_inv_def)
  from ok Init_profile have p: "p \<notin> dom (map_option profile_id \<circ> profiles st)"
    and room: "card (dom (map_option profile_id \<circ> profiles st)) < 2 ^ 32 - 2"
    by (auto simp: color_op_ok_def dom_ids)
  from idalloc.owned_get [OF own p room] show ?thesis
    using inv Init_profile
    by (auto simp: color_step_def weston_color_profile_init_def color_inv_def ids_upd)
next
  case (Ref_profile q)
  show ?thesis
  proof (cases q)
    case None
    with inv Ref_profile show ?thesis by (simp add: color_step_def weston_color_profile_ref_def)
  next
    case (Some p)
    with ok Ref_profile obtain cp where "profiles st p = Some cp" "sint (ref_count cp) < 2 ^ 31 - 1"
      by (auto simp: color_op_ok_def split: option.splits)
    with inv Ref_profile Some show ?thesis
      by (simp add: color_step_def weston_color_profile_ref_def color_inv_def ids_same sint_dec_inc less_imp_le)
  qed
next
  case (Unref_profile q)
  show ?thesis
  proof (cases q)
    case None
    with inv Unref_profile show ?thesis by (simp add: color_step_def weston_color_profile_unref_def)
  next
    case (Some p)
    with ok Unref_profile obtain cp where cp: "profiles st p = Some cp"
      by (auto simp: color_op_ok_def)
    with inv have pos: "sint (ref_count cp) > 0" by (simp add: color_inv_def)
    show ?thesis
    proof (cases "sint (ref_count cp - 1) > 0")
      case True
      with inv Unref_profile Some cp pos show ?thesis
        by (simp add: color_step_def weston_color_profile_unref_def color_inv_def ids_same)
    next
      case False
      have own: "idalloc.owners_ok (color_profile_id_generator st) (map_option profile_id \<circ> profiles st)"
        using inv by (simp add: color_inv_def)
      have "(map_option profile_id \<circ> profiles st) p = Some (profile_id cp)" using cp by simp
      from idalloc.owned_put [OF own this] obtain ida where
        "weston_idalloc_put_id (color_profile_id_generator st) (profile_id cp) = Inr ida"
        "idalloc.owners_ok ida (map_option profile_id \<circ> (profiles st)(p := None))"
        unfolding ids_upd by blast
      with inv Unref_profile Some cp pos False show ?thesis
        by (simp add: color_step_def weston_color_profile_unref_def color_inv_def del: fun_upd_comp)
    qed
  qed
qed

lemma color_run_inv:
  "color_inv st \<Longrightarrow> color_run_ok acts st \<Longrightarrow> \<exists>st'. color_run acts st = Inr st' \<and> color_inv st'"
proof (induction acts arbitrary: st)
  case (Cons act acts)
  from Cons.prems(2) have "color_op_ok act st" by simp
  from color_step_ok [OF Cons.prems(1) this] Cons show ?case by auto
qed simp

lemma color_start_inv: "color_inv color_start"
proof -
  have "ids_out weston_idalloc_create = {}"
    by (auto simp: ids_out_def create_inv(2) unat_eq_zero simp del: taken_iff)
  moreover have "map_option f \<circ> Map.empty = Map.empty" for f :: "weston_color_profile \<Rightarrow> u32" by auto
  ultimately show ?thesis
    by (simp add: color_inv_def color_start_def idalloc.owners_ok_def create_inv(1))
qed

text \<open>
  C29. Color profiles keep unique ids. In every run of profile creation, referencing and releasing
  by users who keep to the reference counting, no assertion of the id allocator or of the profiles
  fails and no bucket is accessed out of range; afterwards two different profiles have different
  ids, no profile has the error id 0, every profile is referenced, and the ids marked in the
  allocator are exactly those of the existing profiles and id 0.
\<close>
theorem profile_ids_unique:
  assumes "color_run_ok acts color_start"
  shows "\<exists>st. color_run acts color_start = Inr st \<and>
    (\<forall>p q P Q. profiles st p = Some P \<and> profiles st q = Some Q \<and> p \<noteq> q \<longrightarrow> profile_id P \<noteq> profile_id Q) \<and>
    (\<forall>p P. profiles st p = Some P \<longrightarrow> profile_id P \<noteq> 0 \<and> sint (ref_count P) > 0) \<and>
    taken (color_profile_id_generator st) = insert 0 (unat ` profile_id ` ran (profiles st))"
proof -
  obtain st where run: "color_run acts color_start = Inr st" and inv: "color_inv st"
    using color_run_inv [OF color_start_inv assms] by blast
  let ?o = "map_option profile_id \<circ> profiles st"
  have own: "idalloc.owners_ok (color_profile_id_generator st) ?o"
    and pos: "\<forall>p cp. profiles st p = Some cp \<longrightarrow> sint (ref_count cp) > 0"
    using inv by (simp_all add: color_inv_def)
  have ident: "?o p = Some (profile_id P)" if "profiles st p = Some P" for p P
    using that by simp
  have "ran ?o = profile_id ` ran (profiles st)" by (auto simp: ran_def image_iff)
  with own have tk: "taken (color_profile_id_generator st) = insert 0 (unat ` profile_id ` ran (profiles st))"
    by (simp add: idalloc.owners_ok_def taken_ids_out del: taken_iff)
  from idalloc.owned_distinct [OF own] idalloc.owned_not_reserved [OF own] ident
  have "\<forall>p q P Q. profiles st p = Some P \<and> profiles st q = Some Q \<and> p \<noteq> q \<longrightarrow> profile_id P \<noteq> profile_id Q"
    "\<forall>p P. profiles st p = Some P \<longrightarrow> profile_id P \<noteq> 0"
    by blast+
  with run tk pos show ?thesis by (intro exI [of _ st] conjI) simp_all
qed

lemma demo_ids:
  "weston_idalloc_get_id weston_idalloc_create =
     Inr (1, \<lparr> buckets = [3, 0], num_buckets = 2, lowest_free_bucket = 0 \<rparr>)"
  "weston_idalloc_get_id \<lparr> buckets = [3, 0], num_buckets = 2, lowest_free_bucket = 0 \<rparr> =
     Inr (2, \<lparr> buckets = [7, 0], num_buckets = 2, lowest_free_bucket = 0 \<rparr>)"
  "weston_idalloc_put_id \<lparr> buckets = [7, 0], num_buckets = 2, lowest_free_bucket = 0 \<rparr> 2 =
     Inr \<lparr> buckets = [3, 0], num_buckets = 2, lowest_free_bucket = 0 \<rparr>"
  by code_simp+

theorem profile_ids_unique_witness:
  "\<exists>st. color_run [Init_profile 10, Init_profile 20, Unref_profile (Some 20), Ref_profile (Some 10),
        Init_profile 30, Unref_profile None] color_start = Inr st \<and>
    (\<forall>p q P Q. profiles st p = Some P \<and> profiles st q = Some Q \<and> p \<noteq> q \<longrightarrow> profile_id P \<noteq> profile_id Q)"
proof -
  have "color_run_ok [Init_profile 10, Init_profile 20, Unref_profile (Some 20), Ref_profile (Some 10),
      Init_profile 30, Unref_profile None] color_start"
    by (simp add: color_op_ok_def color_step_def weston_color_profile_init_def demo_ids
        weston_color_profile_ref_def weston_color_profile_unref_def color_start_def)
  from profile_ids_unique [OF this] show ?thesis by (elim exE conjE) (intro exI conjI)
qed

end
