(* ===== verification/Drm_Formats.thy ===== *)
theory Drm_Formats
  imports Prelude
begin

section \<open>Sets of DRM formats and modifiers\<close>

text \<open>
  Models \<open>weston/libweston/drm-formats.c\<close>: arrays of pixel formats, each with an array of modifiers,
  which the compositor uses as sets of format/modifier pairs when it negotiates buffers. All
  functions are modelled. \<open>None\<close> is a failed \<open>assert\<close> (the call never returns). Arrays are those of
  libwayland; whether its allocating calls (\<open>wl_array_add\<close>, \<open>wl_array_copy\<close>) succeed is an input, the
  list \<open>mem\<close> of the outcomes of the next calls (after its end every call succeeds). The two arguments
  of an operation are different arrays, as in all calls of the compositor.
\<close>

subsection \<open>Data\<close>

record weston_drm_format =
  drm_format :: u32
  modifiers :: "u64 list"

type_synonym weston_drm_format_array = "weston_drm_format list"

fun alloc :: "bool list \<Rightarrow> bool \<times> bool list" where
  "alloc [] = (True, [])"
| "alloc (ok # mem) = (ok, mem)"

definition weston_drm_format_get_modifiers :: "weston_drm_format \<Rightarrow> u64 list \<times> u32" where
  "weston_drm_format_get_modifiers fmt = (modifiers fmt, of_nat (length (modifiers fmt)))"

definition counted_modifiers :: "weston_drm_format \<Rightarrow> u64 list" where
  "counted_modifiers fmt =
     (case weston_drm_format_get_modifiers fmt of (mods, num) \<Rightarrow> take (unat num) mods)"

definition weston_drm_format_has_modifier :: "weston_drm_format \<Rightarrow> u64 \<Rightarrow> bool" where
  "weston_drm_format_has_modifier fmt modifier = list_ex (\<lambda>m. m = modifier) (counted_modifiers fmt)"

definition weston_drm_format_add_modifier ::
    "weston_drm_format \<Rightarrow> u64 \<Rightarrow> bool list \<Rightarrow> (int \<times> weston_drm_format \<times> bool list) option" where
  "weston_drm_format_add_modifier fmt modifier mem =
     (if weston_drm_format_has_modifier fmt modifier then None
      else let (ok, mem') = alloc mem in
           if ok then Some (0, fmt\<lparr> modifiers := modifiers fmt @ [modifier] \<rparr>, mem')
           else Some (-1, fmt, mem'))"

subsection \<open>Formats in an array\<close>

definition weston_drm_format_array_init :: weston_drm_format_array where
  "weston_drm_format_array_init = []"

definition weston_drm_format_array_fini :: "weston_drm_format_array \<Rightarrow> weston_drm_format_array" where
  "weston_drm_format_array_fini formats = []"

text \<open>The format found is the index of its entry.\<close>

fun weston_drm_format_array_find_format :: "weston_drm_format_array \<Rightarrow> u32 \<Rightarrow> nat option" where
  "weston_drm_format_array_find_format [] fmt = None"
| "weston_drm_format_array_find_format (f # fs) fmt =
     (if drm_format f = fmt then Some 0
      else map_option Suc (weston_drm_format_array_find_format fs fmt))"

definition weston_drm_format_array_add_format ::
    "weston_drm_format_array \<Rightarrow> u32 \<Rightarrow> bool list
       \<Rightarrow> (nat option \<times> weston_drm_format_array \<times> bool list) option" where
  "weston_drm_format_array_add_format formats fmt mem =
     (if weston_drm_format_array_find_format formats fmt \<noteq> None then None
      else let (ok, mem') = alloc mem in
           if ok then Some (Some (length formats),
                            formats @ [\<lparr> drm_format = fmt, modifiers = [] \<rparr>], mem')
           else Some (None, formats, mem'))"

definition add_format_and_modifiers ::
    "weston_drm_format_array \<Rightarrow> u32 \<Rightarrow> u64 list \<Rightarrow> bool list
       \<Rightarrow> (int \<times> weston_drm_format_array \<times> bool list) option" where
  "add_format_and_modifiers formats fmt mods mem = do {
     (found, formats', mem') \<leftarrow> weston_drm_format_array_add_format formats fmt mem;
     case found of
       None \<Rightarrow> Some (-1, formats', mem')
     | Some i \<Rightarrow>
         (let (ok, mem'') = alloc mem' in
          if ok then Some (0, formats'[i := (formats' ! i)\<lparr> modifiers := mods \<rparr>], mem'')
          else Some (-1, formats', mem''))
   }"

fun replace_loop ::
    "weston_drm_format list \<Rightarrow> weston_drm_format_array \<Rightarrow> bool list
       \<Rightarrow> (int \<times> weston_drm_format_array \<times> bool list) option" where
  "replace_loop [] formats mem = Some (0, formats, mem)"
| "replace_loop (f # fs) formats mem = do {
     (ret, formats', mem') \<leftarrow> add_format_and_modifiers formats (drm_format f) (modifiers f) mem;
     if ret < 0 then Some (-1, formats', mem') else replace_loop fs formats' mem'
   }"

definition weston_drm_format_array_replace ::
    "weston_drm_format_array \<Rightarrow> weston_drm_format_array \<Rightarrow> bool list
       \<Rightarrow> (int \<times> weston_drm_format_array \<times> bool list) option" where
  "weston_drm_format_array_replace formats source mem =
     (let formats' = weston_drm_format_array_fini formats in replace_loop source formats' mem)"

definition weston_drm_format_array_remove_latest_format ::
    "weston_drm_format_array \<Rightarrow> weston_drm_format_array option" where
  "weston_drm_format_array_remove_latest_format formats =
     (if formats = [] then None else Some (butlast formats))"

fun weston_drm_format_array_count_pairs :: "weston_drm_format_array \<Rightarrow> u32" where
  "weston_drm_format_array_count_pairs [] = 0"
| "weston_drm_format_array_count_pairs (f # fs) =
     of_nat (length (modifiers f)) + weston_drm_format_array_count_pairs fs"

subsection \<open>Comparison\<close>

definition format_matches :: "weston_drm_format_array \<Rightarrow> weston_drm_format \<Rightarrow> bool" where
  "format_matches formats_B fmt_A =
     (case weston_drm_format_array_find_format formats_B (drm_format fmt_A) of
        None \<Rightarrow> False
      | Some i \<Rightarrow>
          (let fmt_B = formats_B ! i;
               num_modifiers_A = snd (weston_drm_format_get_modifiers fmt_A);
               num_modifiers_B = snd (weston_drm_format_get_modifiers fmt_B)
           in num_modifiers_A = num_modifiers_B \<and>
              list_all (weston_drm_format_has_modifier fmt_B) (counted_modifiers fmt_A)))"

definition weston_drm_format_array_equal :: "weston_drm_format_array \<Rightarrow> weston_drm_format_array \<Rightarrow> bool" where
  "weston_drm_format_array_equal formats_A formats_B \<longleftrightarrow>
     length formats_A = length formats_B \<and> list_all (format_matches formats_B) formats_A"

subsection \<open>Union\<close>

fun join_modifiers ::
    "u64 list \<Rightarrow> weston_drm_format \<Rightarrow> bool list \<Rightarrow> (int \<times> weston_drm_format \<times> bool list) option" where
  "join_modifiers [] fmt mem = Some (0, fmt, mem)"
| "join_modifiers (m # ms) fmt mem =
     (if weston_drm_format_has_modifier fmt m then join_modifiers ms fmt mem
      else do {
        (ret, fmt', mem') \<leftarrow> weston_drm_format_add_modifier fmt m mem;
        if ret < 0 then Some (-1, fmt', mem') else join_modifiers ms fmt' mem'
      })"

definition find_or_add_format ::
    "weston_drm_format_array \<Rightarrow> u32 \<Rightarrow> bool list
       \<Rightarrow> (nat option \<times> weston_drm_format_array \<times> bool list) option" where
  "find_or_add_format formats fmt mem =
     (case weston_drm_format_array_find_format formats fmt of
        Some i \<Rightarrow> Some (Some i, formats, mem)
      | None \<Rightarrow> weston_drm_format_array_add_format formats fmt mem)"

fun join_loop ::
    "weston_drm_format list \<Rightarrow> weston_drm_format_array \<Rightarrow> bool list
       \<Rightarrow> (int \<times> weston_drm_format_array \<times> bool list) option" where
  "join_loop [] formats_A mem = Some (0, formats_A, mem)"
| "join_loop (fmt_B # fs) formats_A mem = do {
     (found, formats_A', mem') \<leftarrow> find_or_add_format formats_A (drm_format fmt_B) mem;
     case found of
       None \<Rightarrow> Some (-1, formats_A', mem')
     | Some i \<Rightarrow> do {
         (ret, fmt_A, mem'') \<leftarrow> join_modifiers (counted_modifiers fmt_B) (formats_A' ! i) mem';
         if ret < 0 then Some (-1, formats_A'[i := fmt_A], mem'')
         else join_loop fs (formats_A'[i := fmt_A]) mem''
       }
   }"

definition weston_drm_format_array_join ::
    "weston_drm_format_array \<Rightarrow> weston_drm_format_array \<Rightarrow> bool list
       \<Rightarrow> (int \<times> weston_drm_format_array \<times> bool list) option" where
  "weston_drm_format_array_join formats_A formats_B mem = join_loop formats_B formats_A mem"

subsection \<open>Intersection and difference\<close>

fun modifiers_intersect ::
    "u64 list \<Rightarrow> weston_drm_format \<Rightarrow> u64 list \<Rightarrow> bool list \<Rightarrow> int \<times> u64 list \<times> bool list" where
  "modifiers_intersect [] fmt_B res mem = (0, res, mem)"
| "modifiers_intersect (m # ms) fmt_B res mem =
     (if \<not> weston_drm_format_has_modifier fmt_B m then modifiers_intersect ms fmt_B res mem
      else let (ok, mem') = alloc mem in
           if ok then modifiers_intersect ms fmt_B (res @ [m]) mem' else (-1, res, mem'))"

fun modifiers_subtract ::
    "u64 list \<Rightarrow> weston_drm_format \<Rightarrow> u64 list \<Rightarrow> bool list \<Rightarrow> int \<times> u64 list \<times> bool list" where
  "modifiers_subtract [] fmt_B res mem = (0, res, mem)"
| "modifiers_subtract (m # ms) fmt_B res mem =
     (if weston_drm_format_has_modifier fmt_B m then modifiers_subtract ms fmt_B res mem
      else let (ok, mem') = alloc mem in
           if ok then modifiers_subtract ms fmt_B (res @ [m]) mem' else (-1, res, mem'))"

text \<open>
  The loops of the two operations over \<open>formats_A\<close>, with the result array so far. A format whose
  modifier set became empty is removed again.
\<close>

fun intersect_loop ::
    "weston_drm_format list \<Rightarrow> weston_drm_format_array \<Rightarrow> weston_drm_format_array \<Rightarrow> bool list
       \<Rightarrow> (int \<times> weston_drm_format_array \<times> bool list) option" where
  "intersect_loop [] formats_B result mem = Some (0, result, mem)"
| "intersect_loop (fmt_A # fs) formats_B result mem =
     (case weston_drm_format_array_find_format formats_B (drm_format fmt_A) of
        None \<Rightarrow> intersect_loop fs formats_B result mem
      | Some j \<Rightarrow> do {
          (found, result', mem') \<leftarrow> weston_drm_format_array_add_format result (drm_format fmt_A) mem;
          case found of
            None \<Rightarrow> Some (-1, result', mem')
          | Some i \<Rightarrow>
              (case modifiers_intersect (counted_modifiers fmt_A) (formats_B ! j)
                      (modifiers (result' ! i)) mem' of
                 (ret, mods, mem'') \<Rightarrow>
                   (let result'' = result'[i := (result' ! i)\<lparr> modifiers := mods \<rparr>] in
                    if ret < 0 then Some (-1, result'', mem'')
                    else if mods = [] then do {
                      result''' \<leftarrow> weston_drm_format_array_remove_latest_format result'';
                      intersect_loop fs formats_B result''' mem''
                    }
                    else intersect_loop fs formats_B result'' mem''))
        })"

fun subtract_loop ::
    "weston_drm_format list \<Rightarrow> weston_drm_format_array \<Rightarrow> weston_drm_format_array \<Rightarrow> bool list
       \<Rightarrow> (int \<times> weston_drm_format_array \<times> bool list) option" where
  "subtract_loop [] formats_B result mem = Some (0, result, mem)"
| "subtract_loop (fmt_A # fs) formats_B result mem =
     (case weston_drm_format_array_find_format formats_B (drm_format fmt_A) of
        None \<Rightarrow> do {
          (ret, result', mem') \<leftarrow> add_format_and_modifiers result (drm_format fmt_A) (modifiers fmt_A) mem;
          if ret < 0 then Some (-1, result', mem') else subtract_loop fs formats_B result' mem'
        }
      | Some j \<Rightarrow> do {
          (found, result', mem') \<leftarrow> weston_drm_format_array_add_format result (drm_format fmt_A) mem;
          case found of
            None \<Rightarrow> Some (-1, result', mem')
          | Some i \<Rightarrow>
              (case modifiers_subtract (counted_modifiers fmt_A) (formats_B ! j)
                      (modifiers (result' ! i)) mem' of
                 (ret, mods, mem'') \<Rightarrow>
                   (let result'' = result'[i := (result' ! i)\<lparr> modifiers := mods \<rparr>] in
                    if ret < 0 then Some (-1, result'', mem'')
                    else if mods = [] then do {
                      result''' \<leftarrow> weston_drm_format_array_remove_latest_format result'';
                      subtract_loop fs formats_B result''' mem''
                    }
                    else subtract_loop fs formats_B result'' mem''))
        })"

definition weston_drm_format_array_intersect ::
    "weston_drm_format_array \<Rightarrow> weston_drm_format_array \<Rightarrow> bool list
       \<Rightarrow> (int \<times> weston_drm_format_array \<times> bool list) option" where
  "weston_drm_format_array_intersect formats_A formats_B mem = do {
     (ret, result, mem') \<leftarrow> intersect_loop formats_A formats_B weston_drm_format_array_init mem;
     if ret < 0 then Some (-1, formats_A, mem')
     else do {
       (ret', formats_A', mem'') \<leftarrow> weston_drm_format_array_replace formats_A result mem';
       Some (if ret' < 0 then -1 else 0, formats_A', mem'')
     }
   }"

definition weston_drm_format_array_subtract ::
    "weston_drm_format_array \<Rightarrow> weston_drm_format_array \<Rightarrow> bool list
       \<Rightarrow> (int \<times> weston_drm_format_array \<times> bool list) option" where
  "weston_drm_format_array_subtract formats_A formats_B mem = do {
     (ret, result, mem') \<leftarrow> subtract_loop formats_A formats_B weston_drm_format_array_init mem;
     if ret < 0 then Some (-1, formats_A, mem')
     else do {
       (ret', formats_A', mem'') \<leftarrow> weston_drm_format_array_replace formats_A result mem';
       Some (if ret' < 0 then -1 else 0, formats_A', mem'')
     }
   }"

subsection \<open>The sets an array stands for\<close>

definition formats_of :: "weston_drm_format_array \<Rightarrow> u32 set" where
  "formats_of A = drm_format ` set A"

definition pairs_of :: "weston_drm_format_array \<Rightarrow> (u32 \<times> u64) set" where
  "pairs_of A = {(f, m). \<exists>fmt \<in> set A. drm_format fmt = f \<and> m \<in> set (modifiers fmt)}"

text \<open>No repeated format, no repeated modifier, and at most \<open>n\<close> modifiers for a format.\<close>

definition drm_wf :: "nat \<Rightarrow> weston_drm_format_array \<Rightarrow> bool" where
  "drm_wf n A \<longleftrightarrow> distinct (map drm_format A) \<and>
     (\<forall>fmt \<in> set A. distinct (modifiers fmt) \<and> length (modifiers fmt) \<le> n)"

lemma drm_set_simps [simp]:
  "formats_of [] = {}" "pairs_of [] = {}" "drm_wf n []"
  "formats_of (A @ B) = formats_of A \<union> formats_of B" "pairs_of (A @ B) = pairs_of A \<union> pairs_of B"
  "formats_of (fmt # A) = insert (drm_format fmt) (formats_of A)"
  "pairs_of (fmt # A) = Pair (drm_format fmt) ` set (modifiers fmt) \<union> pairs_of A"
  by (auto simp: formats_of_def pairs_of_def drm_wf_def)

lemma drm_wf_append:
  "drm_wf n (A @ B) \<longleftrightarrow> drm_wf n A \<and> drm_wf n B \<and> formats_of A \<inter> formats_of B = {}"
  by (auto simp: drm_wf_def formats_of_def)

lemma drm_wf_Cons:
  "drm_wf n (fmt # A) \<longleftrightarrow> distinct (modifiers fmt) \<and> length (modifiers fmt) \<le> n \<and>
     drm_format fmt \<notin> formats_of A \<and> drm_wf n A"
  by (auto simp: drm_wf_def formats_of_def)

lemma pairs_fst: "(f, m) \<in> pairs_of A \<Longrightarrow> f \<in> formats_of A"
  by (auto simp: pairs_of_def formats_of_def)

lemma find_None: "weston_drm_format_array_find_format A f = None \<longleftrightarrow> f \<notin> formats_of A"
  by (induction A) auto

lemma find_SomeD:
  "weston_drm_format_array_find_format A f = Some i \<Longrightarrow> i < length A \<and> drm_format (A ! i) = f"
  by (induction A arbitrary: i) (auto split: if_splits)

lemma wf_index:
  assumes "drm_wf n A" "i < length A" "fmt \<in> set A" "drm_format fmt = drm_format (A ! i)"
  shows "fmt = A ! i"
  using assms by (auto simp: drm_wf_def distinct_map inj_on_def)

lemma counted_all: "length (modifiers fmt) < 2 ^ 32 \<Longrightarrow> counted_modifiers fmt = modifiers fmt"
  by (simp add: counted_modifiers_def weston_drm_format_get_modifiers_def unat_of_nat)

lemma has_modifier_iff:
  "length (modifiers fmt) < 2 ^ 32 \<Longrightarrow>
     weston_drm_format_has_modifier fmt m \<longleftrightarrow> m \<in> set (modifiers fmt)"
  by (auto simp: weston_drm_format_has_modifier_def counted_all list_ex_iff)

lemma has_pair_iff:
  assumes "drm_wf n B" "n < 2 ^ 32" "weston_drm_format_array_find_format B f = Some j"
  shows "weston_drm_format_has_modifier (B ! j) m \<longleftrightarrow> (f, m) \<in> pairs_of B"
proof -
  have j: "j < length B" "drm_format (B ! j) = f" using find_SomeD [OF assms(3)] by auto
  have "length (modifiers (B ! j)) \<le> n"
    using assms(1) nth_mem [OF j(1)] by (simp add: drm_wf_def)
  then have "length (modifiers (B ! j)) < 2 ^ 32"
    using assms(2) by (rule le_less_trans)
  moreover have "(f, m) \<in> pairs_of B \<longleftrightarrow> m \<in> set (modifiers (B ! j))"
    using j wf_index [OF assms(1) j(1)] by (auto simp: pairs_of_def)
  ultimately show ?thesis by (simp add: has_modifier_iff)
qed

lemma alloc_mem: "alloc mem = (ok, mem') \<Longrightarrow> (False \<in> set mem' \<longrightarrow> False \<in> set mem) \<and> (\<not> ok \<longrightarrow> False \<in> set mem)"
  by (cases mem) auto

subsection \<open>Copying an array\<close>

lemma add_format_spec:
  assumes "f \<notin> formats_of A"
  obtains (ok) mem' where "(False \<in> set mem' \<longrightarrow> False \<in> set mem)"
      "weston_drm_format_array_add_format A f mem =
         Some (Some (length A), A @ [\<lparr> drm_format = f, modifiers = [] \<rparr>], mem')"
    | (oom) mem' where "(False \<in> set mem' \<longrightarrow> False \<in> set mem)" "False \<in> set mem"
      "weston_drm_format_array_add_format A f mem = Some (None, A, mem')"
proof -
  obtain b mem' where m: "alloc mem = (b, mem')" by (cases "alloc mem")
  from alloc_mem [OF m] m assms show thesis
    by (cases b) (auto simp: weston_drm_format_array_add_format_def find_None intro: ok oom)
qed

lemma add_format_and_modifiers_spec:
  assumes "f \<notin> formats_of A"
  obtains (ok) mem' where "(False \<in> set mem' \<longrightarrow> False \<in> set mem)"
      "add_format_and_modifiers A f ms mem = Some (0, A @ [\<lparr> drm_format = f, modifiers = ms \<rparr>], mem')"
    | (oom) A' mem' where "(False \<in> set mem' \<longrightarrow> False \<in> set mem)" "False \<in> set mem"
      "add_format_and_modifiers A f ms mem = Some (-1, A', mem')"
      "A' = A \<or> A' = A @ [\<lparr> drm_format = f, modifiers = [] \<rparr>]"
  using assms
proof (cases rule: add_format_spec [of f A mem])
  case (ok mem')
  obtain b mem'' where m: "alloc mem' = (b, mem'')" by (cases "alloc mem'")
  show thesis
  proof (cases b)
    case True
    with alloc_mem [OF m] m ok show thesis
      by (intro that(1) [of mem'']) (auto simp: add_format_and_modifiers_def)
  next
    case False
    with alloc_mem [OF m] m ok show thesis
      by (intro that(2) [of mem'']) (auto simp: add_format_and_modifiers_def)
  qed
next
  case (oom mem')
  then show thesis by (intro that(2) [of mem' A]) (auto simp: add_format_and_modifiers_def)
qed

lemma replace_loop_spec:
  assumes "drm_wf n (A @ S)"
  shows "\<exists>r A' mem'. replace_loop S A mem = Some (r, A', mem') \<and> drm_wf n A' \<and>
           (r = 0 \<and> A' = A @ S \<or> r = -1 \<and> False \<in> set mem \<and> pairs_of A' \<subseteq> pairs_of (A @ S))"
  using assms
proof (induction S arbitrary: A mem)
  case Nil
  then show ?case by simp
next
  case (Cons s S)
  let ?s = "\<lparr> drm_format = drm_format s, modifiers = modifiers s \<rparr>"
  have s: "?s = s" by simp
  from Cons.prems have new: "drm_format s \<notin> formats_of A" and wfA: "drm_wf n A"
    by (auto simp: drm_wf_append)
  from new show ?case
  proof (cases rule: add_format_and_modifiers_spec [where mem = mem and ms = "modifiers s"])
    case (ok mem')
    from Cons.prems Cons.IH [of "A @ [s]" mem'] ok s show ?thesis by auto
  next
    case (oom A' mem')
    then have "drm_wf n A'" "pairs_of A' \<subseteq> pairs_of A"
      using wfA new by (auto simp: drm_wf_append drm_wf_Cons)
    with oom show ?thesis by auto
  qed
qed

lemmas replace_spec = replace_loop_spec [of _ "[]", simplified]


subsection \<open>Intersection and difference compute the sets\<close>

lemma modifiers_intersect_spec:
  "\<exists>r res' mem'. modifiers_intersect ms fmt res mem = (r, res', mem') \<and> (False \<in> set mem' \<longrightarrow> False \<in> set mem) \<and>
     (r = 0 \<and> res' = res @ filter (weston_drm_format_has_modifier fmt) ms \<or>
      r = -1 \<and> False \<in> set mem)"
proof (induction ms arbitrary: res mem)
  case (Cons m ms)
  obtain b mem' where m: "alloc mem = (b, mem')" by (cases "alloc mem")
  from alloc_mem [OF m] m Cons.IH [of res mem] Cons.IH [of "res @ [m]" mem']
  show ?case by (cases b) auto
qed simp

lemma modifiers_subtract_spec:
  "\<exists>r res' mem'. modifiers_subtract ms fmt res mem = (r, res', mem') \<and> (False \<in> set mem' \<longrightarrow> False \<in> set mem) \<and>
     (r = 0 \<and> res' = res @ filter (\<lambda>m. \<not> weston_drm_format_has_modifier fmt m) ms \<or>
      r = -1 \<and> False \<in> set mem)"
proof (induction ms arbitrary: res mem)
  case (Cons m ms)
  obtain b mem' where m: "alloc mem = (b, mem')" by (cases "alloc mem")
  from alloc_mem [OF m] m Cons.IH [of res mem] Cons.IH [of "res @ [m]" mem']
  show ?case by (cases b) auto
qed simp

text \<open>The arrays the two operations should produce, as list functions.\<close>

definition intersection_of :: "weston_drm_format_array \<Rightarrow> weston_drm_format_array \<Rightarrow> weston_drm_format_array" where
  "intersection_of A B =
     filter (\<lambda>f. modifiers f \<noteq> [])
       (map (\<lambda>f. f\<lparr> modifiers := filter (\<lambda>m. (drm_format f, m) \<in> pairs_of B) (modifiers f) \<rparr>) A)"

definition difference_of :: "weston_drm_format_array \<Rightarrow> weston_drm_format_array \<Rightarrow> weston_drm_format_array" where
  "difference_of A B =
     filter (\<lambda>f. drm_format f \<notin> formats_of B \<or> modifiers f \<noteq> [])
       (map (\<lambda>f. f\<lparr> modifiers := filter (\<lambda>m. (drm_format f, m) \<notin> pairs_of B) (modifiers f) \<rparr>) A)"

lemma narrowed_set: 
  "formats_of (filter P (map (\<lambda>f. f\<lparr> modifiers := filter (Q (drm_format f)) (modifiers f) \<rparr>) A)) \<subseteq> formats_of A"
  "drm_wf n A \<Longrightarrow>
     drm_wf n (filter P (map (\<lambda>f. f\<lparr> modifiers := filter (Q (drm_format f)) (modifiers f) \<rparr>) A))"
  by (induction A) (auto simp: drm_wf_Cons intro: order_trans [OF length_filter_le])

lemma mem_pairs: "(f, m) \<in> pairs_of A \<longleftrightarrow> (\<exists>fmt \<in> set A. drm_format fmt = f \<and> m \<in> set (modifiers fmt))"
  by (simp add: pairs_of_def)

lemma mem_formats: "f \<in> formats_of A \<longleftrightarrow> (\<exists>fmt \<in> set A. drm_format fmt = f)"
  by (auto simp: formats_of_def)

lemma mem_narrowed:
  "(f, m) \<in> pairs_of (filter P (map (\<lambda>f. f\<lparr> modifiers := filter (Q (drm_format f)) (modifiers f) \<rparr>) A)) \<longleftrightarrow>
     (\<exists>fmt \<in> set A. drm_format fmt = f \<and> m \<in> set (modifiers fmt) \<and> Q f m \<and>
        P (fmt\<lparr> modifiers := filter (Q f) (modifiers fmt) \<rparr>))"
  by (auto simp: mem_pairs)

lemma formats_narrowed:
  "f \<in> formats_of (filter P (map (\<lambda>f. f\<lparr> modifiers := filter (Q (drm_format f)) (modifiers f) \<rparr>) A)) \<longleftrightarrow>
     (\<exists>fmt \<in> set A. drm_format fmt = f \<and> P (fmt\<lparr> modifiers := filter (Q f) (modifiers fmt) \<rparr>))"
  by (auto simp: mem_formats)

lemma intersection_of_set:
  "drm_wf n A \<Longrightarrow> drm_wf n (intersection_of A B)"
  "pairs_of (intersection_of A B) = pairs_of A \<inter> pairs_of B"
  "formats_of (intersection_of A B) = fst ` (pairs_of A \<inter> pairs_of B)"
proof -
  show "drm_wf n A \<Longrightarrow> drm_wf n (intersection_of A B)"
    unfolding intersection_of_def by (rule narrowed_set [where Q = "\<lambda>f m. (f, m) \<in> pairs_of B"])
  show "pairs_of (intersection_of A B) = pairs_of A \<inter> pairs_of B"
  proof (rule set_eqI)
    fix x show "x \<in> pairs_of (intersection_of A B) \<longleftrightarrow> x \<in> pairs_of A \<inter> pairs_of B"
      by (cases x) (auto simp: intersection_of_def
          mem_narrowed [where Q = "\<lambda>f m. (f, m) \<in> pairs_of B", simplified] mem_pairs [of _ _ A] filter_empty_conv)
  qed
  show "formats_of (intersection_of A B) = fst ` (pairs_of A \<inter> pairs_of B)"
  proof (rule set_eqI)
    fix f show "f \<in> formats_of (intersection_of A B) \<longleftrightarrow> f \<in> fst ` (pairs_of A \<inter> pairs_of B)"
      unfolding intersection_of_def formats_narrowed [where Q = "\<lambda>f m. (f, m) \<in> pairs_of B"]
      by (auto simp: mem_pairs [of _ _ A] filter_empty_conv image_iff Bex_def split: prod.splits)
  qed
qed

lemma difference_of_set:
  "drm_wf n A \<Longrightarrow> drm_wf n (difference_of A B)"
  "pairs_of (difference_of A B) = pairs_of A - pairs_of B"
  "formats_of (difference_of A B) = formats_of A - formats_of B \<union> fst ` (pairs_of A - pairs_of B)"
proof -
  show "drm_wf n A \<Longrightarrow> drm_wf n (difference_of A B)"
    unfolding difference_of_def by (rule narrowed_set [where Q = "\<lambda>f m. (f, m) \<notin> pairs_of B"])
  show "pairs_of (difference_of A B) = pairs_of A - pairs_of B"
  proof (rule set_eqI)
    fix x show "x \<in> pairs_of (difference_of A B) \<longleftrightarrow> x \<in> pairs_of A - pairs_of B"
      by (cases x) (auto simp: difference_of_def
          mem_narrowed [where Q = "\<lambda>f m. (f, m) \<notin> pairs_of B", simplified] mem_pairs [of _ _ A] filter_empty_conv)
  qed
  show "formats_of (difference_of A B) = formats_of A - formats_of B \<union> fst ` (pairs_of A - pairs_of B)"
  proof (rule set_eqI)
    fix f show "f \<in> formats_of (difference_of A B) \<longleftrightarrow>
        f \<in> formats_of A - formats_of B \<union> fst ` (pairs_of A - pairs_of B)"
      unfolding difference_of_def formats_narrowed [where Q = "\<lambda>f m. (f, m) \<notin> pairs_of B"]
      by (auto simp: mem_pairs [of _ _ A] mem_formats [of _ A] filter_empty_conv image_iff Bex_def split: prod.splits)
  qed
qed

lemma intersection_of_Cons:
  "intersection_of (f # A) B =
     (let ms = filter (\<lambda>m. (drm_format f, m) \<in> pairs_of B) (modifiers f)
      in (if ms = [] then [] else [\<lparr> drm_format = drm_format f, modifiers = ms \<rparr>]) @ intersection_of A B)"
  by (cases f) (simp add: intersection_of_def Let_def)

lemma difference_of_Cons:
  "difference_of (f # A) B =
     (let ms = filter (\<lambda>m. (drm_format f, m) \<notin> pairs_of B) (modifiers f)
      in (if drm_format f \<in> formats_of B \<and> ms = [] then []
          else [\<lparr> drm_format = drm_format f, modifiers = ms \<rparr>]) @ difference_of A B)"
  by (cases f) (simp add: difference_of_def Let_def)

lemma unfound_pairs: "f \<notin> formats_of B \<Longrightarrow> (f, m) \<notin> pairs_of B"
  using pairs_fst by blast

lemma intersect_loop_spec:
  assumes wfB: "drm_wf n B" and nB: "n < 2 ^ 32" and nA: "\<forall>f \<in> set A. length (modifiers f) < 2 ^ 32"
    and new: "distinct (map drm_format A)" "formats_of R \<inter> formats_of A = {}"
  shows "\<exists>r R' mem'. intersect_loop A B R mem = Some (r, R', mem') \<and> (False \<in> set mem' \<longrightarrow> False \<in> set mem) \<and>
           (r = 0 \<and> R' = R @ intersection_of A B \<or> r = -1 \<and> False \<in> set mem)"
  using nA new
proof (induction A arbitrary: R mem)
  case Nil
  then show ?case by (simp add: intersection_of_def)
next
  case (Cons f A)
  let ?fmt = "drm_format f"
  let ?ms = "filter (\<lambda>m. (?fmt, m) \<in> pairs_of B) (modifiers f)"
  have dA: "distinct (map drm_format A)" and nA: "\<forall>f \<in> set A. length (modifiers f) < 2 ^ 32"
    and fA: "?fmt \<notin> formats_of A" and fR: "?fmt \<notin> formats_of R" and RA: "formats_of R \<inter> formats_of A = {}"
    using Cons.prems by (auto simp: formats_of_def)
  note IH = Cons.IH [OF nA dA]
  show ?case
  proof (cases "weston_drm_format_array_find_format B ?fmt")
    case None
    then have "?ms = []" by (simp add: find_None unfound_pairs)
    with IH [OF RA, of mem] None show ?thesis by (simp add: intersection_of_Cons)
  next
    case (Some j)
    have has: "weston_drm_format_has_modifier (B ! j) = (\<lambda>m. (?fmt, m) \<in> pairs_of B)"
      using has_pair_iff [OF wfB nB Some] by auto
    have cm: "counted_modifiers f = modifiers f" using Cons.prems(1) by (simp add: counted_all)
    from fR show ?thesis
    proof (cases rule: add_format_spec [where mem = mem])
      case (oom mem')
      with Some show ?thesis by simp
    next
      case (ok mem')
      obtain r ms mem'' where mi: "modifiers_intersect (modifiers f) (B ! j) [] mem' = (r, ms, mem'')"
        and mem: "(False \<in> set mem'' \<longrightarrow> False \<in> set mem')" and res: "r = 0 \<and> ms = ?ms \<or> r = -1 \<and> False \<in> set mem'"
        using modifiers_intersect_spec [of "modifiers f" "B ! j" "[]" mem'] unfolding has by auto
      from res show ?thesis
      proof
        assume r: "r = -1 \<and> False \<in> set mem'"
        with mem ok Some mi show ?thesis by (auto simp: cm)
      next
        assume r: "r = 0 \<and> ms = ?ms"
        let ?R = "if ?ms = [] then R else R @ [\<lparr> drm_format = ?fmt, modifiers = ?ms \<rparr>]"
        have "formats_of ?R \<inter> formats_of A = {}" using RA fA by auto
        from IH [OF this, of mem''] r mem ok Some mi show ?thesis
          by (auto simp: cm intersection_of_Cons Let_def weston_drm_format_array_remove_latest_format_def)
      qed
    qed
  qed
qed


lemma difference_unfound:
  "drm_format f \<notin> formats_of B \<Longrightarrow> difference_of (f # A) B =
     \<lparr> drm_format = drm_format f, modifiers = modifiers f \<rparr> # difference_of A B"
  by (simp add: difference_of_Cons unfound_pairs)

lemma subtract_loop_spec:
  assumes wfB: "drm_wf n B" and nB: "n < 2 ^ 32" and nA: "\<forall>f \<in> set A. length (modifiers f) < 2 ^ 32"
    and new: "distinct (map drm_format A)" "formats_of R \<inter> formats_of A = {}"
  shows "\<exists>r R' mem'. subtract_loop A B R mem = Some (r, R', mem') \<and>
           (False \<in> set mem' \<longrightarrow> False \<in> set mem) \<and>
           (r = 0 \<and> R' = R @ difference_of A B \<or> r = -1 \<and> False \<in> set mem)"
  using nA new
proof (induction A arbitrary: R mem)
  case Nil
  then show ?case by (simp add: difference_of_def)
next
  case (Cons f A)
  let ?fmt = "drm_format f"
  let ?ms = "filter (\<lambda>m. (?fmt, m) \<notin> pairs_of B) (modifiers f)"
  have dA: "distinct (map drm_format A)" and nA: "\<forall>f \<in> set A. length (modifiers f) < 2 ^ 32"
    and fA: "?fmt \<notin> formats_of A" and fR: "?fmt \<notin> formats_of R" and RA: "formats_of R \<inter> formats_of A = {}"
    using Cons.prems by (auto simp: formats_of_def)
  note IH = Cons.IH [OF nA dA]
  show ?case
  proof (cases "weston_drm_format_array_find_format B ?fmt")
    case None
    then have B: "?fmt \<notin> formats_of B" by (simp add: find_None)
    from fR show ?thesis
    proof (cases rule: add_format_and_modifiers_spec [where mem = mem and ms = "modifiers f"])
      case (oom A' mem')
      with None show ?thesis by auto
    next
      case (ok mem')
      have "formats_of (R @ [\<lparr> drm_format = ?fmt, modifiers = modifiers f \<rparr>]) \<inter> formats_of A = {}"
        using RA fA by auto
      from IH [OF this, of mem'] ok None show ?thesis by (auto simp: difference_unfound [OF B])
    qed
  next
    case (Some j)
    have has: "(\<lambda>m. \<not> weston_drm_format_has_modifier (B ! j) m) = (\<lambda>m. (?fmt, m) \<notin> pairs_of B)"
      using has_pair_iff [OF wfB nB Some] by auto
    have inB: "?fmt \<in> formats_of B" using Some find_None [of B ?fmt] by auto
    have cm: "counted_modifiers f = modifiers f" using Cons.prems(1) by (simp add: counted_all)
    from fR show ?thesis
    proof (cases rule: add_format_spec [where mem = mem])
      case (oom mem')
      with Some show ?thesis by simp
    next
      case (ok mem')
      obtain r ms mem'' where mi: "modifiers_subtract (modifiers f) (B ! j) [] mem' = (r, ms, mem'')"
        and mem: "False \<in> set mem'' \<longrightarrow> False \<in> set mem'"
        and res: "r = 0 \<and> ms = ?ms \<or> r = -1 \<and> False \<in> set mem'"
        using modifiers_subtract_spec [of "modifiers f" "B ! j" "[]" mem'] unfolding has by auto
      from res show ?thesis
      proof
        assume r: "r = -1 \<and> False \<in> set mem'"
        with mem ok Some mi show ?thesis by (auto simp: cm)
      next
        assume r: "r = 0 \<and> ms = ?ms"
        let ?R = "if ?ms = [] then R else R @ [\<lparr> drm_format = ?fmt, modifiers = ?ms \<rparr>]"
        have "formats_of ?R \<inter> formats_of A = {}" using RA fA by auto
        from IH [OF this, of mem''] r mem ok Some mi inB show ?thesis
          by (auto simp: cm difference_of_Cons Let_def weston_drm_format_array_remove_latest_format_def)
      qed
    qed
  qed
qed

lemma drm_wf_short: "drm_wf n A \<Longrightarrow> n < 2 ^ 32 \<Longrightarrow> \<forall>f \<in> set A. length (modifiers f) < 2 ^ 32"
  by (auto simp: drm_wf_def intro: le_less_trans)

lemma intersect_spec:
  assumes "drm_wf n A" "drm_wf m B" "n < 2 ^ 32" "m < 2 ^ 32"
  shows "\<exists>r A' mem'. weston_drm_format_array_intersect A B mem = Some (r, A', mem') \<and> drm_wf n A' \<and>
           (r = 0 \<and> A' = intersection_of A B \<or>
            r = -1 \<and> False \<in> set mem \<and> pairs_of A' \<subseteq> pairs_of A)"
proof -
  have dA: "distinct (map drm_format A)" using assms(1) by (simp add: drm_wf_def)
  obtain r R mem' where l: "intersect_loop A B [] mem = Some (r, R, mem')"
      "False \<in> set mem' \<longrightarrow> False \<in> set mem" "r = 0 \<and> R = intersection_of A B \<or> r = -1 \<and> False \<in> set mem"
    using intersect_loop_spec [OF assms(2,4) drm_wf_short [OF assms(1,3)] dA, of "[]" mem] by auto
  from l(3) show ?thesis
  proof
    assume "r = -1 \<and> False \<in> set mem"
    with l assms(1) show ?thesis
      by (simp add: weston_drm_format_array_intersect_def weston_drm_format_array_init_def)
  next
    assume r: "r = 0 \<and> R = intersection_of A B"
    then have "drm_wf n R" using assms(1) by (simp add: intersection_of_set)
    from replace_spec [OF this, of mem'] r l intersection_of_set(2) [of A B] show ?thesis
      by (auto simp: weston_drm_format_array_intersect_def weston_drm_format_array_init_def
          weston_drm_format_array_replace_def weston_drm_format_array_fini_def)
  qed
qed

lemma subtract_spec:
  assumes "drm_wf n A" "drm_wf m B" "n < 2 ^ 32" "m < 2 ^ 32"
  shows "\<exists>r A' mem'. weston_drm_format_array_subtract A B mem = Some (r, A', mem') \<and> drm_wf n A' \<and>
           (r = 0 \<and> A' = difference_of A B \<or>
            r = -1 \<and> False \<in> set mem \<and> pairs_of A' \<subseteq> pairs_of A)"
proof -
  have dA: "distinct (map drm_format A)" using assms(1) by (simp add: drm_wf_def)
  obtain r R mem' where l: "subtract_loop A B [] mem = Some (r, R, mem')"
      "False \<in> set mem' \<longrightarrow> False \<in> set mem" "r = 0 \<and> R = difference_of A B \<or> r = -1 \<and> False \<in> set mem"
    using subtract_loop_spec [OF assms(2,4) drm_wf_short [OF assms(1,3)] dA, of "[]" mem] by auto
  from l(3) show ?thesis
  proof
    assume "r = -1 \<and> False \<in> set mem"
    with l assms(1) show ?thesis
      by (simp add: weston_drm_format_array_subtract_def weston_drm_format_array_init_def)
  next
    assume r: "r = 0 \<and> R = difference_of A B"
    then have "drm_wf n R" using assms(1) by (simp add: difference_of_set)
    from replace_spec [OF this, of mem'] r l difference_of_set(2) [of A B] show ?thesis
      by (auto simp: weston_drm_format_array_subtract_def weston_drm_format_array_init_def
          weston_drm_format_array_replace_def weston_drm_format_array_fini_def)
  qed
qed

subsection \<open>Join computes the union\<close>

lemma join_modifiers_spec:
  assumes "distinct (modifiers fmt)" "length (modifiers fmt) + length ms < 2 ^ 32"
  shows "\<exists>r fmt' mem'. join_modifiers ms fmt mem = Some (r, fmt', mem') \<and>
     (False \<in> set mem' \<longrightarrow> False \<in> set mem) \<and> drm_format fmt' = drm_format fmt \<and>
     distinct (modifiers fmt') \<and> length (modifiers fmt') \<le> length (modifiers fmt) + length ms \<and>
     set (modifiers fmt) \<subseteq> set (modifiers fmt') \<and>
     set (modifiers fmt') \<subseteq> set (modifiers fmt) \<union> set ms \<and>
     (r = 0 \<and> set ms \<subseteq> set (modifiers fmt') \<or> r = -1 \<and> False \<in> set mem)"
  using assms
proof (induction ms arbitrary: fmt mem)
  case Nil
  then show ?case by simp
next
  case (Cons m ms)
  have has: "weston_drm_format_has_modifier fmt m \<longleftrightarrow> m \<in> set (modifiers fmt)"
    using Cons.prems by (intro has_modifier_iff) simp
  show ?case
  proof (cases "m \<in> set (modifiers fmt)")
    case True
    with has Cons.IH [of fmt mem] Cons.prems show ?thesis by fastforce
  next
    case False
    obtain b mem' where al: "alloc mem = (b, mem')" by (cases "alloc mem")
    let ?f = "fmt\<lparr> modifiers := modifiers fmt @ [m] \<rparr>"
    have IH: "\<exists>r fmt' mem''. join_modifiers ms ?f mem' = Some (r, fmt', mem'') \<and>
       (False \<in> set mem'' \<longrightarrow> False \<in> set mem') \<and> drm_format fmt' = drm_format ?f \<and>
       distinct (modifiers fmt') \<and> length (modifiers fmt') \<le> length (modifiers ?f) + length ms \<and>
       set (modifiers ?f) \<subseteq> set (modifiers fmt') \<and>
       set (modifiers fmt') \<subseteq> set (modifiers ?f) \<union> set ms \<and>
       (r = 0 \<and> set ms \<subseteq> set (modifiers fmt') \<or> r = -1 \<and> False \<in> set mem')"
      using Cons.prems False by (intro Cons.IH) auto
    show ?thesis
    proof (cases b)
      case True
      with alloc_mem [OF al] al has False IH show ?thesis
        by (fastforce simp: weston_drm_format_add_modifier_def)
    next
      case nb: False
      with alloc_mem [OF al] al has False Cons.prems show ?thesis
        by (auto simp: weston_drm_format_add_modifier_def)
    qed
  qed
qed


lemma mem_pairs_nth:
  "(f, m) \<in> pairs_of A \<longleftrightarrow> (\<exists>i < length A. drm_format (A ! i) = f \<and> m \<in> set (modifiers (A ! i)))"
  unfolding mem_pairs by (metis in_set_conv_nth)

lemma grown_entry:
  assumes wf: "drm_wf k A" and i: "i < length A" and same: "drm_format x = drm_format (A ! i)"
    and more: "set (modifiers (A ! i)) \<subseteq> set (modifiers x)"
    and x: "distinct (modifiers x)" "length (modifiers x) \<le> k"
  shows "drm_wf k (A[i := x])" "formats_of (A[i := x]) = formats_of A"
    "pairs_of (A[i := x]) = pairs_of A \<union> Pair (drm_format x) ` set (modifiers x)"
proof -
  have m: "map drm_format (A[i := x]) = map drm_format A"
    using i same by (simp add: map_update list_update_same_conv)
  then show "formats_of (A[i := x]) = formats_of A"
    unfolding formats_of_def by (metis set_map)
  show "drm_wf k (A[i := x])"
    using wf x unfolding drm_wf_def m by (auto dest!: set_update_subset_insert [THEN subsetD])
  show "pairs_of (A[i := x]) = pairs_of A \<union> Pair (drm_format x) ` set (modifiers x)"
  proof (rule set_eqI)
    fix p show "p \<in> pairs_of (A[i := x]) \<longleftrightarrow>
        p \<in> pairs_of A \<union> Pair (drm_format x) ` set (modifiers x)"
      using i same more
      by (cases p) (auto simp: mem_pairs_nth nth_list_update split: if_splits)
  qed
qed

lemma find_or_add_spec:
  assumes wf: "drm_wf k A"
  obtains (ok) i A' mem' where "find_or_add_format A f mem = Some (Some i, A', mem')"
      "False \<in> set mem' \<longrightarrow> False \<in> set mem" "i < length A'" "drm_format (A' ! i) = f"
      "A' = A \<or> f \<notin> formats_of A \<and> A' = A @ [\<lparr> drm_format = f, modifiers = [] \<rparr>]"
    | (oom) mem' where "find_or_add_format A f mem = Some (None, A, mem')" "False \<in> set mem"
proof (cases "weston_drm_format_array_find_format A f")
  case None
  then have new: "f \<notin> formats_of A" by (simp add: find_None)
  then show thesis
  proof (cases rule: add_format_spec [where mem = mem])
    case (ok mem')
    with None new show thesis by (intro that(1) [of "length A"]) (auto simp: find_or_add_format_def)
  next
    case (oom mem')
    with None show thesis by (intro that(2)) (auto simp: find_or_add_format_def)
  qed
next
  case (Some i)
  with find_SomeD [OF Some] show thesis by (intro that(1) [of i A mem]) (auto simp: find_or_add_format_def)
qed

lemma join_loop_spec:
  assumes "drm_wf (n + m) A" "\<forall>f \<in> set A. drm_format f \<in> formats_of B \<longrightarrow> length (modifiers f) \<le> n"
    and "drm_wf m B" "n + m < 2 ^ 32"
  shows "\<exists>r A' mem'. join_loop B A mem = Some (r, A', mem') \<and> drm_wf (n + m) A' \<and>
           pairs_of A \<subseteq> pairs_of A' \<and> pairs_of A' \<subseteq> pairs_of A \<union> pairs_of B \<and>
           formats_of A \<subseteq> formats_of A' \<and> formats_of A' \<subseteq> formats_of A \<union> formats_of B \<and>
           (r = 0 \<and> pairs_of B \<subseteq> pairs_of A' \<and> formats_of B \<subseteq> formats_of A' \<or>
            r = -1 \<and> False \<in> set mem)"
  using assms
proof (induction B arbitrary: A mem)
  case Nil
  then show ?case by simp
next
  case (Cons b B)
  let ?f = "drm_format b"
  have b: "distinct (modifiers b)" "length (modifiers b) \<le> m" "?f \<notin> formats_of B" "drm_wf m B"
    using Cons.prems(3) by (simp_all add: drm_wf_Cons)
  have cm: "counted_modifiers b = modifiers b" using b(2) Cons.prems(4) by (intro counted_all) simp
  from Cons.prems(1) show ?case
  proof (cases rule: find_or_add_spec [where f = ?f and mem = mem])
    case (oom mem')
    with Cons.prems(1) show ?thesis by auto
  next
    case (ok i A1 mem1)
    have A1: "drm_wf (n + m) A1" "pairs_of A1 = pairs_of A" "formats_of A1 = insert ?f (formats_of A)"
    proof -
      have "?f \<in> formats_of A1" using ok(3,4) by (auto simp: mem_formats)
      with ok(5) show "formats_of A1 = insert ?f (formats_of A)" by auto
    qed (use ok(5) Cons.prems(1) in \<open>auto simp: drm_wf_append drm_wf_Cons\<close>)
    have short: "\<forall>x \<in> set A1. drm_format x \<in> formats_of (b # B) \<longrightarrow> length (modifiers x) \<le> n"
      using ok(5) Cons.prems(2) by auto
    have ai: "A1 ! i \<in> set A1" using ok(3) by simp
    then have di: "distinct (modifiers (A1 ! i))" and li: "length (modifiers (A1 ! i)) \<le> n"
      using A1(1) short ok(4) by (auto simp: drm_wf_def)
    then have "length (modifiers (A1 ! i)) + length (modifiers b) < 2 ^ 32"
      using b(2) Cons.prems(4) by linarith
    note joined = join_modifiers_spec [OF di this, of mem1]
    obtain r x mem2 where
      jm: "join_modifiers (modifiers b) (A1 ! i) mem1 = Some (r, x, mem2)"
      and m2: "False \<in> set mem2 \<longrightarrow> False \<in> set mem1" and fx: "drm_format x = drm_format (A1 ! i)"
      and dx: "distinct (modifiers x)"
      and lx: "length (modifiers x) \<le> length (modifiers (A1 ! i)) + length (modifiers b)"
      and sub: "set (modifiers (A1 ! i)) \<subseteq> set (modifiers x)"
        "set (modifiers x) \<subseteq> set (modifiers (A1 ! i)) \<union> set (modifiers b)"
      and res: "r = 0 \<and> set (modifiers b) \<subseteq> set (modifiers x) \<or> r = -1 \<and> False \<in> set mem1"
      using joined by (elim exE conjE) (rule that; assumption)
    have lx': "length (modifiers x) \<le> n + m" using lx li b(2) by linarith
    note grown = grown_entry [OF A1(1) ok(3) fx sub(1) dx lx']
    have old: "Pair ?f ` set (modifiers (A1 ! i)) \<subseteq> pairs_of A"
      unfolding A1(2) [symmetric] using ai ok(4) by (auto simp: mem_pairs)
    have P: "pairs_of A \<subseteq> pairs_of (A1[i := x])" "pairs_of (A1[i := x]) \<subseteq> pairs_of A \<union> pairs_of (b # B)"
    proof -
      have X: "pairs_of (A1[i := x]) = pairs_of A \<union> Pair ?f ` set (modifiers x)"
        by (simp only: grown(3) A1(2) fx ok(4))
      show "pairs_of A \<subseteq> pairs_of (A1[i := x])" unfolding X by blast
      show "pairs_of (A1[i := x]) \<subseteq> pairs_of A \<union> pairs_of (b # B)"
        unfolding X using sub(2) old by (simp only: drm_set_simps) blast
    qed
    show ?thesis
    proof (cases "r < 0")
      case True
      with res have oomem: "r = -1" "False \<in> set mem1" by auto
      with ok jm grown(1,2) P A1(3) show ?thesis by (auto simp: cm)
    next
      case False
      with res have r: "r = 0" "set (modifiers b) \<subseteq> set (modifiers x)" by auto
      have Pb: "Pair ?f ` set (modifiers b) \<subseteq> pairs_of (A1[i := x])"
        unfolding grown(3) fx ok(4) using r(2) by blast
      have short': "\<forall>y \<in> set (A1[i := x]). drm_format y \<in> formats_of B \<longrightarrow> length (modifiers y) \<le> n"
        using short b(3) fx ok(4) by (auto dest!: set_update_subset_insert [THEN subsetD])
      from Cons.IH [OF grown(1) short' b(4) Cons.prems(4), of mem2] obtain r' A' mem' where
        l: "join_loop B (A1[i := x]) mem2 = Some (r', A', mem')" "drm_wf (n + m) A'"
          "pairs_of (A1[i := x]) \<subseteq> pairs_of A'" "pairs_of A' \<subseteq> pairs_of (A1[i := x]) \<union> pairs_of B"
          "formats_of (A1[i := x]) \<subseteq> formats_of A'" "formats_of A' \<subseteq> formats_of (A1[i := x]) \<union> formats_of B"
          "r' = 0 \<and> pairs_of B \<subseteq> pairs_of A' \<and> formats_of B \<subseteq> formats_of A' \<or> r' = -1 \<and> False \<in> set mem2"
        by blast
      have "join_loop (b # B) A mem = Some (r', A', mem')"
        using ok(1) jm r(1) l(1) by (simp add: cm)
      moreover have "pairs_of A \<subseteq> pairs_of A'" "pairs_of A' \<subseteq> pairs_of A \<union> pairs_of (b # B)"
        using P l(3,4) by auto
      moreover have "formats_of A \<subseteq> formats_of A'" "formats_of A' \<subseteq> formats_of A \<union> formats_of (b # B)"
        using l(5,6) grown(2) A1(3) by auto
      moreover have "r' = 0 \<and> pairs_of (b # B) \<subseteq> pairs_of A' \<and> formats_of (b # B) \<subseteq> formats_of A' \<or>
          r' = -1 \<and> False \<in> set mem"
        using l(7) Pb l(3,5) grown(2) A1(3) m2 ok(2) by auto
      ultimately show ?thesis using l(2) by blast
    qed
  qed
qed


subsection \<open>Comparison and counting\<close>

lemma format_matches_iff:
  assumes wf: "drm_wf n A" "drm_wf n B" "n < 2 ^ 32" and f: "f \<in> set A"
  shows "format_matches B f \<longleftrightarrow>
           (\<exists>g \<in> set B. drm_format g = drm_format f \<and> set (modifiers g) = set (modifiers f))"
proof (cases "weston_drm_format_array_find_format B (drm_format f)")
  case None
  then have "drm_format f \<notin> formats_of B" by (simp add: find_None)
  with None show ?thesis by (auto simp: format_matches_def mem_formats)
next
  case (Some i)
  have i: "i < length B" "drm_format (B ! i) = drm_format f" using find_SomeD [OF Some] by auto
  let ?g = "B ! i"
  have g: "distinct (modifiers ?g)" "length (modifiers ?g) < 2 ^ 32" and gB: "?g \<in> set B"
    using wf i(1) by (auto simp: drm_wf_def intro: le_less_trans)
  have fd: "distinct (modifiers f)" "length (modifiers f) < 2 ^ 32"
    using wf f by (auto simp: drm_wf_def intro: le_less_trans)
  have cards: "card (set (modifiers ?g)) = length (modifiers ?g)"
    "card (set (modifiers f)) = length (modifiers f)"
    using g(1) fd(1) by (simp_all add: distinct_card)
  have num: "(of_nat (length (modifiers f)) :: u32) = of_nat (length (modifiers ?g)) \<longleftrightarrow>
      length (modifiers f) = length (modifiers ?g)"
    using g(2) fd(2) by (simp add: word_unat_eq_iff unat_of_nat)
  have "format_matches B f \<longleftrightarrow> length (modifiers f) = length (modifiers ?g) \<and>
      set (modifiers f) \<subseteq> set (modifiers ?g)"
    using Some num has_modifier_iff [OF g(2)] counted_all [OF fd(2)]
    by (auto simp: format_matches_def weston_drm_format_get_modifiers_def Let_def list_all_iff)
  also have "\<dots> \<longleftrightarrow> set (modifiers ?g) = set (modifiers f)"
    using cards card_subset_eq [of "set (modifiers ?g)" "set (modifiers f)"] by auto
  also have "\<dots> \<longleftrightarrow> (\<exists>g \<in> set B. drm_format g = drm_format f \<and> set (modifiers g) = set (modifiers f))"
    using gB i wf_index [OF wf(2) i(1)] by metis
  finally show ?thesis .
qed

lemma card_formats: "drm_wf n A \<Longrightarrow> card (formats_of A) = length A"
  unfolding drm_wf_def formats_of_def by (metis distinct_card length_map set_map)

lemma matched_pairs:
  assumes "drm_wf n A" "drm_wf n B" "f \<in> set A"
  shows "(\<exists>g \<in> set B. drm_format g = drm_format f \<and> set (modifiers g) = set (modifiers f)) \<longleftrightarrow>
         drm_format f \<in> formats_of B \<and> (\<forall>m. (drm_format f, m) \<in> pairs_of A \<longleftrightarrow> (drm_format f, m) \<in> pairs_of B)"
proof -
  have A: "(drm_format f, m) \<in> pairs_of A \<longleftrightarrow> m \<in> set (modifiers f)" for m
    using assms(1,3) by (auto simp: mem_pairs drm_wf_def distinct_map inj_on_def)
  have B: "(drm_format f, m) \<in> pairs_of B \<longleftrightarrow> m \<in> set (modifiers g)"
    if "g \<in> set B" "drm_format g = drm_format f" for g m
    using assms(2) that by (auto simp: mem_pairs drm_wf_def distinct_map inj_on_def)
  show ?thesis
  proof
    assume "\<exists>g \<in> set B. drm_format g = drm_format f \<and> set (modifiers g) = set (modifiers f)"
    then show "drm_format f \<in> formats_of B \<and>
        (\<forall>m. (drm_format f, m) \<in> pairs_of A \<longleftrightarrow> (drm_format f, m) \<in> pairs_of B)"
      using A B by (force simp: mem_formats)
  next
    assume R: "drm_format f \<in> formats_of B \<and>
        (\<forall>m. (drm_format f, m) \<in> pairs_of A \<longleftrightarrow> (drm_format f, m) \<in> pairs_of B)"
    then obtain g where "g \<in> set B" "drm_format g = drm_format f" by (auto simp: mem_formats)
    moreover from this R A B have "set (modifiers g) = set (modifiers f)" by auto
    ultimately show "\<exists>g \<in> set B. drm_format g = drm_format f \<and> set (modifiers g) = set (modifiers f)"
      by blast
  qed
qed

text \<open>
  C31. The comparison of two format arrays is equality of the sets they stand for: for arrays without
  repetitions, in any order of formats and modifiers, it answers true exactly when both have the
  same formats and the same format/modifier pairs.
\<close>
theorem drm_formats_equal_sets:
  assumes "drm_wf n A" "drm_wf n B" "n < 2 ^ 32"
  shows "weston_drm_format_array_equal A B \<longleftrightarrow> formats_of A = formats_of B \<and> pairs_of A = pairs_of B"
proof -
  have fin: "finite (formats_of A)" "finite (formats_of B)" by (simp_all add: formats_of_def)
  have "weston_drm_format_array_equal A B \<longleftrightarrow> card (formats_of A) = card (formats_of B) \<and>
      (\<forall>f \<in> set A. drm_format f \<in> formats_of B \<and>
         (\<forall>m. (drm_format f, m) \<in> pairs_of A \<longleftrightarrow> (drm_format f, m) \<in> pairs_of B))"
    using format_matches_iff [OF assms] matched_pairs [OF assms(1,2)]
    by (auto simp: weston_drm_format_array_equal_def list_all_iff card_formats [OF assms(1)]
        card_formats [OF assms(2)])
  also have "\<dots> \<longleftrightarrow> card (formats_of A) = card (formats_of B) \<and> formats_of A \<subseteq> formats_of B \<and>
      (\<forall>f \<in> formats_of A. \<forall>m. (f, m) \<in> pairs_of A \<longleftrightarrow> (f, m) \<in> pairs_of B)"
    by (auto simp: formats_of_def)
  also have "\<dots> \<longleftrightarrow> formats_of A = formats_of B \<and>
      (\<forall>f \<in> formats_of A. \<forall>m. (f, m) \<in> pairs_of A \<longleftrightarrow> (f, m) \<in> pairs_of B)"
    using card_subset_eq [OF fin(2)] by auto
  also have "\<dots> \<longleftrightarrow> formats_of A = formats_of B \<and> pairs_of A = pairs_of B"
    using pairs_fst [of _ _ A] pairs_fst [of _ _ B] by auto
  finally show ?thesis .
qed

theorem drm_formats_equal_sets_witness:
  "weston_drm_format_array_equal
     [\<lparr> drm_format = 1, modifiers = [5, 6] \<rparr>, \<lparr> drm_format = 2, modifiers = [] \<rparr>]
     [\<lparr> drm_format = 2, modifiers = [] \<rparr>, \<lparr> drm_format = 1, modifiers = [6, 5] \<rparr>]"
proof -
  let ?A = "[\<lparr> drm_format = 1, modifiers = [5, 6] \<rparr>, \<lparr> drm_format = 2, modifiers = [] \<rparr>]"
  let ?B = "[\<lparr> drm_format = 2, modifiers = [] \<rparr>, \<lparr> drm_format = 1, modifiers = [6, 5] \<rparr>]"
  have "drm_wf 2 ?A" "drm_wf 2 ?B" by (simp_all add: drm_wf_def)
  from drm_formats_equal_sets [OF this] show ?thesis by auto
qed

lemma count_pairs_card:
  assumes "drm_wf n A"
  shows "weston_drm_format_array_count_pairs A = of_nat (card (pairs_of A))"
  using assms
proof (induction A)
  case (Cons f A)
  have d: "distinct (modifiers f)" and new: "drm_format f \<notin> formats_of A" and wf: "drm_wf n A"
    using Cons.prems by (simp_all add: drm_wf_Cons)
  have fin: "finite (pairs_of X)" for X by (induction X) auto
  have "Pair (drm_format f) ` set (modifiers f) \<inter> pairs_of A = {}"
    using new pairs_fst by blast
  then have "card (pairs_of (f # A)) = card (Pair (drm_format f) ` set (modifiers f)) + card (pairs_of A)"
    by (simp add: card_Un_disjoint fin)
  also have "card (Pair (drm_format f) ` set (modifiers f)) = length (modifiers f)"
    using d by (simp add: card_image inj_on_def distinct_card)
  finally show ?case using Cons.IH [OF wf] by simp
qed simp

lemma join_spec:
  assumes "drm_wf n A" "drm_wf m B" "n + m < 2 ^ 32"
  shows "\<exists>r A' mem'. weston_drm_format_array_join A B mem = Some (r, A', mem') \<and> drm_wf (n + m) A' \<and>
        (r = 0 \<and> pairs_of A' = pairs_of A \<union> pairs_of B \<and> formats_of A' = formats_of A \<union> formats_of B \<or>
         r = -1 \<and> False \<in> set mem \<and> pairs_of A \<subseteq> pairs_of A' \<and> pairs_of A' \<subseteq> pairs_of A \<union> pairs_of B)"
proof -
  have "drm_wf (n + m) A" using assms(1) by (auto simp: drm_wf_def)
  moreover have "\<forall>f \<in> set A. drm_format f \<in> formats_of B \<longrightarrow> length (modifiers f) \<le> n"
    using assms(1) by (auto simp: drm_wf_def)
  ultimately obtain r A' mem' where l: "join_loop B A mem = Some (r, A', mem')" "drm_wf (n + m) A'"
      and sub: "pairs_of A \<subseteq> pairs_of A'" "pairs_of A' \<subseteq> pairs_of A \<union> pairs_of B"
        "formats_of A \<subseteq> formats_of A'" "formats_of A' \<subseteq> formats_of A \<union> formats_of B"
      and res: "r = 0 \<and> pairs_of B \<subseteq> pairs_of A' \<and> formats_of B \<subseteq> formats_of A' \<or> r = -1 \<and> False \<in> set mem"
    using join_loop_spec [OF _ _ assms(2,3), of A mem] by blast
  have "r = 0 \<and> pairs_of A' = pairs_of A \<union> pairs_of B \<and> formats_of A' = formats_of A \<union> formats_of B \<or>
         r = -1 \<and> False \<in> set mem \<and> pairs_of A \<subseteq> pairs_of A' \<and> pairs_of A' \<subseteq> pairs_of A \<union> pairs_of B"
    using res sub by blast
  with l show ?thesis unfolding weston_drm_format_array_join_def by blast
qed

text \<open>
  C30. Format arrays are sets. On arrays without repetitions whose modifier counts fit 32 bits, joining,
  intersecting and subtracting never fail an assertion and keep the arrays free of repetitions.
  When they return 0 the array \<open>A\<close> holds the union, intersection or difference of the pairs. They
  return -1 only when an allocation failed; a failed join has lost nothing of \<open>A\<close> and added
  only pairs of \<open>B\<close>, and a failed intersection or difference holds only pairs \<open>A\<close> had.
\<close>
theorem drm_formats_are_sets:
  assumes "drm_wf n A" "drm_wf m B" "n + m < 2 ^ 32"
  shows
    "(\<exists>r A' mem'. weston_drm_format_array_join A B mem = Some (r, A', mem') \<and> drm_wf (n + m) A' \<and>
        (r = 0 \<and> pairs_of A' = pairs_of A \<union> pairs_of B \<and> formats_of A' = formats_of A \<union> formats_of B \<or>
         r = -1 \<and> False \<in> set mem \<and> pairs_of A \<subseteq> pairs_of A' \<and> pairs_of A' \<subseteq> pairs_of A \<union> pairs_of B)) \<and>
     (\<exists>r A' mem'. weston_drm_format_array_intersect A B mem = Some (r, A', mem') \<and> drm_wf n A' \<and>
        (r = 0 \<and> pairs_of A' = pairs_of A \<inter> pairs_of B \<and> formats_of A' = fst ` (pairs_of A \<inter> pairs_of B) \<or>
         r = -1 \<and> False \<in> set mem \<and> pairs_of A' \<subseteq> pairs_of A)) \<and>
     (\<exists>r A' mem'. weston_drm_format_array_subtract A B mem = Some (r, A', mem') \<and> drm_wf n A' \<and>
        (r = 0 \<and> pairs_of A' = pairs_of A - pairs_of B \<and>
           formats_of A' = formats_of A - formats_of B \<union> fst ` (pairs_of A - pairs_of B) \<or>
         r = -1 \<and> False \<in> set mem \<and> pairs_of A' \<subseteq> pairs_of A))"
proof (intro conjI)
  have nm: "n < 2 ^ 32" "m < 2 ^ 32" using assms(3) by auto
  show "\<exists>r A' mem'. weston_drm_format_array_join A B mem = Some (r, A', mem') \<and> drm_wf (n + m) A' \<and>
        (r = 0 \<and> pairs_of A' = pairs_of A \<union> pairs_of B \<and> formats_of A' = formats_of A \<union> formats_of B \<or>
         r = -1 \<and> False \<in> set mem \<and> pairs_of A \<subseteq> pairs_of A' \<and> pairs_of A' \<subseteq> pairs_of A \<union> pairs_of B)"
    by (rule join_spec [OF assms])
  show "\<exists>r A' mem'. weston_drm_format_array_intersect A B mem = Some (r, A', mem') \<and> drm_wf n A' \<and>
        (r = 0 \<and> pairs_of A' = pairs_of A \<inter> pairs_of B \<and> formats_of A' = fst ` (pairs_of A \<inter> pairs_of B) \<or>
         r = -1 \<and> False \<in> set mem \<and> pairs_of A' \<subseteq> pairs_of A)"
    using intersect_spec [OF assms(1,2) nm, of mem] intersection_of_set(2,3) [of A B] by auto
  show "\<exists>r A' mem'. weston_drm_format_array_subtract A B mem = Some (r, A', mem') \<and> drm_wf n A' \<and>
        (r = 0 \<and> pairs_of A' = pairs_of A - pairs_of B \<and>
           formats_of A' = formats_of A - formats_of B \<union> fst ` (pairs_of A - pairs_of B) \<or>
         r = -1 \<and> False \<in> set mem \<and> pairs_of A' \<subseteq> pairs_of A)"
    using subtract_spec [OF assms(1,2) nm, of mem] difference_of_set(2,3) [of A B] by auto
qed

theorem drm_formats_are_sets_witness:
  "\<exists>A' mem'. weston_drm_format_array_subtract
       [\<lparr> drm_format = 1, modifiers = [5, 6] \<rparr>, \<lparr> drm_format = 2, modifiers = [5] \<rparr>]
       [\<lparr> drm_format = 2, modifiers = [5] \<rparr>, \<lparr> drm_format = 1, modifiers = [6] \<rparr>] [] = Some (0, A', mem') \<and>
     pairs_of A' = {(1, 5)}"
proof -
  let ?A = "[\<lparr> drm_format = 1, modifiers = [5, 6] \<rparr>, \<lparr> drm_format = 2, modifiers = [5] \<rparr>]"
  let ?B = "[\<lparr> drm_format = 2, modifiers = [5] \<rparr>, \<lparr> drm_format = 1, modifiers = [6] \<rparr>]"
  have "drm_wf 2 ?A" "drm_wf 1 ?B" by (simp_all add: drm_wf_def)
  from drm_formats_are_sets [OF this, of "[]"] have "\<exists>A' mem'.
      weston_drm_format_array_subtract ?A ?B [] = Some (0, A', mem') \<and> pairs_of A' = pairs_of ?A - pairs_of ?B"
    by auto
  moreover have "pairs_of ?A - pairs_of ?B = {(1, 5)}" by auto
  ultimately show ?thesis by (simp only:)
qed

end
