(* ===== verification/Timespec.thy ===== *)
theory Timespec
  imports Prelude "HOL-Library.Signed_Division"
begin

section \<open>Time stamps of the compositor\<close>

text \<open>
  Models \<open>weston/shared/timespec-util.h\<close> (all functions), the arithmetic on \<open>struct timespec\<close> that the
  compositor schedules its repaints with. Seconds and nanoseconds are signed 64-bit integers, as on
  the machines the program is built for; \<open>None\<close> is a signed overflow, which C leaves undefined, or
  a failed \<open>assert\<close>. C's division rounds towards zero: \<open>sdiv\<close> and \<open>smod\<close>.
\<close>

subsection \<open>The functions\<close>

definition s64 :: "int \<Rightarrow> int option" where
  "s64 x = (if - (2 ^ 63) \<le> x \<and> x < 2 ^ 63 then Some x else None)"

record timespec =
  tv_sec :: int
  tv_nsec :: int

definition NSEC_PER_SEC :: int where
  "NSEC_PER_SEC = 1000000000"

definition timespec_sub :: "timespec \<Rightarrow> timespec \<Rightarrow> timespec option" where
  "timespec_sub a b = do {
     s \<leftarrow> s64 (tv_sec a - tv_sec b);
     n \<leftarrow> s64 (tv_nsec a - tv_nsec b);
     if n < 0 then do {
       s' \<leftarrow> s64 (s - 1);
       n' \<leftarrow> s64 (n + NSEC_PER_SEC);
       Some \<lparr> tv_sec = s', tv_nsec = n' \<rparr>
     } else Some \<lparr> tv_sec = s, tv_nsec = n \<rparr>
   }"

definition timespec_add_nsec :: "timespec \<Rightarrow> int \<Rightarrow> timespec option" where
  "timespec_add_nsec a b = do {
     s \<leftarrow> s64 (tv_sec a + b sdiv NSEC_PER_SEC);
     n \<leftarrow> s64 (tv_nsec a + b smod NSEC_PER_SEC);
     if n \<ge> NSEC_PER_SEC then do {
       s' \<leftarrow> s64 (s + 1);
       n' \<leftarrow> s64 (n - NSEC_PER_SEC);
       Some \<lparr> tv_sec = s', tv_nsec = n' \<rparr>
     } else if n < 0 then do {
       s' \<leftarrow> s64 (s - 1);
       n' \<leftarrow> s64 (n + NSEC_PER_SEC);
       Some \<lparr> tv_sec = s', tv_nsec = n' \<rparr>
     } else Some \<lparr> tv_sec = s, tv_nsec = n \<rparr>
   }"

definition timespec_add_msec :: "timespec \<Rightarrow> int \<Rightarrow> timespec option" where
  "timespec_add_msec a b = do { ns \<leftarrow> s64 (b * 1000000); timespec_add_nsec a ns }"

definition timespec_to_nsec :: "timespec \<Rightarrow> int option" where
  "timespec_to_nsec a = do { s \<leftarrow> s64 (tv_sec a * NSEC_PER_SEC); s64 (s + tv_nsec a) }"

definition timespec_sub_to_nsec :: "timespec \<Rightarrow> timespec \<Rightarrow> int option" where
  "timespec_sub_to_nsec a b = do { r \<leftarrow> timespec_sub a b; timespec_to_nsec r }"

definition timespec_to_msec :: "timespec \<Rightarrow> int option" where
  "timespec_to_msec a = do { s \<leftarrow> s64 (tv_sec a * 1000); s64 (s + tv_nsec a sdiv 1000000) }"

definition timespec_sub_to_msec :: "timespec \<Rightarrow> timespec \<Rightarrow> int option" where
  "timespec_sub_to_msec a b = do { n \<leftarrow> timespec_sub_to_nsec a b; Some (n sdiv 1000000) }"

definition timespec_to_usec :: "timespec \<Rightarrow> int option" where
  "timespec_to_usec a = do { s \<leftarrow> s64 (tv_sec a * 1000000); s64 (s + tv_nsec a sdiv 1000) }"

definition timespec_to_proto :: "timespec \<Rightarrow> (u32 \<times> u32 \<times> u32) option" where
  "timespec_to_proto a =
     (if \<not> tv_sec a \<ge> 0 then None
      else if \<not> (tv_nsec a \<ge> 0 \<and> tv_nsec a < NSEC_PER_SEC) then None
      else let sec64 = of_int (tv_sec a) :: u64 in
        Some (ucast (drop_bit 32 sec64), ucast (sec64 AND 0xffffffff), of_int (tv_nsec a)))"

definition timespec_from_nsec :: "int \<Rightarrow> timespec" where
  "timespec_from_nsec b = \<lparr> tv_sec = b sdiv NSEC_PER_SEC, tv_nsec = b smod NSEC_PER_SEC \<rparr>"

definition timespec_from_usec :: "int \<Rightarrow> timespec option" where
  "timespec_from_usec b = do { ns \<leftarrow> s64 (b * 1000); Some (timespec_from_nsec ns) }"

definition timespec_from_msec :: "int \<Rightarrow> timespec option" where
  "timespec_from_msec b = do { ns \<leftarrow> s64 (b * 1000000); Some (timespec_from_nsec ns) }"

definition u64_from_u32s :: "u32 \<Rightarrow> u32 \<Rightarrow> u64" where
  "u64_from_u32s hi lo = push_bit 32 (ucast hi) + ucast lo"

definition timespec_from_proto :: "u32 \<Rightarrow> u32 \<Rightarrow> u32 \<Rightarrow> timespec" where
  "timespec_from_proto tv_sec_hi tv_sec_lo nsec =
     \<lparr> tv_sec = sint (u64_from_u32s tv_sec_hi tv_sec_lo), tv_nsec = uint nsec \<rparr>"

definition timespec_is_zero :: "timespec \<Rightarrow> bool" where
  "timespec_is_zero a \<longleftrightarrow> tv_sec a = 0 \<and> tv_nsec a = 0"

definition timespec_eq :: "timespec \<Rightarrow> timespec \<Rightarrow> bool" where
  "timespec_eq a b \<longleftrightarrow> tv_sec a = tv_sec b \<and> tv_nsec a = tv_nsec b"

definition millihz_to_nsec :: "u32 \<Rightarrow> int option" where
  "millihz_to_nsec mhz = (if mhz > 0 then Some (1000000000000 sdiv uint mhz) else None)"

subsection \<open>The instant a time stamp stands for\<close>

text \<open>
  \<open>instant\<close> is the time in nanoseconds, \<open>normal\<close> says that the nanoseconds are those of one second, and
  \<open>stamp\<close> is the reference: the only normal time stamp of an instant. \<open>moderate\<close> bounds the seconds
  so that no difference overflows.
\<close>

definition instant :: "timespec \<Rightarrow> int" where
  "instant a = tv_sec a * 1000000000 + tv_nsec a"

definition normal :: "timespec \<Rightarrow> bool" where
  "normal a \<longleftrightarrow> 0 \<le> tv_nsec a \<and> tv_nsec a < 1000000000"

definition stamp :: "int \<Rightarrow> timespec" where
  "stamp t = \<lparr> tv_sec = t div 1000000000, tv_nsec = t mod 1000000000 \<rparr>"

definition moderate :: "timespec \<Rightarrow> bool" where
  "moderate a \<longleftrightarrow> - (2 ^ 61) \<le> tv_sec a \<and> tv_sec a \<le> 2 ^ 61"

lemma stamp_normal [simp]: "normal (stamp t)" "instant (stamp t) = t"
  by (simp_all add: normal_def stamp_def instant_def)

lemma stampI:
  assumes "0 \<le> n" "n < 1000000000" "s * 1000000000 + n = t"
  shows "\<lparr> tv_sec = s, tv_nsec = n \<rparr> = stamp t"
proof -
  have "t div 1000000000 = s" "t mod 1000000000 = n"
    using assms by (simp_all flip: assms(3))
  then show ?thesis by (simp add: stamp_def)
qed

lemma normal_stamp: "normal a \<Longrightarrow> a = stamp (instant a)"
  using stampI [of "tv_nsec a" "tv_sec a" "instant a"] surjective [of a]
  by (simp add: normal_def instant_def)

lemma s64_Some: "- (2 ^ 63) \<le> x \<Longrightarrow> x < 2 ^ 63 \<Longrightarrow> s64 x = Some x"
  by (simp add: s64_def)

lemma trunc_billion:
  "b = (b sdiv 1000000000) * 1000000000 + b smod (1000000000 :: int)"
  "- 1000000000 < b smod (1000000000 :: int)" "b smod (1000000000 :: int) < 1000000000"
  "- (2 ^ 63) \<le> b \<Longrightarrow> b < 2 ^ 63 \<Longrightarrow> - (2 ^ 34) \<le> b sdiv 1000000000 \<and> b sdiv 1000000000 \<le> 2 ^ 34"
proof -
  show eq: "b = (b sdiv 1000000000) * 1000000000 + b smod (1000000000 :: int)"
    by (simp add: sdiv_mult_smod_eq)
  have "\<bar>b smod (1000000000 :: int)\<bar> < 1000000000"
    by (simp add: signed_modulo_int_def abs_mult abs_sgn_eq)
  then show lo: "- 1000000000 < b smod (1000000000 :: int)" and hi: "b smod (1000000000 :: int) < 1000000000"
    by linarith+
  show "- (2 ^ 34) \<le> b sdiv 1000000000 \<and> b sdiv 1000000000 \<le> 2 ^ 34"
    if "- (2 ^ 63) \<le> b" "b < 2 ^ 63"
    using that eq lo hi by simp
qed

lemma timespec_sub_normal:
  assumes "normal a" "normal b" "- (2 ^ 62) \<le> tv_sec a" "tv_sec a \<le> 2 ^ 62" "moderate b"
  shows "timespec_sub a b = Some (stamp (instant a - instant b))"
proof -
  have s: "s64 (tv_sec a - tv_sec b) = Some (tv_sec a - tv_sec b)"
    "s64 (tv_sec a - tv_sec b - 1) = Some (tv_sec a - tv_sec b - 1)"
    using assms(3-5) by (simp_all add: s64_def moderate_def)
  have n: "s64 (tv_nsec a - tv_nsec b) = Some (tv_nsec a - tv_nsec b)"
    "s64 (tv_nsec a - tv_nsec b + 1000000000) = Some (tv_nsec a - tv_nsec b + 1000000000)"
    using assms(1,2) by (simp_all add: s64_def normal_def)
  show ?thesis
    using assms(1,2)
    by (auto simp: timespec_sub_def s n NSEC_PER_SEC_def normal_def instant_def intro!: stampI)
qed

lemma timespec_sub_stamp:
  assumes "normal a" "normal b" "moderate a" "moderate b"
  shows "timespec_sub a b = Some (stamp (instant a - instant b))"
  using assms by (intro timespec_sub_normal) (simp_all add: moderate_def)

lemma timespec_add_nsec_stamp:
  assumes "normal a" "moderate a" "- (2 ^ 63) \<le> k" "k < 2 ^ 63"
  shows "timespec_add_nsec a k = Some (stamp (instant a + k))"
proof -
  let ?q = "k sdiv 1000000000" and ?r = "k smod 1000000000"
  note t = trunc_billion(1-3) [of k] trunc_billion(4) [OF assms(3,4)]
  have s: "s64 (tv_sec a + ?q) = Some (tv_sec a + ?q)" "s64 (tv_sec a + ?q + 1) = Some (tv_sec a + ?q + 1)"
    "s64 (tv_sec a + ?q - 1) = Some (tv_sec a + ?q - 1)"
    using assms(2) t(4) by (simp_all add: s64_def moderate_def)
  have n: "s64 (tv_nsec a + ?r) = Some (tv_nsec a + ?r)"
    "s64 (tv_nsec a + ?r - 1000000000) = Some (tv_nsec a + ?r - 1000000000)"
    "s64 (tv_nsec a + ?r + 1000000000) = Some (tv_nsec a + ?r + 1000000000)"
    using assms(1) t(2,3) by (simp_all add: s64_def normal_def)
  have k: "instant a + k = (tv_sec a + ?q) * 1000000000 + (tv_nsec a + ?r)"
    using t(1) by (simp add: instant_def algebra_simps)
  show ?thesis
    unfolding k using assms(1) t(2,3)
    by (auto simp: timespec_add_nsec_def s n NSEC_PER_SEC_def normal_def intro!: stampI)
qed

lemma to_nsec_stamp:
  assumes "- (2 ^ 63) + 1000000000 \<le> t" "t < 2 ^ 63"
  shows "timespec_to_nsec (stamp t) = Some t"
proof -
  have "t = t div 1000000000 * 1000000000 + t mod 1000000000"
    "0 \<le> t mod 1000000000" "t mod 1000000000 < 1000000000" by simp_all
  then have "- (2 ^ 63) \<le> t div 1000000000 * 1000000000" "t div 1000000000 * 1000000000 < 2 ^ 63"
    using assms by linarith+
  with assms show ?thesis
    by (simp add: timespec_to_nsec_def stamp_def NSEC_PER_SEC_def s64_Some)
qed

text \<open>
  The bound of a second is needed: the product overflows first for the most negative
  instants, although they fit 64 bits.
\<close>
lemma to_nsec_overflow: "timespec_to_nsec (stamp (- (2 ^ 63))) = None"
  by (simp add: timespec_to_nsec_def stamp_def NSEC_PER_SEC_def s64_def)

lemma sub_to_nsec_stamp:
  assumes "normal a" "normal b" "moderate a" "moderate b"
    and "- (2 ^ 63) + 1000000000 \<le> instant a - instant b" "instant a - instant b < 2 ^ 63"
  shows "timespec_sub_to_nsec a b = Some (instant a - instant b)"
  using assms by (simp add: timespec_sub_to_nsec_def timespec_sub_stamp to_nsec_stamp)

text \<open>Adding nanoseconds and subtracting the start again gives back what was added.\<close>

lemma sub_to_nsec_normal:
  assumes "normal a" "normal b" "- (2 ^ 62) \<le> tv_sec a" "tv_sec a \<le> 2 ^ 62" "moderate b"
    and "- (2 ^ 63) + 1000000000 \<le> instant a - instant b" "instant a - instant b < 2 ^ 63"
  shows "timespec_sub_to_nsec a b = Some (instant a - instant b)"
  using assms timespec_sub_normal [OF assms(1-5)]
  by (simp add: timespec_sub_to_nsec_def to_nsec_stamp)

lemma seconds_bound:
  fixes s i k q r :: int
  assumes "s * 1000000000 \<le> i" "i < (s + 1) * 1000000000" "- (2 ^ 61) \<le> s \<and> s \<le> 2 ^ 61"
    "- (2 ^ 63) + 1000000000 \<le> k" "k < 2 ^ 63"
    "q * 1000000000 + r = i + k" "0 \<le> r" "r < 1000000000"
  shows "- (2 ^ 62) \<le> q" "q \<le> 2 ^ 62"
  using assms by simp_all

lemma add_then_sub:
  assumes "normal a" "moderate a" "- (2 ^ 63) + 1000000000 \<le> k" "k < 2 ^ 63"
  shows "timespec_sub_to_nsec (stamp (instant a + k)) a = Some k"
proof -
  have "tv_sec a * 1000000000 \<le> instant a" "instant a < (tv_sec a + 1) * 1000000000"
    using assms(1) by (simp_all add: normal_def instant_def)
  then have "- (2 ^ 62) \<le> (instant a + k) div 1000000000" "(instant a + k) div 1000000000 \<le> 2 ^ 62"
    using assms(2-4) unfolding moderate_def
    by (rule seconds_bound [where r = "(instant a + k) mod 1000000000"]; simp)+
  then have "- (2 ^ 62) \<le> tv_sec (stamp (instant a + k))" "tv_sec (stamp (instant a + k)) \<le> 2 ^ 62"
    by (simp_all add: stamp_def)
  from sub_to_nsec_normal [OF stamp_normal(1) assms(1) this assms(2)] assms(3,4)
  show ?thesis by simp
qed

text \<open>
  Rounding: milliseconds and microseconds of a normal time stamp are rounded down, as the
  comments say. The difference in milliseconds is rounded towards zero.
\<close>

lemma to_msec_floor:
  assumes "normal a" "\<bar>tv_sec a\<bar> \<le> 2 ^ 53"
  shows "timespec_to_msec a = Some (instant a div 1000000)"
proof -
  have d: "tv_nsec a sdiv 1000000 = tv_nsec a div 1000000"
    using assms(1) by (simp add: normal_def signed_divide_int_def sgn_if)
  have r: "0 \<le> tv_nsec a div 1000000" "tv_nsec a div 1000000 < 1000"
    using assms(1) zdiv_mono1 [of "tv_nsec a" 999999999 1000000]
    by (simp_all add: normal_def pos_imp_zdiv_nonneg_iff)
  have "instant a div 1000000 = tv_sec a * 1000 + tv_nsec a div 1000000"
  proof -
    have "instant a = tv_nsec a + (tv_sec a * 1000) * 1000000" by (simp add: instant_def)
    then show ?thesis by simp
  qed
  with assms(2) r show ?thesis by (simp add: timespec_to_msec_def d s64_def abs_le_iff)
qed

lemma to_usec_floor:
  assumes "normal a" "\<bar>tv_sec a\<bar> \<le> 2 ^ 43"
  shows "timespec_to_usec a = Some (instant a div 1000)"
proof -
  have d: "tv_nsec a sdiv 1000 = tv_nsec a div 1000"
    using assms(1) by (simp add: normal_def signed_divide_int_def sgn_if)
  have r: "0 \<le> tv_nsec a div 1000" "tv_nsec a div 1000 < 1000000"
    using assms(1) zdiv_mono1 [of "tv_nsec a" 999999999 1000]
    by (simp_all add: normal_def pos_imp_zdiv_nonneg_iff)
  have "instant a div 1000 = tv_sec a * 1000000 + tv_nsec a div 1000"
  proof -
    have "instant a = tv_nsec a + (tv_sec a * 1000000) * 1000" by (simp add: instant_def)
    then show ?thesis by simp
  qed
  with assms(2) r show ?thesis by (simp add: timespec_to_usec_def d s64_def abs_le_iff)
qed

lemma sub_to_msec_truncates:
  assumes "normal a" "normal b" "moderate a" "moderate b"
    and "- (2 ^ 63) + 1000000000 \<le> instant a - instant b" "instant a - instant b < 2 ^ 63"
  shows "timespec_sub_to_msec a b = Some ((instant a - instant b) sdiv 1000000)"
  using sub_to_nsec_stamp [OF assms] by (simp add: timespec_sub_to_msec_def)

text \<open>
  A time stamp made from a negative number of nanoseconds is not normal, and its milliseconds are
  then not rounded down: one nanosecond before zero gives 0 milliseconds, not -1.
\<close>
lemma from_nsec_not_floor:
  "\<not> normal (timespec_from_nsec (-1))" "instant (timespec_from_nsec (-1)) div 1000000 = -1"
  "timespec_to_msec (timespec_from_nsec (-1)) = Some 0"
  by (simp_all add: timespec_from_nsec_def normal_def instant_def timespec_to_msec_def s64_def
      NSEC_PER_SEC_def signed_divide_int_def signed_modulo_int_def)

lemma from_nsec_instant: "instant (timespec_from_nsec b) = b"
  by (simp add: timespec_from_nsec_def instant_def NSEC_PER_SEC_def sdiv_mult_smod_eq)

lemma from_nsec_stamp: "0 \<le> b \<Longrightarrow> timespec_from_nsec b = stamp b"
  by (simp add: timespec_from_nsec_def stamp_def NSEC_PER_SEC_def signed_divide_int_def
      signed_modulo_int_def sgn_if)

subsection \<open>Time stamps in the protocol\<close>

lemma u64_halves: "u64_from_u32s (ucast (drop_bit 32 w)) (ucast (w AND 0xffffffff)) = w"
proof -
  have disj: "push_bit 32 (ucast hi) AND (ucast (lo :: u32) :: u64) = 0" for hi lo :: u32
    by (rule bit_word_eqI) (auto simp: bit_simps dest: bit_imp_le_length)
  have m: "(0xffffffff :: u64) = mask 32" by (simp add: mask_eq_exp_minus_1)
  show ?thesis
    unfolding u64_from_u32s_def m
    by (subst disjunctive_add) (auto simp: bit_simps intro!: bit_word_eqI dest: bit_imp_le_length)
qed


text \<open>
  C32. Time stamp arithmetic is exact. For normal time stamps with at most \<open>2 ^ 61\<close> seconds, adding any
  64-bit number of nanoseconds and subtracting two stamps neither overflow nor lose a carry: the
  results are the normal time stamps of the exact sum and difference. Subtracting the start from
  the sum gives back the nanoseconds added, and a difference in milliseconds is the exact difference
  rounded towards zero, when the difference leaves a second to the smallest 64-bit number.
\<close>
theorem timespec_arithmetic_exact:
  assumes "normal a" "normal b" "moderate a" "moderate b" "- (2 ^ 63) \<le> k" "k < 2 ^ 63"
  shows "timespec_add_nsec a k = Some (stamp (instant a + k)) \<and>
    timespec_sub a b = Some (stamp (instant a - instant b)) \<and>
    (- (2 ^ 63) + 1000000000 \<le> k \<longrightarrow>
       Option.bind (timespec_add_nsec a k) (\<lambda>c. timespec_sub_to_nsec c a) = Some k) \<and>
    (\<bar>instant a - instant b\<bar> < 2 ^ 63 - 1000000000 \<longrightarrow>
       timespec_sub_to_msec a b = Some ((instant a - instant b) sdiv 1000000))"
proof (intro conjI impI)
  show add: "timespec_add_nsec a k = Some (stamp (instant a + k))"
    using assms by (intro timespec_add_nsec_stamp)
  show "timespec_sub a b = Some (stamp (instant a - instant b))"
    using assms by (intro timespec_sub_stamp)
  show "Option.bind (timespec_add_nsec a k) (\<lambda>c. timespec_sub_to_nsec c a) = Some k"
    if "- (2 ^ 63) + 1000000000 \<le> k"
    using add_then_sub [OF assms(1,3) that assms(6)] by (simp add: add)
  show "timespec_sub_to_msec a b = Some ((instant a - instant b) sdiv 1000000)"
    if "\<bar>instant a - instant b\<bar> < 2 ^ 63 - 1000000000"
    using assms that by (intro sub_to_msec_truncates) linarith+
qed

theorem timespec_arithmetic_exact_witness:
  "timespec_add_nsec \<lparr> tv_sec = 5, tv_nsec = 999999999 \<rparr> 2 = Some \<lparr> tv_sec = 6, tv_nsec = 1 \<rparr> \<and>
   timespec_sub \<lparr> tv_sec = 5, tv_nsec = 999999999 \<rparr> \<lparr> tv_sec = 7, tv_nsec = 3 \<rparr> =
     Some \<lparr> tv_sec = -2, tv_nsec = 999999996 \<rparr>"
proof -
  let ?a = "\<lparr> tv_sec = 5, tv_nsec = 999999999 \<rparr>" and ?b = "\<lparr> tv_sec = 7, tv_nsec = 3 \<rparr>"
  have "normal ?a" "normal ?b" "moderate ?a" "moderate ?b" by (simp_all add: normal_def moderate_def)
  from timespec_arithmetic_exact [OF this, of 2] show ?thesis
    by (simp add: instant_def stamp_def)
qed

text \<open>
  A time stamp survives the protocol. A normal, non-negative time stamp whose seconds fit 64 signed
  bits is encoded into three 32-bit words without failing an assertion, and decoding the words gives
  the same time stamp; every other time stamp aborts the encoder.
\<close>
theorem timespec_proto_roundtrip:
  assumes "tv_sec a < 2 ^ 63"
  shows "case timespec_to_proto a of
           Some (hi, lo, ns) \<Rightarrow> normal a \<and> tv_sec a \<ge> 0 \<and> timespec_from_proto hi lo ns = a
         | None \<Rightarrow> tv_sec a < 0 \<or> \<not> normal a"
proof (cases "tv_sec a \<ge> 0 \<and> normal a")
  case True
  then have s: "sint (of_int (tv_sec a) :: u64) = tv_sec a"
    using assms by (simp add: int_word_sint)
  have n: "uint (of_int (tv_nsec a) :: u32) = tv_nsec a"
    using True by (simp add: normal_def uint_word_of_int)
  show ?thesis
    using True s n
    by (simp add: timespec_to_proto_def timespec_from_proto_def u64_halves normal_def NSEC_PER_SEC_def Let_def)
next
  case False
  then show ?thesis
    by (auto simp: timespec_to_proto_def normal_def NSEC_PER_SEC_def)
qed

theorem timespec_proto_roundtrip_witness:
  "timespec_from_proto 2 1 7 = \<lparr> tv_sec = 2 * 2 ^ 32 + 1, tv_nsec = 7 \<rparr>"
proof -
  have "timespec_to_proto \<lparr> tv_sec = 2 * 2 ^ 32 + 1, tv_nsec = 7 \<rparr> = Some (2, 1, 7)" by code_simp
  with timespec_proto_roundtrip [of "\<lparr> tv_sec = 2 * 2 ^ 32 + 1, tv_nsec = 7 \<rparr>"] show ?thesis by simp
qed

end
