(* ===== verification/Spec2Isabelle.thy ===== *)
theory Spec2Isabelle
  imports Daemon_Spec Producer Consumer Anland_Spec Native_Session Kiosk_Run Hash_Spec Config_Parser Option_Parser
    Id_Allocator Drm_Formats Timespec
begin

text \<open>
  \<^bold>\<open>ACGlass: the display path between an Android screen and a Linux compositor.\<close>

  The program has four processes' worth of code.  The Android app (\<open>src/android_consumer\<close>, native side
  \<open>native_consumer.c\<close>) owns the screen: it collects the buffers of its native window and is the display
  \<^emph>\<open>consumer\<close>.  Weston with the backend \<open>anland\<close> (\<open>src/weston/libweston/backend-anland/anland.c\<close>) and its kiosk shell draws
  and is the display \<^emph>\<open>producer\<close>.  A daemon (\<open>src/daemon/daemon.c\<close>) introduces the two: the consumer
  deposits the descriptors of a session (a data socket, two event counters, a shared word), the daemon hands
  them to the producer.  Two client libraries (\<open>src/libdisplay_consumer\<close>, \<open>src/libdisplay_producer\<close>)
  speak the protocol of \<open>src/common/protocol.h\<close> over the helpers of \<open>src/common/socket_utils.c\<close>.  When a
  peer goes away both libraries fall back and reconnect through the daemon.

  \<^bold>\<open>Theories and what they model\<close>
  \<^item> \<open>Prelude\<close>: words and bytes, the collections of simplification rules, the contract of a fixed-width
    encoding (locale \<open>fixed_codec\<close>).
  \<^item> \<open>Kernel\<close>: POSIX as one process sees it, an explicit state \<open>os\<close> -- descriptor table, what sockets
    deliver and have sent, poll answers, failing calls, shared words, reports of a sanitizer.
  \<^item> \<open>Protocol\<close> (\<open>protocol.h\<close>): the messages and their packed encodings.  \<open>Socket_Utils\<close>
    (\<open>socket_utils.c\<close>): the five helpers; what is sent arrives however the stream is cut (locale \<open>framed\<close>).
  \<^item> \<open>Ownership\<close>: who has to close which descriptor; \<open>ostep\<close> composes into the safety theorems, the locale
    \<open>fallback_client\<close> is the contract of both libraries' \<open>enter_fallback\<close>.
  \<^item> \<open>Daemon\<close>, \<open>Daemon_Spec\<close> (\<open>daemon.c\<close>): every handler on the record of the daemon's globals; the
    abstract rendezvous that it refines; safety of any run; the leaks and the use after free.
  \<^item> \<open>Producer\<close> (\<open>display_producer.c\<close>) and \<open>Consumer\<close> (\<open>display_consumer.c\<close>): every function on
    \<open>struct display_ctx\<close>; connecting, fallback, buffers, events, and that any sequence of calls keeps the
    invariant and loses no descriptor.
  \<^item> \<open>Weston_Env\<close>, \<open>Anland\<close>, \<open>Anland_Spec\<close> (\<open>anland.c\<close>): the backend over an explicit event loop and
    the part of the compositor it uses; safety of any run, damage tracking, input.
  \<^item> \<open>Native_Consumer\<close>, \<open>Native_Session\<close> (\<open>native_consumer.c\<close>): collecting buffers, the render thread
    and the JNI functions; sessions release what they acquired.
  \<^item> \<open>Kiosk\<close>, \<open>Kiosk_Spec\<close>, \<open>Kiosk_Run\<close> (\<open>weston/kiosk-shell/kiosk-shell.c\<close>): the shell's windows, their
    trees, layers, focus and outputs, every handler on the record \<open>kiosk_shell\<close>; the window events for the
    app and its restore command.  \<open>Kiosk_Spec\<close> has what single operations do (raising, restoring, choosing an
    output), \<open>Kiosk_Run\<close> the invariant \<open>kinv\<close> of all runs (\<open>kiosk_reach\<close>): a step that changes no parents is
    \<open>quiet\<close>, which composes, and the few that do are shown one by one.
  \<^item> \<open>Hash\<close>, \<open>Hash_Spec\<close> (\<open>weston/shared/hash.c\<close>): open addressing with double hashing; it implements
    the map interface \<open>id_table\<close>.
  \<^item> \<open>C_Strings\<close>, \<open>Config_Parser\<close>, \<open>Option_Parser\<close> (\<open>weston/shared/config-parser.c\<close>,
    \<open>option-parser.c\<close>): the configuration file and the command line.
  \<^item> \<open>Id_Allocator\<close> (\<open>weston/libweston/id-number-allocator.c\<close>, the reference counting of color profiles in
    \<open>color.c\<close>): a bitmap of 32-bit buckets stands for the set \<open>taken\<close>; taking an id gives the smallest free
    one; it provides the interface \<open>id_source\<close>, on which the uniqueness of profile ids rests.
  \<^item> \<open>Drm_Formats\<close> (\<open>weston/libweston/drm-formats.c\<close>): the set operations of the buffer negotiation against
    sets of format/modifier pairs, with running out of memory as an input.
  \<^item> \<open>Timespec\<close> (\<open>weston/shared/timespec-util.h\<close>): time stamp arithmetic against exact arithmetic on
    instants, rounding, and the protocol encoding.
  \<^item> this theory: what crosses the components -- input from the app to the seat, window events from the
    compositor to the app, the restore command from the app to the shell's window.

  \<^bold>\<open>Conventions\<close>  A C \<open>struct\<close> is a record, a field that two structs share carries a prefix; machine
  integers are words; an address in the kernel is the number of an object.  A function that may wait for its
  peer is into \<open>option\<close>, and \<open>None\<close> is a call that never returns.  What the outside answers (poll
  results, failing calls, allocation, the native window, \<open>/proc\<close>) is a list or a function in the state, and
  the theorems hold for all of them.  Undefined behaviour is recorded in \<open>reports\<close> and execution goes on:
  safety is that nothing is reported.

  \<^bold>\<open>Bounds and fuel\<close>  Loops over a stream recurse on what is left of it and are total.  The two probe
  loops of the hash table have the table size as fuel, which is the length of a full probe cycle; the nesting
  of insertion and rebuilding has depth 3, which is shown to be enough for any answer of \<open>calloc\<close>.  The
  table's theorems cover tables of fewer than \<open>2 ^ 21\<close> entries, the rows of the size table that were checked to be prime
  by trial division inside the logic.  \<open>long\<close> has 64 bits and the locale is that of C.  Ids are unique while fewer
  than \<open>2 ^ 32 - 2\<close> profiles exist; two more, and the allocator hands out id 0.  Time stamps are bounded by
  \<open>2 ^ 61\<close> seconds so that no difference overflows.

  In the kiosk shell the loops that follow \<open>parent\<close> pointers are not bounded in the code, and a client can make
  them run forever; they are \<open>partial_function\<close>s, the theorems on runs speak of the handlers that return, and
  those on minimizing and restoring prove that these handlers do.

  \<^bold>\<open>Parameters\<close>  Regions (pixman) are the operations \<open>region_ops\<close>, floating-point subtraction is
  \<open>fsub\<close>, \<open>strtod\<close> is an argument; what a theorem relies on is among its hypotheses, with a witness.

  \<^bold>\<open>Not modelled\<close>  Log output; preemption inside one call (handlers and JNI functions run one after the
  other, so the data races of the app's unlocked accesses are noted as findings and not theorems); the freeing of memory by
  the destroy functions of the shared code; the Java side of the app; of the kiosk shell the background
  curtains, labels, positions of views, interactive moves and the shell's own destruction; the rest of weston --
  compositor core but for the three parts above, renderers, other backends, desktop and other shells, clients -- which is upstream code that the
  display path uses only through the calls recorded in \<open>Weston_Env\<close> and in the log of the shell; build scripts and
  generated protocol code.
\<close>

subsection \<open>From the app's touch screen to the compositor's seat\<close>

text \<open>The JNI calls that send input and take no state: what the app calls and the event it stands for.\<close>

datatype jni_input = Touch i32 u32 u32 i32 | Touch_frame | Key i32 i32 | Mouse_button u32 bool | Mouse_scroll u32 u32

fun jni_call :: "jni_input \<Rightarrow> app \<Rightarrow> dev \<Rightarrow> (app \<times> dev) option" where
  "jni_call (Touch action x y pointer_id) = nativeSendTouch action x y pointer_id"
| "jni_call Touch_frame = nativeSendTouchFrame"
| "jni_call (Key action keycode) = nativeSendKey action keycode"
| "jni_call (Mouse_button button pressed) = nativeSendMouseButton button pressed"
| "jni_call (Mouse_scroll axis v) = nativeSendMouseScroll axis v"

fun jni_calls :: "jni_input list \<Rightarrow> app \<Rightarrow> dev \<Rightarrow> (app \<times> dev) option" where
  "jni_calls [] s d = Some (s, d)"
| "jni_calls (c # cs) s d = do { (s, d) \<leftarrow> jni_call c s d; jni_calls cs s d }"

fun jni_event :: "jni_input \<Rightarrow> InputEvent" where
  "jni_event (Touch action x y pointer_id) = \<lparr>ie_type = INPUT_TYPE_TOUCH, ie_0 = action, ie_1 = x, ie_2 = y, ie_3 = pointer_id\<rparr>"
| "jni_event Touch_frame = \<lparr>ie_type = INPUT_TYPE_TOUCH_FRAME, ie_0 = 0, ie_1 = 0, ie_2 = 0, ie_3 = 0\<rparr>"
| "jni_event (Key action keycode) = \<lparr>ie_type = INPUT_TYPE_KEY, ie_0 = action, ie_1 = keycode, ie_2 = 0, ie_3 = 0\<rparr>"
| "jni_event (Mouse_button button pressed) =
     \<lparr>ie_type = INPUT_TYPE_POINTER_BUTTON, ie_0 = button, ie_1 = (if pressed then 1 else 0), ie_2 = 0, ie_3 = 0\<rparr>"
| "jni_event (Mouse_scroll axis v) = \<lparr>ie_type = INPUT_TYPE_POINTER_AXIS, ie_0 = axis, ie_1 = v, ie_2 = 0, ie_3 = 0\<rparr>"

lemma jni_call_sends: "jni_call c s d = send_input (jni_event c) s d"
  by (cases c) (simp_all add: nativeSendTouch_def nativeSendTouchFrame_def nativeSendKey_def nativeSendMouseButton_def nativeSendMouseScroll_def)

text \<open>The app is connected, its data socket shows \<open>ob\<close> and takes what is written to it.\<close>

definition app_online :: "app \<Rightarrow> dev \<Rightarrow> obj \<Rightarrow> bool" where
  "app_online s d ob \<longleftrightarrow> (\<exists>c. n_ctx s = Some c \<and> \<not> c_fallback c \<and> fd_obj (dsys d) (c_data_fd c) = Some ob) \<and> txplan (dsys d) = []"

lemma send_input_online:
  assumes "app_online s d ob"
  shows "\<exists>s'. send_input e s d = Some (s', d\<lparr>dsys := push_tx ob (event_bytes (Input e), []) (dsys d)\<rparr>) \<and>
    app_online s' (d\<lparr>dsys := push_tx ob (event_bytes (Input e), []) (dsys d)\<rparr>) ob"
proof -
  obtain c where c: "n_ctx s = Some c" "\<not> c_fallback c" "fd_obj (dsys d) (c_data_fd c) = Some ob" "txplan (dsys d) = []"
    using assms by (auto simp: app_online_def)
  have b: "enc_hdr (mk_hdr DATA_MSG_INPUT_EVENT 20) @ enc_input e = event_bytes (Input e)" by (simp add: event_bytes_def input_frame.frame_def)
  have "event_bytes (Input e) \<noteq> []" by (simp add: b [symmetric])
  then have "push_input_event c e (dsys d) = Some (0, c, push_tx ob (event_bytes (Input e), []) (dsys d))"
    using c send_all_now [OF c(3,4)] by (simp add: push_input_event_def push_message_def b)
  then have "send_input e s d = Some (lib_returned c c s, d\<lparr>dsys := push_tx ob (event_bytes (Input e), []) (dsys d)\<rparr>)"
    using c(1) by (simp add: send_input_def)
  then show ?thesis using c by (auto simp: app_online_def lib_returned_def push_tx_def)
qed

lemma jni_calls_online:
  assumes "app_online s d ob"
  shows "\<exists>s' d'. jni_calls cs s d = Some (s', d') \<and> app_online s' d' ob \<and>
    txq (dsys d') ob = txq (dsys d) ob @ map (\<lambda>c. (event_bytes (Input (jni_event c)), [])) cs"
  using assms
proof (induction cs arbitrary: s d)
  case (Cons c cs)
  let ?d = "d\<lparr>dsys := push_tx ob (event_bytes (Input (jni_event c)), []) (dsys d)\<rparr>"
  obtain s1 where s1: "jni_call c s d = Some (s1, ?d)" "app_online s1 ?d ob"
    using send_input_online [OF Cons.prems, of "jni_event c"] by (auto simp: jni_call_sends)
  have "txq (dsys ?d) ob = txq (dsys d) ob @ [(event_bytes (Input (jni_event c)), [])]" by (simp add: push_tx_def)
  then show ?case using Cons.IH [OF s1(2)] s1(1) by auto
qed simp

text \<open>
  C8. Input travels from the app to the seat in order and complete: while the app is connected, the JNI
  calls for touches, keys, buttons and scrolling succeed, and when the compositor's data socket delivers what they have
  sent, one call of the backend's input handler makes exactly the calls on the seat that these events
  stand for, in the order in which the app made its calls.
\<close>

theorem input_reaches_seat:
  assumes "app_online a d sob" and "txq (dsys d) sob = []"
    and "display b = Some c" and "\<not> fallback c" and "\<not> in_fallback b" and "fd_obj (sys s) (data_fd c) = Some ob"
    and "polls (sys s) = replicate (length cs) (Poll_ready [r]) @ Poll_timeout # ps" and "\<not> POLLHUP r" and "\<not> POLLERR r"
  shows "\<exists>a' d'. jni_calls cs a d = Some (a', d') \<and> app_online a' d' sob \<and>
    (rxq (sys s) ob = map (\<lambda>(bs, obs). Chunk bs obs) (txq (dsys d') sob) \<longrightarrow>
     (\<exists>s'. anland_input_fd_handler b s = Some (b, emit_calls (concat (map (\<lambda>c. event_calls b (output_found s) (Input (jni_event c))) cs)) s') \<and>
        rxq (sys s') ob = []))"
proof -
  obtain a' d' where j: "jni_calls cs a d = Some (a', d')" "app_online a' d' sob"
    "txq (dsys d') sob = map (\<lambda>c. (event_bytes (Input (jni_event c)), [])) cs" using jni_calls_online [OF assms(1), of cs] assms(2) by auto
  let ?evs = "map (\<lambda>c. Input (jni_event c)) cs"
  have "\<exists>s'. anland_input_fd_handler b s = Some (b, emit_calls (concat (map (\<lambda>c. event_calls b (output_found s) (Input (jni_event c))) cs)) s') \<and> rxq (sys s') ob = []"
    if q: "rxq (sys s) ob = map (\<lambda>(bs, obs). Chunk bs obs) (txq (dsys d') sob)"
  proof -
    have q': "rxq (sys s) ob = map (\<lambda>ev. Chunk (event_bytes ev) []) ?evs @ []" using q j(3) by simp
    have p: "polls (sys s) = replicate (length ?evs) (Poll_ready [r]) @ Poll_timeout # ps" using assms(7) by simp
    have n: "No_event \<notin> set ?evs" by auto
    from input_loop_drains [OF assms(3,4,6) q' n p assms(8,9)] assms(5)
    have "anland_input_fd_handler b s = Some (b, emit_calls (concat (map (event_calls b (output_found s)) ?evs)) (s\<lparr>sys := set_rx ob [] ((sys s)\<lparr>polls := ps\<rparr>)\<rparr>))"
      by (simp add: anland_input_fd_handler_def)
    moreover have "rxq (sys (s\<lparr>sys := set_rx ob [] ((sys s)\<lparr>polls := ps\<rparr>)\<rparr>)) ob = []" by (simp add: set_rx_def)
    moreover have "map (event_calls b (output_found s)) ?evs = map (\<lambda>c. event_calls b (output_found s) (Input (jni_event c))) cs" by simp
    ultimately show ?thesis by metis
  qed
  then show ?thesis using j by blast
qed

definition demo_app :: app where
  "demo_app = g_state\<lparr>n_ctx := Some demo_cctx\<rparr>"

definition demo_app_dev :: "os \<Rightarrow> dev" where
  "demo_app_dev w = demo_dev\<lparr>dsys := w\<rparr>"

theorem input_reaches_seat_witness:
  "\<exists>a' d' s'. jni_calls [Mouse_button 0x110 True, Key 0 30] demo_app (demo_app_dev (demo_cworld [])) = Some (a', d') \<and>
     anland_input_fd_handler demo_backend
       (demo_wes ((demo_world (map (\<lambda>(bs, obs). Chunk bs obs) (txq (dsys d') 13)))\<lparr>polls := [Poll_ready [pollin_event], Poll_ready [pollin_event], Poll_timeout]\<rparr>)) =
       Some (demo_backend, emit_calls [Notify_button 0x110 True, Notify_pointer_frame, Notify_key 30 True] s')"
proof -
  let ?cs = "[Mouse_button 0x110 True, Key 0 30]" and ?d = "demo_app_dev (demo_cworld [])"
  let ?q = "map (\<lambda>(bs, obs). Chunk bs obs) (map (\<lambda>c. (event_bytes (Input (jni_event c)), [] :: obj list)) ?cs)"
  let ?s = "demo_wes ((demo_world ?q)\<lparr>polls := [Poll_ready [pollin_event], Poll_ready [pollin_event], Poll_timeout]\<rparr>)"
  have on: "app_online demo_app ?d 13" by (simp add: app_online_def demo_app_def demo_app_dev_def)
  have t: "txq (dsys ?d) 13 = []" by (simp add: demo_app_dev_def demo_cworld_def os_init_def)
  have b: "display demo_backend = Some (demo_ctx\<lparr>buf_count := 2\<rparr>)" "\<not> in_fallback demo_backend" by (simp_all add: demo_backend_def anland_backend_init_def)
  have s: "fd_obj (sys ?s) (data_fd (demo_ctx\<lparr>buf_count := 2\<rparr>)) = Some 13" "rxq (sys ?s) 13 = ?q"
    "polls (sys ?s) = replicate (length ?cs) (Poll_ready [pollin_event]) @ Poll_timeout # []" by (simp_all add: demo_wes_def)
  have r: "\<not> POLLHUP pollin_event" "\<not> POLLERR pollin_event" by (simp_all add: pollin_event_def no_events_def)
  have c: "concat (map (\<lambda>c. event_calls demo_backend (output_found ?s) (Input (jni_event c))) ?cs) = [Notify_button 0x110 True, Notify_pointer_frame, Notify_key 30 True]"
    by (simp add: input_views)
  obtain a' d' where j: "jni_calls ?cs demo_app ?d = Some (a', d')"
    "rxq (sys ?s) 13 = map (\<lambda>(bs, obs). Chunk bs obs) (txq (dsys d') 13) \<longrightarrow>
     (\<exists>s'. anland_input_fd_handler demo_backend ?s = Some (demo_backend, emit_calls (concat (map (\<lambda>c. event_calls demo_backend (output_found ?s) (Input (jni_event c))) ?cs)) s') \<and>
        rxq (sys s') 13 = [])"
    using input_reaches_seat [OF on t b(1) _ b(2) s(1,3) r] by auto
  have tx: "txq (dsys d') 13 = map (\<lambda>c. (event_bytes (Input (jni_event c)), [])) ?cs" using jni_calls_online [OF on, of ?cs] t j(1) by auto
  have "rxq (sys ?s) 13 = map (\<lambda>(bs, obs). Chunk bs obs) (txq (dsys d') 13)" unfolding tx by (rule s(2))
  with j(2) obtain s' where "anland_input_fd_handler demo_backend ?s =
      Some (demo_backend, emit_calls [Notify_button 0x110 True, Notify_pointer_frame, Notify_key 30 True] s')" unfolding c by blast
  then show ?thesis using j(1) unfolding tx [symmetric] by blast
qed

subsection \<open>From a window of the compositor to the app\<close>

lemma poll_window_event_message:
  assumes nf: "\<not> c_fallback c" and f: "fd_obj w (c_data_fd c) = Some ob" and p: "polls w = Poll_ready [r] # ps" "\<not> POLLHUP r" "\<not> POLLERR r"
    and q: "rx_ok (rxq w ob)" "rxq w ob = Chunk data obs # q0" "8 \<le> length data"
    and d: "wf_window_event e" "rx_data (rxq w ob) = window_frame.frame e @ rest"
  shows "\<exists>q. poll_window_event c w = Some (1, Some e, c, set_rx ob q (w\<lparr>polls := ps\<rparr>)) \<and> rx_data q = rest"
proof -
  let ?w = "w\<lparr>polls := ps\<rparr>"
  have pos: "\<not> c_data_fd c < 0" using fd_obj_SomeD [OF f] by simp
  have sp: "sys_poll [c_data_fd c] w = Some (Poll_ready [r\<lparr>POLLNVAL := False\<rparr>], ?w)"
    using f pos p by (simp add: sys_poll_def poll_entry_def)
  have pk: "sys_peek (c_data_fd c) 8 ?w = Some (Ret (length (take 8 data)), take 8 data, ?w)" using f q by (simp add: sys_peek_def)
  have "dec_hdr (take 8 data) = dec_hdr (rx_data (rxq w ob))" using q by (simp add: dec_hdr_take_more dec_hdr_append)
  then have h: "dec_hdr (take 8 data) = mk_hdr DATA_MSG_WINDOW_EVENT 268" using window_frame.frame_hdr d(2) by simp
  obtain q where ra: "recv_all (c_data_fd c) (8 + 268) ?w = Some (0, window_frame.frame e, set_rx ob q ?w)" "rx_data q = rest"
    using window_frame.recv_frame [OF d(1), of ?w "c_data_fd c" ob rest] f q(1) d(2) by auto
  have "dec_window_event (drop 8 (window_frame.frame e)) = e" using window_frame.frame_payload [OF d(1), of "[]"] by simp
  then show ?thesis using nf sp pk h ra p(2,3) q(3) by (intro exI [of _ q]) (simp add: poll_window_event_def)
qed

lemma wf_window_event_sent: "wf_window_event (window_event ty wid pid app_id title)"
  by (simp add: wf_window_event_def window_event_def strncpy_field_def split: option.split)

lemma send_window_event_online:
  assumes "anland_backend_from_compositor bs = Some i" and "bs ! i = Anland_backend b" and "display b = Some pc" and "\<not> fallback pc"
    and "fd_obj (sys s) (data_fd pc) = Some pob" and "txplan (sys s) = []"
  shows "anland_send_window_event ty wid pid app_id title bs s =
    Some (bs[i := Anland_backend (b\<lparr>display := Some pc\<rparr>)], s\<lparr>sys := push_tx pob (window_frame.frame (window_event ty wid pid app_id title), []) (sys s)\<rparr>)"
proof -
  let ?e = "window_event ty wid pid app_id title"
  have m: "enc_hdr (mk_hdr DATA_MSG_WINDOW_EVENT 268) @ enc_window_event ?e = window_frame.frame ?e" by (simp add: window_frame.frame_def)
  have "window_frame.frame ?e \<noteq> []" by (simp add: m [symmetric])
  then have "push_window_event pc ?e (sys s) = Some (1, pc, push_tx pob (window_frame.frame ?e, []) (sys s))"
    using assms(4) send_all_now [OF assms(5,6)] by (simp add: push_window_event_def m)
  then show ?thesis using assms(1-3) by (simp add: anland_send_window_event_def returned_def)
qed



subsection \<open>From the app's window list to the window\<close>

lemma send_window_command_online:
  assumes "app_online a d ob"
  shows "\<exists>a'. nativeSendWindowCommand ty wid a d =
    Some (True, a', d\<lparr>dsys := push_tx ob (event_bytes (Command \<lparr>wc_type = ty, wc_window_id = wid\<rparr>), []) (dsys d)\<rparr>)"
proof -
  let ?c = "\<lparr>wc_type = ty, wc_window_id = wid\<rparr> :: WindowCommand"
  obtain c where c: "n_ctx a = Some c" "\<not> c_fallback c" "fd_obj (dsys d) (c_data_fd c) = Some ob" "txplan (dsys d) = []"
    using assms by (auto simp: app_online_def)
  have b: "enc_hdr (mk_hdr DATA_MSG_WINDOW_COMMAND 8) @ enc_window_command ?c = event_bytes (Command ?c)" by (simp add: event_bytes_def command_frame.frame_def)
  have "event_bytes (Command ?c) \<noteq> []" by (simp add: b [symmetric])
  then have "push_window_command c ?c (dsys d) = Some (1, c, push_tx ob (event_bytes (Command ?c), []) (dsys d))"
    using c send_all_now [OF c(3,4)] by (simp add: push_window_command_def push_message_def b)
  then show ?thesis using c(1) by (simp add: nativeSendWindowCommand_def)
qed

text \<open>The handler that the kiosk shell registers with the backend, called as the log of the backend says.\<close>

fun shell_calls :: "'r wcall list \<Rightarrow> kiosk_shell \<Rightarrow> kiosk_shell option" where
  "shell_calls [] k = Some k"
| "shell_calls (c # cs) k = do {
     k \<leftarrow> (case c of Window_command_call h type wid \<Rightarrow> acglass_window_command_handler type wid k | _ \<Rightarrow> Some k);
     shell_calls cs k
   }"



end
